(* ===== verification/Prelude.thy ===== *)
theory Prelude
  imports Main "HOL-Library.Word" "HOL-Library.Finite_Map" "HOL-Library.Monad_Syntax"
    "HOL-Library.Code_Target_Nat"
begin

text \<open>
  Shared material of the development: the type synonyms for Go's machine types, the type of Go
  errors (sentinel errors, wrapped errors and joined errors, with \<open>errors.Is\<close>), Go's test
  for valid UTF-8, decimal printing, and the generic lemmas on lists and finite maps that the
  component theories use.  Go strings are byte sequences and become \<open>string\<close> (a list of
  8-bit characters); \<open>uint64\<close> terms, request identifiers and counters become 64-bit words;
  a Go map becomes a finite map; a runtime panic becomes the value \<open>None\<close> of an
  \<open>option\<close>.
\<close>

section \<open>Machine types\<close>

type_synonym u64 = "64 word"
type_synonym u32 = "32 word"
type_synonym byte = "8 word"

named_theorems go_simps \<open>unfolding rules for the small accessors of the model\<close>

section \<open>Errors\<close>

text \<open>
  Every sentinel error of the repository, an error made by \<open>errors.New\<close> or
  \<open>fmt.Errorf\<close> without a wrapped cause (\<open>ErrText\<close>, by its message), a wrapped error
  (\<open>fmt.Errorf\<close> with \<open>%w\<close>) and a joined error (\<open>errors.Join\<close>).  The text appended
  to a wrapped \<open>statemachine.ErrInvalid\<close> is left out: callers only test it with
  \<open>errors.Is\<close>.
\<close>

datatype gerror =
    ErrInvalid
  | ErrStale
  | ErrReused
  | ErrUnavailable
  | ErrNoQuorum
  | NotLeaderError string string
  | ErrInjectedDisk
  | ErrDatabaseUnavailable
  | ErrShortWrite
  | ErrIO
  | ErrContext
  | ErrText string
  | ErrWrap string gerror
  | ErrJoin gerror gerror

fun errors_is :: "gerror \<Rightarrow> gerror \<Rightarrow> bool" where
  "errors_is (ErrWrap m e) t = (ErrWrap m e = t \<or> errors_is e t)"
| "errors_is (ErrJoin a b) t = (ErrJoin a b = t \<or> errors_is a t \<or> errors_is b t)"
| "errors_is e t = (e = t)"

section \<open>Valid UTF-8\<close>

text \<open>
  \<open>utf8.ValidString\<close>: the byte ranges of well-formed UTF-8 (no overlong forms, no
  surrogates, nothing above U+10FFFF).
\<close>

definition utf8_cont :: "nat \<Rightarrow> bool" where
  "utf8_cont b \<longleftrightarrow> 128 \<le> b \<and> b \<le> 191"

fun utf8_valid :: "nat list \<Rightarrow> bool" where
  "utf8_valid [] = True"
| "utf8_valid (a # xs) =
     (if a < 128 then utf8_valid xs
      else if 194 \<le> a \<and> a \<le> 223 then
        (case xs of b # ys \<Rightarrow> utf8_cont b \<and> utf8_valid ys | _ \<Rightarrow> False)
      else if 224 \<le> a \<and> a \<le> 239 then
        (case xs of b # c # ys \<Rightarrow>
           (if a = 224 then 160 \<le> b \<and> b \<le> 191
            else if a = 237 then 128 \<le> b \<and> b \<le> 159 else utf8_cont b)
           \<and> utf8_cont c \<and> utf8_valid ys | _ \<Rightarrow> False)
      else if 240 \<le> a \<and> a \<le> 244 then
        (case xs of b # c # d # ys \<Rightarrow>
           (if a = 240 then 144 \<le> b \<and> b \<le> 191
            else if a = 244 then 128 \<le> b \<and> b \<le> 143 else utf8_cont b)
           \<and> utf8_cont c \<and> utf8_cont d \<and> utf8_valid ys | _ \<Rightarrow> False)
      else False)"

definition ValidString :: "string \<Rightarrow> bool" where
  "ValidString s = utf8_valid (map (of_char :: char \<Rightarrow> nat) s)"

section \<open>Decimal printing\<close>

text \<open>\<open>%d\<close> of \<open>fmt.Sprintf\<close> on a non-negative number.\<close>

definition digit_char :: "nat \<Rightarrow> char" where
  "digit_char d = char_of (48 + d)"

fun decimal :: "nat \<Rightarrow> string" where
  "decimal n = (if n < 10 then [digit_char n] else decimal (n div 10) @ [digit_char (n mod 10)])"

declare decimal.simps [simp del]

section \<open>Lists\<close>

lemma nth_take_append: "i < k \<Longrightarrow> k \<le> length xs \<Longrightarrow> (take k xs @ ys) ! i = xs ! i"
  by (simp add: nth_append)

lemma filter_eq_drop:
  assumes "k \<le> length xs" "\<forall>x \<in> set (take k xs). \<not> P x" "\<forall>x \<in> set (drop k xs). P x"
  shows "filter P xs = drop k xs"
proof -
  have "filter P xs = filter P (take k xs) @ filter P (drop k xs)"
    by (metis append_take_drop_id filter_append)
  also have "filter P (take k xs) = []" using assms(2) by (simp add: filter_empty_conv)
  also have "filter P (drop k xs) = drop k xs" using assms(3) by simp
  finally show ?thesis by simp
qed

section \<open>Finite maps\<close>

text \<open>\<open>len(m)\<close> of a Go map.\<close>

definition fmsize :: "('k, 'v) fmap \<Rightarrow> nat" where
  "fmsize m = fcard (fmdom m)"

lemma fmpred_lookupD: "fmpred P m \<Longrightarrow> fmlookup m k = Some v \<Longrightarrow> P k v"
  by (auto simp: fmpred_iff)

lemma fmsize_empty [simp]: "fmsize fmempty = 0"
  by (simp add: fmsize_def)

section \<open>Panics\<close>

text \<open>
  A handler that can panic has type \<open>'a option\<close>; these rules take the sequencing of two
  such computations apart.
\<close>

lemma bind_SomeE [elim!]:
  assumes "Option.bind m f = Some r"
  obtains x where "m = Some x" "f x = Some r"
  using assms by (cases m) auto

lemma bind_SomeI: "m = Some x \<Longrightarrow> f x = Some r \<Longrightarrow> Option.bind m f = Some r"
  by simp

end
