(* ===== verification/Events.thy ===== *)
theory Events
  imports Prelude
begin

text \<open>
  The bounded event stream of \<^verbatim>\<open>internal/events/events.go\<close>: a ring buffer that numbers the
  events it is given, drops the oldest one when it is full, and answers the question which of
  the kept events came after a given identifier.  The lemmas show that the kept events always
  are the last ones published, in order and with consecutive identifiers, and that a reader that
  polls with its last identifier gets every newer event that is kept, hence misses nothing as long as no more
  than \<open>capacity\<close> events were published in between.
\<close>

section \<open>The buffer\<close>

record Event =
  evID :: u64
  evTime :: int
  evNodeID :: string
  evType :: string
  evTerm :: u64
  evIndex :: nat
  evPeer :: string
  evMessageID :: string
  evDetail :: string

record Buffer =
  bnext :: u64
  items :: "Event list"
  capacity :: nat

definition New_Buffer :: "int \<Rightarrow> Buffer" where
  "New_Buffer cap = \<lparr>bnext = 0, items = [], capacity = (if cap < 1 then 1 else nat cap)\<rparr>"

definition Publish :: "Event \<Rightarrow> Buffer \<Rightarrow> Buffer" where
  "Publish e b =
     (let nx = bnext b + 1;
          e' = e\<lparr>evID := nx\<rparr>;
          kept = (if length (items b) = capacity b then tl (items b) else items b)
      in b\<lparr>bnext := nx, items := kept @ [e']\<rparr>)"

definition After :: "Buffer \<Rightarrow> u64 \<Rightarrow> Event list" where
  "After b i = filter (\<lambda>e. i < evID e) (items b)"

section \<open>Invariant\<close>

text \<open>
  \<open>buffer_inv n b\<close>: \<open>b\<close> is a buffer to which \<open>n\<close> events have been published.
\<close>

definition buffer_inv :: "nat \<Rightarrow> Buffer \<Rightarrow> bool" where
  "buffer_inv n b \<longleftrightarrow> 0 < capacity b \<and> bnext b = of_nat n \<and>
     length (items b) = min n (capacity b) \<and>
     map evID (items b) = map of_nat [n + 1 - min n (capacity b) ..< n + 1]"

lemma buffer_inv_New: "buffer_inv 0 (New_Buffer cap)"
  by (simp add: buffer_inv_def New_Buffer_def)

lemma Publish_items:
  "items (Publish e b) =
     (if length (items b) = capacity b then tl (items b) else items b) @ [e\<lparr>evID := bnext b + 1\<rparr>]"
  by (simp add: Publish_def Let_def)

lemma Publish_sel [simp]:
  "bnext (Publish e b) = bnext b + 1" "capacity (Publish e b) = capacity b"
  by (simp_all add: Publish_def Let_def)

lemma buffer_inv_Publish:
  assumes inv: "buffer_inv n b"
  shows "buffer_inv (Suc n) (Publish e b)"
proof -
  let ?c = "capacity b"
  have c: "0 < ?c" and nx: "bnext b = of_nat n" and len: "length (items b) = min n ?c"
    and ids: "map evID (items b) = map of_nat [n + 1 - min n ?c ..< n + 1]"
    using inv by (auto simp: buffer_inv_def)
  have "map evID (items (Publish e b)) = map of_nat [Suc n + 1 - min (Suc n) ?c ..< Suc n + 1]"
  proof (cases "length (items b) = ?c")
    case True
    then have cn: "?c \<le> n" using len by simp
    have "map evID (tl (items b)) = tl (map of_nat [n + 1 - ?c ..< n + 1])"
      using ids cn by (simp add: map_tl)
    also have "\<dots> = map of_nat [Suc n + 1 - ?c ..< n + 1]"
      using c cn by (simp add: map_tl [symmetric] tl_upt Suc_diff_le)
    finally show ?thesis
      using True cn c nx by (simp add: Publish_items)
  next
    case False
    then have "n < ?c" using len by linarith
    then show ?thesis using False ids nx by (simp add: Publish_items)
  qed
  moreover have "length (items (Publish e b)) = min (Suc n) ?c"
    using len c by (auto simp: Publish_items)
  ultimately show ?thesis
    using c nx by (simp add: buffer_inv_def)
qed

section \<open>Publishing a sequence\<close>

fun publish_all :: "Event list \<Rightarrow> Buffer \<Rightarrow> Buffer" where
  "publish_all [] b = b"
| "publish_all (e # es) b = publish_all es (Publish e b)"

text \<open>The events as the buffer numbers them, counting from \<open>n + 1\<close>.\<close>

fun numbered :: "nat \<Rightarrow> Event list \<Rightarrow> Event list" where
  "numbered n [] = []"
| "numbered n (e # es) = e\<lparr>evID := of_nat (Suc n)\<rparr> # numbered (Suc n) es"

lemma length_numbered [simp]: "length (numbered n es) = length es"
  by (induction es arbitrary: n) auto

lemma capacity_publish_all [simp]: "capacity (publish_all es b) = capacity b"
  by (induction es arbitrary: b) auto

lemma map_evID_numbered: "map evID (numbered n es) = map of_nat [n + 1 ..< n + 1 + length es]"
proof (induction es arbitrary: n)
  case (Cons e es)
  have "[n + 1 ..< n + 1 + length (e # es)] = (n + 1) # [n + 2 ..< n + 2 + length es]"
    by (simp add: upt_conv_Cons del: upt_Suc)
  then show ?case using Cons [of "Suc n"] by (simp del: upt_Suc)
qed simp

lemma buffer_inv_publish_all: "buffer_inv n b \<Longrightarrow> buffer_inv (n + length es) (publish_all es b)"
proof (induction es arbitrary: n b)
  case (Cons e es)
  from Cons.IH [OF buffer_inv_Publish [OF Cons.prems]] show ?case by simp
qed simp

text \<open>The buffer keeps the last \<open>capacity\<close> of what was in it followed by what was published.\<close>

lemma publish_all_items:
  assumes "buffer_inv n b"
  shows "items (publish_all es b) =
    drop (length (items b) + length es - capacity b) (items b @ numbered n es)"
  using assms
proof (induction es arbitrary: n b)
  case Nil
  then show ?case by (simp add: buffer_inv_def)
next
  case (Cons e es)
  let ?b = "Publish e b"
  have nx: "bnext b = of_nat n" and len: "length (items b) = min n (capacity b)"
    and c: "0 < capacity b"
    using Cons.prems by (auto simp: buffer_inv_def)
  have IH: "items (publish_all es ?b) =
      drop (length (items ?b) + length es - capacity b) (items ?b @ numbered (Suc n) es)"
    using Cons.IH [OF buffer_inv_Publish [OF Cons.prems]] by simp
  show ?case
  proof (cases "length (items b) = capacity b")
    case True
    then obtain x xs where xs: "items b = x # xs"
      using c by (cases "items b") auto
    moreover from xs True have "Suc (length xs) = capacity b" by simp
    ultimately show ?thesis using IH True nx
      by (simp add: Publish_items add.commute flip: \<open>Suc (length xs) = capacity b\<close>)
  next
    case False
    then have "length (items b) < capacity b" using len by linarith
    then show ?thesis using IH False nx by (simp add: Publish_items add.commute)
  qed
qed

section \<open>Polling loses nothing\<close>

lemma of_nat_less_u64:
  assumes "m < 2 ^ 64" "n < 2 ^ 64"
  shows "(of_nat m < (of_nat n :: u64)) = (m < n)"
  using assms by (simp add: word_less_nat_alt unat_of_nat take_bit_nat_eq_self)

lemma buffer_ids:
  assumes "buffer_inv n b" "e \<in> set (items b)"
  shows "\<exists>k \<le> n. 0 < k \<and> evID e = of_nat k"
proof -
  have "evID e \<in> set (map of_nat [n + 1 - min n (capacity b) ..< n + 1])"
    using assms by (metis buffer_inv_def image_eqI list.set_map)
  then obtain k where "k \<in> {n + 1 - min n (capacity b) ..< n + 1}" "evID e = of_nat k"
    by (auto simp del: upt_Suc)
  then show ?thesis by (intro exI [of _ k]) auto
qed

lemma numbered_ids:
  assumes "e \<in> set (numbered n es)"
  shows "\<exists>k. n < k \<and> k \<le> n + length es \<and> evID e = of_nat k"
proof -
  have "evID e \<in> set (map of_nat [n + 1 ..< n + 1 + length es])"
    using assms by (metis map_evID_numbered image_eqI list.set_map)
  then obtain k where "k \<in> {n + 1 ..< n + 1 + length es}" "evID e = of_nat k"
    by (auto simp del: upt_Suc)
  then show ?thesis by (intro exI [of _ k]) auto
qed

lemma After_publish_all:
  assumes inv: "buffer_inv n b" and small: "n + length es < 2 ^ 64"
  shows "After (publish_all es b) (of_nat n) = drop (length es - capacity b) (numbered n es)"
proof -
  let ?d = "length (items b) + length es - capacity b"
  have its: "items (publish_all es b) = drop ?d (items b) @ drop (length es - capacity b) (numbered n es)"
    using publish_all_items [OF inv, of es] by (simp add: diff_right_commute)
  have "filter (\<lambda>e. of_nat n < evID e) (drop ?d (items b)) = []"
  proof -
    have "\<not> of_nat n < evID e" if "e \<in> set (items b)" for e
    proof -
      obtain k where "k \<le> n" "evID e = of_nat k" using buffer_ids [OF inv \<open>e \<in> set (items b)\<close>] by auto
      then show ?thesis using of_nat_less_u64 [of n k] small by simp
    qed
    then show ?thesis by (auto simp: filter_empty_conv dest: in_set_dropD)
  qed
  moreover have "filter (\<lambda>e. of_nat n < evID e) (drop (length es - capacity b) (numbered n es)) = drop (length es - capacity b) (numbered n es)"
  proof -
    have "of_nat n < evID e" if "e \<in> set (numbered n es)" for e
    proof -
      obtain k where "n < k" "k \<le> n + length es" "evID e = of_nat k"
        using numbered_ids [OF \<open>e \<in> set (numbered n es)\<close>] by auto
      then show ?thesis using of_nat_less_u64 [of n k] small by simp
    qed
    then show ?thesis by (auto simp: filter_id_conv dest: in_set_dropD)
  qed
  ultimately show ?thesis by (simp add: After_def its)
qed

section \<open>Properties\<close>

text \<open>
  C35.  A reader that polls with the identifier of the last event it has seen gets exactly the newer events that the buffer still keeps, in order
  and numbered consecutively: all of the \<open>news\<close> if they fit into the buffer, and the last ones of them, as many as it holds, if some
  have been evicted already, in particular if the reader's own position has been.  Events it has seen are never returned again.  It holds for every
  capacity and every position of the reader, up to the wrap-around of the 64-bit counter.
\<close>

theorem poll_misses_nothing:
  assumes "length olds + length news < 2 ^ 64"
  shows "After (publish_all news (publish_all olds (New_Buffer cap))) (of_nat (length olds)) =
    drop (length news - nat (max 1 cap)) (numbered (length olds) news)"
proof -
  have i: "buffer_inv (length olds) (publish_all olds (New_Buffer cap))"
    using buffer_inv_publish_all [OF buffer_inv_New, of olds cap] by simp
  have "capacity (publish_all olds (New_Buffer cap)) = nat (max 1 cap)" by (simp add: New_Buffer_def)
  then show ?thesis using After_publish_all [OF i assms] by simp
qed

definition wEvent :: Event where
  "wEvent = \<lparr>evID = 0, evTime = 1, evNodeID = ''a'', evType = ''APPLIED'', evTerm = 1, evIndex = 1, evPeer = [],
     evMessageID = [], evDetail = []\<rparr>"

theorem poll_misses_nothing_witness:
  "After (publish_all [wEvent, wEvent, wEvent] (publish_all [wEvent, wEvent, wEvent] (New_Buffer 2))) 3 =
     [wEvent\<lparr>evID := 5\<rparr>, wEvent\<lparr>evID := 6\<rparr>]"
  using poll_misses_nothing [of "[wEvent, wEvent, wEvent]" "[wEvent, wEvent, wEvent]" 2] by simp

text \<open>
  C37.  The buffer is bounded and keeps the newest events: after any sequence of events it holds the last ones,
  as many as fit, in the order of publication.
\<close>

theorem buffer_keeps_newest:
  "items (publish_all es (New_Buffer cap)) = drop (length es - nat (max 1 cap)) (numbered 0 es) \<and>
   length (items (publish_all es (New_Buffer cap))) = min (length es) (nat (max 1 cap))"
proof -
  have c: "capacity (New_Buffer cap) = nat (max 1 cap)" "items (New_Buffer cap) = []"
    by (auto simp: New_Buffer_def)
  show ?thesis
    using publish_all_items [OF buffer_inv_New, of es cap] c by auto
qed

end
