(* ===== verification/Statemachine.thy ===== *)
theory Statemachine
  imports Prelude "HOL-Library.Sublist"
begin

text \<open>
  The replicated state machine of \<^verbatim>\<open>internal/statemachine/machine.go\<close>: the commands SET, DELETE
  and CAS over a map of strings, with one retry session per client that remembers the last command
  and its result.  The mutex of the Go type is not modelled: every method holds it for its whole
  body, so each method is one atomic function on the state.  The lemmas give the well-formedness
  invariant, the exactly-once behaviour of retried commands, the refinement of a plain key-value
  specification, and the exactness of snapshots.
\<close>

section \<open>Data\<close>

record Command =
  ClientID :: string
  RequestID :: u64
  Operation :: string
  Key :: string
  Value :: string
  Expected :: string

record Result =
  rValue :: string
  rFound :: bool
  rApplied :: bool
  rConflict :: bool

record session =
  sCommand :: Command
  sResult :: Result

record Machine =
  mvalues :: "(string, string) fmap"
  msessions :: "(string, session) fmap"
  mcount :: u64

record Snapshot =
  Values :: "(string, string) fmap"
  Sessions :: "(string, session) fmap"
  Count :: u64

definition zeroResult :: Result where
  "zeroResult = \<lparr>rValue = [], rFound = False, rApplied = False, rConflict = False\<rparr>"

definition New_Machine :: Machine where
  "New_Machine = \<lparr>mvalues = fmempty, msessions = fmempty, mcount = 0\<rparr>"

definition MaxValueBytes :: nat where
  "MaxValueBytes = 1048576"

section \<open>Operations\<close>

definition Validate :: "Command \<Rightarrow> gerror option" where
  "Validate c =
     (if \<not> (\<forall>s \<in> set [ClientID c, Key c, Value c, Expected c]. ValidString s) then Some ErrInvalid
      else if ClientID c = [] \<or> 128 < length (ClientID c) \<or> RequestID c = 0 then Some ErrInvalid
      else if Key c = [] \<or> 1024 < length (Key c) then Some ErrInvalid
      else if MaxValueBytes < length (Value c) \<or> MaxValueBytes < length (Expected c)
        then Some ErrInvalid
      else if Operation c = ''SET'' then (if Expected c \<noteq> [] then Some ErrInvalid else None)
      else if Operation c = ''DELETE''
        then (if Value c \<noteq> [] \<or> Expected c \<noteq> [] then Some ErrInvalid else None)
      else if Operation c = ''CAS'' then None
      else Some ErrInvalid)"

definition check :: "Machine \<Rightarrow> Command \<Rightarrow> Result \<times> bool \<times> gerror option" where
  "check m c =
     (case Validate c of
        Some err \<Rightarrow> (zeroResult, False, Some err)
      | None \<Rightarrow>
         (case fmlookup (msessions m) (ClientID c) of
            Some previous \<Rightarrow>
              (if RequestID c < RequestID (sCommand previous) then (zeroResult, False, Some ErrStale)
               else if RequestID c = RequestID (sCommand previous) then
                 (if c \<noteq> sCommand previous then (zeroResult, False, Some ErrReused)
                  else (sResult previous, True, None))
               else (zeroResult, False, None))
          | None \<Rightarrow> (zeroResult, False, None)))"

text \<open>The value written and the result returned by the three operations of \<open>Apply\<close>.\<close>

definition execute :: "(string, string) fmap \<Rightarrow> Command \<Rightarrow> (string, string) fmap \<times> Result" where
  "execute vs c =
     (let found = (fmlookup vs (Key c) \<noteq> None);
          value = (case fmlookup vs (Key c) of Some v \<Rightarrow> v | None \<Rightarrow> []);
          result = \<lparr>rValue = value, rFound = found, rApplied = False, rConflict = False\<rparr>;
          written = \<lparr>rValue = Value c, rFound = True, rApplied = True, rConflict = False\<rparr>
      in if Operation c = ''SET'' then (fmupd (Key c) (Value c) vs, written)
         else if Operation c = ''DELETE'' then (fmdrop (Key c) vs, result\<lparr>rApplied := found\<rparr>)
         else if Operation c = ''CAS'' then
           (if found \<and> value = Expected c then (fmupd (Key c) (Value c) vs, written)
            else (vs, result\<lparr>rConflict := True\<rparr>))
         else (vs, result))"

definition Apply :: "Machine \<Rightarrow> Command \<Rightarrow> (Result \<times> gerror option) \<times> Machine" where
  "Apply m c =
     (case check m c of
        (result, duplicate, err) \<Rightarrow>
          if duplicate \<or> err \<noteq> None then ((result, err), m)
          else
            (case execute (mvalues m) c of
               (vs, result') \<Rightarrow>
                 ((result', None),
                  \<lparr>mvalues = vs,
                   msessions = fmupd (ClientID c) \<lparr>sCommand = c, sResult = result'\<rparr> (msessions m),
                   mcount = mcount m + 1\<rparr>)))"

definition Get_Machine :: "Machine \<Rightarrow> string \<Rightarrow> string \<times> bool" where
  "Get_Machine m key =
     (case fmlookup (mvalues m) key of Some v \<Rightarrow> (v, True) | None \<Rightarrow> ([], False))"

definition Stats_Machine :: "Machine \<Rightarrow> nat \<times> u64" where
  "Stats_Machine m = (fmsize (mvalues m), mcount m)"

definition Snapshot_of :: "Machine \<Rightarrow> Snapshot" where
  "Snapshot_of m = \<lparr>Values = mvalues m, Sessions = msessions m, Count = mcount m\<rparr>"

text \<open>
  \<open>Restore\<close> answers the error and leaves the machine alone, or replaces its state.  The order in
  which Go ranges over the maps does not matter: every error it can return wraps \<open>ErrInvalid\<close>.
\<close>

definition snapshot_value_ok :: "string \<Rightarrow> string \<Rightarrow> bool" where
  "snapshot_value_ok k v \<longleftrightarrow> k \<noteq> [] \<and> length k \<le> 1024 \<and> ValidString k \<and> ValidString v \<and>
     length v \<le> MaxValueBytes"

definition snapshot_session_ok :: "string \<Rightarrow> session \<Rightarrow> bool" where
  "snapshot_session_ok i s \<longleftrightarrow> i = ClientID (sCommand s) \<and> Validate (sCommand s) = None"

definition Restore :: "Machine \<Rightarrow> Snapshot \<Rightarrow> gerror option \<times> Machine" where
  "Restore m s =
     (if \<not> fmpred snapshot_value_ok (Values s) then (Some ErrInvalid, m)
      else if \<not> fmpred snapshot_session_ok (Sessions s) then (Some ErrInvalid, m)
      else (None, \<lparr>mvalues = Values s, msessions = Sessions s, mcount = Count s\<rparr>))"

section \<open>Well-formed machines\<close>

definition wf_machine :: "Machine \<Rightarrow> bool" where
  "wf_machine m \<longleftrightarrow> fmpred snapshot_value_ok (mvalues m) \<and> fmpred snapshot_session_ok (msessions m)"

lemma wf_machine_New [simp]: "wf_machine New_Machine"
  by (simp add: wf_machine_def New_Machine_def)

lemma Validate_NoneD:
  assumes "Validate c = None"
  shows "ValidString (ClientID c)" "ValidString (Key c)" "ValidString (Value c)"
    "ValidString (Expected c)" "ClientID c \<noteq> []" "length (ClientID c) \<le> 128" "RequestID c \<noteq> 0"
    "Key c \<noteq> []" "length (Key c) \<le> 1024" "length (Value c) \<le> MaxValueBytes"
    "Operation c \<in> {''SET'', ''DELETE'', ''CAS''}"
  using assms by (auto simp: Validate_def split: if_splits)

lemma Validate_error: "Validate c = Some e \<Longrightarrow> e = ErrInvalid"
  by (auto simp: Validate_def split: if_splits)

lemma execute_values_ok:
  assumes "Validate c = None" "fmpred snapshot_value_ok vs"
  shows "fmpred snapshot_value_ok (fst (execute vs c))"
proof -
  have "snapshot_value_ok (Key c) (Value c)"
    using Validate_NoneD [OF assms(1)] by (simp add: snapshot_value_ok_def)
  then show ?thesis
    using assms(2) by (auto simp: execute_def Let_def)
qed

text \<open>The three ways a command can go: refused, answered from the session, executed.\<close>

lemma Apply_refused: "check m c = (r, False, Some e) \<Longrightarrow> Apply m c = ((r, Some e), m)"
  by (simp add: Apply_def)

lemma Apply_duplicate: "check m c = (r, True, None) \<Longrightarrow> Apply m c = ((r, None), m)"
  by (simp add: Apply_def)

lemma Apply_fresh:
  assumes "check m c = (r, False, None)"
  shows "Apply m c = ((snd (execute (mvalues m) c), None),
      \<lparr>mvalues = fst (execute (mvalues m) c),
       msessions = fmupd (ClientID c) \<lparr>sCommand = c, sResult = snd (execute (mvalues m) c)\<rparr> (msessions m),
       mcount = mcount m + 1\<rparr>)"
  using assms by (simp add: Apply_def split: prod.splits)

lemma check_cases:
  obtains (refused) e where "check m c = (zeroResult, False, Some e)"
    | (duplicate) s where "check m c = (sResult s, True, None)" "Validate c = None"
        "fmlookup (msessions m) (ClientID c) = Some s" "sCommand s = c"
    | (fresh) "check m c = (zeroResult, False, None)" "Validate c = None"
        "\<And>s. fmlookup (msessions m) (ClientID c) = Some s \<Longrightarrow> RequestID (sCommand s) < RequestID c"
proof (cases "Validate c")
  case None
  note v = this
  show thesis
  proof (cases "fmlookup (msessions m) (ClientID c)")
    case None
    then show thesis using v by (intro fresh) (auto simp: check_def)
  next
    case (Some s)
    consider "RequestID c < RequestID (sCommand s)" | "c = sCommand s"
      | "RequestID c = RequestID (sCommand s)" "c \<noteq> sCommand s"
      | "RequestID (sCommand s) < RequestID c"
      by (metis linorder_neqE)
    then show thesis
    proof cases
      case 1
      then show thesis using v Some by (intro refused) (simp add: check_def)
    next
      case 2
      then show thesis using v Some by (intro duplicate [of s]) (simp_all add: check_def)
    next
      case 3
      then show thesis using v Some by (intro refused) (simp add: check_def)
    next
      case 4
      then show thesis using v Some by (intro fresh) (auto simp: check_def)
    qed
  qed
next
  case (Some e)
  then show thesis by (intro refused) (simp add: check_def)
qed

lemma Apply_wf:
  assumes "wf_machine m"
  shows "wf_machine (snd (Apply m c))"
proof (cases m c rule: check_cases)
  case (refused e)
  then show ?thesis using assms by (simp add: Apply_refused)
next
  case (duplicate s)
  then show ?thesis using assms by (simp add: Apply_duplicate)
next
  case fresh
  have "snapshot_session_ok (ClientID c) \<lparr>sCommand = c, sResult = snd (execute (mvalues m) c)\<rparr>"
    using fresh by (simp add: snapshot_session_ok_def)
  moreover have "fmpred snapshot_value_ok (fst (execute (mvalues m) c))"
    using execute_values_ok fresh(2) assms by (simp add: wf_machine_def)
  ultimately show ?thesis
    using assms fresh by (auto simp: wf_machine_def Apply_fresh)
qed

section \<open>Running a log\<close>

text \<open>
  A deterministic machine that is driven by a log of commands and can be saved and restored: what
  the Raft log relies on when it replays a suffix over a snapshot.
\<close>

locale snapshot_machine =
  fixes step :: "'s \<Rightarrow> 'c \<Rightarrow> 's"
    and save :: "'s \<Rightarrow> 'x"
    and load :: "'s \<Rightarrow> 'x \<Rightarrow> 'e option \<times> 's"
    and inv :: "'s \<Rightarrow> bool"
  assumes step_inv: "inv s \<Longrightarrow> inv (step s c)"
    and load_save: "inv s \<Longrightarrow> load s' (save s) = (None, s)"
begin

definition run :: "'s \<Rightarrow> 'c list \<Rightarrow> 's" where
  "run s cs = foldl step s cs"

lemma run_append: "run s (cs @ ds) = run (run s cs) ds"
  by (simp add: run_def)

lemma run_inv: "inv s \<Longrightarrow> inv (run s cs)"
  by (induction cs arbitrary: s) (auto simp: run_def step_inv)

lemma resume:
  assumes "inv s"
  shows "fst (load s' (save (run s cs))) = None"
    and "run (snd (load s' (save (run s cs)))) ds = run s (cs @ ds)"
  using load_save [OF run_inv [OF assms]] by (simp_all add: run_append)

end

text \<open>The log as the machine sees it: \<open>apply_all\<close> is the machine after a list of commands.\<close>

definition apply_all :: "Machine \<Rightarrow> Command list \<Rightarrow> Machine" where
  "apply_all m cs = foldl (\<lambda>m c. snd (Apply m c)) m cs"

lemma apply_all_simps [simp]:
  "apply_all m [] = m"
  "apply_all m (c # cs) = apply_all (snd (Apply m c)) cs"
  "apply_all m (cs @ ds) = apply_all (apply_all m cs) ds"
  by (simp_all add: apply_all_def)

lemma Restore_Snapshot: "wf_machine m \<Longrightarrow> Restore m' (Snapshot_of m) = (None, m)"
  by (simp add: Restore_def Snapshot_of_def wf_machine_def)

interpretation kv: snapshot_machine "\<lambda>m c. snd (Apply m c)" Snapshot_of Restore wf_machine
  rewrites "snapshot_machine.run (\<lambda>m c. snd (Apply m c)) = apply_all"
proof -
  show sm: "snapshot_machine (\<lambda>m c. snd (Apply m c)) Snapshot_of Restore wf_machine"
    by unfold_locales (auto simp: Apply_wf Restore_Snapshot)
  show "snapshot_machine.run (\<lambda>m c. snd (Apply m c)) = apply_all"
    by (rule ext)+ (simp add: snapshot_machine.run_def [OF sm] apply_all_def)
qed

lemmas apply_all_wf = kv.run_inv

lemma Restore_wf: "Restore m s = (None, m') \<Longrightarrow> wf_machine m'"
  by (auto simp: Restore_def wf_machine_def split: if_splits)

section \<open>Exactly once\<close>

text \<open>The commands of a log that the machine executes, as opposed to refusing or answering from
  a session.\<close>

definition is_fresh :: "Machine \<Rightarrow> Command \<Rightarrow> bool" where
  "is_fresh m c \<longleftrightarrow> (case check m c of (_, duplicate, err) \<Rightarrow> \<not> duplicate \<and> err = None)"

fun executed :: "Machine \<Rightarrow> Command list \<Rightarrow> Command list" where
  "executed m [] = []"
| "executed m (c # cs) =
     (if is_fresh m c then c # executed (snd (Apply m c)) cs else executed (snd (Apply m c)) cs)"

abbreviation run_values :: "(string, string) fmap \<Rightarrow> Command list \<Rightarrow> (string, string) fmap" where
  "run_values \<equiv> foldl (\<lambda>vs c. fst (execute vs c))"

lemma is_fresh_Apply:
  "mvalues (snd (Apply m c)) = (if is_fresh m c then fst (execute (mvalues m) c) else mvalues m)"
  by (cases m c rule: check_cases) (auto simp: is_fresh_def Apply_refused Apply_duplicate Apply_fresh)

lemma apply_all_values: "mvalues (apply_all m cs) = run_values (mvalues m) (executed m cs)"
  by (induction cs arbitrary: m) (auto simp: is_fresh_Apply)

text \<open>The last request identifier of a client; sessions only move forward.\<close>

definition last_request :: "Machine \<Rightarrow> string \<Rightarrow> nat" where
  "last_request m i =
     (case fmlookup (msessions m) i of None \<Rightarrow> 0 | Some s \<Rightarrow> unat (RequestID (sCommand s)))"

lemma last_request_fresh:
  assumes "is_fresh m c"
  shows "last_request m (ClientID c) < unat (RequestID c)"
    and "last_request (snd (Apply m c)) (ClientID c) = unat (RequestID c)"
  using assms
  by (cases m c rule: check_cases;
      auto simp: is_fresh_def last_request_def Apply_fresh word_less_nat_alt unat_gt_0
        dest: Validate_NoneD(7) split: option.splits)+

lemma last_request_Apply: "last_request m i \<le> last_request (snd (Apply m c)) i"
  by (cases m c rule: check_cases)
    (auto simp: last_request_def Apply_refused Apply_duplicate Apply_fresh word_less_nat_alt
       split: option.splits)

lemma last_request_executed:
  "c \<in> set (executed m cs) \<Longrightarrow> last_request m (ClientID c) < unat (RequestID c)"
proof (induction cs arbitrary: m)
  case (Cons d cs)
  then consider "is_fresh m d" "c = d" | "c \<in> set (executed (snd (Apply m d)) cs)"
    by (auto split: if_splits)
  then show ?case
  proof cases
    case 1
    then show ?thesis using last_request_fresh(1) by simp
  next
    case 2
    then show ?thesis
      using Cons.IH le_less_trans [OF last_request_Apply] by blast
  qed
qed simp

lemma executed_distinct: "distinct (map (\<lambda>c. (ClientID c, RequestID c)) (executed m cs))"
proof (induction cs arbitrary: m)
  case (Cons d cs)
  have "(ClientID d, RequestID d) \<notin> (\<lambda>c. (ClientID c, RequestID c)) ` set (executed (snd (Apply m d)) cs)"
    if "is_fresh m d"
  proof
    assume "(ClientID d, RequestID d) \<in> (\<lambda>c. (ClientID c, RequestID c)) ` set (executed (snd (Apply m d)) cs)"
    then obtain c where c: "c \<in> set (executed (snd (Apply m d)) cs)"
      and eq: "ClientID c = ClientID d" "RequestID c = RequestID d" by auto
    show False
      using last_request_executed [OF c] last_request_fresh(2) [OF that] eq by simp
  qed
  then show ?case using Cons.IH by simp
qed simp

lemma executed_subseq: "subseq (executed m cs) cs"
  by (induction cs arbitrary: m) auto

text \<open>A command that was just accepted is answered from the session until the client moves on.\<close>

lemma check_after_Apply:
  assumes "snd (fst (Apply m c)) = None"
  shows "check (snd (Apply m c)) c = (fst (fst (Apply m c)), True, None)"
  using assms
  by (cases m c rule: check_cases) (auto simp: Apply_refused Apply_duplicate Apply_fresh check_def)

lemma accepted_session:
  assumes "snd (fst (Apply m c)) = None"
  obtains s where "fmlookup (msessions (snd (Apply m c))) (ClientID c) = Some s" "sCommand s = c"
  using assms
  by (cases m c rule: check_cases) (auto simp: Apply_refused Apply_duplicate Apply_fresh)

lemma Apply_other_client:
  assumes "ClientID d \<noteq> ClientID c"
  shows "fmlookup (msessions (snd (Apply m d))) (ClientID c) = fmlookup (msessions m) (ClientID c)"
  using assms
  by (cases m d rule: check_cases) (auto simp: Apply_refused Apply_duplicate Apply_fresh)

lemma apply_all_other_clients:
  assumes "\<forall>d \<in> set ds. ClientID d \<noteq> ClientID c"
  shows "fmlookup (msessions (apply_all m ds)) (ClientID c) = fmlookup (msessions m) (ClientID c)"
  using assms by (induction ds arbitrary: m) (auto simp: Apply_other_client)

lemma check_session_cong:
  "fmlookup (msessions m) (ClientID c) = fmlookup (msessions m') (ClientID c) \<Longrightarrow> check m c = check m' c"
  unfolding check_def by presburger

section \<open>Refinement of a key-value specification\<close>

text \<open>
  What the store promises of the three operations, stated on a plain map: SET writes, DELETE
  removes and reports whether there was something to remove, CAS writes exactly when the key holds
  the expected value and reports a conflict with the current value otherwise.
\<close>

definition spec_set :: "string \<Rightarrow> string \<Rightarrow> (string \<rightharpoonup> string) \<Rightarrow> (string \<rightharpoonup> string) \<times> Result" where
  "spec_set k v m = (m(k \<mapsto> v), \<lparr>rValue = v, rFound = True, rApplied = True, rConflict = False\<rparr>)"

definition spec_delete :: "string \<Rightarrow> (string \<rightharpoonup> string) \<Rightarrow> (string \<rightharpoonup> string) \<times> Result" where
  "spec_delete k m =
     (m(k := None), \<lparr>rValue = (case m k of None \<Rightarrow> [] | Some w \<Rightarrow> w), rFound = k \<in> dom m,
        rApplied = k \<in> dom m, rConflict = False\<rparr>)"

definition spec_cas :: "string \<Rightarrow> string \<Rightarrow> string \<Rightarrow> (string \<rightharpoonup> string) \<Rightarrow> (string \<rightharpoonup> string) \<times> Result" where
  "spec_cas k old new m =
     (if m k = Some old then spec_set k new m
      else (m, \<lparr>rValue = (case m k of None \<Rightarrow> [] | Some w \<Rightarrow> w), rFound = k \<in> dom m,
        rApplied = False, rConflict = True\<rparr>))"

definition spec_step :: "Command \<Rightarrow> (string \<rightharpoonup> string) \<Rightarrow> (string \<rightharpoonup> string) \<times> Result" where
  "spec_step c m =
     (if Operation c = ''SET'' then spec_set (Key c) (Value c) m
      else if Operation c = ''DELETE'' then spec_delete (Key c) m
      else spec_cas (Key c) (Expected c) (Value c) m)"

lemma execute_refines:
  assumes "Operation c \<in> {''SET'', ''DELETE'', ''CAS''}"
  shows "(fmlookup (fst (execute vs c)), snd (execute vs c)) = spec_step c (fmlookup vs)"
  using assms
  by (auto simp: spec_step_def execute_def spec_set_def spec_delete_def spec_cas_def Let_def map_drop_def
      map_filter_def fun_eq_iff fmlookup_dom'_iff split: option.splits)

section \<open>Properties\<close>

definition wCommand :: "string \<Rightarrow> u64 \<Rightarrow> string \<Rightarrow> Command" where
  "wCommand i r v = \<lparr>ClientID = i, RequestID = r, Operation = ''SET'', Key = ''k'', Value = v, Expected = []\<rparr>"

definition wMachine :: Machine where
  "wMachine = snd (Apply New_Machine (wCommand ''c1'' 5 ''v''))"

definition wResult :: Result where
  "wResult = \<lparr>rValue = ''v'', rFound = True, rApplied = True, rConflict = False\<rparr>"

lemma wMachine_Apply: "Apply New_Machine (wCommand ''c1'' 5 ''v'') = ((wResult, None), wMachine)"
proof -
  have "fst (Apply New_Machine (wCommand ''c1'' 5 ''v'')) = (wResult, None)" by code_simp
  then show ?thesis by (simp add: wMachine_def prod_eq_iff)
qed

text \<open>
  C23.  Exactly once: whatever log of commands is replayed from whatever state, the values are those of
  executing, in log order, a subsequence of the log in which no request of a client occurs twice; retried,
  stale and reused requests change nothing.
\<close>

theorem log_executed_once:
  "mvalues (apply_all m cs) = foldl (\<lambda>vs c. fst (execute vs c)) (mvalues m) (executed m cs) \<and>
   distinct (map (\<lambda>c. (ClientID c, RequestID c)) (executed m cs)) \<and> subseq (executed m cs) cs"
  using apply_all_values executed_distinct executed_subseq by blast

text \<open>
  C28.  A retry is answered from the session: once a command has been accepted, repeating it returns the same
  result and leaves the machine as it is, no matter what other clients did in between.
\<close>

theorem retry_same_answer:
  assumes "Apply m c = ((r, None), m')" "\<forall>d \<in> set ds. ClientID d \<noteq> ClientID c"
  shows "Apply (apply_all m' ds) c = ((r, None), apply_all m' ds)"
  using Apply_duplicate [of "apply_all m' ds" c] check_after_Apply [of m c]
    check_session_cong [OF apply_all_other_clients [OF assms(2)]] assms(1) by simp

theorem retry_same_answer_witness:
  "Apply (apply_all wMachine [wCommand ''c2'' 7 ''w'']) (wCommand ''c1'' 5 ''v'') =
     ((wResult, None), apply_all wMachine [wCommand ''c2'' 7 ''w''])"
  by (rule retry_same_answer [OF wMachine_Apply]) (simp add: wCommand_def)

text \<open>
  C29.  After a client's command has been accepted, an older request of that client is refused as stale and
  another command under the same request identifier is refused as reused; neither changes the machine.
\<close>

theorem stale_and_reused_refused:
  assumes "Apply m c = ((r, None), m')" "\<forall>d \<in> set ds. ClientID d \<noteq> ClientID c"
    and "Validate d = None" "ClientID d = ClientID c" "RequestID d \<le> RequestID c" "d \<noteq> c"
  shows "Apply (apply_all m' ds) d =
    ((zeroResult, Some (if RequestID d = RequestID c then ErrReused else ErrStale)), apply_all m' ds)"
proof -
  obtain s where s: "fmlookup (msessions m') (ClientID c) = Some s" "sCommand s = c"
    using accepted_session [of m c] assms(1) by auto
  then have "fmlookup (msessions (apply_all m' ds)) (ClientID c) = Some s"
    by (simp add: apply_all_other_clients [OF assms(2)])
  then show ?thesis
    using s(2) assms(3-) by (intro Apply_refused) (auto simp: check_def)
qed

theorem stale_and_reused_refused_witness:
  "snd (fst (Apply (apply_all wMachine []) (wCommand ''c1'' 4 ''v''))) = Some ErrStale \<and>
   snd (fst (Apply (apply_all wMachine []) (wCommand ''c1'' 5 ''w''))) = Some ErrReused"
proof -
  have v: "Validate (wCommand ''c1'' 4 ''v'') = None" "Validate (wCommand ''c1'' 5 ''w'') = None"
    by code_simp+
  show ?thesis
    using stale_and_reused_refused [OF wMachine_Apply, of "[]" "wCommand ''c1'' 4 ''v''"] v
      stale_and_reused_refused [OF wMachine_Apply, of "[]" "wCommand ''c1'' 5 ''w''"]
    by (simp add: wCommand_def)
qed

text \<open>
  C30.  A command the machine has not seen refines the key-value specification: it writes, removes or compares
  exactly as specified, returns the specified result, and is remembered in its client's session and in no other.
\<close>

theorem fresh_command_refines:
  assumes "is_fresh m c" "Apply m c = ((r, e), m')"
  shows "e = None \<and> (fmlookup (mvalues m'), r) = spec_step c (fmlookup (mvalues m)) \<and>
    msessions m' = fmupd (ClientID c) \<lparr>sCommand = c, sResult = r\<rparr> (msessions m)"
  using assms
proof (cases m c rule: check_cases)
  case fresh
  then show ?thesis
    using assms(2) execute_refines [OF Validate_NoneD(11) [OF fresh(2)], of "mvalues m"] by (auto simp: Apply_fresh)
qed (simp_all add: is_fresh_def)

theorem fresh_command_refines_witness:
  "fmlookup (mvalues (snd (Apply wMachine (wCommand ''c2'' 1 ''w'')))) ''k'' = Some ''w'' \<and>
   rApplied (fst (fst (Apply wMachine (wCommand ''c2'' 1 ''w''))))"
proof -
  have f: "is_fresh wMachine (wCommand ''c2'' 1 ''w'')" by code_simp
  obtain r e m' where a: "Apply wMachine (wCommand ''c2'' 1 ''w'') = ((r, e), m')" by (metis surj_pair)
  show ?thesis
    unfolding a using fresh_command_refines [OF f a] by (simp add: spec_step_def spec_set_def wCommand_def)
qed

text \<open>
  C31.  Snapshots lose nothing: a machine restored from the snapshot taken after a prefix of the log and fed the
  rest of the log is the machine that ran the whole log, whatever state it was restored over.
\<close>

theorem snapshot_resumes_log:
  "\<exists>m. Restore m0 (Snapshot_of (apply_all New_Machine cs)) = (None, m) \<and>
       apply_all m ds = apply_all New_Machine (cs @ ds)"
  using kv.resume [OF wf_machine_New] by (metis prod.collapse)

end
