(* ===== verification/Journal.thy ===== *)
theory Journal
  imports Prelude "HOL-Library.Sublist"
begin

text \<open>
  The journal interface (\<open>Append\<close>, \<open>Replace\<close>, replay at open) that the Raft store and the
  standalone database are built on, as a locale: an acknowledged append is durable, and a failed
  one leaves at most its own record behind.  The implementations at the level of whole records are
  the in-memory disk of the simulator (\<^verbatim>\<open>internal/simulation/simulation.go\<close>) and the record view
  of the file WAL (\<^verbatim>\<open>internal/storage/wal.go\<close>), whose byte level is theory \<open>Wal\<close>; a record stands
  for the JSON document that is appended.
\<close>

section \<open>Replay\<close>

text \<open>Feeding records to the replay callback, stopping at its first error.\<close>

fun replay_all :: "('p \<Rightarrow> 's \<Rightarrow> gerror option \<times> 's) \<Rightarrow> 'p list \<Rightarrow> 's \<Rightarrow> gerror option \<times> 's" where
  "replay_all replay [] s = (None, s)"
| "replay_all replay (p # ps) s =
     (case replay p s of (Some err, s') \<Rightarrow> (Some err, s') | (None, s') \<Rightarrow> replay_all replay ps s')"

lemma replay_all_append:
  "replay_all replay (ps @ qs) s =
     (case replay_all replay ps s of (Some err, s') \<Rightarrow> (Some err, s') | (None, s') \<Rightarrow> replay_all replay qs s')"
  by (induction ps arbitrary: s) (auto split: prod.splits option.splits)

section \<open>The contract\<close>

text \<open>
  \<open>durable j\<close> is what a later open replays.  \<open>accepts\<close> are the records whose size is allowed.
\<close>

locale journal_contract =
  fixes append :: "'io \<Rightarrow> 'j \<Rightarrow> 'p \<Rightarrow> gerror option \<times> 'j"
    and durable :: "'j \<Rightarrow> 'p list"
    and inv :: "'j \<Rightarrow> bool"
  assumes append_inv: "inv j \<Longrightarrow> inv (snd (append io j p))"
    and append_ack: "inv j \<Longrightarrow> fst (append io j p) = None \<Longrightarrow> durable (snd (append io j p)) = durable j @ [p]"
    and append_err: "inv j \<Longrightarrow> fst (append io j p) \<noteq> None \<Longrightarrow>
      durable (snd (append io j p)) = durable j \<or> durable (snd (append io j p)) = durable j @ [p]"
begin

text \<open>A client that appends records one after the other and notes which of them were acknowledged.\<close>

primrec appends :: "'j \<Rightarrow> ('io \<times> 'p) list \<Rightarrow> 'p list \<times> 'j" where
  "appends j [] = ([], j)"
| "appends j (x # xs) =
     (case append (fst x) j (snd x) of (err, j') \<Rightarrow>
        (case appends j' xs of (acked, j'') \<Rightarrow> (if err = None then snd x # acked else acked, j'')))"

lemma appends_inv: "inv j \<Longrightarrow> inv (snd (appends j xs))"
proof (induction xs arbitrary: j)
  case (Cons x xs)
  then have "inv (snd (append (fst x) j (snd x)))" by (simp add: append_inv)
  then show ?case using Cons.IH by (auto split: prod.splits) (metis snd_conv)
qed simp

text \<open>
  What is replayed later is what was there followed by appended records in order, and every
  acknowledged record is among them.
\<close>

lemma acknowledged_durable:
  assumes "inv j" "appends j xs = (acked, j')"
  shows "\<exists>rest. durable j' = durable j @ rest \<and> subseq acked rest \<and> subseq rest (map snd xs)"
  using assms
proof (induction xs arbitrary: j acked)
  case (Cons x xs)
  obtain err j1 where a: "append (fst x) j (snd x) = (err, j1)" by fastforce
  obtain acked1 where as: "appends j1 xs = (acked1, j')" and ak: "acked = (if err = None then snd x # acked1 else acked1)"
    using Cons.prems(2) a by (auto split: prod.splits)
  have "inv j1" using append_inv [OF Cons.prems(1), of "fst x" "snd x"] a by simp
  from Cons.IH [OF this as] obtain rest
    where r: "durable j' = durable j1 @ rest" "subseq acked1 rest" "subseq rest (map snd xs)" by auto
  consider "durable j1 = durable j" "err \<noteq> None" | "durable j1 = durable j @ [snd x]"
    using append_ack [OF Cons.prems(1), of "fst x" "snd x"] append_err [OF Cons.prems(1), of "fst x" "snd x"] a
    by (cases err) auto
  then show ?case
  proof cases
    case 1
    then show ?thesis using r ak by (intro exI [of _ rest]) auto
  next
    case 2
    then show ?thesis using r ak by (intro exI [of _ "snd x # rest"]) auto
  qed
qed simp

end

section \<open>The in-memory disk of the simulator\<close>

record 'p memoryDisk =
  mrecords :: "'p list"
  mfailure :: string

definition Open_memory :: "('p \<Rightarrow> 's \<Rightarrow> gerror option \<times> 's) \<Rightarrow> 'p memoryDisk \<Rightarrow> 's \<Rightarrow> gerror option \<times> 's" where
  "Open_memory replay d s = replay_all replay (mrecords d) s"

definition Append_memory :: "'p memoryDisk \<Rightarrow> 'p \<Rightarrow> gerror option \<times> 'p memoryDisk" where
  "Append_memory d b =
     (if mfailure d = ''before'' then (Some ErrInjectedDisk, d)
      else
        (let d' = d\<lparr>mrecords := mrecords d @ [b]\<rparr>
         in if mfailure d = ''after'' then (Some ErrInjectedDisk, d') else (None, d')))"

interpretation mem: journal_contract "\<lambda>_ :: unit. Append_memory" mrecords "\<lambda>_. True"
  by unfold_locales (auto simp: Append_memory_def Let_def split: if_splits)

section \<open>The file WAL, record by record\<close>

text \<open>
  The fate of each call is taken from a script: it succeeds, it fails and its records are lost, or
  it fails although its records reached the disk.  An exhausted script means success.  A failed
  append poisons the journal; a failed replacement does not.
\<close>

datatype fault = Succeeds | FailsLost | FailsKept

record 'p logFile =
  lrecords :: "'p list"
  lscript :: "fault list"
  lfailed :: "gerror option"

definition next_fault :: "'p logFile \<Rightarrow> fault" where
  "next_fault f = (case lscript f of [] \<Rightarrow> Succeeds | x # _ \<Rightarrow> x)"

definition Append_log :: "'p logFile \<Rightarrow> 'p \<Rightarrow> gerror option \<times> 'p logFile" where
  "Append_log f p =
     (case lfailed f of
        Some err \<Rightarrow> (Some err, f)
      | None \<Rightarrow>
          (let f' = f\<lparr>lscript := tl (lscript f)\<rparr>;
               err = ErrWrap ''WAL unavailable; restart required'' ErrIO
           in case next_fault f of
                Succeeds \<Rightarrow> (None, f'\<lparr>lrecords := lrecords f @ [p]\<rparr>)
              | FailsLost \<Rightarrow> (Some err, f'\<lparr>lfailed := Some err\<rparr>)
              | FailsKept \<Rightarrow> (Some err, f'\<lparr>lfailed := Some err, lrecords := lrecords f @ [p]\<rparr>)))"

definition Replace_log :: "'p logFile \<Rightarrow> 'p list \<Rightarrow> gerror option \<times> 'p logFile" where
  "Replace_log f ps =
     (case lfailed f of
        Some err \<Rightarrow> (Some err, f)
      | None \<Rightarrow>
          (let f' = f\<lparr>lscript := tl (lscript f)\<rparr>
           in case next_fault f of
                Succeeds \<Rightarrow> (None, f'\<lparr>lrecords := ps\<rparr>)
              | FailsLost \<Rightarrow> (Some ErrIO, f')
              | FailsKept \<Rightarrow> (Some ErrIO, f'\<lparr>lrecords := ps\<rparr>)))"

interpretation log: journal_contract "\<lambda>_ :: unit. Append_log" lrecords "\<lambda>_. True"
  by unfold_locales (auto simp: Append_log_def Let_def split: option.splits fault.splits)

section \<open>The journal behind the interface\<close>

text \<open>
  Go's interface value: one of the two implementations.  \<open>Replace\<close> is the optional method that
  only the file WAL has.
\<close>

datatype 'p journal = Memory "'p memoryDisk" | Log "'p logFile"

fun journal_records :: "'p journal \<Rightarrow> 'p list" where
  "journal_records (Memory d) = mrecords d"
| "journal_records (Log f) = lrecords f"

fun journal_append :: "'p journal \<Rightarrow> 'p \<Rightarrow> gerror option \<times> 'p journal" where
  "journal_append (Memory d) p = (case Append_memory d p of (err, d') \<Rightarrow> (err, Memory d'))"
| "journal_append (Log f) p = (case Append_log f p of (err, f') \<Rightarrow> (err, Log f'))"

fun journal_replace :: "'p journal \<Rightarrow> 'p list \<Rightarrow> (gerror option \<times> 'p journal) option" where
  "journal_replace (Memory d) ps = None"
| "journal_replace (Log f) ps = Some (case Replace_log f ps of (err, f') \<Rightarrow> (err, Log f'))"

interpretation jrn: journal_contract "\<lambda>_ :: unit. journal_append" journal_records "\<lambda>_. True"
proof (unfold_locales, goal_cases)
  case (2 j io p)
  then show ?case
    by (cases j) (simp_all add: mem.append_ack log.append_ack case_prod_beta)
next
  case (3 j io p)
  then show ?case
    by (cases j) (simp_all add: mem.append_err log.append_err case_prod_beta)
qed simp

lemma journal_append_ack:
  "journal_append j p = (None, j') \<Longrightarrow> journal_records j' = journal_records j @ [p]"
  using jrn.append_ack [of j p] by simp

lemma journal_append_err:
  "journal_append j p = (Some e, j') \<Longrightarrow>
     journal_records j' = journal_records j \<or> journal_records j' = journal_records j @ [p]"
  using jrn.append_err [of j p] by simp

lemma journal_replace_ack:
  "journal_replace j ps = Some (None, j') \<Longrightarrow> journal_records j' = ps"
  by (cases j) (auto simp: Replace_log_def Let_def split: option.splits fault.splits prod.splits)

lemma journal_replace_err:
  "journal_replace j ps = Some (Some e, j') \<Longrightarrow>
     journal_records j' = journal_records j \<or> journal_records j' = ps"
  by (cases j) (auto simp: Replace_log_def Let_def split: option.splits fault.splits prod.splits)

text \<open>A journal that is opened again is no longer poisoned.\<close>

fun reopened :: "'p journal \<Rightarrow> 'p journal" where
  "reopened (Memory d) = Memory d"
| "reopened (Log f) = Log (f\<lparr>lfailed := None\<rparr>)"

lemma reopened_records [simp]: "journal_records (reopened j) = journal_records j"
  by (cases j) simp_all

end
