(* ===== verification/Wal.thy ===== *)
theory Wal
  imports Journal
begin

text \<open>
  The write-ahead log of \<^verbatim>\<open>internal/storage/wal.go\<close> at the level of bytes: the record frame
  (big-endian length, CRC-32, payload), the scan that opens a journal, replays its complete
  records and cuts off an incomplete last one, the append that poisons the journal after an
  I/O failure, and the replacement of the whole file by a compacted one.

  What the operating system answers is an input of each operation: an \<open>open_io\<close>,
  \<open>append_io\<close> or \<open>replace_io\<close> record says which system call fails and how many bytes of a
  failing write reach the file.  The lemmas hold for every such input, so they cover a crash at
  any byte of a write.
\<close>

unbundle bit_operations_syntax

section \<open>Frames\<close>

definition MaxRecordBytes :: nat where
  "MaxRecordBytes = 16777216"

text \<open>\<open>binary.BigEndian.PutUint32\<close> and \<open>binary.BigEndian.Uint32\<close>.\<close>

definition PutUint32 :: "u32 \<Rightarrow> byte list" where
  "PutUint32 w = [ucast (drop_bit 24 w), ucast (drop_bit 16 w), ucast (drop_bit 8 w), ucast w]"

definition Uint32 :: "byte list \<Rightarrow> u32" where
  "Uint32 bs = (push_bit 24 (ucast (bs ! 0))) OR (push_bit 16 (ucast (bs ! 1)))
     OR (push_bit 8 (ucast (bs ! 2))) OR ucast (bs ! 3)"

text \<open>\<open>crc32.ChecksumIEEE\<close>: the reflected CRC-32 with polynomial \<open>0xEDB88320\<close>, bit by bit.\<close>

definition crc_shift :: "u32 \<Rightarrow> u32" where
  "crc_shift c = (if c AND 1 = 1 then drop_bit 1 c XOR 0xEDB88320 else drop_bit 1 c)"

definition crc_byte :: "u32 \<Rightarrow> byte \<Rightarrow> u32" where
  "crc_byte c b = (crc_shift ^^ 8) (c XOR ucast b)"

definition ChecksumIEEE :: "byte list \<Rightarrow> u32" where
  "ChecksumIEEE bs = NOT (foldl crc_byte (NOT 0) bs)"

definition frame :: "byte list \<Rightarrow> byte list" where
  "frame payload = PutUint32 (of_nat (length payload)) @ PutUint32 (ChecksumIEEE payload) @ payload"

definition size_ok :: "byte list \<Rightarrow> bool" where
  "size_ok payload \<longleftrightarrow> payload \<noteq> [] \<and> length payload \<le> MaxRecordBytes"

section \<open>Opening\<close>

text \<open>
  The loop of \<open>OpenJournal\<close> over the bytes that are left, at byte \<open>offset\<close> of the file.  The
  callback \<open>replay\<close> has its own state.  The result is the error, or the length at which the file
  ends afterwards: its own length after a clean end, the start of the incomplete record otherwise.
\<close>

function scan :: "(byte list \<Rightarrow> 's \<Rightarrow> gerror option \<times> 's) \<Rightarrow> byte list \<Rightarrow> nat \<Rightarrow> 's \<Rightarrow> (gerror + nat) \<times> 's" where
  "scan replay rest offset s =
     (if rest = [] then (Inr offset, s)
      else if length rest < 8 then (Inr offset, s)
      else
        (let len = Uint32 (take 4 rest) in
         if len = 0 \<or> of_nat MaxRecordBytes < len then (Inl (ErrText ''invalid WAL length''), s)
         else if length (drop 8 rest) < unat len then (Inr offset, s)
         else
           (let payload = take (unat len) (drop 8 rest) in
            if ChecksumIEEE payload \<noteq> Uint32 (take 4 (drop 4 rest))
            then (Inl (ErrText ''WAL checksum mismatch''), s)
            else (case replay payload s of
                    (Some err, s') \<Rightarrow> (Inl (ErrWrap ''WAL replay'' err), s')
                  | (None, s') \<Rightarrow> scan replay (drop (8 + unat len) rest) (offset + 8 + unat len) s'))))"
  by pat_completeness auto
termination
  by (relation "measure (\<lambda>(_, rest, _, _). length rest)") auto

declare scan.simps [simp del]

text \<open>
  The journal directory: the files it holds, and what the system calls of \<open>OpenJournal\<close> answer.
\<close>

record open_io =
  mkdirErr :: bool
  lockOpenErr :: bool
  lockHeld :: bool
  openErr :: bool
  fileLockErr :: bool
  readErr :: bool
  truncateErr :: bool
  syncErr :: bool

record WAL =
  content :: "byte list"
  isOpen :: bool
  wfailed :: "gerror option"
  osFile :: bool

definition io_error :: "bool \<Rightarrow> gerror option" where
  "io_error b = (if b then Some ErrIO else None)"

definition OpenJournal ::
  "open_io \<Rightarrow> (string \<rightharpoonup> byte list) \<Rightarrow> string \<Rightarrow> (byte list \<Rightarrow> 's \<Rightarrow> gerror option \<times> 's) \<Rightarrow> 's
     \<Rightarrow> (gerror + WAL) \<times> (string \<rightharpoonup> byte list) \<times> 's" where
  "OpenJournal io dir name replay s =
     (if name \<noteq> ''commands.wal'' \<and> name \<noteq> ''raft.wal''
        then (Inl (ErrText ''unknown journal''), dir, s)
      else if mkdirErr io then (Inl ErrIO, dir, s)
      else if lockOpenErr io then (Inl ErrIO, dir, s)
      else if lockHeld io then (Inl (ErrWrap ''data directory is already in use'' ErrIO), dir, s)
      else if dir (if name = ''raft.wal'' then ''commands.wal'' else ''raft.wal'') \<noteq> None
        then (Inl (ErrText ''incompatible data directory''), dir, s)
      else if openErr io then (Inl ErrIO, dir, s)
      else
        (let bytes = (case dir name of Some b \<Rightarrow> b | None \<Rightarrow> []);
             dir' = dir(name \<mapsto> bytes)
         in if fileLockErr io then (Inl (ErrWrap ''data directory is already in use'' ErrIO), dir', s)
            else if readErr io then (Inl ErrIO, dir', s)
            else
              (case scan replay bytes 0 s of
                 (Inl err, s') \<Rightarrow> (Inl err, dir', s')
               | (Inr end_offset, s') \<Rightarrow>
                   if end_offset < length bytes \<and> truncateErr io then (Inl ErrIO, dir', s')
                   else
                     (let bytes' = take end_offset bytes; dir'' = dir(name \<mapsto> bytes')
                      in if syncErr io then (Inl ErrIO, dir'', s')
                         else (Inr \<lparr>content = bytes', isOpen = True, wfailed = None, osFile = True\<rparr>,
                               dir'', s')))))"

section \<open>Appending\<close>

text \<open>
  What a write and the following sync answer: how many bytes of the record reached the file, and
  whether the calls reported an error.  A write that stops early without an error is the
  \<open>io.ErrShortWrite\<close> case.
\<close>

record append_io =
  written :: nat
  writeErr :: bool
  fsyncErr :: bool

definition write_error :: "append_io \<Rightarrow> byte list \<Rightarrow> gerror option" where
  "write_error io rec =
     (if writeErr io then Some ErrIO
      else if written io < length rec then Some ErrShortWrite
      else io_error (fsyncErr io))"

definition Append_WAL :: "append_io \<Rightarrow> WAL \<Rightarrow> byte list \<Rightarrow> gerror option \<times> WAL" where
  "Append_WAL io w payload =
     (case wfailed w of
        Some err \<Rightarrow> (Some err, w)
      | None \<Rightarrow>
          if \<not> size_ok payload then (Some (ErrText ''invalid record size''), w)
          else
            (let rec = frame payload;
                 err = (if isOpen w then write_error io rec else Some ErrIO);
                 content' = (if isOpen w then content w @ take (written io) rec else content w);
                 failed' = map_option (ErrWrap ''WAL unavailable; restart required'') err
             in (failed', w\<lparr>content := content', wfailed := failed'\<rparr>)))"

section \<open>Replacing\<close>

record replace_io =
  createErr :: bool
  tmpWriteErr :: "nat option"
  tmpSyncErr :: bool
  tmpCloseErr :: bool
  oldCloseErr :: bool
  renameErr :: bool
  dirSyncErr :: bool
  reopenErr :: bool
  relockErr :: bool

text \<open>
  The loop that writes the records to the temporary file: \<open>k\<close> counts the writes until the one that
  fails, if any.
\<close>

primrec write_tmp :: "nat option \<Rightarrow> byte list list \<Rightarrow> gerror option" where
  "write_tmp k [] = None"
| "write_tmp k (p # ps) =
     (if \<not> size_ok p then Some (ErrText ''invalid record size'')
      else if k = Some 0 then Some ErrIO
      else write_tmp (map_option (\<lambda>n. n - 1) k) ps)"

lemma write_tmp_ok: "write_tmp k ps = None \<Longrightarrow> list_all size_ok ps"
  by (induction ps arbitrary: k) (auto split: if_splits)

definition Replace_WAL :: "replace_io \<Rightarrow> WAL \<Rightarrow> byte list list \<Rightarrow> gerror option \<times> WAL" where
  "Replace_WAL io w payloads =
     (case wfailed w of
        Some err \<Rightarrow> (Some err, w)
      | None \<Rightarrow>
          if \<not> osFile w then (Some (ErrText ''WAL replacement unavailable for this file''), w)
          else if createErr io then (Some ErrIO, w)
          else if write_tmp (tmpWriteErr io) payloads \<noteq> None then (write_tmp (tmpWriteErr io) payloads, w)
          else if tmpSyncErr io then (Some ErrIO, w)
          else if tmpCloseErr io then (Some ErrIO, w)
          else
            (let tmp = concat (map frame payloads); closed = w\<lparr>isOpen := False\<rparr> in
             if oldCloseErr io \<or> \<not> isOpen w then (Some ErrIO, closed)
             else if renameErr io then (Some ErrIO, closed)
             else
               (let renamed = closed\<lparr>content := tmp\<rparr> in
                if dirSyncErr io then (Some ErrIO, renamed)
                else if reopenErr io then (Some ErrIO, renamed)
                else if relockErr io then (Some ErrIO, renamed)
                else (None, renamed\<lparr>isOpen := True\<rparr>))))"

section \<open>Closing\<close>

text \<open>
  The journal file and the lock file are closed whatever the other answers; closing a closed file is
  an error of its own, and a write after it fails.
\<close>

definition Close_WAL :: "bool \<Rightarrow> bool \<Rightarrow> WAL \<Rightarrow> gerror option \<times> WAL" where
  "Close_WAL fileErr lockErr w =
     (let err = (if fileErr \<or> \<not> isOpen w then Some ErrIO else None)
      in (if lockErr then Some (case err of None \<Rightarrow> ErrIO | Some e \<Rightarrow> ErrJoin e ErrIO) else err, w\<lparr>isOpen := False\<rparr>))"

section \<open>Frames are recognised\<close>

lemma length_PutUint32 [simp]: "length (PutUint32 w) = 4"
  by (simp add: PutUint32_def)

lemma Uint32_PutUint32 [simp]: "Uint32 (PutUint32 w) = w"
proof (rule bit_word_eqI)
  fix n
  assume "n < LENGTH(32)"
  then consider "n < 8" | "8 \<le> n" "n < 16" | "16 \<le> n" "n < 24" | "24 \<le> n" "n < 32"
    by fastforce
  then show "bit (Uint32 (PutUint32 w)) n = bit w n"
    by cases (auto simp: Uint32_def PutUint32_def bit_simps less_diff_conv2)
qed

lemma length_frame [simp]: "length (frame p) = 8 + length p"
  by (simp add: frame_def)

lemma frame_parts [simp]:
  "take 4 (frame p) = PutUint32 (of_nat (length p))"
  "take 4 (drop 4 (frame p)) = PutUint32 (ChecksumIEEE p)"
  "drop 8 (frame p) = p"
  "frame p \<noteq> []"
  by (auto simp: frame_def PutUint32_def)

lemma size_ok_len:
  assumes "size_ok p"
  shows "unat (of_nat (length p) :: u32) = length p"
    and "(of_nat (length p) :: u32) \<noteq> 0"
    and "\<not> of_nat MaxRecordBytes < (of_nat (length p) :: u32)"
proof -
  have b: "0 < length p" "length p \<le> 16777216"
    using assms by (auto simp: size_ok_def MaxRecordBytes_def)
  then show u: "unat (of_nat (length p) :: u32) = length p"
    by (simp add: unat_of_nat take_bit_nat_eq_self)
  show "(of_nat (length p) :: u32) \<noteq> 0"
    using u b by (metis unat_0 less_irrefl)
  show "\<not> of_nat MaxRecordBytes < (of_nat (length p) :: u32)"
    using u b by (simp add: word_less_nat_alt MaxRecordBytes_def not_less)
qed

text \<open>One complete frame in front of anything else is taken off and replayed.\<close>

lemma scan_frame:
  assumes ok: "size_ok p"
  shows "scan replay (frame p @ rest) offset s =
    (case replay p s of
       (Some err, s') \<Rightarrow> (Inl (ErrWrap ''WAL replay'' err), s')
     | (None, s') \<Rightarrow> scan replay rest (offset + length (frame p)) s')"
  by (subst scan.simps)
    (simp add: size_ok_len [OF ok] Let_def add.assoc split: prod.splits option.splits)

text \<open>A proper prefix of a frame is cut off.\<close>

lemma scan_torn:
  assumes ok: "size_ok p" and k: "k < length (frame p)"
  shows "scan replay (take k (frame p)) offset s = (Inr offset, s)"
proof (cases "k < 8")
  case True
  then show ?thesis using k by (subst scan.simps) simp
next
  case False
  have hd: "take 4 (take k (frame p)) = PutUint32 (of_nat (length p))"
    using False by (simp add: min_absorb1)
  have body: "length (drop 8 (take k (frame p))) < length p" "8 \<le> length (take k (frame p))"
    using k False by simp_all
  moreover have "k - 8 < length p" using k False by simp
  ultimately have "take k (frame p) \<noteq> []" "\<not> length (take k (frame p)) < 8"
    by fastforce+
  then show ?thesis
    using \<open>k - 8 < length p\<close> hd body size_ok_len [OF ok] by (subst scan.simps) (simp add: Let_def)
qed

section \<open>Replaying whole journals\<close>

definition frames :: "byte list list \<Rightarrow> byte list" where
  "frames ps = concat (map frame ps)"

lemma frames_simps [simp]:
  "frames [] = []" "frames (p # ps) = frame p @ frames ps" "frames (ps @ qs) = frames ps @ frames qs"
  by (simp_all add: frames_def)

lemma scan_frames:
  assumes "list_all size_ok ps"
  shows "scan replay (frames ps @ rest) offset s =
    (case replay_all replay ps s of
       (Some err, s') \<Rightarrow> (Inl (ErrWrap ''WAL replay'' err), s')
     | (None, s') \<Rightarrow> scan replay rest (offset + length (frames ps)) s')"
  using assms
proof (induction ps arbitrary: offset s)
  case (Cons p ps)
  then show ?case
    by (simp add: scan_frame add.assoc split: prod.splits option.splits)
qed simp

lemma scan_Nil [simp]: "scan replay [] offset s = (Inr offset, s)"
  by (simp add: scan.simps)

text \<open>
  What a later open finds in a file: the payloads whose complete frames it starts with, as long as
  the scan does not fail.
\<close>

definition collect :: "byte list \<Rightarrow> byte list list \<Rightarrow> gerror option \<times> byte list list" where
  "collect p acc = (None, acc @ [p])"

definition recovered :: "byte list \<Rightarrow> byte list list option" where
  "recovered bytes =
     (case scan collect bytes 0 [] of (Inl _, _) \<Rightarrow> None | (Inr _, ps) \<Rightarrow> Some ps)"

lemma replay_all_collect: "replay_all collect ps acc = (None, acc @ ps)"
  by (induction ps arbitrary: acc) (simp_all add: collect_def)

lemma recovered_frames: "list_all size_ok ps \<Longrightarrow> recovered (frames ps) = Some ps"
  using scan_frames [of ps collect "[]" 0 "[]"]
  by (simp add: recovered_def replay_all_collect)

lemma recovered_torn:
  assumes "list_all size_ok ps" "size_ok p" "k < length (frame p)"
  shows "recovered (frames ps @ take k (frame p)) = Some ps"
  using assms scan_frames [of ps collect "take k (frame p)" 0 "[]"]
  by (simp add: recovered_def replay_all_collect scan_torn)

text \<open>A whole journal: \<open>journal_bytes ps bytes\<close> says that \<open>bytes\<close> are the frames of \<open>ps\<close>, possibly
  followed by an incomplete frame.\<close>

definition journal_bytes :: "byte list list \<Rightarrow> byte list \<Rightarrow> bool" where
  "journal_bytes ps bytes \<longleftrightarrow> list_all size_ok ps \<and>
     (bytes = frames ps \<or> (\<exists>p k. size_ok p \<and> k < length (frame p) \<and> bytes = frames ps @ take k (frame p)))"

lemma journal_bytes_recovered: "journal_bytes ps bytes \<Longrightarrow> recovered bytes = Some ps"
  by (auto simp: journal_bytes_def recovered_frames recovered_torn)

lemma journal_bytes_scan:
  assumes "journal_bytes ps bytes"
  shows "scan replay bytes 0 s =
    (case replay_all replay ps s of
       (Some err, s') \<Rightarrow> (Inl (ErrWrap ''WAL replay'' err), s')
     | (None, s') \<Rightarrow> (Inr (length (frames ps)), s'))"
proof -
  have ok: "list_all size_ok ps" using assms by (simp add: journal_bytes_def)
  from assms consider "bytes = frames ps"
    | p k where "size_ok p" "k < length (frame p)" "bytes = frames ps @ take k (frame p)"
    by (auto simp: journal_bytes_def)
  then show ?thesis
  proof cases
    case 1
    then show ?thesis
      using scan_frames [OF ok, of replay "[]" 0 s] by (simp split: prod.splits option.splits)
  next
    case 2
    then show ?thesis
      using scan_frames [OF ok, of replay "take k (frame p)" 0 s]
      by (simp add: scan_torn split: prod.splits option.splits)
  qed
qed

lemma journal_bytes_take:
  "journal_bytes ps bytes \<Longrightarrow> take (length (frames ps)) bytes = frames ps"
  by (auto simp: journal_bytes_def)

section \<open>Appending keeps the journal recoverable\<close>

text \<open>
  \<open>wal_inv\<close>: the file holds complete frames, and an incomplete one at its end only once the
  journal is poisoned.
\<close>

definition wal_inv :: "WAL \<Rightarrow> bool" where
  "wal_inv w \<longleftrightarrow> (\<exists>ps. journal_bytes ps (content w) \<and> (wfailed w = None \<longrightarrow> content w = frames ps))"

definition wal_records :: "WAL \<Rightarrow> byte list list" where
  "wal_records w = (case recovered (content w) of None \<Rightarrow> [] | Some ps \<Rightarrow> ps)"

lemma wal_records_bytes: "journal_bytes ps (content w) \<Longrightarrow> wal_records w = ps"
  by (simp add: wal_records_def journal_bytes_recovered)

lemma journal_bytes_write:
  assumes ps: "list_all size_ok ps" and p: "size_ok p"
  shows "journal_bytes (if k < length (frame p) then ps else ps @ [p]) (frames ps @ take k (frame p))"
proof (cases "k < length (frame p)")
  case True
  then show ?thesis using assms by (auto simp: journal_bytes_def)
next
  case False
  then show ?thesis using assms by (simp add: journal_bytes_def)
qed

lemma Append_WAL_cases:
  assumes inv: "wal_inv w"
  obtains (poisoned) e where "wfailed w = Some e" "Append_WAL io w p = (Some e, w)"
    | (rejected) e where "wfailed w = None" "\<not> size_ok p" "Append_WAL io w p = (Some e, w)"
    | (closed) e where "wfailed w = None" "size_ok p" "\<not> isOpen w"
        "Append_WAL io w p = (Some e, w\<lparr>wfailed := Some e\<rparr>)"
    | (attempt) ps err where "wfailed w = None" "size_ok p" "isOpen w" "list_all size_ok ps"
        "content w = frames ps" "wal_records w = ps"
        "Append_WAL io w p = (err, w\<lparr>content := frames ps @ take (written io) (frame p), wfailed := err\<rparr>)"
        "err = None \<Longrightarrow> length (frame p) \<le> written io"
proof -
  consider e where "wfailed w = Some e" | "wfailed w = None" "\<not> size_ok p"
    | "wfailed w = None" "size_ok p" "\<not> isOpen w" | "wfailed w = None" "size_ok p" "isOpen w"
    by (cases "wfailed w") auto
  then show thesis
  proof cases
    case 1
    then show thesis by (intro poisoned) (simp_all add: Append_WAL_def)
  next
    case 2
    then show thesis by (intro rejected) (simp_all add: Append_WAL_def)
  next
    case 3
    then show thesis by (intro closed) (auto simp add: Append_WAL_def Let_def)
  next
    case 4
    then obtain ps where "journal_bytes ps (content w)" "content w = frames ps"
      using inv by (auto simp: wal_inv_def)
    with 4 show thesis
      by (intro attempt [of ps]) (auto simp: Append_WAL_def Let_def wal_records_bytes journal_bytes_def
          write_error_def io_error_def split: if_splits)
  qed
qed

lemma Append_WAL_inv: "wal_inv w \<Longrightarrow> wal_inv (snd (Append_WAL io w p))"
proof -
  assume inv: "wal_inv w"
  then show ?thesis
  proof (cases rule: Append_WAL_cases [where io = io and p = p])
    case (attempt ps err)
    then have "journal_bytes (if written io < length (frame p) then ps else ps @ [p])
        (frames ps @ take (written io) (frame p))"
      by (intro journal_bytes_write)
    then show ?thesis using attempt(7,8) by (auto simp: wal_inv_def split: if_splits)
  qed (use inv in \<open>auto simp: wal_inv_def\<close>)
qed

lemma Append_WAL_records:
  assumes inv: "wal_inv w"
  shows "fst (Append_WAL io w p) = None \<Longrightarrow> wal_records (snd (Append_WAL io w p)) = wal_records w @ [p]"
    and "wal_records (snd (Append_WAL io w p)) = wal_records w \<or>
         wal_records (snd (Append_WAL io w p)) = wal_records w @ [p]"
proof -
  show "fst (Append_WAL io w p) = None \<Longrightarrow> wal_records (snd (Append_WAL io w p)) = wal_records w @ [p]"
    using inv
  proof (cases rule: Append_WAL_cases [where io = io and p = p])
    case (attempt ps err)
    assume "fst (Append_WAL io w p) = None"
    then show ?thesis
      using attempt journal_bytes_write [OF attempt(4,2), of "written io"] by (simp add: wal_records_bytes)
  qed auto
  show "wal_records (snd (Append_WAL io w p)) = wal_records w \<or>
         wal_records (snd (Append_WAL io w p)) = wal_records w @ [p]"
    using inv
  proof (cases rule: Append_WAL_cases [where io = io and p = p])
    case (attempt ps err)
    then show ?thesis
      using journal_bytes_write [OF attempt(4,2), of "written io"]
      by (auto simp: wal_records_bytes split: if_splits)
  qed (auto simp: wal_records_def)
qed

interpretation wal: journal_contract Append_WAL wal_records wal_inv
  by unfold_locales (auto simp: Append_WAL_inv Append_WAL_records)

lemma Close_WAL_keeps:
  assumes "wal_inv w"
  shows "wal_inv (snd (Close_WAL a b w))" "wal_records (snd (Close_WAL a b w)) = wal_records w"
  using assms by (auto simp: Close_WAL_def Let_def wal_inv_def wal_records_def)

text \<open>A poisoned journal is never written again.\<close>

lemma Append_WAL_poison:
  assumes "size_ok p" "fst (Append_WAL io w p) = Some e"
  shows "wfailed (snd (Append_WAL io w p)) = Some e"
  using assms by (auto simp: Append_WAL_def Let_def split: option.splits)

lemma Append_WAL_poisoned: "wfailed w = Some e \<Longrightarrow> Append_WAL io w p = (Some e, w)"
  by (simp add: Append_WAL_def)

section \<open>Replacing is atomic\<close>

lemma Replace_WAL_inv:
  assumes "wal_inv w"
  shows "wal_inv (snd (Replace_WAL io w ps))"
  using assms
  by (auto simp: Replace_WAL_def Let_def wal_inv_def journal_bytes_def frames_def dest: write_tmp_ok
      split: option.splits if_splits)

lemma Replace_WAL_records:
  assumes "wal_inv w"
  shows "fst (Replace_WAL io w ps) = None \<Longrightarrow> wal_records (snd (Replace_WAL io w ps)) = ps"
    and "wal_records (snd (Replace_WAL io w ps)) \<in> {wal_records w, ps}"
proof -
  have "wal_records (w\<lparr>content := concat (map frame ps), isOpen := b\<rparr>) = ps" if "write_tmp k ps = None" for b k
    using write_tmp_ok [OF that] by (intro wal_records_bytes) (simp add: journal_bytes_def frames_def)
  then show "fst (Replace_WAL io w ps) = None \<Longrightarrow> wal_records (snd (Replace_WAL io w ps)) = ps"
    and "wal_records (snd (Replace_WAL io w ps)) \<in> {wal_records w, ps}"
    by (auto simp: Replace_WAL_def Let_def wal_records_def split: option.splits if_splits)
qed

section \<open>Opening what was written\<close>

definition all_fine :: open_io where
  "all_fine = \<lparr>mkdirErr = False, lockOpenErr = False, lockHeld = False, openErr = False,
     fileLockErr = False, readErr = False, truncateErr = False, syncErr = False\<rparr>"

lemma OpenJournal_bytes:
  assumes name: "name = ''commands.wal'' \<or> name = ''raft.wal''"
    and other: "dir (if name = ''raft.wal'' then ''commands.wal'' else ''raft.wal'') = None"
    and bytes: "dir name = Some bytes" and jb: "journal_bytes ps bytes"
    and rep: "replay_all replay ps s = (None, s')"
  shows "OpenJournal all_fine dir name replay s =
    (Inr \<lparr>content = frames ps, isOpen = True, wfailed = None, osFile = True\<rparr>, dir(name \<mapsto> frames ps), s')"
proof -
  have "scan replay bytes 0 s = (Inr (length (frames ps)), s')"
    using journal_bytes_scan [OF jb, of replay s] rep by simp
  then show ?thesis
    using name other bytes journal_bytes_take [OF jb]
    by (auto simp: OpenJournal_def all_fine_def Let_def)
qed

lemma OpenJournal_wal_inv:
  assumes "OpenJournal io dir name replay s = (Inr w, dir', s')"
  shows "isOpen w \<and> wfailed w = None \<and> dir' name = Some (content w)"
  using assms by (auto simp: OpenJournal_def Let_def split: if_splits prod.splits sum.splits)

text \<open>A complete frame whose payload was altered is refused unless the checksums collide.\<close>

lemma scan_corrupt:
  assumes ok: "list_all size_ok ps" and p: "size_ok p" and len: "length q = length p"
    and diff: "ChecksumIEEE q \<noteq> ChecksumIEEE p"
    and rep: "replay_all replay ps s = (None, s')"
  shows "scan replay (frames ps @ take 8 (frame p) @ q @ rest) 0 s =
    (Inl (ErrText ''WAL checksum mismatch''), s')"
proof -
  have nonempty: "PutUint32 w \<noteq> []" for w by (simp add: PutUint32_def)
  have "scan replay (take 8 (frame p) @ q @ rest) k s' = (Inl (ErrText ''WAL checksum mismatch''), s')" for k
    using len diff size_ok_len [OF p] p
    by (subst scan.simps) (simp add: frame_def Let_def size_ok_def nonempty)
  then show ?thesis using scan_frames [OF ok, of replay _ 0 s] rep by simp
qed

section \<open>The checksum notices a changed byte\<close>

lemma poly_top: "bit (0xEDB88320 :: u32) 31"
  by simp

lemma crc_shift_top: "bit (crc_shift c) 31 \<longleftrightarrow> c AND 1 = 1"
  by (auto simp: crc_shift_def bit_simps dest: bit_imp_le_length)

lemma crc_shift_inj: "crc_shift a = crc_shift b \<Longrightarrow> a = b"
proof (rule bit_word_eqI)
  fix n assume e: "crc_shift a = crc_shift b" and n: "n < LENGTH(32)"
  have low: "(a AND 1 = 1) = (b AND 1 = 1)" using crc_shift_top [of a] crc_shift_top [of b] e by simp
  then have d: "drop_bit 1 a = drop_bit 1 b"
  proof (cases "a AND 1 = 1")
    case True
    then have "drop_bit 1 a XOR 0xEDB88320 = drop_bit 1 b XOR 0xEDB88320" using e low by (simp add: crc_shift_def)
    then have "(drop_bit 1 a XOR 0xEDB88320) XOR 0xEDB88320 = (drop_bit 1 b XOR 0xEDB88320) XOR 0xEDB88320"
      by (rule arg_cong)
    then show ?thesis by (simp only: xor.assoc xor_self_eq xor.right_neutral)
  qed (use e low in \<open>simp add: crc_shift_def\<close>)
  show "bit a n = bit b n"
  proof (cases n)
    case 0
    then show ?thesis using low by (simp add: and_one_eq odd_iff_mod_2_eq_one [symmetric] bit_0)
  next
    case (Suc k)
    have "bit (drop_bit 1 a) k = bit (drop_bit 1 b) k" using d by simp
    then show ?thesis using Suc by (simp add: bit_drop_bit_eq)
  qed
qed

lemma crc_steps_inj: "(crc_shift ^^ k) a = (crc_shift ^^ k) b \<Longrightarrow> a = b"
  by (induction k arbitrary: a b) (auto simp: funpow_swap1 dest: crc_shift_inj)

lemma crc_byte_inj: "crc_byte c b = crc_byte d b \<Longrightarrow> c = d" "crc_byte c a = crc_byte c b \<Longrightarrow> a = b"
proof -
  have x: "u XOR w = v XOR w \<Longrightarrow> u = v" for u v w :: u32
    by (metis xor.assoc xor.right_neutral xor_self_eq)
  show "crc_byte c b = crc_byte d b \<Longrightarrow> c = d" by (auto simp: crc_byte_def dest!: crc_steps_inj x)
  assume "crc_byte c a = crc_byte c b"
  then have "c XOR ucast a = c XOR ucast b" by (simp add: crc_byte_def crc_steps_inj)
  then have "(ucast a :: u32) = ucast b" using x [of "ucast a" c "ucast b"] by (simp add: xor.commute)
  then show "a = b"
    by (intro bit_word_eqI) (drule_tac f = "\<lambda>w. bit w n" in arg_cong, simp add: bit_simps)
qed

lemma checksum_byte:
  assumes "i < length p" "b \<noteq> p ! i"
  shows "ChecksumIEEE (p[i := b]) \<noteq> ChecksumIEEE p"
proof
  let ?c = "foldl crc_byte (NOT 0) (take i p)"
  have f: "foldl crc_byte x ys = foldl crc_byte z ys \<Longrightarrow> x = z" for x z ys
    by (induction ys arbitrary: x z) (auto dest: crc_byte_inj(1))
  have p: "p = take i p @ p ! i # drop (Suc i) p" by (rule id_take_nth_drop [OF assms(1)])
  have q: "p[i := b] = take i p @ b # drop (Suc i) p" by (rule upd_conv_take_nth_drop [OF assms(1)])
  assume "ChecksumIEEE (p[i := b]) = ChecksumIEEE p"
  then have "foldl crc_byte (NOT 0) (p[i := b]) = foldl crc_byte (NOT 0) p" by (simp add: ChecksumIEEE_def)
  then have "foldl crc_byte (crc_byte ?c b) (drop (Suc i) p) = foldl crc_byte (crc_byte ?c (p ! i)) (drop (Suc i) p)"
    by (subst (asm) q, subst (asm) (2) p) simp
  then show False using f crc_byte_inj(2) assms(2) by blast
qed

section \<open>The record view\<close>



lemma wal_inv_recovered: "wal_inv w \<Longrightarrow> recovered (content w) = Some (wal_records w)"
  by (auto simp: wal_inv_def wal_records_def journal_bytes_recovered)



primrec append_all :: "WAL \<Rightarrow> (append_io \<times> byte list) list \<Rightarrow> byte list list \<times> WAL" where
  "append_all w [] = ([], w)"
| "append_all w (x # xs) =
     (case Append_WAL (fst x) w (snd x) of (err, w') \<Rightarrow>
        (case append_all w' xs of (acked, w'') \<Rightarrow> (if err = None then snd x # acked else acked, w'')))"

lemma append_all_eq: "append_all w xs = wal.appends w xs"
  by (induction xs arbitrary: w) (auto split: prod.splits)

section \<open>Properties\<close>

definition wIo :: "nat \<Rightarrow> bool \<Rightarrow> append_io" where
  "wIo k e = \<lparr>written = k, writeErr = e, fsyncErr = False\<rparr>"

definition wWal :: WAL where
  "wWal = \<lparr>content = frame [1, 2], isOpen = True, wfailed = None, osFile = True\<rparr>"

lemma wWal_inv: "wal_inv wWal"
  unfolding wal_inv_def journal_bytes_def
  by (intro exI [of _ "[[1, 2]]"]) (simp add: wWal_def size_ok_def MaxRecordBytes_def)

text \<open>
  C22.  Acknowledged records survive: whatever the operating system does to each write (any number of bytes reach
  the file, writes and syncs fail), scanning the file afterwards succeeds and yields the earlier records followed by
  appended ones in order, every acknowledged one among them.
\<close>

theorem acknowledged_records_survive:
  assumes "wal_inv w" "append_all w xs = (acked, w')"
  shows "\<exists>rest. recovered (content w') = Some (wal_records w @ rest) \<and> subseq acked rest \<and> subseq rest (map snd xs)"
  using wal.acknowledged_durable [OF assms(1)] wal.appends_inv [OF assms(1), of xs] assms(2)
  by (metis append_all_eq snd_conv wal_inv_recovered)

theorem acknowledged_records_survive_witness:
  "\<exists>rest. recovered (content (snd (append_all wWal [(wIo 99 False, [7]), (wIo 3 True, [8])]))) = Some ([[1, 2]] @ rest) \<and>
     subseq [[7]] rest \<and> subseq rest [[7], [8]]"
proof -
  have "fst (append_all wWal [(wIo 99 False, [7]), (wIo 3 True, [8])]) = [[7]]"
    by (simp add: Append_WAL_def wWal_def wIo_def size_ok_def MaxRecordBytes_def Let_def write_error_def io_error_def)
  moreover have "wal_records wWal = [[1, 2]]"
    by (rule wal_records_bytes) (simp add: journal_bytes_def wWal_def size_ok_def MaxRecordBytes_def)
  moreover obtain acked w' where "append_all wWal [(wIo 99 False, [7]), (wIo 3 True, [8])] = (acked, w')" by fastforce
  ultimately show ?thesis
    using acknowledged_records_survive [OF wWal_inv, of "[(wIo 99 False, [7]), (wIo 3 True, [8])]" acked w']
    by simp
qed

text \<open>
  C25.  Crash atomicity of an append: if the file holds the frames of some records and then any prefix of the frame
  of one more, opening the journal replays exactly the complete records, cuts the file back to them and is ready for
  appends; the last record is either wholly there or wholly gone.
\<close>

theorem crash_during_append_recovers:
  assumes "name = ''commands.wal'' \<or> name = ''raft.wal''"
    and "dir (if name = ''raft.wal'' then ''commands.wal'' else ''raft.wal'') = None"
    and "list_all size_ok ps" "size_ok p" "dir name = Some (frames ps @ take k (frame p))"
    and "qs = (if k < length (frame p) then ps else ps @ [p])" "replay_all replay qs s = (None, s')"
  shows "OpenJournal all_fine dir name replay s =
    (Inr \<lparr>content = frames qs, isOpen = True, wfailed = None, osFile = True\<rparr>, dir(name \<mapsto> frames qs), s')"
  using OpenJournal_bytes [OF assms(1,2,5) _ assms(7)] journal_bytes_write [OF assms(3,4), of k] assms(6) by simp

theorem crash_during_append_recovers_witness:
  "OpenJournal all_fine [''raft.wal'' \<mapsto> frames [[1, 2]] @ take 9 (frame [3, 4])] ''raft.wal'' collect [] =
    (Inr \<lparr>content = frames [[1, 2]], isOpen = True, wfailed = None, osFile = True\<rparr>,
     [''raft.wal'' \<mapsto> frames [[1, 2]]], [[1, 2]])"
  by (subst crash_during_append_recovers [where ps = "[[1, 2]]" and p = "[3, 4]" and k = 9 and qs = "[[1, 2]]"
        and s' = "[[1, 2]]"])
    (simp_all add: size_ok_def MaxRecordBytes_def collect_def)

text \<open>
  C32.  A damaged record is refused: if one byte of the payload of a complete frame has been changed, the scan replays
  the records before it and then stops with a checksum error, whatever the change and whatever follows.
\<close>

theorem damaged_record_refused:
  assumes "list_all size_ok ps" "size_ok p" "i < length p" "b \<noteq> p ! i" "replay_all replay ps s = (None, s')"
  shows "scan replay (frames ps @ take 8 (frame p) @ p[i := b] @ rest) 0 s =
    (Inl (ErrText ''WAL checksum mismatch''), s')"
  by (rule scan_corrupt [OF assms(1,2) _ checksum_byte [OF assms(3,4)] assms(5)]) simp

theorem damaged_record_refused_witness:
  "scan collect (frames [[5]] @ take 8 (frame [1, 2]) @ [1, 3] @ [9]) 0 [] =
     (Inl (ErrText ''WAL checksum mismatch''), [[5]])"
  using damaged_record_refused [of "[[5]]" "[1, 2]" 1 3 collect "[]" "[[5]]" "[9]"]
  by (simp add: size_ok_def MaxRecordBytes_def collect_def)

text \<open>
  A failed append poisons the journal: from then on every append is refused with the same error and leaves the
  file as the failed one left it.
\<close>

theorem failed_append_poisons:
  assumes "size_ok p" "Append_WAL io w p = (Some e, w')"
  shows "Append_WAL io' w' q = (Some e, w')"
  using Append_WAL_poison [OF assms(1), of io w e] assms(2) by (simp add: Append_WAL_poisoned)

theorem failed_append_poisons_witness:
  "\<exists>e. Append_WAL (wIo 99 False) (snd (Append_WAL (wIo 3 True) wWal [7])) [8] =
     (Some e, snd (Append_WAL (wIo 3 True) wWal [7]))"
proof -
  have "fst (Append_WAL (wIo 3 True) wWal [7]) \<noteq> None"
    by (simp add: Append_WAL_def wWal_def wIo_def size_ok_def MaxRecordBytes_def Let_def write_error_def)
  then obtain e where "Append_WAL (wIo 3 True) wWal [7] = (Some e, snd (Append_WAL (wIo 3 True) wWal [7]))"
    by (metis not_None_eq prod.collapse)
  then show ?thesis using failed_append_poisons [of "[7]"] by (force simp: size_ok_def MaxRecordBytes_def)
qed

text \<open>
  C33.  Compaction is atomic: whichever system call of a replacement fails, a later scan finds either all the old
  records or exactly the new ones, and the new ones if the replacement reported success.
\<close>

theorem replacement_atomic:
  assumes "wal_inv w" "Replace_WAL io w ps = (err, w')"
  shows "recovered (content w') \<in> {Some (wal_records w), Some ps} \<and> (err = None \<longrightarrow> recovered (content w') = Some ps) \<and>
    wal_inv w'"
  using Replace_WAL_records [OF assms(1), of io ps] Replace_WAL_inv [OF assms(1), of io ps] assms(2) wal_inv_recovered
  by auto

theorem replacement_atomic_witness:
  "recovered (content (snd (Replace_WAL \<lparr>createErr = False, tmpWriteErr = None, tmpSyncErr = False, tmpCloseErr = False,
     oldCloseErr = False, renameErr = True, dirSyncErr = False, reopenErr = False, relockErr = False\<rparr> wWal [[6], [7]])))
   \<in> {Some (wal_records wWal), Some [[6], [7]]}"
  using replacement_atomic [OF wWal_inv prod.collapse [symmetric]] by blast



end
