(* ===== verification/Database.thy ===== *)
theory Database
  imports Statemachine Journal
begin

text \<open>
  The standalone durable database of \<^verbatim>\<open>internal/database/database.go\<close>: every command is checked
  against the state machine, appended to the journal, and applied only once the append has been
  acknowledged; opening replays the journal.  The JSON document of a command stands for the command
  itself.  The lemmas show that the machine always is the replay of the journal, and what a crash
  after any sequence of commands can and cannot change.
\<close>

record Database =
  dmachine :: Machine
  dwal :: "Command journal"
  dfailed :: bool
  dclosed :: bool

record Stats =
  sKeys :: nat
  sAppliedOperations :: u64
  sHealthy :: bool

definition db_replay :: "Command \<Rightarrow> Machine \<Rightarrow> gerror option \<times> Machine" where
  "db_replay c m = (case Apply m c of ((r, err), m') \<Rightarrow> (err, m'))"

text \<open>\<open>openErr\<close> is the failure of the journal's opener after the replay.\<close>

definition Open_Database :: "gerror option \<Rightarrow> Command journal \<Rightarrow> gerror + Database" where
  "Open_Database openErr j =
     (case replay_all db_replay (journal_records j) New_Machine of
        (Some err, _) \<Rightarrow> Inl (ErrWrap ''WAL replay'' err)
      | (None, m) \<Rightarrow>
          (case openErr of
             Some err \<Rightarrow> Inl err
           | None \<Rightarrow> Inr \<lparr>dmachine = m, dwal = reopened j, dfailed = False, dclosed = False\<rparr>))"

definition Execute_Database :: "Database \<Rightarrow> Command \<Rightarrow> (Result \<times> gerror option) \<times> Database" where
  "Execute_Database d c =
     (if dclosed d \<or> dfailed d then ((zeroResult, Some ErrDatabaseUnavailable), d)
      else
        (case check (dmachine d) c of
           (result, duplicate, err) \<Rightarrow>
             if duplicate \<or> err \<noteq> None then ((result, err), d)
             else
               (case journal_append (dwal d) c of
                  (Some e, w) \<Rightarrow>
                    ((zeroResult, Some (ErrJoin ErrDatabaseUnavailable e)), d\<lparr>dwal := w, dfailed := True\<rparr>)
                | (None, w) \<Rightarrow>
                    (case Apply (dmachine d) c of (out, m) \<Rightarrow> (out, d\<lparr>dwal := w, dmachine := m\<rparr>)))))"

definition Get_Database :: "Database \<Rightarrow> string \<Rightarrow> string \<times> bool \<times> gerror option" where
  "Get_Database d key =
     (if dclosed d \<or> dfailed d then ([], False, Some ErrDatabaseUnavailable)
      else (case Get_Machine (dmachine d) key of (v, ok) \<Rightarrow> (v, ok, None)))"

definition Stats_Database :: "Database \<Rightarrow> Stats" where
  "Stats_Database d =
     (case Stats_Machine (dmachine d) of
        (keys, operations) \<Rightarrow>
          \<lparr>sKeys = keys, sAppliedOperations = operations, sHealthy = (\<not> dclosed d \<and> \<not> dfailed d)\<rparr>)"

text \<open>Closing the journal file is outside the record view; only the flag is kept.\<close>

definition Close_Database :: "Database \<Rightarrow> Database" where
  "Close_Database d = (if dclosed d then d else d\<lparr>dclosed := True\<rparr>)"

section \<open>Invariant\<close>

text \<open>\<open>replays rs m\<close>: every command of the journal is fresh when its turn comes, and they lead to \<open>m\<close>.\<close>

definition replays :: "Command list \<Rightarrow> Machine \<Rightarrow> bool" where
  "replays rs m \<longleftrightarrow> replay_all db_replay rs New_Machine = (None, m)"

text \<open>
  The journal replays to the machine; after a failed append it may hold that one command more, which
  the machine has not executed.
\<close>

definition db_inv :: "Database \<Rightarrow> bool" where
  "db_inv d \<longleftrightarrow>
     replays (journal_records (dwal d)) (dmachine d) \<or>
     dfailed d \<and> (\<exists>c. is_fresh (dmachine d) c \<and> replays (journal_records (dwal d)) (snd (Apply (dmachine d) c)))"

lemma replays_snoc:
  assumes "replays rs m" "is_fresh m c"
  shows "replays (rs @ [c]) (snd (Apply m c))"
proof -
  have "snd (fst (Apply m c)) = None"
    using assms(2) by (cases m c rule: check_cases) (auto simp: is_fresh_def Apply_fresh)
  then show ?thesis
    using assms(1) by (auto simp: replays_def replay_all_append db_replay_def split: prod.splits)
qed

lemma Open_Database_iff:
  "Open_Database None j = Inr d \<longleftrightarrow>
     (\<exists>m. replays (journal_records j) m \<and> d = \<lparr>dmachine = m, dwal = reopened j, dfailed = False, dclosed = False\<rparr>)"
  by (auto simp: Open_Database_def replays_def split: prod.splits option.splits)

lemma Open_Database_inv: "Open_Database None j = Inr d \<Longrightarrow> db_inv d"
  by (auto simp: Open_Database_iff db_inv_def)

lemma Execute_Database_cases:
  fixes d :: Database
  obtains (unavailable) "dclosed d \<or> dfailed d" "Execute_Database d c = ((zeroResult, Some ErrDatabaseUnavailable), d)"
    | (answered) "\<not> dfailed d" "\<not> is_fresh (dmachine d) c" "Execute_Database d c = (fst (Apply (dmachine d) c), d)"
        "snd (Apply (dmachine d) c) = dmachine d"
    | (failed) e w where "\<not> dfailed d" "is_fresh (dmachine d) c" "journal_append (dwal d) c = (Some e, w)"
        "Execute_Database d c = ((zeroResult, Some (ErrJoin ErrDatabaseUnavailable e)), d\<lparr>dwal := w, dfailed := True\<rparr>)"
    | (applied) w where "\<not> dclosed d" "\<not> dfailed d" "is_fresh (dmachine d) c" "journal_append (dwal d) c = (None, w)"
        "Execute_Database d c = (fst (Apply (dmachine d) c), d\<lparr>dwal := w, dmachine := snd (Apply (dmachine d) c)\<rparr>)"
proof (cases "dclosed d \<or> dfailed d")
  case True
  then show ?thesis using unavailable by (simp add: Execute_Database_def)
next
  case up: False
  show ?thesis
  proof (cases "is_fresh (dmachine d) c")
    case False
    then show ?thesis
      using answered up
      by (cases "dmachine d" c rule: check_cases)
        (auto simp: is_fresh_def Execute_Database_def Apply_refused Apply_duplicate)
  next
    case True
    then have ck: "check (dmachine d) c = (zeroResult, False, None)"
      by (cases "dmachine d" c rule: check_cases) (auto simp: is_fresh_def)
    obtain e w where a: "journal_append (dwal d) c = (e, w)" by fastforce
    show ?thesis
    proof (cases e)
      case None
      then show ?thesis using up True ck a by (intro applied) (auto simp: Execute_Database_def split: prod.splits)
    next
      case (Some x)
      then show ?thesis using up True ck a by (intro failed) (auto simp: Execute_Database_def)
    qed
  qed
qed

lemma Execute_Database_inv:
  assumes "db_inv d"
  shows "db_inv (snd (Execute_Database d c))"
proof (cases rule: Execute_Database_cases [of d c])
  case (failed e w)
  then have r: "replays (journal_records (dwal d)) (dmachine d)" using assms by (simp add: db_inv_def)
  then show ?thesis
    using failed replays_snoc [OF r failed(2)] journal_append_err [OF failed(3)] by (auto simp: db_inv_def)
next
  case (applied w)
  then have r: "replays (journal_records (dwal d)) (dmachine d)" using assms by (simp add: db_inv_def)
  then show ?thesis
    using applied replays_snoc [OF r applied(3)] journal_append_ack [OF applied(4)] by (simp add: db_inv_def)
qed (use assms in auto)

primrec execute_all :: "Database \<Rightarrow> Command list \<Rightarrow> (Result \<times> gerror option) list \<times> Database" where
  "execute_all d [] = ([], d)"
| "execute_all d (c # cs) =
     (case Execute_Database d c of (out, d1) \<Rightarrow> (case execute_all d1 cs of (outs, d2) \<Rightarrow> (out # outs, d2)))"

lemma execute_all_inv: "db_inv d \<Longrightarrow> db_inv (snd (execute_all d cs))"
proof (induction cs arbitrary: d)
  case (Cons c cs)
  have "db_inv (snd (Execute_Database d c))" by (rule Execute_Database_inv [OF Cons.prems])
  from Cons.IH [OF this] show ?case by (simp add: case_prod_beta)
qed simp

lemma reopen_Database:
  assumes "db_inv d"
  obtains d' where "Open_Database None (dwal d) = Inr d'" "\<not> dfailed d'" "\<not> dclosed d'"
    "dmachine d' = dmachine d \<or> dfailed d \<and> (\<exists>c. is_fresh (dmachine d) c \<and> dmachine d' = snd (Apply (dmachine d) c))"
proof (cases "replays (journal_records (dwal d)) (dmachine d)")
  case True
  then show ?thesis
    by (intro that [of "\<lparr>dmachine = dmachine d, dwal = reopened (dwal d), dfailed = False, dclosed = False\<rparr>"])
      (simp_all add: Open_Database_iff)
next
  case False
  then obtain c where "dfailed d" "is_fresh (dmachine d) c" "replays (journal_records (dwal d)) (snd (Apply (dmachine d) c))"
    using assms by (auto simp: db_inv_def)
  then show ?thesis
    by (intro that [of "\<lparr>dmachine = snd (Apply (dmachine d) c), dwal = reopened (dwal d), dfailed = False, dclosed = False\<rparr>"])
      (auto simp: Open_Database_iff)
qed

text \<open>
  The first command of a sequence whose append failed: what was executed before it, and what it and the commands behind it answered.
\<close>

definition append_failed_at :: "Database \<Rightarrow> Command list \<Rightarrow> (Result \<times> gerror option) list \<Rightarrow> Database \<Rightarrow> Command \<Rightarrow> bool" where
  "append_failed_at d0 cs outs d c \<longleftrightarrow> dfailed d \<and> is_fresh (dmachine d) c \<and>
     (\<exists>before after outs0 d1 e. cs = before @ c # after \<and> execute_all d0 before = (outs0, d1) \<and> \<not> dfailed d1 \<and> dmachine d1 = dmachine d \<and>
        journal_append (dwal d1) c = (Some e, dwal d) \<and>
        outs = outs0 @ (zeroResult, Some (ErrJoin ErrDatabaseUnavailable e)) # map (\<lambda>_. (zeroResult, Some ErrDatabaseUnavailable)) after)"

lemma execute_all_failed: "dfailed d \<Longrightarrow> execute_all d cs = (map (\<lambda>_. (zeroResult, Some ErrDatabaseUnavailable)) cs, d)"
  by (induction cs) (simp_all add: Execute_Database_def)

lemma append_failed_first:
  assumes "\<not> dfailed d0" "is_fresh (dmachine d0) c" "journal_append (dwal d0) c = (Some e, w)"
  shows "append_failed_at d0 (c # cs) ((zeroResult, Some (ErrJoin ErrDatabaseUnavailable e)) # map (\<lambda>_. (zeroResult, Some ErrDatabaseUnavailable)) cs)
    (d0\<lparr>dwal := w, dfailed := True\<rparr>) c"
  unfolding append_failed_at_def
proof (intro conjI exI)
  show "c # cs = [] @ c # cs" "execute_all d0 [] = ([], d0)" by simp_all
  show "journal_append (dwal d0) c = (Some e, dwal (d0\<lparr>dwal := w, dfailed := True\<rparr>))" using assms(3) by simp
qed (use assms in simp_all)

lemma append_failed_at_Cons:
  assumes "append_failed_at d1 cs outs d c'" "Execute_Database d0 c = (out, d1)"
  shows "append_failed_at d0 (c # cs) (out # outs) d c'"
proof -
  obtain before after outs0 d2 e where b: "cs = before @ c' # after" "execute_all d1 before = (outs0, d2)" "\<not> dfailed d2" "dmachine d2 = dmachine d"
    "journal_append (dwal d2) c' = (Some e, dwal d)"
    "outs = outs0 @ (zeroResult, Some (ErrJoin ErrDatabaseUnavailable e)) # map (\<lambda>_. (zeroResult, Some ErrDatabaseUnavailable)) after"
    using assms(1) unfolding append_failed_at_def by blast
  have "c # cs = (c # before) @ c' # after" "execute_all d0 (c # before) = (out # outs0, d2)"
    "out # outs = (out # outs0) @ (zeroResult, Some (ErrJoin ErrDatabaseUnavailable e)) # map (\<lambda>_. (zeroResult, Some ErrDatabaseUnavailable)) after"
    using b(1,2,6) assms(2) by simp_all
  then show ?thesis using b(3-5) assms(1) unfolding append_failed_at_def by blast
qed

lemma execute_all_outcome:
  assumes "replays (journal_records (dwal d0)) (dmachine d0)" "\<not> dfailed d0" "execute_all d0 cs = (outs, d)"
  shows "\<not> dfailed d \<and> replays (journal_records (dwal d)) (dmachine d) \<or>
    (\<exists>c. append_failed_at d0 cs outs d c \<and>
       (replays (journal_records (dwal d)) (dmachine d) \<or> replays (journal_records (dwal d)) (snd (Apply (dmachine d) c))))"
  using assms
proof (induction cs arbitrary: d0 outs)
  case (Cons c cs)
  obtain out d1 outs1 where e: "Execute_Database d0 c = (out, d1)" "execute_all d1 cs = (outs1, d)" "outs = out # outs1"
    using Cons.prems(3) by (auto split: prod.splits)
  have on: ?case if "replays (journal_records (dwal d1)) (dmachine d1)" "\<not> dfailed d1"
    using Cons.IH [OF that e(2)] append_failed_at_Cons [OF _ e(1)] e(3) by blast
  show ?case
  proof (cases rule: Execute_Database_cases [of d0 c])
    case (failed x w)
    have d: "d1 = d0\<lparr>dwal := w, dfailed := True\<rparr>" "out = (zeroResult, Some (ErrJoin ErrDatabaseUnavailable x))" using e(1) failed(4) by simp_all
    then have "d = d1" "outs1 = map (\<lambda>_. (zeroResult, Some ErrDatabaseUnavailable)) cs" using e(2) execute_all_failed [of d1 cs] by simp_all
    then have "append_failed_at d0 (c # cs) outs d c" using append_failed_first [OF failed(1-3), of cs] d e(3) by simp
    moreover have "replays (journal_records w) (dmachine d0) \<or> replays (journal_records w) (snd (Apply (dmachine d0) c))"
      using journal_append_err [OF failed(3)] replays_snoc [OF Cons.prems(1) failed(2)] Cons.prems(1) by auto
    ultimately show ?thesis using d(1) \<open>d = d1\<close> by auto
  next
    case (applied w)
    then show ?thesis
      using e(1) replays_snoc [OF Cons.prems(1) applied(3)] journal_append_ack [OF applied(4)] by (intro on) auto
  next
    case unavailable
    then show ?thesis using e(1) Cons.prems(1,2) by (intro on) simp_all
  next
    case answered
    then show ?thesis using e(1) Cons.prems(1,2) by (intro on) simp_all
  qed
qed simp

lemma reopen_as:
  assumes "replays (journal_records (dwal d)) m"
  shows "\<exists>d'. Open_Database None (dwal d) = Inr d' \<and> \<not> dfailed d' \<and> \<not> dclosed d' \<and> dmachine d' = m"
  using assms by (auto simp: Open_Database_iff)

section \<open>Properties\<close>

definition wJournal :: "fault list \<Rightarrow> Command journal" where
  "wJournal fs = Log \<lparr>lrecords = [], lscript = fs, lfailed = None\<rparr>"

definition wDatabase :: "fault list \<Rightarrow> Database" where
  "wDatabase fs = \<lparr>dmachine = New_Machine, dwal = wJournal fs, dfailed = False, dclosed = False\<rparr>"

lemma wDatabase_open: "Open_Database None (wJournal fs) = Inr (wDatabase fs)"
  by (simp add: Open_Database_def wJournal_def wDatabase_def)

text \<open>
  C26.  Durability of the standalone database: after any sequence of commands, whatever appends failed, reopening its
  journal succeeds and gives a working database.  It has exactly the state of the running one, or else a command of the sequence was
  answered with a failed append, all commands behind it were refused without effect, and the state is that of the running database, which is the one
  before that command, with that command executed.
\<close>

theorem database_recovers:
  assumes "Open_Database None j = Inr d0" "execute_all d0 cs = (outs, d)"
  shows "\<exists>d'. Open_Database None (dwal d) = Inr d' \<and> \<not> dfailed d' \<and> \<not> dclosed d' \<and>
    (dmachine d' = dmachine d \<or>
     dfailed d \<and>
     (\<exists>before c after outs0 d1 e. cs = before @ c # after \<and> execute_all d0 before = (outs0, d1) \<and> \<not> dfailed d1 \<and> dmachine d1 = dmachine d \<and>
        journal_append (dwal d1) c = (Some e, dwal d) \<and>
        outs = outs0 @ (zeroResult, Some (ErrJoin ErrDatabaseUnavailable e)) # map (\<lambda>_. (zeroResult, Some ErrDatabaseUnavailable)) after \<and>
        is_fresh (dmachine d) c \<and> dmachine d' = snd (Apply (dmachine d) c)))"
proof -
  have "replays (journal_records (dwal d0)) (dmachine d0)" "\<not> dfailed d0" using assms(1) by (auto simp: Open_Database_iff)
  from execute_all_outcome [OF this assms(2)]
  consider "replays (journal_records (dwal d)) (dmachine d)"
    | c where "append_failed_at d0 cs outs d c" "replays (journal_records (dwal d)) (snd (Apply (dmachine d) c))" by blast
  then show ?thesis
  proof cases
    case 1
    then show ?thesis using reopen_as by blast
  next
    case (2 c)
    then show ?thesis using reopen_as [OF 2(2)] unfolding append_failed_at_def by blast
  qed
qed

theorem database_recovers_witness:
  "\<exists>d'. Open_Database None (dwal (snd (execute_all (wDatabase [Succeeds, FailsKept]) [wCommand ''c1'' 1 ''v'', wCommand ''c1'' 2 ''w''])))
      = Inr d'"
  using database_recovers [OF wDatabase_open prod.collapse [symmetric]] by blast

text \<open>
  C27.  A client that retries after a crash is not executed twice: once a command has been acknowledged, reopening the
  journal and sending the command again returns the same result and changes nothing.
\<close>

theorem retry_after_crash:
  assumes "Open_Database None j = Inr d0" "execute_all d0 cs = (outs, d)" "Execute_Database d c = ((r, None), d1)"
    and "Open_Database None (dwal d1) = Inr d2"
  shows "Execute_Database d2 c = ((r, None), d2)"
proof -
  have i: "db_inv d" using execute_all_inv [OF Open_Database_inv [OF assms(1)], of cs] assms(2) by simp
  have i1: "db_inv d1" using Execute_Database_inv [OF i, of c] assms(3) by simp
  have a: "Apply (dmachine d) c = ((r, None), dmachine d1)" and f: "\<not> dfailed d1"
    using assms(3) by (cases rule: Execute_Database_cases [of d c]; auto simp: prod_eq_iff)+
  obtain d' where "Open_Database None (dwal d1) = Inr d'" "\<not> dfailed d'" "\<not> dclosed d'" "dmachine d' = dmachine d1"
    by (rule reopen_Database [OF i1]) (use f in auto)
  then have d2: "\<not> dfailed d2" "\<not> dclosed d2" "dmachine d2 = dmachine d1" using assms(4) by auto
  have "check (dmachine d1) c = (r, True, None)" using check_after_Apply [of "dmachine d" c] a by simp
  then show ?thesis using d2 by (simp add: Execute_Database_def)
qed

theorem retry_after_crash_witness:
  "\<exists>d1 d2. Execute_Database (wDatabase []) (wCommand ''c1'' 5 ''v'') = ((wResult, None), d1) \<and>
     Open_Database None (dwal d1) = Inr d2 \<and> Execute_Database d2 (wCommand ''c1'' 5 ''v'') = ((wResult, None), d2)"
proof -
  obtain out d1 where e: "Execute_Database (wDatabase []) (wCommand ''c1'' 5 ''v'') = (out, d1)" by fastforce
  have "fst (Execute_Database (wDatabase []) (wCommand ''c1'' 5 ''v'')) = (wResult, None)" by code_simp
  then have e': "Execute_Database (wDatabase []) (wCommand ''c1'' 5 ''v'') = ((wResult, None), d1)" using e by simp
  have "db_inv d1" using Execute_Database_inv [OF Open_Database_inv [OF wDatabase_open], of "[]" "wCommand ''c1'' 5 ''v''"] e by simp
  then obtain d2 where "Open_Database None (dwal d1) = Inr d2" by (rule reopen_Database)
  then show ?thesis using retry_after_crash [OF wDatabase_open execute_all.simps(1) e'] e' by auto
qed

end
