(* ===== verification/Raft_Types.thy ===== *)
theory Raft_Types
  imports Statemachine
begin

text \<open>
  The data of \<^verbatim>\<open>internal/raft/types.go\<close>: peers and configuration, log entries, and the two remote
  procedure calls.  Log indices are natural numbers: the code only compares them, adds the length of
  a list to them and subtracts where it has compared before; where an unsigned subtraction could
  wrap around (an index below the log's base) the model makes the resulting panic explicit.  Terms
  are 64-bit words and wrap around as in Go.  Durations are integers (nanoseconds).
\<close>

record Peer =
  pID :: string
  PeerURL :: string
  ClientURL :: string

definition zeroPeer :: Peer where
  "zeroPeer = \<lparr>pID = [], PeerURL = [], ClientURL = []\<rparr>"

record Config =
  cID :: string
  ClusterID :: string
  Peers :: "Peer list"
  FixedLeader :: string
  ElectionMin :: int
  ElectionMax :: int
  Heartbeat :: int
  RPCTimeout :: int
  RequestTimeout :: int
  SnapshotEvery :: nat

record Entry =
  eIndex :: nat
  eTerm :: u64
  eCommand :: "Command option"

definition zeroEntry :: Entry where
  "zeroEntry = \<lparr>eIndex = 0, eTerm = 0, eCommand = None\<rparr>"

record VoteRequest =
  vqMessageID :: string
  vqClusterID :: string
  vqTerm :: u64
  CandidateID :: string
  LastLogIndex :: nat
  LastLogTerm :: u64

record VoteResponse =
  vrTerm :: u64
  Granted :: bool

record AppendRequest =
  aqMessageID :: string
  aqClusterID :: string
  aqTerm :: u64
  LeaderID :: string
  PrevLogIndex :: nat
  PrevLogTerm :: u64
  aqEntries :: "Entry list"
  LeaderCommit :: nat

record AppendResponse =
  arTerm :: u64
  Success :: bool
  MatchIndex :: nat
  ConflictIndex :: nat

end
