(* ===== verification/Store.thy ===== *)
theory Store
  imports Raft_Types Journal
begin

text \<open>
  The durable Raft state of \<^verbatim>\<open>internal/raft/store.go\<close>: the journal records, their validation, their
  effect on the state, saving, checkpoints, and opening a store by replaying its journal.  A record
  stands for the JSON document the code appends.  \<open>None\<close> results are runtime panics (an index or
  slice out of range, a nil journal).

  The lemmas show that a well-formed store never panics, that a save either leaves the state alone
  or moves it forward (term, vote, commit index and committed entries are kept), and that replaying
  the journal rebuilds exactly the state in memory.
\<close>

section \<open>Data\<close>

record checkpoint =
  ckIndex :: nat
  ckTerm :: u64
  ckMachine :: Snapshot
  ckRaftTerm :: u64
  ckVote :: string
  ckCommit :: nat
  ckLog :: "Entry list"

record journalRecord =
  jIdentity :: string
  jTerm :: u64
  jVote :: string
  jCommit :: nat
  jFrom :: nat
  jEntries :: "Entry list"
  jCheckpoint :: "checkpoint option"

record durableState =
  dTerm :: u64
  dVote :: string
  dCommit :: nat
  dBase :: nat
  dLog :: "Entry list"

record diskStore =
  sWal :: "journalRecord journal option"
  sIdentity :: string
  sState :: durableState
  sSnapshot :: Snapshot

definition zeroSnapshot :: Snapshot where
  "zeroSnapshot = \<lparr>Values = fmempty, Sessions = fmempty, Count = 0\<rparr>"

definition initStore :: "string \<Rightarrow> diskStore" where
  "initStore identity =
     \<lparr>sWal = None, sIdentity = identity,
      sState = \<lparr>dTerm = 0, dVote = [], dCommit = 0, dBase = 0, dLog = [zeroEntry]\<rparr>,
      sSnapshot = zeroSnapshot\<rparr>"

section \<open>Operations\<close>

definition store_entry :: "diskStore \<Rightarrow> nat \<Rightarrow> Entry option" where
  "store_entry s index =
     (let st = sState s in
      if dBase st \<le> index \<and> index - dBase st < length (dLog st)
      then Some (dLog st ! (index - dBase st)) else None)"

definition store_last :: "diskStore \<Rightarrow> nat" where
  "store_last s = dBase (sState s) + length (dLog (sState s)) - 1"

text \<open>The two validation loops over entries, which differ in their error message.\<close>

fun check_entries :: "string \<Rightarrow> nat \<Rightarrow> u64 \<Rightarrow> u64 \<Rightarrow> Entry list \<Rightarrow> gerror option" where
  "check_entries msg i maxTerm previousTerm [] = None"
| "check_entries msg i maxTerm previousTerm (e # es) =
     (if eIndex e \<noteq> i \<or> eTerm e = 0 \<or> maxTerm < eTerm e \<or> eTerm e < previousTerm
      then Some (ErrText msg)
      else (case (case eCommand e of None \<Rightarrow> None | Some c \<Rightarrow> Validate c) of
              Some err \<Rightarrow> Some err
            | None \<Rightarrow> check_entries msg (Suc i) maxTerm (eTerm e) es))"

definition validate_checkpoint :: "diskStore \<Rightarrow> journalRecord \<Rightarrow> checkpoint \<Rightarrow> gerror option" where
  "validate_checkpoint s r c =
     (let st = sState s in
      if jIdentity r \<noteq> sIdentity s \<or> jTerm r \<noteq> 0 \<or> jVote r \<noteq> [] \<or> jCommit r \<noteq> 0 \<or> jFrom r \<noteq> 0
         \<or> jEntries r \<noteq> [] then Some (ErrText ''invalid checkpoint record'')
      else if ckIndex c < dBase st \<or> ckCommit c < ckIndex c \<or> ckRaftTerm c < dTerm st
         \<or> ckCommit c < dCommit st \<or> ckLog c = [] \<or> eIndex (hd (ckLog c)) \<noteq> ckIndex c
         \<or> eTerm (hd (ckLog c)) \<noteq> ckTerm c then Some (ErrText ''invalid checkpoint state'')
      else (case fst (Restore New_Machine (ckMachine c)) of
              Some err \<Rightarrow> Some err
            | None \<Rightarrow>
                (case check_entries ''invalid checkpoint log'' (ckIndex c + 1) (ckRaftTerm c) (ckTerm c)
                        (tl (ckLog c)) of
                   Some err \<Rightarrow> Some err
                 | None \<Rightarrow>
                     if ckIndex c + (length (ckLog c) - 1) < ckCommit c
                     then Some (ErrText ''checkpoint commit exceeds log'') else None)))"

definition validate :: "diskStore \<Rightarrow> journalRecord \<Rightarrow> gerror option option" where
  "validate s r =
     (case jCheckpoint r of
        Some c \<Rightarrow> Some (validate_checkpoint s r c)
      | None \<Rightarrow>
          (let st = sState s in
           if jIdentity r \<noteq> sIdentity s
             then Some (Some (ErrText ''data belongs to another node, cluster, membership, or election mode''))
           else if jTerm r < dTerm st \<or> jCommit r < dCommit st
             then Some (Some (ErrText ''durable term or commit regressed''))
           else if jTerm r = dTerm st \<and> dVote st \<noteq> [] \<and> jVote r \<noteq> dVote st
             then Some (Some (ErrText ''attempt to change vote within a term''))
           else
             (let length0 = dBase st + length (dLog st) in
              if jFrom r \<noteq> 0 then
                (if jFrom r \<le> dCommit st \<or> length0 < jFrom r
                 then Some (Some (ErrText ''attempt to replace committed entries or create log gap''))
                 else
                   do {
                     previous \<leftarrow> store_entry s (jFrom r - 1);
                     (case check_entries ''invalid log index or term'' (jFrom r) (jTerm r)
                             (eTerm previous) (jEntries r) of
                        Some err \<Rightarrow> Some (Some err)
                      | None \<Rightarrow>
                          if jFrom r + length (jEntries r) \<le> jCommit r
                          then Some (Some (ErrText ''commit exceeds log'')) else Some None)
                   })
              else if jEntries r \<noteq> [] then Some (Some (ErrText ''entries without replacement index''))
              else if length0 \<le> jCommit r then Some (Some (ErrText ''commit exceeds log''))
              else Some None)))"

definition accept :: "diskStore \<Rightarrow> journalRecord \<Rightarrow> diskStore option" where
  "accept s r =
     (case jCheckpoint r of
        Some c \<Rightarrow>
          Some (s\<lparr>sState := \<lparr>dTerm = ckRaftTerm c, dVote = ckVote c, dCommit = ckCommit c,
                    dBase = ckIndex c, dLog = ckLog c\<rparr>, sSnapshot := ckMachine c\<rparr>)
      | None \<Rightarrow>
          (let st = (sState s)\<lparr>dTerm := jTerm r, dVote := jVote r, dCommit := jCommit r\<rparr> in
           if jFrom r \<noteq> 0 then
             (if dBase st \<le> jFrom r \<and> jFrom r - dBase st \<le> length (dLog st)
              then Some (s\<lparr>sState := st\<lparr>dLog := take (jFrom r - dBase st) (dLog st) @ jEntries r\<rparr>\<rparr>)
              else None)
           else Some (s\<lparr>sState := st\<rparr>)))"

definition save :: "diskStore \<Rightarrow> u64 \<Rightarrow> string \<Rightarrow> nat \<Rightarrow> nat \<Rightarrow> Entry list \<Rightarrow> (gerror option \<times> diskStore) option" where
  "save s trm vote commit from entries =
     (let r = \<lparr>jIdentity = sIdentity s, jTerm = trm, jVote = vote, jCommit = commit, jFrom = from,
               jEntries = entries, jCheckpoint = None\<rparr>
      in do {
        err \<leftarrow> validate s r;
        (case err of
           Some e \<Rightarrow> Some (Some e, s)
         | None \<Rightarrow>
             do {
               wal \<leftarrow> sWal s;
               (case journal_append wal r of
                  (Some e, wal') \<Rightarrow> Some (Some (ErrWrap ''persist raft state'' e), s\<lparr>sWal := Some wal'\<rparr>)
                | (None, wal') \<Rightarrow> do { s' \<leftarrow> accept (s\<lparr>sWal := Some wal'\<rparr>) r; Some (None, s') })
             })
      })"

definition take_checkpoint :: "diskStore \<Rightarrow> Snapshot \<Rightarrow> nat \<Rightarrow> (gerror option \<times> diskStore) option" where
  "take_checkpoint s machine index =
     (let st = sState s in
      if index \<le> dBase st \<or> dCommit st < index \<or> store_last s < index
      then Some (Some (ErrText ''invalid checkpoint index''), s)
      else
        do {
          e \<leftarrow> store_entry s index;
          (let offset = index - dBase st;
               c = \<lparr>ckIndex = index, ckTerm = eTerm e, ckMachine = machine, ckRaftTerm = dTerm st,
                    ckVote = dVote st, ckCommit = dCommit st, ckLog = drop offset (dLog st)\<rparr>;
               r = \<lparr>jIdentity = sIdentity s, jTerm = 0, jVote = [], jCommit = 0, jFrom = 0,
                    jEntries = [], jCheckpoint = Some c\<rparr>
           in do {
             err \<leftarrow> validate s r;
             (case err of
                Some e \<Rightarrow> Some (Some e, s)
              | None \<Rightarrow>
                  do {
                    wal \<leftarrow> sWal s;
                    (case journal_replace wal [r] of
                       None \<Rightarrow> Some (Some (ErrText ''journal does not support compaction''), s)
                     | Some (Some e, wal') \<Rightarrow> Some (Some (ErrWrap ''persist checkpoint'' e), s\<lparr>sWal := Some wal'\<rparr>)
                     | Some (None, wal') \<Rightarrow> do { s' \<leftarrow> accept (s\<lparr>sWal := Some wal'\<rparr>) r; Some (None, s') })
                  })
           })
        })"

text \<open>The replay callback of \<open>openStoreUsing\<close>, over all records of the journal.\<close>

fun replay_records :: "journalRecord list \<Rightarrow> diskStore \<Rightarrow> (gerror option \<times> diskStore) option" where
  "replay_records [] s = Some (None, s)"
| "replay_records (r # rs) s =
     do {
       err \<leftarrow> validate s r;
       (case err of
          Some e \<Rightarrow> Some (Some e, s)
        | None \<Rightarrow> do { s' \<leftarrow> accept s r; replay_records rs s' })
     }"

text \<open>
  Opening: \<open>openErr\<close> is the opener's own failure, \<open>j\<close> the journal as it is on disk.  A journal that
  is opened again is no longer poisoned.
\<close>

definition openStoreUsing :: "string \<Rightarrow> gerror option \<Rightarrow> journalRecord journal \<Rightarrow> (gerror + diskStore) option" where
  "openStoreUsing identity openErr j =
     do {
       (err, s) \<leftarrow> replay_records (journal_records j) (initStore identity);
       (case (case err of Some e \<Rightarrow> Some e | None \<Rightarrow> openErr) of
          Some e \<Rightarrow> Some (Inl e)
        | None \<Rightarrow>
            (let s' = s\<lparr>sWal := Some (reopened j)\<rparr> in
             if journal_records j = [] then
               do {
                 (err', s'') \<leftarrow> save s' 0 [] 0 0 [];
                 Some (case err' of Some e \<Rightarrow> Inl e | None \<Rightarrow> Inr s'')
               }
             else Some (Inr s')))
     }"

section \<open>Well-formed logs and states\<close>

definition command_ok :: "Entry \<Rightarrow> bool" where
  "command_ok e \<longleftrightarrow> (case eCommand e of None \<Rightarrow> True | Some c \<Rightarrow> Validate c = None)"

text \<open>
  The entries of a log after its sentinel: consecutive indices from \<open>i\<close>, positive terms that never
  decrease and stay below the current term, valid commands.
\<close>

fun wf_entries :: "nat \<Rightarrow> u64 \<Rightarrow> u64 \<Rightarrow> Entry list \<Rightarrow> bool" where
  "wf_entries i T p [] = True"
| "wf_entries i T p (e # es) =
     (eIndex e = i \<and> 0 < eTerm e \<and> eTerm e \<le> T \<and> p \<le> eTerm e \<and> command_ok e
      \<and> wf_entries (Suc i) T (eTerm e) es)"

definition wf_state :: "durableState \<Rightarrow> bool" where
  "wf_state st \<longleftrightarrow> dLog st \<noteq> [] \<and> eIndex (hd (dLog st)) = dBase st \<and>
     wf_entries (Suc (dBase st)) (dTerm st) (eTerm (hd (dLog st))) (tl (dLog st)) \<and>
     dBase st \<le> dCommit st \<and> dCommit st < dBase st + length (dLog st)"

definition wf_store :: "diskStore \<Rightarrow> bool" where
  "wf_store s \<longleftrightarrow> wf_state (sState s) \<and> fst (Restore New_Machine (sSnapshot s)) = None"

lemma check_entries_None_iff: "check_entries msg i T p es = None \<longleftrightarrow> wf_entries i T p es"
  by (induction es arbitrary: i p)
    (auto simp: command_ok_def word_gt_0 not_less split: option.splits)

lemma wf_entries_nth:
  assumes "wf_entries i T p es" "k < length es"
  shows "eIndex (es ! k) = i + k" "0 < eTerm (es ! k)" "eTerm (es ! k) \<le> T" "p \<le> eTerm (es ! k)"
    "command_ok (es ! k)"
  using assms
proof (induction es arbitrary: i p k)
  case (Cons e es)
  { case 1 then show ?case using Cons.IH(1) [of "Suc i" "eTerm e"] by (cases k) auto }
  { case 2 then show ?case using Cons.IH(2) [of "Suc i" "eTerm e"] by (cases k) auto }
  { case 3 then show ?case using Cons.IH(3) [of "Suc i" "eTerm e"] by (cases k) auto }
  { case 4 then show ?case using Cons.IH(4) [of "Suc i" "eTerm e"] by (cases k) (auto intro: order_trans) }
  { case 5 then show ?case using Cons.IH(5) [of "Suc i" "eTerm e"] by (cases k) auto }
qed simp_all

lemma wf_entries_append:
  "wf_entries i T p (es @ fs) \<longleftrightarrow>
     wf_entries i T p es \<and> wf_entries (i + length es) T (if es = [] then p else eTerm (last es)) fs"
  by (induction es arbitrary: i p) auto

lemma wf_entries_mono: "wf_entries i T p es \<Longrightarrow> T \<le> T' \<Longrightarrow> wf_entries i T' p es"
  by (induction es arbitrary: i p) (auto intro: order_trans)

lemma wf_entries_take: "wf_entries i T p es \<Longrightarrow> wf_entries i T p (take k es)"
  by (induction es arbitrary: i p k) (auto simp: take_Cons' )

lemma wf_entries_drop:
  assumes "wf_entries i T p es" "k < length es"
  shows "wf_entries (i + k + 1) T (eTerm (es ! k)) (drop (Suc k) es)"
proof -
  have "wf_entries i T p (take (Suc k) es @ drop (Suc k) es)" using assms(1) by simp
  moreover have "last (take (Suc k) es) = es ! k" "take (Suc k) es \<noteq> []" "length (take (Suc k) es) = Suc k"
    using assms(2) by (auto simp: take_Suc_conv_app_nth min_def)
  ultimately show ?thesis unfolding wf_entries_append by (simp add: add.assoc)
qed

text \<open>Reading a well-formed log.\<close>

lemma store_entry_Some_iff:
  assumes "wf_state (sState s)"
  shows "store_entry s i \<noteq> None \<longleftrightarrow> dBase (sState s) \<le> i \<and> i \<le> store_last s"
  using assms by (auto simp: store_entry_def store_last_def wf_state_def Let_def)

lemma store_entry_get:
  assumes "wf_state (sState s)" "dBase (sState s) \<le> i" "i \<le> store_last s"
  obtains e where "store_entry s i = Some e"
  using store_entry_Some_iff [OF assms(1), of i] assms by auto

lemma wf_state_nth:
  assumes "wf_state st" "k < length (dLog st)"
  shows "eIndex (dLog st ! k) = dBase st + k"
    and "0 < k \<Longrightarrow> 0 < eTerm (dLog st ! k)" "0 < k \<Longrightarrow> eTerm (dLog st ! k) \<le> dTerm st"
    and "0 < k \<Longrightarrow> command_ok (dLog st ! k)"
  using assms wf_entries_nth [of "Suc (dBase st)" "dTerm st" "eTerm (hd (dLog st))" "tl (dLog st)" "k - 1"]
  by (cases k; cases "dLog st"; auto simp: wf_state_def)+

lemma store_entry_SomeD:
  assumes "store_entry s i = Some e"
  shows "dBase (sState s) \<le> i" "i \<le> store_last s" "e = dLog (sState s) ! (i - dBase (sState s))"
    "i - dBase (sState s) < length (dLog (sState s))"
  using assms by (auto simp: store_entry_def store_last_def Let_def split: if_splits)

lemma store_entry_props:
  assumes "wf_state (sState s)" "store_entry s i = Some e"
  shows "eIndex e = i"
    and "dBase (sState s) < i \<Longrightarrow> 0 < eTerm e \<and> eTerm e \<le> dTerm (sState s) \<and> command_ok e"
  using wf_state_nth [OF assms(1), of "i - dBase (sState s)"] store_entry_SomeD [OF assms(2)] by auto

lemma wf_state_last: "wf_state (sState s) \<Longrightarrow> dCommit (sState s) \<le> store_last s"
  by (auto simp: wf_state_def store_last_def)

section \<open>The order on durable states\<close>

text \<open>
  \<open>hard_le\<close>: the term grows, or it stays and a vote that was cast stays.  \<open>state_le\<close> adds that the
  commit index and the base grow and that the committed entries that are still in the log are
  unchanged.
\<close>

definition hard_le :: "durableState \<Rightarrow> durableState \<Rightarrow> bool" where
  "hard_le a b \<longleftrightarrow> dTerm a < dTerm b \<or> dTerm a = dTerm b \<and> (dVote a = [] \<or> dVote a = dVote b)"

definition log_at :: "durableState \<Rightarrow> nat \<Rightarrow> Entry option" where
  "log_at st i =
     (if dBase st \<le> i \<and> i < dBase st + length (dLog st) then Some (dLog st ! (i - dBase st)) else None)"

definition state_le :: "durableState \<Rightarrow> durableState \<Rightarrow> bool" where
  "state_le a b \<longleftrightarrow> hard_le a b \<and> dCommit a \<le> dCommit b \<and> dBase a \<le> dBase b \<and> dBase b \<le> dCommit b \<and>
     (\<forall>i. dBase b \<le> i \<longrightarrow> i \<le> dCommit a \<longrightarrow> log_at b i = log_at a i)"

lemma hard_le_refl [simp]: "hard_le a a"
  by (simp add: hard_le_def)

lemma hard_le_trans: "hard_le a b \<Longrightarrow> hard_le b c \<Longrightarrow> hard_le a c"
  unfolding hard_le_def by (elim disjE conjE) (auto dest: less_trans)

lemma state_le_refl: "dBase a \<le> dCommit a \<Longrightarrow> state_le a a"
  by (simp add: state_le_def)

lemma state_le_trans: "state_le a b \<Longrightarrow> state_le b c \<Longrightarrow> state_le a c"
  unfolding state_le_def by (auto intro: hard_le_trans dest: le_trans)

lemma store_entry_log_at: "store_entry s i = log_at (sState s) i"
  by (auto simp: store_entry_def log_at_def Let_def)

section \<open>Validated records keep the store well-formed\<close>

lemma sWal_frame:
  "sState (s\<lparr>sWal := w\<rparr>) = sState s" "sIdentity (s\<lparr>sWal := w\<rparr>) = sIdentity s"
  "store_entry (s\<lparr>sWal := w\<rparr>) = store_entry s"
  by (simp_all add: store_entry_def fun_eq_iff)

lemma validate_sWal [simp]: "validate (s\<lparr>sWal := w\<rparr>) r = validate s r"
  unfolding validate_def validate_checkpoint_def sWal_frame by (rule refl)

lemma accept_sWal [simp]: "accept (s\<lparr>sWal := w\<rparr>) r = map_option (\<lambda>t. t\<lparr>sWal := w\<rparr>) (accept s r)"
  by (simp add: accept_def Let_def split: option.splits)

lemma accept_wal: "accept s r = Some t \<Longrightarrow> sWal t = sWal s \<and> sIdentity t = sIdentity s"
  by (auto simp: accept_def Let_def split: option.splits if_splits)

text \<open>What an accepted ordinary record says.\<close>

lemma validate_plain:
  assumes wf: "wf_state (sState s)" and r: "jCheckpoint r = None" "validate s r = Some None"
  shows "jIdentity r = sIdentity s" "dTerm (sState s) \<le> jTerm r" "dCommit (sState s) \<le> jCommit r"
    "jTerm r = dTerm (sState s) \<Longrightarrow> dVote (sState s) = [] \<or> jVote r = dVote (sState s)"
    "jFrom r = 0 \<Longrightarrow> jEntries r = [] \<and> jCommit r < dBase (sState s) + length (dLog (sState s))"
    "jFrom r \<noteq> 0 \<Longrightarrow> dCommit (sState s) < jFrom r \<and>
       jFrom r \<le> dBase (sState s) + length (dLog (sState s)) \<and>
       wf_entries (jFrom r) (jTerm r) (eTerm (dLog (sState s) ! (jFrom r - 1 - dBase (sState s)))) (jEntries r) \<and>
       jCommit r < jFrom r + length (jEntries r)"
  using r wf
  by (auto simp: validate_def Let_def check_entries_None_iff store_entry_def wf_state_def not_less
      split: if_splits option.splits)

lemma validate_total:
  assumes "wf_state (sState s)"
  shows "validate s r \<noteq> None"
  using assms
  by (auto simp: validate_def Let_def store_entry_def wf_state_def split: if_splits option.splits)

lemma accept_total:
  assumes "wf_state (sState s)" "validate s r = Some None"
  shows "accept s r \<noteq> None"
proof (cases "jCheckpoint r")
  case None
  have "dBase (sState s) \<le> jFrom r \<and> jFrom r - dBase (sState s) \<le> length (dLog (sState s))"
    if "jFrom r \<noteq> 0"
    using validate_plain(6) [OF assms(1) None assms(2) that] assms(1) by (auto simp: wf_state_def)
  with None show ?thesis by (simp add: accept_def Let_def)
qed (simp add: accept_def)

lemma last_take_tl:
  assumes "xs \<noteq> []" "0 < k" "k \<le> length xs"
  shows "(if take (k - 1) (tl xs) = [] then hd xs else last (take (k - 1) (tl xs))) = xs ! (k - 1)"
proof (cases "k = 1")
  case True
  then show ?thesis using assms by (cases xs) auto
next
  case False
  then obtain j where j: "k = Suc (Suc j)" using assms by (metis One_nat_def not0_implies_Suc less_numeral_extra(3))
  then show ?thesis using assms
    by (cases xs) (auto simp: take_Suc_conv_app_nth min_def)
qed

lemma wf_state_replace:
  assumes wf: "wf_state st" and fr: "dBase st < f" "f \<le> dBase st + length (dLog st)"
    and T: "dTerm st \<le> T"
    and es: "wf_entries f T (eTerm (dLog st ! (f - 1 - dBase st))) es"
    and c: "dBase st \<le> c" "c < f + length es"
  shows "wf_state (st\<lparr>dTerm := T, dVote := v, dCommit := c, dLog := take (f - dBase st) (dLog st) @ es\<rparr>)"
proof -
  let ?k = "f - dBase st" and ?xs = "dLog st"
  have ne: "?xs \<noteq> []" and k: "0 < ?k" "?k \<le> length ?xs" using wf fr by (auto simp: wf_state_def)
  have tk: "take ?k ?xs = hd ?xs # take (?k - 1) (tl ?xs)"
    using ne k by (cases ?xs; cases ?k) auto
  have "wf_entries (Suc (dBase st)) T (eTerm (hd ?xs)) (take (?k - 1) (tl ?xs))"
    using wf T by (auto simp: wf_state_def intro: wf_entries_take wf_entries_mono)
  moreover have "Suc (dBase st) + length (take (?k - 1) (tl ?xs)) = f"
    using k fr by auto
  moreover have "(if take (?k - 1) (tl ?xs) = [] then eTerm (hd ?xs) else eTerm (last (take (?k - 1) (tl ?xs))))
      = eTerm (?xs ! (f - 1 - dBase st))"
    using last_take_tl [OF ne k] by (auto split: if_splits simp: diff_right_commute)
  ultimately have "wf_entries (Suc (dBase st)) T (eTerm (hd ?xs)) (take (?k - 1) (tl ?xs) @ es)"
    using es unfolding wf_entries_append by simp
  then show ?thesis using wf c fr by (simp add: wf_state_def tk)
qed

lemma accept_plain:
  assumes wf: "wf_state (sState s)" and r: "jCheckpoint r = None" "validate s r = Some None"
    and t: "accept s r = Some t"
  shows "wf_state (sState t)" "state_le (sState s) (sState t)"
proof -
  note v = validate_plain [OF wf r]
  have b: "dBase (sState s) \<le> dCommit (sState s)" "dCommit (sState s) < dBase (sState s) + length (dLog (sState s))"
    using wf by (auto simp: wf_state_def)
  have hl: "hard_le (sState s) (sState s\<lparr>dTerm := jTerm r, dVote := jVote r, dCommit := c, dLog := l\<rparr>)" for l c
    using v(2,4) by (auto simp: hard_le_def)
  show "wf_state (sState t)"
  proof (cases "jFrom r = 0")
    case True
    then have "sState t = (sState s)\<lparr>dTerm := jTerm r, dVote := jVote r, dCommit := jCommit r\<rparr>"
      using t r(1) by (auto simp: accept_def Let_def)
    then show ?thesis using wf v(2,3,5) True b
      by (auto simp: wf_state_def intro: wf_entries_mono)
  next
    case False
    then have "sState t = (sState s)\<lparr>dTerm := jTerm r, dVote := jVote r, dCommit := jCommit r,
        dLog := take (jFrom r - dBase (sState s)) (dLog (sState s)) @ jEntries r\<rparr>"
      using t r(1) by (auto simp: accept_def Let_def split: if_splits)
    then show ?thesis using wf_state_replace [OF wf] v(2,3,6) False b by simp
  qed
  show "state_le (sState s) (sState t)"
  proof (cases "jFrom r = 0")
    case True
    then show ?thesis using t r(1) v b hl [of "dLog (sState s)" "jCommit r"]
      by (auto simp: accept_def Let_def state_le_def log_at_def)
  next
    case False
    have "i - dBase (sState s) < jFrom r - dBase (sState s)" if "i \<le> dCommit (sState s)" "dBase (sState s) \<le> i" for i
      using that v(6) [OF False] by linarith
    then show ?thesis
      using t r(1) v(3) v(6) [OF False] False b hl
      by (auto simp: accept_def Let_def state_le_def log_at_def nth_append split: if_splits)
  qed
qed

lemma validate_checkpoint_NoneD:
  assumes "validate_checkpoint s r c = None"
  shows "jIdentity r = sIdentity s" "jTerm r = 0" "jVote r = []" "jCommit r = 0" "jFrom r = 0" "jEntries r = []"
    "dBase (sState s) \<le> ckIndex c" "ckIndex c \<le> ckCommit c" "dTerm (sState s) \<le> ckRaftTerm c"
    "dCommit (sState s) \<le> ckCommit c" "ckLog c \<noteq> []" "eIndex (hd (ckLog c)) = ckIndex c"
    "eTerm (hd (ckLog c)) = ckTerm c" "fst (Restore New_Machine (ckMachine c)) = None"
    "wf_entries (Suc (ckIndex c)) (ckRaftTerm c) (ckTerm c) (tl (ckLog c))"
    "ckCommit c \<le> ckIndex c + (length (ckLog c) - 1)"
  using assms
  by (auto simp: validate_checkpoint_def Let_def check_entries_None_iff split: if_splits option.splits)

lemma accept_checkpoint_wf:
  assumes "jCheckpoint r = Some c" "validate s r = Some None" "accept s r = Some t"
  shows "wf_store t"
proof -
  have n: "validate_checkpoint s r c = None" using assms by (simp add: validate_def)
  note v = validate_checkpoint_NoneD [OF this]
  have "ckCommit c < ckIndex c + length (ckLog c)"
    using v(11,16) by (cases "ckLog c") auto
  then show ?thesis
    using assms v by (auto simp: accept_def wf_store_def wf_state_def)
qed

lemma accept_wf:
  assumes "wf_store s" "validate s r = Some None" "accept s r = Some t"
  shows "wf_store t"
proof (cases "jCheckpoint r")
  case None
  then have "sSnapshot t = sSnapshot s"
    using assms(3) by (auto simp: accept_def Let_def split: if_splits)
  then show ?thesis
    using accept_plain(1) [OF _ None assms(2,3)] assms(1) by (simp add: wf_store_def)
next
  case (Some c)
  then show ?thesis using accept_checkpoint_wf assms by blast
qed

lemma wf_store_init [simp]: "wf_store (initStore identity)"
  by (simp add: wf_store_def initStore_def wf_state_def zeroEntry_def zeroSnapshot_def Restore_def)

lemma replay_records_wf:
  assumes "wf_store s"
  shows "replay_records rs s \<noteq> None"
    and "replay_records rs s = Some (err, t) \<Longrightarrow> wf_store t \<and> sIdentity t = sIdentity s \<and> sWal t = sWal s"
proof -
  have "\<exists>err t. replay_records rs s = Some (err, t) \<and> wf_store t \<and> sIdentity t = sIdentity s \<and> sWal t = sWal s"
    using assms
  proof (induction rs arbitrary: s)
    case (Cons r rs)
    then obtain v where v: "validate s r = Some v"
      using validate_total wf_store_def by blast
    show ?case
    proof (cases v)
      case None
      then obtain s' where s': "accept s r = Some s'"
        using accept_total [of s r] v Cons.prems by (auto simp: wf_store_def)
      then have "wf_store s'" using accept_wf Cons.prems v None by blast
      then show ?thesis using Cons.IH [of s'] v None s' accept_wal [OF s'] by auto
    next
      case (Some e)
      then show ?thesis using v Cons.prems by simp
    qed
  qed simp
  then show "replay_records rs s \<noteq> None"
    and "replay_records rs s = Some (err, t) \<Longrightarrow> wf_store t \<and> sIdentity t = sIdentity s \<and> sWal t = sWal s"
    by auto
qed

lemma replay_records_append:
  "replay_records (rs @ qs) s =
     do { (err, s') \<leftarrow> replay_records rs s;
          (case err of Some e \<Rightarrow> Some (Some e, s') | None \<Rightarrow> replay_records qs s') }"
proof (induction rs arbitrary: s)
  case (Cons r rs)
  show ?case
    by (cases "validate s r"; simp split: option.splits; cases "accept s r"; simp add: Cons.IH)
qed simp

section \<open>Saving\<close>

definition plain_record :: "diskStore \<Rightarrow> u64 \<Rightarrow> string \<Rightarrow> nat \<Rightarrow> nat \<Rightarrow> Entry list \<Rightarrow> journalRecord" where
  "plain_record s trm vote commit from entries =
     \<lparr>jIdentity = sIdentity s, jTerm = trm, jVote = vote, jCommit = commit, jFrom = from,
      jEntries = entries, jCheckpoint = None\<rparr>"

lemma save_cases:
  assumes wf: "wf_store s" and j: "sWal s = Some j"
  obtains (rejected) e where "validate s (plain_record s T v c f es) = Some (Some e)"
      "save s T v c f es = Some (Some e, s)"
    | (failed) e j' e' where "validate s (plain_record s T v c f es) = Some None"
        "journal_append j (plain_record s T v c f es) = (Some e', j')"
        "save s T v c f es = Some (Some e, s\<lparr>sWal := Some j'\<rparr>)"
    | (saved) t j' where "validate s (plain_record s T v c f es) = Some None"
        "journal_append j (plain_record s T v c f es) = (None, j')"
        "accept s (plain_record s T v c f es) = Some t"
        "save s T v c f es = Some (None, t\<lparr>sWal := Some j'\<rparr>)"
proof -
  let ?r = "plain_record s T v c f es"
  obtain err where v: "validate s ?r = Some err" using validate_total wf wf_store_def by blast
  obtain e' j' where a: "journal_append j ?r = (e', j')" by fastforce
  show thesis
  proof (cases err)
    case None
    then obtain t where t: "accept s ?r = Some t"
      using accept_total [of s ?r] v wf by (auto simp: wf_store_def)
    show thesis
    proof (cases e')
      case None
      then show thesis using v \<open>err = None\<close> a t j
        by (intro saved [of j' t]) (simp_all add: save_def plain_record_def Let_def)
    next
      case (Some e)
      then show thesis using v \<open>err = None\<close> a j
        by (intro failed [of e j']) (simp_all add: save_def plain_record_def Let_def)
    qed
  next
    case (Some e)
    then show thesis using v
      by (intro rejected [of e]) (simp_all add: save_def plain_record_def Let_def)
  qed
qed

lemma save_state:
  assumes wf: "wf_store s" and j: "sWal s = Some j" and sv: "save s T v c f es = Some (err, s')"
  shows "wf_store s'" "state_le (sState s) (sState s')" "sWal s' \<noteq> None" "sIdentity s' = sIdentity s"
    and "err \<noteq> None \<Longrightarrow> sState s' = sState s \<and> sSnapshot s' = sSnapshot s"
    and "err = None \<Longrightarrow> dTerm (sState s') = T \<and> dVote (sState s') = v \<and> dCommit (sState s') = c \<and>
      dBase (sState s') = dBase (sState s) \<and> sSnapshot s' = sSnapshot s \<and>
      dLog (sState s') = (if f = 0 then dLog (sState s) else take (f - dBase (sState s)) (dLog (sState s)) @ es)"
proof -
  have st: "wf_state (sState s)" and rf: "state_le (sState s) (sState s)"
    using wf by (auto simp: wf_store_def wf_state_def intro: state_le_refl)
  have "wf_store s' \<and> state_le (sState s) (sState s') \<and> sWal s' \<noteq> None \<and> sIdentity s' = sIdentity s \<and>
     (err \<noteq> None \<longrightarrow> sState s' = sState s \<and> sSnapshot s' = sSnapshot s) \<and>
     (err = None \<longrightarrow> dTerm (sState s') = T \<and> dVote (sState s') = v \<and> dCommit (sState s') = c \<and>
      dBase (sState s') = dBase (sState s) \<and> sSnapshot s' = sSnapshot s \<and>
      dLog (sState s') = (if f = 0 then dLog (sState s) else take (f - dBase (sState s)) (dLog (sState s)) @ es))"
    using wf j
  proof (cases rule: save_cases [where T = T and v = v and c = c and f = f and es = es])
    case (rejected e)
    then show ?thesis using sv wf j rf by simp
  next
    case (failed e j' e')
    then show ?thesis using sv wf rf by (auto simp: wf_store_def)
  next
    case (saved t j')
    have p: "jCheckpoint (plain_record s T v c f es) = None" by (simp add: plain_record_def)
    note ap = accept_plain [OF st p saved(1,3)]
    have wt: "wf_store t" using accept_wf [OF wf saved(1,3)] .
    have s': "s' = t\<lparr>sWal := Some j'\<rparr>" "err = None" using saved(4) sv by simp_all
    have "sSnapshot t = sSnapshot s \<and> sIdentity t = sIdentity s \<and> dTerm (sState t) = T \<and> dVote (sState t) = v \<and>
        dCommit (sState t) = c \<and> dBase (sState t) = dBase (sState s) \<and>
        dLog (sState t) = (if f = 0 then dLog (sState s) else take (f - dBase (sState s)) (dLog (sState s)) @ es)"
      using saved(3) by (auto simp: accept_def plain_record_def Let_def split: if_splits)
    then show ?thesis using s' ap wt by (auto simp: wf_store_def)
  qed
  then show "wf_store s'" "state_le (sState s) (sState s')" "sWal s' \<noteq> None" "sIdentity s' = sIdentity s"
    and "err \<noteq> None \<Longrightarrow> sState s' = sState s \<and> sSnapshot s' = sSnapshot s"
    and "err = None \<Longrightarrow> dTerm (sState s') = T \<and> dVote (sState s') = v \<and> dCommit (sState s') = c \<and>
      dBase (sState s') = dBase (sState s) \<and> sSnapshot s' = sSnapshot s \<and>
      dLog (sState s') = (if f = 0 then dLog (sState s) else take (f - dBase (sState s)) (dLog (sState s)) @ es)"
    by blast+
qed

lemma save_total:
  assumes "wf_store s" "sWal s \<noteq> None"
  shows "save s T v c f es \<noteq> None"
proof -
  from assms obtain j where "sWal s = Some j" by auto
  with assms(1) show ?thesis
    by (cases rule: save_cases [where T = T and v = v and c = c and f = f and es = es]) auto
qed

section \<open>The journal carries the state\<close>

text \<open>
  \<open>journal_gives s t\<close>: opening the journal of \<open>s\<close> rebuilds \<open>t\<close> (but for its handle).  While no
  write has failed, \<open>t\<close> is \<open>s\<close> itself; after a failed write, \<open>t\<close> is \<open>s\<close> or \<open>s\<close> with the failed
  record accepted.
\<close>

definition journal_gives :: "diskStore \<Rightarrow> diskStore \<Rightarrow> bool" where
  "journal_gives s t \<longleftrightarrow>
     (\<exists>j. sWal s = Some j \<and> journal_records j \<noteq> [] \<and>
          replay_records (journal_records j) (initStore (sIdentity s)) = Some (None, t\<lparr>sWal := None\<rparr>))"

lemma journal_gives_open:
  assumes "journal_gives s t" "sWal s = Some j"
  shows "openStoreUsing (sIdentity s) None j = Some (Inr (t\<lparr>sWal := Some (reopened j)\<rparr>))"
  using assms by (auto simp: journal_gives_def openStoreUsing_def Let_def)

lemma replay_extend:
  assumes "replay_records rs (initStore i) = Some (None, t\<lparr>sWal := None\<rparr>)"
    and "validate t r = Some None" "accept t r = Some u"
  shows "replay_records (rs @ [r]) (initStore i) = Some (None, u\<lparr>sWal := None\<rparr>)"
  using assms by (simp add: replay_records_append)

lemma save_journal:
  assumes wf: "wf_store s" and g: "journal_gives s s" and sv: "save s T v c f es = Some (err, s')"
  shows "err = None \<Longrightarrow> journal_gives s' s'"
    and "\<exists>t. journal_gives s' t \<and> wf_store t \<and> state_le (sState s') (sState t)"
proof -
  obtain j where j: "sWal s = Some j" and ne: "journal_records j \<noteq> []"
    and rp: "replay_records (journal_records j) (initStore (sIdentity s)) = Some (None, s\<lparr>sWal := None\<rparr>)"
    using g by (auto simp: journal_gives_def)
  have st: "wf_state (sState s)" and rf: "state_le (sState s) (sState s)"
    using wf by (auto simp: wf_store_def wf_state_def intro: state_le_refl)
  have "(err = None \<longrightarrow> journal_gives s' s') \<and>
      (\<exists>t. journal_gives s' t \<and> wf_store t \<and> state_le (sState s') (sState t))"
    using wf j
  proof (cases rule: save_cases [where T = T and v = v and c = c and f = f and es = es])
    case (rejected e)
    then show ?thesis using sv g wf rf by auto
  next
    case (failed e j' e')
    let ?r = "plain_record s T v c f es"
    obtain u where u: "accept s ?r = Some u" using accept_total [OF st failed(1)] by auto
    have p: "jCheckpoint ?r = None" by (simp add: plain_record_def)
    have s': "s' = s\<lparr>sWal := Some j'\<rparr>" "err \<noteq> None" using failed(3) sv by auto
    from journal_append_err [OF failed(2)] show ?thesis
    proof
      assume "journal_records j' = journal_records j"
      then have "journal_gives s' s" using s' rp ne by (simp add: journal_gives_def)
      then show ?thesis using s' wf rf by auto
    next
      assume "journal_records j' = journal_records j @ [?r]"
      then have "journal_gives s' u"
        using s' replay_extend [OF rp failed(1) u] accept_wal [OF u] by (simp add: journal_gives_def)
      then show ?thesis
        using s' accept_wf [OF wf failed(1) u] accept_plain(2) [OF st p failed(1) u] by auto
    qed
  next
    case (saved t j')
    have s': "s' = t\<lparr>sWal := Some j'\<rparr>" "err = None" using saved(4) sv by simp_all
    have "journal_gives s' s'"
      using s' replay_extend [OF rp saved(1,3)] journal_append_ack [OF saved(2)] accept_wal [OF saved(3)]
      by (simp add: journal_gives_def)
    moreover have "wf_store s'" using s' accept_wf [OF wf saved(1,3)] by (auto simp: wf_store_def)
    ultimately show ?thesis
      by (auto simp: wf_store_def wf_state_def intro!: exI [of _ s'] state_le_refl)
  qed
  then show "err = None \<Longrightarrow> journal_gives s' s'"
    and "\<exists>t. journal_gives s' t \<and> wf_store t \<and> state_le (sState s') (sState t)" by blast+
qed

section \<open>Opening\<close>

lemma sWal_None: "sWal z = None \<Longrightarrow> z\<lparr>sWal := None\<rparr> = z"
  by (cases z) simp

lemma openStoreUsing_ok:
  assumes "openStoreUsing identity openErr j = Some (Inr s)"
  shows "wf_store s" "journal_gives s s" "sIdentity s = identity"
proof -
  let ?i = "initStore identity"
  obtain err t where rp: "replay_records (journal_records j) ?i = Some (err, t)"
    using assms by (auto simp: openStoreUsing_def)
  have err: "err = None" "openErr = None"
    using assms rp by (auto simp: openStoreUsing_def split: option.splits)
  have t: "wf_store t" "sIdentity t = identity" "sWal t = None"
    using replay_records_wf(2) [OF wf_store_init rp] by (auto simp: initStore_def)
  let ?t = "t\<lparr>sWal := Some (reopened j)\<rparr>"
  have wt: "wf_store ?t" using t(1) by (simp add: wf_store_def)
  have "wf_store s \<and> journal_gives s s \<and> sIdentity s = identity"
  proof (cases "journal_records j = []")
    case False
    then have "s = ?t" using assms rp err by (simp add: openStoreUsing_def Let_def)
    then show ?thesis using wt rp err t False by (simp add: journal_gives_def)
  next
    case True
    then have ti: "t = ?i" using rp by simp
    obtain err' where sv: "save ?t 0 [] 0 0 [] = Some (err', s)" "err' = None"
      using assms rp err True by (auto simp: openStoreUsing_def Let_def split: option.splits)
    have w: "sWal ?t = Some (reopened j)" by simp
    have "journal_gives s s"
      using wt w
    proof (cases rule: save_cases [where T = 0 and v = "[]" and c = 0 and f = 0 and es = "[]"])
      case (saved u j')
      have "journal_records j' = [plain_record ?t 0 [] 0 0 []]"
        using journal_append_ack [OF saved(2)] True by simp
      moreover have "sIdentity u = identity" using accept_wal [OF saved(3)] t(2) by simp
      moreover obtain z where z: "accept ?i (plain_record ?t 0 [] 0 0 []) = Some z"
        "u = z\<lparr>sWal := Some (reopened j)\<rparr>"
        using saved(3) ti by auto
      moreover have "z\<lparr>sWal := None\<rparr> = z"
        using accept_wal [OF z(1)] by (intro sWal_None) (simp add: initStore_def)
      moreover have "s = z\<lparr>sWal := Some j'\<rparr>" using saved(4) sv(1) z(2) by simp
      ultimately show ?thesis
        using saved(1) ti t by (simp add: journal_gives_def)
    qed (use sv in auto)
    then show ?thesis using save_state(1,4) [OF wt w sv(1)] t(2) by simp
  qed
  then show "wf_store s" "journal_gives s s" "sIdentity s = identity" by blast+
qed

lemma openStoreUsing_total: "openStoreUsing identity openErr j \<noteq> None"
proof -
  obtain err t where rp: "replay_records (journal_records j) (initStore identity) = Some (err, t)"
    using replay_records_wf(1) [OF wf_store_init, of "journal_records j" identity] by fastforce
  have "wf_store (t\<lparr>sWal := Some (reopened j)\<rparr>)"
    using replay_records_wf(2) [OF wf_store_init rp] by (simp add: wf_store_def)
  from save_total [OF this] obtain err' s' where "save (t\<lparr>sWal := Some (reopened j)\<rparr>) 0 [] 0 0 [] = Some (err', s')"
    by fastforce
  then show ?thesis using rp by (auto simp: openStoreUsing_def Let_def split: option.splits)
qed

section \<open>Checkpoints\<close>

definition checkpoint_record :: "diskStore \<Rightarrow> Snapshot \<Rightarrow> nat \<Rightarrow> journalRecord" where
  "checkpoint_record s machine index =
     (let st = sState s; offset = index - dBase st in
      \<lparr>jIdentity = sIdentity s, jTerm = 0, jVote = [], jCommit = 0, jFrom = 0, jEntries = [],
       jCheckpoint = Some \<lparr>ckIndex = index, ckTerm = eTerm (dLog st ! offset), ckMachine = machine,
         ckRaftTerm = dTerm st, ckVote = dVote st, ckCommit = dCommit st, ckLog = drop offset (dLog st)\<rparr>\<rparr>)"

definition compacted :: "diskStore \<Rightarrow> Snapshot \<Rightarrow> nat \<Rightarrow> diskStore" where
  "compacted s machine index =
     s\<lparr>sState := (sState s)\<lparr>dBase := index, dLog := drop (index - dBase (sState s)) (dLog (sState s))\<rparr>,
       sSnapshot := machine\<rparr>"

lemma checkpoint_record_valid:
  assumes wf: "wf_store s" and i: "dBase (sState s) \<le> index" "index \<le> dCommit (sState s)"
    and m: "fst (Restore New_Machine machine) = None"
  shows "validate s (checkpoint_record s machine index) = Some None"
    and "validate (initStore (sIdentity s)) (checkpoint_record s machine index) = Some None"
    and "accept s (checkpoint_record s machine index) = Some (compacted s machine index)"
    and "accept (initStore (sIdentity s)) (checkpoint_record s machine index)
         = Some ((compacted s machine index)\<lparr>sWal := None\<rparr>)"
proof -
  let ?st = "sState s" and ?k = "index - dBase (sState s)"
  have st: "wf_state ?st" using wf by (simp add: wf_store_def)
  have k: "?k < length (dLog ?st)" using st i by (auto simp: wf_state_def)
  have hdk: "hd (drop ?k (dLog ?st)) = dLog ?st ! ?k" using k by (rule hd_drop_conv_nth)
  have "eIndex (dLog ?st ! ?k) = index" using wf_state_nth(1) [OF st k] i by simp
  moreover have "wf_entries (Suc index) (dTerm ?st) (eTerm (dLog ?st ! ?k)) (tl (drop ?k (dLog ?st)))"
  proof (cases ?k)
    case 0
    then show ?thesis using st i by (auto simp: wf_state_def hd_conv_nth)
  next
    case (Suc n)
    then have "n < length (tl (dLog ?st))" using k by simp
    moreover have "Suc (dBase ?st) + n + 1 = Suc index" "tl (dLog ?st) ! n = dLog ?st ! ?k"
      using Suc i k by (auto simp: nth_tl)
    moreover have "drop (Suc n) (tl (dLog ?st)) = tl (drop ?k (dLog ?st))"
      using Suc by (simp add: tl_drop drop_Suc)
    ultimately show ?thesis
      using wf_entries_drop [of "Suc (dBase ?st)" "dTerm ?st" "eTerm (hd (dLog ?st))" "tl (dLog ?st)" n] st
      by (simp add: wf_state_def)
  qed
  then have "check_entries ''invalid checkpoint log'' (Suc index) (dTerm ?st) (eTerm (dLog ?st ! ?k))
      (tl (drop ?k (dLog ?st))) = None"
    by (simp add: check_entries_None_iff)
  ultimately show "validate s (checkpoint_record s machine index) = Some None"
    and "validate (initStore (sIdentity s)) (checkpoint_record s machine index) = Some None"
    using k i m hdk st
    by (auto simp: validate_def validate_checkpoint_def checkpoint_record_def Let_def
        initStore_def wf_state_def)
  show "accept s (checkpoint_record s machine index) = Some (compacted s machine index)"
    and "accept (initStore (sIdentity s)) (checkpoint_record s machine index)
         = Some ((compacted s machine index)\<lparr>sWal := None\<rparr>)"
    by (simp_all add: accept_def checkpoint_record_def compacted_def initStore_def Let_def)
qed

lemma compacted_state:
  assumes wf: "wf_store s" and i: "dBase (sState s) \<le> index" "index \<le> dCommit (sState s)"
  shows "state_le (sState s) (sState (compacted s machine index))"
    and "index \<le> k \<Longrightarrow> store_entry (compacted s machine index) k = store_entry s k"
    and "store_last (compacted s machine index) = store_last s"
proof -
  have l: "index - dBase (sState s) < length (dLog (sState s))"
    using assms by (auto simp: wf_store_def wf_state_def)
  show e: "index \<le> k \<Longrightarrow> store_entry (compacted s machine index) k = store_entry s k" for k
    using i l by (auto simp: store_entry_def compacted_def Let_def)
  show "state_le (sState s) (sState (compacted s machine index))"
    using i e unfolding store_entry_log_at by (auto simp: state_le_def compacted_def hard_le_def)
  show "store_last (compacted s machine index) = store_last s"
    using i l by (simp add: store_last_def compacted_def)
qed

lemma take_checkpoint_cases:
  assumes wf: "wf_store s" and j: "sWal s = Some j"
    and i: "dBase (sState s) < index" "index \<le> dCommit (sState s)"
    and m: "fst (Restore New_Machine machine) = None"
  obtains (unsupported) e where "take_checkpoint s machine index = Some (Some e, s)"
    | (failed) e e' j' where "take_checkpoint s machine index = Some (Some e, s\<lparr>sWal := Some j'\<rparr>)"
        "journal_replace j [checkpoint_record s machine index] = Some (Some e', j')"
    | (taken) j' where "take_checkpoint s machine index = Some (None, (compacted s machine index)\<lparr>sWal := Some j'\<rparr>)"
        "journal_replace j [checkpoint_record s machine index] = Some (None, j')"
proof -
  let ?r = "checkpoint_record s machine index"
  have st: "wf_state (sState s)" using wf by (simp add: wf_store_def)
  then have le: "index \<le> store_last s" using i(2) wf_state_last by (blast intro: le_trans)
  obtain e where e: "store_entry s index = Some e"
    using store_entry_get [OF st _ le] i by auto
  have r: "?r = \<lparr>jIdentity = sIdentity s, jTerm = 0, jVote = [], jCommit = 0, jFrom = 0, jEntries = [],
      jCheckpoint = Some \<lparr>ckIndex = index, ckTerm = eTerm e, ckMachine = machine,
         ckRaftTerm = dTerm (sState s), ckVote = dVote (sState s), ckCommit = dCommit (sState s),
         ckLog = drop (index - dBase (sState s)) (dLog (sState s))\<rparr>\<rparr>"
    using store_entry_SomeD(3) [OF e] by (simp add: checkpoint_record_def Let_def)
  note v = checkpoint_record_valid [OF wf _ i(2) m]
  have tk: "take_checkpoint s machine index =
      (case journal_replace j [?r] of
         None \<Rightarrow> Some (Some (ErrText ''journal does not support compaction''), s)
       | Some (Some e, wal') \<Rightarrow> Some (Some (ErrWrap ''persist checkpoint'' e), s\<lparr>sWal := Some wal'\<rparr>)
       | Some (None, wal') \<Rightarrow> Some (None, (compacted s machine index)\<lparr>sWal := Some wal'\<rparr>))"
    using i le e v(1,3) j
    by (auto simp: take_checkpoint_def Let_def r [symmetric] split: option.splits)
  show thesis
  proof (cases "journal_replace j [?r]")
    case None
    then show thesis using tk by (intro unsupported) simp
  next
    case (Some p)
    then show thesis using tk by (cases p; cases "fst p") (auto intro: taken failed)
  qed
qed

lemma take_checkpoint_state:
  assumes wf: "wf_store s" and g: "journal_gives s s"
    and i: "dBase (sState s) < index" "index \<le> dCommit (sState s)"
    and m: "fst (Restore New_Machine machine) = None"
    and tk: "take_checkpoint s machine index = Some (err, s')"
  shows "wf_store s'" "sIdentity s' = sIdentity s" "sWal s' \<noteq> None"
    and "err = None \<Longrightarrow> journal_gives s' s' \<and> sState s' = sState (compacted s machine index) \<and> sSnapshot s' = machine"
    and "err \<noteq> None \<Longrightarrow> sState s' = sState s \<and> sSnapshot s' = sSnapshot s"
    and "\<exists>t. journal_gives s' t \<and> wf_store t \<and> state_le (sState s') (sState t)"
proof -
  obtain j where j: "sWal s = Some j" and ne: "journal_records j \<noteq> []"
    and rp: "replay_records (journal_records j) (initStore (sIdentity s)) = Some (None, s\<lparr>sWal := None\<rparr>)"
    using g by (auto simp: journal_gives_def)
  let ?c = "compacted s machine index" and ?r = "checkpoint_record s machine index"
  have i': "dBase (sState s) \<le> index" using i by simp
  note v = checkpoint_record_valid [OF wf i' i(2) m]
  have wc: "wf_store ?c" using accept_wf [OF wf v(1) v(3)] .
  have one: "replay_records [?r] (initStore (sIdentity s)) = Some (None, ?c\<lparr>sWal := None\<rparr>)"
    using v(2,4) by simp
  have rf: "state_le (sState t) (sState t)" if "wf_store t" for t
    using that by (auto simp: wf_store_def wf_state_def intro: state_le_refl)
  have idc: "sIdentity ?c = sIdentity s" by (simp add: compacted_def)
  have "wf_store s' \<and> sIdentity s' = sIdentity s \<and> sWal s' \<noteq> None \<and>
     (err = None \<longrightarrow> journal_gives s' s' \<and> sState s' = sState ?c \<and> sSnapshot s' = machine) \<and>
     (err \<noteq> None \<longrightarrow> sState s' = sState s \<and> sSnapshot s' = sSnapshot s) \<and>
     (\<exists>t. journal_gives s' t \<and> wf_store t \<and> state_le (sState s') (sState t))"
    using wf j i m
  proof (cases rule: take_checkpoint_cases)
    case (unsupported e)
    then show ?thesis using tk wf g j rf by auto
  next
    case (failed e e' j')
    have s': "s' = s\<lparr>sWal := Some j'\<rparr>" "err = Some e" using failed tk by auto
    from journal_replace_err [OF failed(2)] have "journal_gives s' s \<or> journal_gives s' ?c"
      using s' rp one ne by (auto simp: journal_gives_def idc)
    then show ?thesis
      using s' wf wc rf compacted_state(1) [OF wf i' i(2)] by (auto simp: wf_store_def)
  next
    case (taken j')
    have s': "s' = ?c\<lparr>sWal := Some j'\<rparr>" "err = None" using taken tk by auto
    have "journal_gives s' s'"
      using s' one journal_replace_ack [OF taken(2)] by (simp add: journal_gives_def idc)
    moreover have "wf_store s'" using wc s' by (simp add: wf_store_def)
    moreover have "sSnapshot s' = machine" "sIdentity s' = sIdentity s"
      using s'(1) by (simp_all add: compacted_def)
    ultimately show ?thesis using s' rf [of s'] by auto
  qed
  then show "wf_store s'" "sIdentity s' = sIdentity s" "sWal s' \<noteq> None"
    and "err = None \<Longrightarrow> journal_gives s' s' \<and> sState s' = sState (compacted s machine index) \<and> sSnapshot s' = machine"
    and "err \<noteq> None \<Longrightarrow> sState s' = sState s \<and> sSnapshot s' = sSnapshot s"
    and "\<exists>t. journal_gives s' t \<and> wf_store t \<and> state_le (sState s') (sState t)"
    by blast+
qed

section \<open>Sequences of writes\<close>

text \<open>What the node does with its store: saves and checkpoints, until one of them fails.\<close>

datatype store_write = Save u64 string nat nat "Entry list" | Compact Snapshot nat

primrec write_one :: "store_write \<Rightarrow> diskStore \<Rightarrow> (gerror option \<times> diskStore) option" where
  "write_one (Save T v c f es) s = save s T v c f es"
| "write_one (Compact m i) s = take_checkpoint s m i"

primrec run_writes :: "store_write list \<Rightarrow> diskStore \<Rightarrow> (gerror option \<times> diskStore) option" where
  "run_writes [] s = Some (None, s)"
| "run_writes (w # ws) s =
     do { (err, s') \<leftarrow> write_one w s; (if err = None then run_writes ws s' else Some (err, s')) }"

lemma take_checkpoint_refused:
  assumes wf: "wf_store s" and bad: "\<not> (dBase (sState s) < index \<and> index \<le> dCommit (sState s)) \<or>
      fst (Restore New_Machine machine) \<noteq> None"
  shows "\<exists>e. take_checkpoint s machine index = Some (Some e, s)"
proof (cases "index \<le> dBase (sState s) \<or> dCommit (sState s) < index \<or> store_last s < index")
  case True
  then show ?thesis by (auto simp: take_checkpoint_def)
next
  case False
  then have m: "fst (Restore New_Machine machine) \<noteq> None" using bad by auto
  have wst: "wf_state (sState s)" using wf by (simp add: wf_store_def)
  have "dBase (sState s) \<le> index" "index \<le> store_last s" using False by auto
  then obtain e where e: "store_entry s index = Some e" by (rule store_entry_get [OF wst])
  have "\<exists>x. validate_checkpoint s r c = Some x" if "ckMachine c = machine" for r c
    using m that by (auto simp: validate_checkpoint_def Let_def split: option.splits)
  then obtain x where x: "validate_checkpoint s (checkpoint_record s machine index) (the (jCheckpoint (checkpoint_record s machine index))) = Some x"
    by (fastforce simp: checkpoint_record_def Let_def)
  have "eTerm e = eTerm (dLog (sState s) ! (index - dBase (sState s)))" using store_entry_SomeD(3) [OF e] by simp
  then show ?thesis
    using False e x by (simp add: take_checkpoint_def Let_def validate_def checkpoint_record_def)
qed

lemma write_one_ok:
  assumes wf: "wf_store s" and g: "journal_gives s s" and w: "write_one w s = Some (err, s')"
  shows "wf_store s'" "sIdentity s' = sIdentity s" "state_le (sState s) (sState s')" "err = None \<Longrightarrow> journal_gives s' s'"
    and "\<exists>t. journal_gives s' t \<and> wf_store t \<and> state_le (sState s') (sState t)"
proof -
  obtain j where j: "sWal s = Some j" using g by (auto simp: journal_gives_def)
  have wst: "wf_state (sState s)" using wf by (simp add: wf_store_def)
  have refl: "state_le (sState s) (sState s)" using wst by (intro state_le_refl) (simp add: wf_state_def)
  have "wf_store s' \<and> sIdentity s' = sIdentity s \<and> state_le (sState s) (sState s') \<and> (err = None \<longrightarrow> journal_gives s' s') \<and>
    (\<exists>t. journal_gives s' t \<and> wf_store t \<and> state_le (sState s') (sState t))"
  proof (cases w)
    case (Save T v c f es)
    then have sv: "save s T v c f es = Some (err, s')" using w by simp
    show ?thesis using save_state [OF wf j sv] save_journal [OF wf g sv] by blast
  next
    case (Compact m i)
    then have tk: "take_checkpoint s m i = Some (err, s')" using w by simp
    show ?thesis
    proof (cases "dBase (sState s) < i \<and> i \<le> dCommit (sState s) \<and> fst (Restore New_Machine m) = None")
      case True
      then have c: "dBase (sState s) < i" "i \<le> dCommit (sState s)" "fst (Restore New_Machine m) = None" by auto
      note t = take_checkpoint_state [OF wf g c tk]
      have "state_le (sState s) (sState s')"
        using t(4,5) refl compacted_state(1) [OF wf less_imp_le [OF c(1)] c(2), of m] by (cases err) auto
      then show ?thesis using t by blast
    next
      case False
      then obtain e where "take_checkpoint s m i = Some (Some e, s)" using take_checkpoint_refused [OF wf] by blast
      then show ?thesis using tk wf g refl by auto
    qed
  qed
  then show "wf_store s'" "sIdentity s' = sIdentity s" "state_le (sState s) (sState s')" "err = None \<Longrightarrow> journal_gives s' s'"
    "\<exists>t. journal_gives s' t \<and> wf_store t \<and> state_le (sState s') (sState t)"
    by auto
qed

lemma write_one_total:
  assumes wf: "wf_store s" and g: "journal_gives s s"
  shows "write_one w s \<noteq> None"
proof (cases w)
  case (Save T v c f es)
  then show ?thesis using save_total [OF wf] g by (auto simp: journal_gives_def)
next
  case (Compact m i)
  obtain j where j: "sWal s = Some j" using g by (auto simp: journal_gives_def)
  show ?thesis
  proof (cases "dBase (sState s) < i \<and> i \<le> dCommit (sState s) \<and> fst (Restore New_Machine m) = None")
    case True
    then have c: "dBase (sState s) < i" "i \<le> dCommit (sState s)" "fst (Restore New_Machine m) = None" by auto
    show ?thesis by (rule take_checkpoint_cases [OF wf j c]) (simp_all add: Compact)
  next
    case False
    then show ?thesis using take_checkpoint_refused [OF wf, of i m] Compact by auto
  qed
qed

lemma run_writes_ok:
  assumes "wf_store s" "journal_gives s s" "run_writes ws s = Some (err, s')"
  shows "sIdentity s' = sIdentity s \<and> state_le (sState s) (sState s') \<and> (err = None \<longrightarrow> journal_gives s' s') \<and>
    (\<exists>t. journal_gives s' t \<and> wf_store t \<and> state_le (sState s') (sState t))"
  using assms
proof (induction ws arbitrary: s)
  case Nil
  then have "state_le (sState s) (sState s)"
    by (intro state_le_refl) (simp add: wf_store_def wf_state_def)
  then show ?case using Nil by auto
next
  case (Cons w ws)
  obtain e s1 where w: "write_one w s = Some (e, s1)" using Cons.prems(3) by auto
  note o = write_one_ok [OF Cons.prems(1,2) w]
  show ?case
  proof (cases e)
    case None
    then have "run_writes ws s1 = Some (err, s')" using Cons.prems(3) w by simp
    from Cons.IH [OF o(1) o(4) [OF None] this] show ?thesis using o(2,3) by (auto intro: state_le_trans)
  next
    case (Some x)
    then show ?thesis using Cons.prems(3) w o by auto
  qed
qed

lemma run_writes_total:
  assumes "wf_store s" "journal_gives s s"
  shows "run_writes ws s \<noteq> None"
  using assms
proof (induction ws arbitrary: s)
  case (Cons w ws)
  obtain e s1 where w: "write_one w s = Some (e, s1)" using write_one_total [OF Cons.prems] by fastforce
  note o = write_one_ok [OF Cons.prems w]
  show ?case using Cons.IH [OF o(1,4)] w by (cases e) simp_all
qed simp

lemma store_reopens:
  assumes "openStoreUsing identity None j0 = Some (Inr s0)"
  obtains err s j t where "run_writes ws s0 = Some (err, s)" "sWal s = Some j" "state_le (sState s0) (sState s)"
    "openStoreUsing identity None j = Some (Inr t)" "state_le (sState s) (sState t)"
    "err = None \<longrightarrow> sState t = sState s \<and> sSnapshot t = sSnapshot s"
proof -
  note o = openStoreUsing_ok [OF assms]
  obtain err s where r: "run_writes ws s0 = Some (err, s)" using run_writes_total [OF o(1,2)] by fastforce
  note k = run_writes_ok [OF o(1,2) r]
  obtain j where j: "sWal s = Some j" using k by (auto simp: journal_gives_def)
  have op: "openStoreUsing identity None j = Some (Inr (t\<lparr>sWal := Some (reopened j)\<rparr>))" if "journal_gives s t" for t
    using journal_gives_open [OF that j] k o(3) by simp
  show thesis
  proof (cases err)
    case None
    moreover have "state_le (sState s) (sState s)"
      using k by (auto simp: state_le_def hard_le_def)
    ultimately show thesis using that [OF r j _ op, of s] k by simp
  next
    case (Some e)
    then obtain t where "journal_gives s t" "state_le (sState s) (sState t)" using k by auto
    then show thesis using that [OF r j _ op, of t] k Some by simp
  qed
qed

section \<open>Properties\<close>

definition wDisk :: "fault list \<Rightarrow> journalRecord journal" where
  "wDisk fs = Log \<lparr>lrecords = [], lscript = fs, lfailed = None\<rparr>"

definition wStore :: "fault list \<Rightarrow> diskStore" where
  "wStore fs = (case openStoreUsing ''id'' None (wDisk fs) of Some (Inr s) \<Rightarrow> s | _ \<Rightarrow> initStore [])"

definition wEntry :: "nat \<Rightarrow> u64 \<Rightarrow> Entry" where
  "wEntry i T = \<lparr>eIndex = i, eTerm = T, eCommand = None\<rparr>"

lemma wStore_open: "fs = [] \<or> hd fs = Succeeds \<Longrightarrow> openStoreUsing ''id'' None (wDisk fs) = Some (Inr (wStore fs))"
  by (cases fs) (auto simp: wStore_def wDisk_def openStoreUsing_def initStore_def save_def validate_def accept_def
      store_entry_def Append_log_def next_fault_def Let_def)

text \<open>
  C21.  Recovery of the Raft state: a store opened on a journal and written to by any sequence of saves and
  checkpoints never panics and only moves forward (terms, votes, commit index and committed entries are kept).
  Reopening its journal yields exactly the state in memory if every write was acknowledged, and otherwise a state
  that is at least as far as the one in memory: no acknowledged term, vote or committed entry is ever lost.
\<close>

theorem store_recovers:
  assumes "openStoreUsing identity None j0 = Some (Inr s0)"
  shows "\<exists>err s j t. run_writes ws s0 = Some (err, s) \<and> sWal s = Some j \<and> state_le (sState s0) (sState s) \<and>
    openStoreUsing identity None j = Some (Inr t) \<and> state_le (sState s) (sState t) \<and>
    (err = None \<longrightarrow> sState t = sState s \<and> sSnapshot t = sSnapshot s)"
  by (rule store_reopens [OF assms, of ws]) blast

theorem store_recovers_witness:
  "\<exists>err s j t. run_writes [Save 1 ''a'' 0 1 [wEntry 1 1], Save 1 ''a'' 1 0 []] (wStore [Succeeds, Succeeds, FailsKept]) =
      Some (err, s) \<and> err \<noteq> None \<and> sWal s = Some j \<and> openStoreUsing ''id'' None j = Some (Inr t) \<and>
      state_le (sState s) (sState t) \<and> dCommit (sState s) = 0"
proof -
  let ?ws = "[Save 1 ''a'' 0 1 [wEntry 1 1], Save 1 ''a'' 1 0 []]" and ?fs = "[Succeeds, Succeeds, FailsKept]"
  have "(case run_writes ?ws (wStore ?fs) of Some (err, s) \<Rightarrow> err \<noteq> None \<and> dCommit (sState s) = 0 | None \<Rightarrow> False)"
    by code_simp
  then show ?thesis using store_recovers [OF wStore_open [of ?fs], of ?ws] by auto
qed

text \<open>
  C24.  A vote cannot be taken back: once a save with a vote has been acknowledged, no later sequence of writes, and no
  crash and reopening after any of them, shows another vote in that term or an earlier term.
\<close>

theorem vote_is_final:
  assumes "openStoreUsing identity None j0 = Some (Inr s0)" "save s0 T v c f es = Some (None, s1)" "v \<noteq> []"
    and "run_writes ws s1 = Some (err, s)" "sWal s = Some j" "openStoreUsing identity None j = Some (Inr t)"
    and "st = sState s \<or> st = sState t"
  shows "T < dTerm st \<or> dTerm st = T \<and> dVote st = v"
proof -
  note o = openStoreUsing_ok [OF assms(1)]
  obtain j1 where j1: "sWal s0 = Some j1" using o(2) by (auto simp: journal_gives_def)
  note s1 = save_state [OF o(1) j1 assms(2)] save_journal(1) [OF o(1,2) assms(2)]
  note k = run_writes_ok [OF s1(1) _ assms(4)]
  have le: "state_le (sState s1) (sState s)" using k s1(7) by simp
  obtain t' where t': "journal_gives s t'" "state_le (sState s) (sState t')" using k s1(7) by auto
  have "openStoreUsing identity None j = Some (Inr (t'\<lparr>sWal := Some (reopened j)\<rparr>))"
    using journal_gives_open [OF t'(1) assms(5)] k s1(4,7) o(3) by simp
  then have "state_le (sState s) (sState t)" using t'(2) assms(6) by simp
  then have "hard_le (sState s1) st" using le assms(7) by (auto simp: state_le_def intro: hard_le_trans)
  then show ?thesis using s1(6) assms(3) by (auto simp: hard_le_def)
qed

theorem vote_is_final_witness:
  "\<exists>s j t. run_writes [Save 2 ''b'' 0 0 []] (snd (the (save (wStore []) 1 ''a'' 0 0 []))) = Some (None, s) \<and> sWal s = Some j \<and>
     openStoreUsing ''id'' None j = Some (Inr t) \<and> (1 < dTerm (sState t) \<or> dTerm (sState t) = 1 \<and> dVote (sState t) = ''a'')"
proof -
  let ?s1 = "snd (the (save (wStore []) 1 ''a'' 0 0 []))"
  have "(case save (wStore []) 1 ''a'' 0 0 [] of Some (e, _) \<Rightarrow> e = None | None \<Rightarrow> False)" by code_simp
  then have s1: "save (wStore []) 1 ''a'' 0 0 [] = Some (None, ?s1)" by (auto split: option.splits)
  have e: "(case run_writes [Save 2 ''b'' 0 0 []] ?s1 of Some (e, _) \<Rightarrow> e = None | None \<Rightarrow> False)" by code_simp
  obtain err s j t where w: "run_writes [Save 1 ''a'' 0 0 [], Save 2 ''b'' 0 0 []] (wStore []) = Some (err, s)"
    and r: "sWal s = Some j" "openStoreUsing ''id'' None j = Some (Inr t)"
    by (rule store_reopens [OF wStore_open, of "[]" "[Save 1 ''a'' 0 0 [], Save 2 ''b'' 0 0 []]"]) auto
  have w': "run_writes [Save 2 ''b'' 0 0 []] ?s1 = Some (None, s)" using w s1 e by (auto split: option.splits)
  show ?thesis using vote_is_final [OF wStore_open s1 _ w' r, of "sState t"] w' r by auto
qed

end
