(* ===== verification/Node.thy ===== *)
theory Node
  imports Store Events
begin

text \<open>
  A Raft node: the state and the transition functions of \<^verbatim>\<open>internal/raft/node.go\<close>,
  \<^verbatim>\<open>internal/raft/runtime.go\<close> and \<^verbatim>\<open>internal/raft/rpc.go\<close>.  Every function here runs while the
  node's mutex is held, so it is one atomic function on the state; \<open>None\<close> is a runtime panic.  The
  argument \<open>en\<close> supplies what the runtime hooks answer during the call: the clock and the random
  draw for the election timer.  Reply channels live in the node's \<open>chans\<close>, addressed by number; a
  send appends to the channel's buffer.  In manual mode messages are put into the outbox; in live
  mode the goroutines that perform the calls are recorded in \<open>calls\<close> and the replicators are woken
  through \<open>wake\<close>.  Logging is left out.
\<close>

section \<open>State\<close>

datatype Role = Follower | Candidate | Leader

record Env =
  Now :: int
  Int64N :: "int \<Rightarrow> int"

record waiter =
  readKey :: "string option"
  wdone :: nat

type_synonym outcome = "Result \<times> gerror option"

record Message =
  mSequence :: nat
  mFrom :: string
  mTo :: string
  mVote :: "VoteRequest option"
  mAppend :: "AppendRequest option"

record Node =
  cfg :: Config
  peers :: "(string, Peer) fmap"
  store :: diskStore
  machine :: Machine
  role :: Role
  leader :: string
  applied :: nat
  nextIndex :: "string \<Rightarrow> nat"
  matchIndex :: "string \<Rightarrow> nat"
  wake :: "string \<rightharpoonup> bool"
  pending :: "(nat, waiter) fmap"
  chans :: "nat \<Rightarrow> outcome list"
  chanCount :: nat
  deadline :: int
  failed :: "gerror option"
  closed :: bool
  manual :: bool
  outbox :: "Message list"
  calls :: "Message list"
  busy :: "string \<Rightarrow> nat"
  votes :: "string fset option"
  sequence :: nat
  paused :: bool
  events :: Buffer
  bootID :: string

abbreviation state :: "Node \<Rightarrow> durableState" where
  "state n \<equiv> sState (store n)"

section \<open>Small helpers\<close>

definition lastLocked :: "Node \<Rightarrow> nat" where
  "lastLocked n = store_last (store n)"

definition entryLocked :: "Node \<Rightarrow> nat \<Rightarrow> Entry option" where
  "entryLocked n index = store_entry (store n) index"

definition peerOf :: "Node \<Rightarrow> string \<Rightarrow> Peer" where
  "peerOf n i = (case fmlookup (peers n) i of Some p \<Rightarrow> p | None \<Rightarrow> zeroPeer)"

definition resetTimerLocked :: "Env \<Rightarrow> Node \<Rightarrow> Node" where
  "resetTimerLocked en n =
     n\<lparr>deadline := Now en + (ElectionMin (cfg n) + Int64N en (ElectionMax (cfg n) - ElectionMin (cfg n)))\<rparr>"

definition leaderErrorLocked :: "Node \<Rightarrow> gerror" where
  "leaderErrorLocked n = NotLeaderError (leader n) (ClientURL (peerOf n (leader n)))"

definition availableLocked :: "Node \<Rightarrow> bool" where
  "availableLocked n \<longleftrightarrow> \<not> closed n \<and> \<not> paused n \<and> failed n = None"

definition emitLocked :: "Env \<Rightarrow> string \<Rightarrow> nat \<Rightarrow> string \<Rightarrow> string \<Rightarrow> string \<Rightarrow> Node \<Rightarrow> Node" where
  "emitLocked en kind index peer message detail n =
     n\<lparr>events := Publish \<lparr>evID = 0, evTime = Now en, evNodeID = cID (cfg n), evType = kind,
         evTerm = dTerm (state n), evIndex = index, evPeer = peer, evMessageID = message,
         evDetail = detail\<rparr> (events n)\<rparr>"

definition send_outcome :: "nat \<Rightarrow> outcome \<Rightarrow> (nat \<Rightarrow> outcome list) \<Rightarrow> nat \<Rightarrow> outcome list" where
  "send_outcome c out ch = ch(c := ch c @ [out])"

definition failPendingLocked :: "gerror \<Rightarrow> Node \<Rightarrow> Node" where
  "failPendingLocked err n =
     n\<lparr>chans := foldl (\<lambda>ch (index, w). send_outcome (wdone w) (zeroResult, Some err) ch) (chans n)
         (sorted_list_of_fmap (pending n)),
       pending := fmempty\<rparr>"

definition messageID :: "Node \<Rightarrow> string" where
  "messageID n = bootID n @ ''/'' @ decimal (sequence n)"

section \<open>Persistence and stepping down\<close>

definition persistLocked :: "Env \<Rightarrow> u64 \<Rightarrow> string \<Rightarrow> nat \<Rightarrow> nat \<Rightarrow> Entry list \<Rightarrow> Node \<Rightarrow> (bool \<times> Node) option" where
  "persistLocked en trm vote commit from entries n =
     do {
       (err, st) \<leftarrow> save (store n) trm vote commit from entries;
       (let n1 = n\<lparr>store := st\<rparr> in
        case err of
          Some e \<Rightarrow>
            (let n2 = emitLocked en ''DISK_ERROR'' 0 [] [] [] (n1\<lparr>failed := Some e\<rparr>)
             in Some (False, failPendingLocked ErrUnavailable (n2\<lparr>role := Follower, leader := []\<rparr>)))
        | None \<Rightarrow> Some (True, n1))
     }"

definition stepDownLocked :: "Env \<Rightarrow> u64 \<Rightarrow> string \<Rightarrow> Node \<Rightarrow> (bool \<times> Node) option" where
  "stepDownLocked en trm ldr n =
     (let changed = (role n \<noteq> Follower \<or> dTerm (state n) < trm) in
      do {
        (ok, n1) \<leftarrow> (if dTerm (state n) < trm
                     then persistLocked en trm [] (dCommit (state n)) 0 [] n else Some (True, n));
        (if \<not> ok then Some (False, n1)
         else
           (let n2 = n1\<lparr>role := Follower, leader := ldr\<rparr>;
                n3 = (if changed then emitLocked en ''STEPPED_DOWN'' 0 ldr [] [] n2 else n2)
            in Some (True, failPendingLocked (leaderErrorLocked n3) n3)))
      })"

section \<open>Sending log entries\<close>

definition entry_size :: "Entry \<Rightarrow> nat" where
  "entry_size e =
     (case eCommand e of
        None \<Rightarrow> 1024
      | Some c \<Rightarrow> 1024 + 6 * (length (Key c) + length (Value c) + length (Expected c) + length (ClientID c)))"

text \<open>The batching loop: at most \<open>room\<close> more entries, starting at \<open>end_index\<close>.\<close>

primrec batch_end :: "Node \<Rightarrow> nat \<Rightarrow> nat \<Rightarrow> nat \<Rightarrow> nat option" where
  "batch_end n 0 end_index bytes = Some end_index"
| "batch_end n (Suc room) end_index bytes =
     (if end_index \<le> lastLocked n then
        do {
          e \<leftarrow> entryLocked n end_index;
          (if 15 * 1048576 < bytes + entry_size e then Some end_index
           else batch_end n room (Suc end_index) (bytes + entry_size e))
        }
      else Some end_index)"

primrec entries_from :: "Node \<Rightarrow> nat \<Rightarrow> nat \<Rightarrow> Entry list option" where
  "entries_from n i 0 = Some []"
| "entries_from n i (Suc k) =
     do { e \<leftarrow> entryLocked n i; es \<leftarrow> entries_from n (Suc i) k; Some (e # es) }"

definition prepareAppendLocked :: "Env \<Rightarrow> Peer \<Rightarrow> Node \<Rightarrow> (AppendRequest \<times> Node) option" where
  "prepareAppendLocked en peer n =
     (let next0 = min (max 1 (nextIndex n (pID peer))) (lastLocked n + 1) in
      do {
        end_index \<leftarrow> batch_end n 32 next0 1024;
        (let b = dBase (state n);
             prev = (if next0 - 1 < b then b else next0 - 1);
             next1 = (if next0 - 1 < b then b + 1 else next0)
         in if end_index < next1 then None
            else
              do {
                es \<leftarrow> entries_from n next1 (end_index - next1);
                pe \<leftarrow> entryLocked n prev;
                (let n1 = n\<lparr>sequence := sequence n + 1\<rparr>;
                     req = \<lparr>aqMessageID = messageID n1, aqClusterID = ClusterID (cfg n),
                            aqTerm = dTerm (state n), LeaderID = cID (cfg n), PrevLogIndex = prev,
                            PrevLogTerm = eTerm pe, aqEntries = es, LeaderCommit = dCommit (state n)\<rparr>
                 in Some (req, emitLocked en ''APPEND_SENT'' (prev + length es) (pID peer) (aqMessageID req) [] n1))
              })
      })"

definition queueAppendLocked :: "Env \<Rightarrow> Peer \<Rightarrow> Node \<Rightarrow> Node option" where
  "queueAppendLocked en peer n =
     (if busy n (pID peer) \<noteq> 0 \<or> \<not> availableLocked n \<or> role n \<noteq> Leader then Some n
      else
        do {
          (req, n1) \<leftarrow> prepareAppendLocked en peer n;
          Some (n1\<lparr>busy := (busy n1)(pID peer := sequence n1),
                   outbox := outbox n1 @ [\<lparr>mSequence = sequence n1, mFrom = cID (cfg n1), mTo = pID peer,
                     mVote = None, mAppend = Some req\<rparr>]\<rparr>)
        })"

primrec queue_all :: "Env \<Rightarrow> Peer list \<Rightarrow> Node \<Rightarrow> Node option" where
  "queue_all en [] n = Some n"
| "queue_all en (p # ps) n =
     do { n1 \<leftarrow> (if pID p \<noteq> cID (cfg n) then queueAppendLocked en p n else Some n); queue_all en ps n1 }"

definition kickLocked :: "Env \<Rightarrow> Node \<Rightarrow> Node option" where
  "kickLocked en n =
     (if manual n then queue_all en (Peers (cfg n)) n
      else Some (n\<lparr>wake := (\<lambda>i. map_option (\<lambda>_. True) (wake n i))\<rparr>))"

section \<open>Applying and committing\<close>

definition maybeSnapshotLocked :: "Env \<Rightarrow> Node \<Rightarrow> Node option" where
  "maybeSnapshotLocked en n =
     (if SnapshotEvery (cfg n) = 0 \<or> dCommit (state n) - dBase (state n) < SnapshotEvery (cfg n)
         \<or> role n \<noteq> Leader then Some n
      else if \<not> fBall (fmdom (peers n)) (\<lambda>i. i = cID (cfg n) \<or> dCommit (state n) \<le> matchIndex n i) then Some n
      else
        do {
          (err, st) \<leftarrow> take_checkpoint (store n) (Snapshot_of (machine n)) (dCommit (state n));
          (let n1 = n\<lparr>store := st\<rparr> in
           case err of
             Some e \<Rightarrow>
               Some (emitLocked en ''DISK_ERROR'' 0 [] [] []
                 (failPendingLocked ErrUnavailable (n1\<lparr>failed := Some e, role := Follower, leader := []\<rparr>)))
           | None \<Rightarrow> Some (emitLocked en ''SNAPSHOT_CREATED'' (dBase (state n1)) [] [] [] n1))
        })"

text \<open>One iteration of the loop of \<open>applyLocked\<close>.\<close>

definition apply_one :: "Env \<Rightarrow> Node \<Rightarrow> Node option" where
  "apply_one en n =
     (let n1 = n\<lparr>applied := applied n + 1\<rparr> in
      do {
        e \<leftarrow> entryLocked n1 (applied n1);
        (let n2 = emitLocked en ''APPLIED'' (applied n1) [] [] [] n1;
             (out, m) = (case eCommand e of
                           None \<Rightarrow> ((zeroResult, None), machine n2)
                         | Some c \<Rightarrow> Apply (machine n2) c);
             n3 = n2\<lparr>machine := m\<rparr>
         in case fmlookup (pending n3) (applied n3) of
              None \<Rightarrow> Some n3
            | Some w \<Rightarrow>
                (let out' = (case readKey w of
                               None \<Rightarrow> out
                             | Some k \<Rightarrow>
                                 (case Get_Machine (machine n3) k of
                                    (v, f) \<Rightarrow> ((fst out)\<lparr>rValue := v, rFound := f\<rparr>, snd out)))
                 in Some (n3\<lparr>chans := send_outcome (wdone w) out' (chans n3),
                             pending := fmdrop (applied n3) (pending n3)\<rparr>)))
      })"

primrec apply_loop :: "Env \<Rightarrow> nat \<Rightarrow> Node \<Rightarrow> Node option" where
  "apply_loop en 0 n = Some n"
| "apply_loop en (Suc k) n = do { n1 \<leftarrow> apply_one en n; apply_loop en k n1 }"

text \<open>The loop runs while \<open>applied < commit\<close>; the body adds one to \<open>applied\<close> and leaves \<open>commit\<close>.\<close>

definition applyLocked :: "Env \<Rightarrow> Node \<Rightarrow> Node option" where
  "applyLocked en n =
     do { n1 \<leftarrow> apply_loop en (dCommit (state n) - applied n) n; maybeSnapshotLocked en n1 }"

definition commit_votes :: "Node \<Rightarrow> nat \<Rightarrow> nat" where
  "commit_votes n index =
     1 + fcard (ffilter (\<lambda>i. i \<noteq> cID (cfg n) \<and> index \<le> matchIndex n i) (fmdom (peers n)))"

text \<open>The scan for the largest index that may be committed, from \<open>index\<close> down to the commit index.\<close>

primrec scan_commit :: "Node \<Rightarrow> nat \<Rightarrow> nat option option" where
  "scan_commit n 0 = Some None"
| "scan_commit n (Suc i) =
     (if Suc i \<le> dCommit (state n) then Some None
      else
        do {
          e \<leftarrow> entryLocked n (Suc i);
          (if eTerm e \<noteq> dTerm (state n) then scan_commit n i
           else if fmsize (peers n) div 2 < commit_votes n (Suc i) then Some (Some (Suc i))
           else scan_commit n i)
        })"

definition advanceCommitLocked :: "Env \<Rightarrow> Node \<Rightarrow> Node option" where
  "advanceCommitLocked en n =
     (if role n \<noteq> Leader \<or> \<not> availableLocked n then Some n
      else
        do {
          found \<leftarrow> scan_commit n (lastLocked n);
          (case found of
             None \<Rightarrow> Some n
           | Some index \<Rightarrow>
               do {
                 (ok, n1) \<leftarrow> persistLocked en (dTerm (state n)) (dVote (state n)) index 0 [] n;
                 (if ok then
                    do {
                      n2 \<leftarrow> applyLocked en (emitLocked en ''COMMITTED'' index [] [] [] n1);
                      kickLocked en n2
                    }
                  else Some n1)
               })
        })"

section \<open>Elections\<close>

definition becomeLeaderLocked :: "Env \<Rightarrow> Node \<Rightarrow> Node option" where
  "becomeLeaderLocked en n =
     (let n1 = emitLocked en ''LEADER_ELECTED'' 0 [] [] [] (n\<lparr>role := Leader, leader := cID (cfg n)\<rparr>);
          n2 = n1\<lparr>nextIndex := (\<lambda>i. if i |\<in>| fmdom (peers n1) then lastLocked n1 + 1 else nextIndex n1 i),
                  matchIndex := (\<lambda>i. if i |\<in>| fmdom (peers n1) then 0 else matchIndex n1 i)\<rparr>;
          e = \<lparr>eIndex = lastLocked n2 + 1, eTerm = dTerm (state n2), eCommand = None\<rparr>
      in do {
        (ok, n3) \<leftarrow> persistLocked en (dTerm (state n2)) (dVote (state n2)) (dCommit (state n2)) (eIndex e) [e] n2;
        (if \<not> ok then Some n3
         else
           do {
             n4 \<leftarrow> advanceCommitLocked en (n3\<lparr>matchIndex := (matchIndex n3)(cID (cfg n3) := eIndex e)\<rparr>);
             kickLocked en n4
           })
      })"

text \<open>The loop that sends the vote requests.\<close>

primrec send_votes :: "Env \<Rightarrow> VoteRequest \<Rightarrow> Peer list \<Rightarrow> Node \<Rightarrow> Node" where
  "send_votes en req [] n = n"
| "send_votes en req (p # ps) n =
     send_votes en req ps
       (if pID p \<noteq> cID (cfg n) then
          (let n1 = n\<lparr>sequence := sequence n + 1\<rparr>;
               request = req\<lparr>vqMessageID := messageID n1\<rparr>;
               n2 = emitLocked en ''VOTE_SENT'' 0 (pID p) (vqMessageID request) [] n1;
               m = \<lparr>mSequence = sequence n2, mFrom = cID (cfg n2), mTo = pID p, mVote = Some request,
                    mAppend = None\<rparr>
           in if manual n2 then n2\<lparr>outbox := outbox n2 @ [m]\<rparr> else n2\<lparr>calls := calls n2 @ [m]\<rparr>)
        else n)"

definition startElectionLocked :: "Env \<Rightarrow> Node \<Rightarrow> Node option" where
  "startElectionLocked en n =
     (let trm = dTerm (state n) + 1 in
      do {
        (ok, n1) \<leftarrow> persistLocked en trm (cID (cfg n)) (dCommit (state n)) 0 [] n;
        (if \<not> ok then Some n1
         else
           (let n2 = resetTimerLocked en (n1\<lparr>role := Candidate, leader := []\<rparr>);
                n3 = emitLocked en ''ELECTION_STARTED'' 0 [] [] [] (n2\<lparr>votes := Some {|cID (cfg n2)|}\<rparr>)
            in if fmsize (peers n3) div 2 < 1 then becomeLeaderLocked en n3
               else
                 do {
                   e \<leftarrow> entryLocked n3 (lastLocked n3);
                   Some (send_votes en \<lparr>vqMessageID = [], vqClusterID = ClusterID (cfg n3), vqTerm = trm,
                           CandidateID = cID (cfg n3), LastLogIndex = lastLocked n3, LastLogTerm = eTerm e\<rparr>
                           (Peers (cfg n3)) n3)
                 }))
      })"

definition Tick :: "Env \<Rightarrow> Node \<Rightarrow> Node option" where
  "Tick en n =
     (if \<not> availableLocked n then Some n
      else if role n = Leader then kickLocked en n
      else if FixedLeader (cfg n) = [] \<and> deadline n \<le> Now en then startElectionLocked en n
      else Some n)"

definition voteResponseLocked :: "Env \<Rightarrow> Peer \<Rightarrow> VoteRequest \<Rightarrow> VoteResponse \<Rightarrow> gerror option \<Rightarrow> Node \<Rightarrow> Node option" where
  "voteResponseLocked en peer req resp err n =
     (if \<not> availableLocked n \<or> err \<noteq> None then Some n
      else
        (let n1 = emitLocked en ''VOTE_RESPONSE'' 0 (pID peer) (vqMessageID req) [] n in
         if dTerm (state n1) < vrTerm resp then
           do { (_, n2) \<leftarrow> stepDownLocked en (vrTerm resp) [] n1; Some n2 }
         else if role n1 \<noteq> Candidate \<or> dTerm (state n1) \<noteq> vqTerm req \<or> vrTerm resp \<noteq> vqTerm req then Some n1
         else if Granted resp then
           do {
             vs \<leftarrow> votes n1;
             (let n2 = n1\<lparr>votes := Some (finsert (pID peer) vs)\<rparr> in
              if fmsize (peers n2) div 2 < fcard (finsert (pID peer) vs) then becomeLeaderLocked en n2
              else Some n2)
           }
         else Some n1))"

end
