(* ===== verification/Node_Rpc.thy ===== *)
theory Node_Rpc
  imports Node
begin

text \<open>
  The entry points of a Raft node: the two remote procedure calls and the handling of their
  responses (\<^verbatim>\<open>internal/raft/rpc.go\<close>), proposals, tickets, pausing and message draining
  (\<^verbatim>\<open>internal/raft/runtime.go\<close>), and opening, closing, status (\<^verbatim>\<open>internal/raft/node.go\<close>).  An entry
  point that blocks (\<open>propose\<close>, \<open>replicateOnce\<close>) is split where it releases the mutex.
\<close>

section \<open>AppendEntries\<close>

definition member :: "Node \<Rightarrow> string \<Rightarrow> string \<Rightarrow> bool" where
  "member n i cluster \<longleftrightarrow> i |\<in>| fmdom (peers n) \<and> i \<noteq> cID (cfg n) \<and> cluster = ClusterID (cfg n)"

definition append_response :: "Node \<Rightarrow> AppendResponse" where
  "append_response n =
     \<lparr>arTerm = dTerm (state n), Success = False, MatchIndex = 0, ConflictIndex = lastLocked n + 1\<rparr>"

text \<open>The loop that walks back over the conflicting term.\<close>

primrec conflict_start :: "Node \<Rightarrow> u64 \<Rightarrow> nat \<Rightarrow> nat option" where
  "conflict_start n trm 0 = Some 0"
| "conflict_start n trm (Suc i) =
     (if dBase (state n) < Suc i then
        do { e \<leftarrow> entryLocked n i; (if eTerm e = trm then conflict_start n trm i else Some (Suc i)) }
      else Some (Suc i))"

text \<open>
  The loop over the received entries, which sit at \<open>i\<close>, \<open>i + 1\<close>, \<dots>: the error, or the index from
  which the log is to be replaced (0 for nowhere) and the entries to put there.
\<close>

primrec merge_entries :: "Node \<Rightarrow> u64 \<Rightarrow> nat \<Rightarrow> Entry list \<Rightarrow> (gerror + nat \<times> Entry list) option" where
  "merge_entries n trm i [] = Some (Inr (0, []))"
| "merge_entries n trm i (e # es) =
     (if eIndex e \<noteq> i \<or> trm < eTerm e \<or> eTerm e = 0 then Some (Inl (ErrText ''malformed log entry''))
      else if eIndex e \<le> dBase (state n) then merge_entries n trm (Suc i) es
      else if lastLocked n < eIndex e then Some (Inr (eIndex e, e # es))
      else
        do {
          mine \<leftarrow> entryLocked n (eIndex e);
          (if eTerm mine \<noteq> eTerm e then Some (Inr (eIndex e, e # es))
           else if e \<noteq> mine then Some (Inl (ErrText ''same index and term with different command''))
           else merge_entries n trm (Suc i) es)
        })"

definition note_repair :: "Env \<Rightarrow> AppendRequest \<Rightarrow> nat \<Rightarrow> Node \<Rightarrow> Node" where
  "note_repair en req from n =
     (if from \<noteq> 0 \<and> from \<le> lastLocked n
      then emitLocked en ''LOG_REPAIRED'' from (LeaderID req) (aqMessageID req) [] n else n)"

text \<open>The part of \<open>AppendEntries\<close> after the consistency check on the previous entry.\<close>

definition append_accept ::
  "Env \<Rightarrow> AppendRequest \<Rightarrow> Node \<Rightarrow> ((AppendResponse \<times> gerror option) \<times> Node) option" where
  "append_accept en req n =
     do {
       merged \<leftarrow> merge_entries n (aqTerm req) (PrevLogIndex req + 1) (aqEntries req);
       (case merged of
          Inl err \<Rightarrow> Some ((append_response n, Some err), n)
        | Inr (from, entries) \<Rightarrow>
            (let matched = PrevLogIndex req + length (aqEntries req);
                 commit0 = dCommit (state n);
                 commit = (if commit0 < LeaderCommit req then max (min (LeaderCommit req) matched) commit0
                           else commit0)
             in if from \<noteq> 0 \<and> from \<le> commit0
                then Some ((append_response n, Some (ErrText ''attempt to overwrite committed entry'')), n)
                else
                  do {
                    (ok, n2) \<leftarrow>
                      (if from \<noteq> 0 \<or> commit \<noteq> commit0 then
                         (let n1 = note_repair en req from n
                          in do {
                            (ok, n2) \<leftarrow> persistLocked en (dTerm (state n1)) (dVote (state n1)) commit from entries n1;
                            (if ok then do { n3 \<leftarrow> applyLocked en n2; Some (True, n3) } else Some (False, n2))
                          })
                       else Some (True, n));
                    (if ok then
                       Some ((\<lparr>arTerm = dTerm (state n2), Success = True, MatchIndex = matched, ConflictIndex = 0\<rparr>,
                              None), n2)
                     else Some ((append_response n2, Some ErrUnavailable), n2))
                  }))
     }"

text \<open>The consistency check on the entry before the received ones, and what follows it.\<close>

definition append_check ::
  "Env \<Rightarrow> AppendRequest \<Rightarrow> Node \<Rightarrow> ((AppendResponse \<times> gerror option) \<times> Node) option" where
  "append_check en req n =
     (if lastLocked n < PrevLogIndex req then Some ((append_response n, None), n)
      else if PrevLogIndex req < dBase (state n)
        then Some (((append_response n)\<lparr>ConflictIndex := dBase (state n) + 1\<rparr>, None), n)
      else
        do {
          pe \<leftarrow> entryLocked n (PrevLogIndex req);
          (if eTerm pe \<noteq> PrevLogTerm req then
             do {
               conflict \<leftarrow> conflict_start n (eTerm pe) (PrevLogIndex req);
               Some (((append_response n)\<lparr>ConflictIndex := conflict\<rparr>, None), n)
             }
           else append_accept en req n)
        })"

definition AppendEntries ::
  "Env \<Rightarrow> AppendRequest \<Rightarrow> Node \<Rightarrow> ((AppendResponse \<times> gerror option) \<times> Node) option" where
  "AppendEntries en req n =
     (if \<not> availableLocked n then Some ((append_response n, Some ErrUnavailable), n)
      else if \<not> member n (LeaderID req) (aqClusterID req)
         \<or> FixedLeader (cfg n) \<noteq> [] \<and> LeaderID req \<noteq> FixedLeader (cfg n)
        then Some ((append_response n, Some (ErrText ''unknown leader or cluster'')), n)
      else
        (let n1 = emitLocked en ''APPEND_RECEIVED'' (PrevLogIndex req) (LeaderID req) (aqMessageID req) [] n in
         if aqTerm req < dTerm (state n1) then Some ((append_response n1, None), n1)
         else
           do {
             (ok, n2) \<leftarrow> stepDownLocked en (aqTerm req) (LeaderID req) n1;
             (if \<not> ok then Some ((append_response n2, Some ErrUnavailable), n2)
              else append_check en req (resetTimerLocked en n2))
           }))"

section \<open>RequestVote\<close>

definition vote_response :: "Node \<Rightarrow> bool \<Rightarrow> VoteResponse" where
  "vote_response n granted = \<lparr>vrTerm = dTerm (state n), Granted = granted\<rparr>"

text \<open>The decision once the candidate's term is not behind: \<open>n\<close> is in the candidate's term.\<close>

definition vote_decide :: "Env \<Rightarrow> VoteRequest \<Rightarrow> Node \<Rightarrow> ((VoteResponse \<times> gerror option) \<times> Node) option" where
  "vote_decide en req n =
     do {
       le \<leftarrow> entryLocked n (lastLocked n);
       (let upToDate = (eTerm le < LastLogTerm req
              \<or> LastLogTerm req = eTerm le \<and> eIndex le \<le> LastLogIndex req);
            free = (dVote (state n) = [])
        in if upToDate \<and> (free \<or> dVote (state n) = CandidateID req) then
             do {
               (ok, n1) \<leftarrow> (if free then
                     persistLocked en (vqTerm req) (CandidateID req) (dCommit (state n)) 0 [] n
                   else Some (True, n));
               (if \<not> ok then Some ((vote_response n1 False, Some ErrUnavailable), n1)
                else
                  (let n2 = emitLocked en ''VOTE_GRANTED'' 0 (CandidateID req) (vqMessageID req) []
                              (resetTimerLocked en n1)
                   in Some ((vote_response n2 True, None), n2)))
             }
           else Some ((vote_response n False, None), n))
     }"

definition RequestVote :: "Env \<Rightarrow> VoteRequest \<Rightarrow> Node \<Rightarrow> ((VoteResponse \<times> gerror option) \<times> Node) option" where
  "RequestVote en req n =
     (if \<not> availableLocked n then Some ((vote_response n False, Some ErrUnavailable), n)
      else if \<not> member n (CandidateID req) (vqClusterID req)
        then Some ((vote_response n False, Some (ErrText ''unknown candidate or cluster'')), n)
      else
        (let n1 = emitLocked en ''VOTE_RECEIVED'' 0 (CandidateID req) (vqMessageID req) [] n in
         if FixedLeader (cfg n1) \<noteq> [] then Some ((vote_response n1 False, None), n1)
         else if vqTerm req < dTerm (state n1) then Some ((vote_response n1 False, None), n1)
         else
           do {
             (ok, n2) \<leftarrow> (if dTerm (state n1) < vqTerm req then stepDownLocked en (vqTerm req) [] n1
                          else Some (True, n1));
             (if \<not> ok then Some ((vote_response n2 False, Some ErrUnavailable), n2)
              else vote_decide en req n2)
           }))"

section \<open>Responses\<close>

definition acceptAppendLocked ::
  "Env \<Rightarrow> Peer \<Rightarrow> AppendRequest \<Rightarrow> AppendResponse \<Rightarrow> gerror option \<Rightarrow> Node \<Rightarrow> (bool \<times> Node) option" where
  "acceptAppendLocked en peer req resp err n =
     (if \<not> availableLocked n then Some (False, n)
      else
        (let n1 = (if err = None
                   then emitLocked en ''APPEND_RESPONSE'' (MatchIndex resp) (pID peer) (aqMessageID req) [] n
                   else emitLocked en ''RPC_FAILED'' 0 (pID peer) (aqMessageID req) [] n)
         in if err = None \<and> dTerm (state n1) < arTerm resp then
              do { (_, n2) \<leftarrow> stepDownLocked en (arTerm resp) [] n1; Some (False, n2) }
            else if err \<noteq> None \<or> role n1 \<noteq> Leader \<or> dTerm (state n1) \<noteq> aqTerm req \<or> arTerm resp \<noteq> aqTerm req
              then Some (False, n1)
            else if Success resp then
              (let matched = PrevLogIndex req + length (aqEntries req);
                   m = max (matchIndex n1 (pID peer)) matched;
                   n2 = n1\<lparr>matchIndex := (matchIndex n1)(pID peer := m),
                           nextIndex := (nextIndex n1)(pID peer := m + 1)\<rparr>
               in do {
                 n3 \<leftarrow> advanceCommitLocked en n2;
                 n4 \<leftarrow> maybeSnapshotLocked en n3;
                 Some (nextIndex n4 (pID peer) \<le> lastLocked n4, n4)
               })
            else if PrevLogIndex req + 1 \<le> 1 then Some (False, n1)
            else Some (True, n1\<lparr>nextIndex := (nextIndex n1)(pID peer :=
                   max 1 (min (PrevLogIndex req) (ConflictIndex resp)))\<rparr>)))"

definition DeliverVote :: "Env \<Rightarrow> Message \<Rightarrow> VoteResponse \<Rightarrow> gerror option \<Rightarrow> Node \<Rightarrow> Node option" where
  "DeliverVote en m response err n =
     (case mVote m of
        None \<Rightarrow> Some n
      | Some req \<Rightarrow> voteResponseLocked en (peerOf n (mTo m)) req response err n)"

definition DeliverAppend :: "Env \<Rightarrow> Message \<Rightarrow> AppendResponse \<Rightarrow> gerror option \<Rightarrow> Node \<Rightarrow> Node option" where
  "DeliverAppend en m response err n =
     (case mAppend m of
        None \<Rightarrow> Some n
      | Some req \<Rightarrow>
          if busy n (mTo m) \<noteq> mSequence m then Some n
          else
            do {
              (more, n1) \<leftarrow> acceptAppendLocked en (peerOf n (mTo m)) req response err
                              (n\<lparr>busy := (busy n)(mTo m := 0)\<rparr>);
              (if more then queueAppendLocked en (peerOf n1 (mTo m)) n1 else Some n1)
            })"

text \<open>\<open>replicateOnce\<close>: the request is built under the mutex, the response is handled under it later.\<close>

definition replicate_begin :: "Env \<Rightarrow> Peer \<Rightarrow> Node \<Rightarrow> (AppendRequest option \<times> Node) option" where
  "replicate_begin en peer n =
     (if \<not> availableLocked n \<or> role n \<noteq> Leader then Some (None, n)
      else do { (req, n1) \<leftarrow> prepareAppendLocked en peer n; Some (Some req, n1) })"

definition replicate_finish ::
  "Env \<Rightarrow> Peer \<Rightarrow> AppendRequest \<Rightarrow> AppendResponse \<Rightarrow> gerror option \<Rightarrow> Node \<Rightarrow> (bool \<times> Node) option" where
  "replicate_finish en peer req resp err n = acceptAppendLocked en peer req resp err n"

section \<open>Proposals and tickets\<close>

record Ticket =
  tIndex :: nat
  tdone :: nat

definition submitLocked ::
  "Env \<Rightarrow> Command option \<Rightarrow> string option \<Rightarrow> Node \<Rightarrow> ((gerror + Ticket) \<times> Node) option" where
  "submitLocked en command key n =
     (if \<not> availableLocked n then Some (Inl ErrUnavailable, n)
      else if role n \<noteq> Leader then Some (Inl (leaderErrorLocked n), n)
      else
        (case (case command of None \<Rightarrow> None | Some c \<Rightarrow> Validate c) of
           Some err \<Rightarrow> Some (Inl err, n)
         | None \<Rightarrow>
             if 256 \<le> lastLocked n - dCommit (state n) then Some (Inl ErrNoQuorum, n)
             else
               (let e = \<lparr>eIndex = lastLocked n + 1, eTerm = dTerm (state n), eCommand = command\<rparr> in
                do {
                  (ok, n1) \<leftarrow> persistLocked en (dTerm (state n)) (dVote (state n)) (dCommit (state n)) (eIndex e) [e] n;
                  (if \<not> ok then Some (Inl ErrUnavailable, n1)
                   else
                     (let ch = chanCount n1;
                          n2 = n1\<lparr>chanCount := ch + 1,
                                  pending := fmupd (eIndex e) \<lparr>readKey = key, wdone = ch\<rparr> (pending n1),
                                  matchIndex := (matchIndex n1)(cID (cfg n1) := eIndex e)\<rparr>
                      in do {
                        n3 \<leftarrow> advanceCommitLocked en (emitLocked en ''PROPOSED'' (eIndex e) [] [] [] n2);
                        n4 \<leftarrow> kickLocked en n3;
                        Some (Inr \<lparr>tIndex = eIndex e, tdone = ch\<rparr>, n4)
                      }))
                })))"

definition Submit :: "Env \<Rightarrow> Command option \<Rightarrow> string option \<Rightarrow> Node \<Rightarrow> ((gerror + Ticket) \<times> Node) option" where
  "Submit en command key n = submitLocked en command key n"

definition Poll :: "Ticket \<Rightarrow> Node \<Rightarrow> (Result \<times> gerror option \<times> bool) \<times> Node" where
  "Poll t n =
     (case chans n (tdone t) of
        [] \<Rightarrow> ((zeroResult, None, False), n)
      | (r, e) # rest \<Rightarrow> ((r, e, True), n\<lparr>chans := (chans n)(tdone t := rest)\<rparr>))"

definition Cancel :: "Ticket \<Rightarrow> Node \<Rightarrow> Node" where
  "Cancel t n =
     (case fmlookup (pending n) (tIndex t) of
        Some w \<Rightarrow> if wdone w = tdone t then n\<lparr>pending := fmdrop (tIndex t) (pending n)\<rparr> else n
      | None \<Rightarrow> n)"

text \<open>
  \<open>propose\<close> up to the point where it waits (\<open>expired\<close>: the context has ended before), and what it
  returns when it wakes up with the outcome or with the deadline.
\<close>

definition propose_begin ::
  "Env \<Rightarrow> bool \<Rightarrow> Command option \<Rightarrow> string option \<Rightarrow> Node \<Rightarrow> ((gerror + Ticket) \<times> Node) option" where
  "propose_begin en expired command key n =
     (if expired then Some (Inl ErrContext, n) else submitLocked en command key n)"

definition propose_end :: "Ticket \<Rightarrow> bool \<Rightarrow> Node \<Rightarrow> ((Result \<times> gerror option) option) \<times> Node" where
  "propose_end t timeout n =
     (if timeout then (Some (zeroResult, Some (ErrJoin ErrNoQuorum ErrContext)), Cancel t n)
      else (case chans n (tdone t) of
              [] \<Rightarrow> (None, n)
            | out # rest \<Rightarrow> (Some out, n\<lparr>chans := (chans n)(tdone t := rest)\<rparr>)))"

definition Execute_begin :: "Env \<Rightarrow> bool \<Rightarrow> Command \<Rightarrow> Node \<Rightarrow> ((gerror + Ticket) \<times> Node) option" where
  "Execute_begin en expired command n =
     (case Validate command of
        Some err \<Rightarrow> Some (Inl err, n)
      | None \<Rightarrow> propose_begin en expired (Some command) None n)"

definition Get_begin :: "Env \<Rightarrow> bool \<Rightarrow> string \<Rightarrow> Node \<Rightarrow> ((gerror + Ticket) \<times> Node) option" where
  "Get_begin en expired key n =
     (if key = [] \<or> 1024 < length key then Some (Inl ErrInvalid, n)
      else propose_begin en expired None (Some key) n)"

section \<open>Control\<close>

definition DrainMessages :: "Node \<Rightarrow> Message list \<times> Node" where
  "DrainMessages n = (outbox n, n\<lparr>outbox := []\<rparr>)"

definition SetPaused :: "Env \<Rightarrow> bool \<Rightarrow> Node \<Rightarrow> Node option" where
  "SetPaused en p n =
     (let n1 = n\<lparr>paused := p\<rparr> in
      do {
        n2 \<leftarrow> (if p then Some (failPendingLocked ErrUnavailable n1) else kickLocked en (resetTimerLocked en n1));
        Some (emitLocked en (if p then ''PAUSED'' else ''RESUMED'') 0 [] [] [] n2)
      })"

definition Close :: "Node \<Rightarrow> Node" where
  "Close n = (if closed n then n else failPendingLocked ErrUnavailable (n\<lparr>closed := True\<rparr>))"

record Status =
  stNodeID :: string
  stMode :: string
  stRole :: Role
  stTerm :: u64
  stLeaderID :: string
  stLeaderURL :: string
  stLastLogIndex :: nat
  stCommitIndex :: nat
  stLastApplied :: nat
  stKeys :: nat
  stAppliedOperations :: u64
  stSnapshotIndex :: nat
  stHealthy :: bool
  stPaused :: bool
  stPeers :: "Peer list"

definition statusLocked :: "Node \<Rightarrow> Status" where
  "statusLocked n =
     (case Stats_Machine (machine n) of
        (keys, operations) \<Rightarrow>
          \<lparr>stNodeID = cID (cfg n),
           stMode = (if FixedLeader (cfg n) \<noteq> [] then ''fixed-leader'' else ''raft''),
           stRole = role n, stTerm = dTerm (state n), stLeaderID = leader n,
           stLeaderURL = ClientURL (peerOf n (leader n)), stLastLogIndex = lastLocked n,
           stCommitIndex = dCommit (state n), stLastApplied = applied n, stKeys = keys,
           stAppliedOperations = operations, stSnapshotIndex = dBase (state n),
           stHealthy = availableLocked n, stPaused = paused n, stPeers = Peers (cfg n)\<rparr>)"

section \<open>Opening a node\<close>

definition default_config :: "Config \<Rightarrow> Config" where
  "default_config c =
     (let ms = 1000000;
          c1 = (if Heartbeat c = 0 then c\<lparr>Heartbeat := 100 * ms\<rparr> else c);
          c2 = (if ElectionMin c1 = 0 then c1\<lparr>ElectionMin := 600 * ms\<rparr> else c1);
          c3 = (if ElectionMax c2 = 0 then c2\<lparr>ElectionMax := 1100 * ms\<rparr> else c2);
          c4 = (if RPCTimeout c3 = 0 then c3\<lparr>RPCTimeout := 300 * ms\<rparr> else c3)
      in if RequestTimeout c4 = 0 then c4\<lparr>RequestTimeout := 3000 * ms\<rparr> else c4)"

definition timeouts_ok :: "Config \<Rightarrow> bool" where
  "timeouts_ok c \<longleftrightarrow> 0 < Heartbeat c \<and> 2 * Heartbeat c < ElectionMin c \<and> ElectionMin c < ElectionMax c \<and>
     0 < RPCTimeout c \<and> 0 < RequestTimeout c"

text \<open>
  The membership loop: \<open>origin\<close> is the test on a parsed URL (\<open>http\<close> or \<open>https\<close>, a host, and nothing
  else), the accumulators are the peers and the addresses seen so far.
\<close>

primrec check_addresses :: "(string \<Rightarrow> bool) \<Rightarrow> string list \<Rightarrow> string fset \<Rightarrow> gerror + string fset" where
  "check_addresses origin [] seen = Inr seen"
| "check_addresses origin (a # as) seen =
     (if \<not> origin a then Inl (ErrText ''invalid peer URL'')
      else if a |\<in>| seen then Inl (ErrText ''each peer and client endpoint must be unique'')
      else check_addresses origin as (finsert a seen))"

primrec check_peers :: "(string \<Rightarrow> bool) \<Rightarrow> Peer list \<Rightarrow> (string, Peer) fmap \<Rightarrow> string fset \<Rightarrow> gerror + (string, Peer) fmap" where
  "check_peers origin [] ps seen = Inr ps"
| "check_peers origin (p # rest) ps seen =
     (if pID p = [] then Inl (ErrText ''empty peer ID'')
      else if pID p |\<in>| fmdom ps then Inl (ErrText ''duplicate peer ID'')
      else
        (case check_addresses origin [PeerURL p, ClientURL p] seen of
           Inl err \<Rightarrow> Inl err
         | Inr seen' \<Rightarrow> check_peers origin rest (fmupd (pID p) p ps) seen'))"

text \<open>
  \<open>OpenWithRuntime\<close>: \<open>identity\<close> is the hash of cluster, node, sorted membership and election mode that
  names the data, \<open>noTransport\<close> says that no transport was given, \<open>unixNano\<close> prints the boot time.
\<close>

definition fresh_node :: "Env \<Rightarrow> bool \<Rightarrow> Config \<Rightarrow> (string, Peer) fmap \<Rightarrow> diskStore \<Rightarrow> Node" where
  "fresh_node en man c ps st =
     \<lparr>cfg = c, peers = ps, store = st, machine = New_Machine, role = Follower, leader = [], applied = 0,
      nextIndex = (\<lambda>_. 0), matchIndex = (\<lambda>_. 0), wake = Map.empty, pending = fmempty, chans = (\<lambda>_. []),
      chanCount = 0, deadline = 0, failed = None, closed = False, manual = man, outbox = [], calls = [],
      busy = (\<lambda>_. 0), votes = None, sequence = 0, paused = False, events = New_Buffer 512,
      bootID = cID c @ ''-'' @ decimal (nat (Now en))\<rparr>"

definition restore_node :: "Node \<Rightarrow> gerror + Node" where
  "restore_node n =
     (if dBase (state n) \<noteq> 0 then
        (case Restore (machine n) (sSnapshot (store n)) of
           (Some err, _) \<Rightarrow> Inl err
         | (None, m) \<Rightarrow> Inr (n\<lparr>machine := m, applied := dBase (state n)\<rparr>))
      else Inr n)"

definition start_node :: "Env \<Rightarrow> Node \<Rightarrow> (gerror + Node) option" where
  "start_node en n =
     do {
       n1 \<leftarrow> applyLocked en n;
       n3 \<leftarrow> (let n2 = resetTimerLocked en n1 in
              if FixedLeader (cfg n2) = cID (cfg n2) then
                do {
                  (ok, n3) \<leftarrow> persistLocked en (dTerm (state n2) + 1) (cID (cfg n2)) (dCommit (state n2)) 0 [] n2;
                  (if ok then becomeLeaderLocked en n3 else Some n3)
                }
              else Some n2);
       (case failed n3 of
          Some err \<Rightarrow> Some (Inl err)
        | None \<Rightarrow>
            Some (Inr (if manual n3 then n3
                       else n3\<lparr>wake := (\<lambda>i. if i \<in> pID ` set (Peers (cfg n3)) \<and> i \<noteq> cID (cfg n3)
                                          then Some False else None)\<rparr>)))
     }"

definition OpenWithRuntime ::
  "(string \<Rightarrow> bool) \<Rightarrow> (Config \<Rightarrow> string) \<Rightarrow> Env \<Rightarrow> bool \<Rightarrow> bool \<Rightarrow> Config \<Rightarrow> gerror option \<Rightarrow> journalRecord journal
     \<Rightarrow> (gerror + Node) option" where
  "OpenWithRuntime origin identity en man noTransport c0 openErr j =
     (if cID c0 = [] \<or> ClusterID c0 = [] \<or> noTransport \<and> \<not> man
        then Some (Inl (ErrText ''node ID, cluster ID, and transport required''))
      else
        (let c = default_config c0 in
         if \<not> timeouts_ok c then Some (Inl (ErrText ''invalid timeouts''))
         else
           (case check_peers origin (Peers c) fmempty {||} of
              Inl err \<Rightarrow> Some (Inl err)
            | Inr ps \<Rightarrow>
                if cID c |\<notin>| fmdom ps then Some (Inl (ErrText ''membership must include this node''))
                else if FixedLeader c \<noteq> [] \<and> FixedLeader c |\<notin>| fmdom ps
                  then Some (Inl (ErrText ''fixed leader is not a member''))
                else
                  do {
                    opened \<leftarrow> openStoreUsing (identity c) openErr j;
                    (case opened of
                       Inl err \<Rightarrow> Some (Inl err)
                     | Inr st \<Rightarrow>
                         (case restore_node (fresh_node en man c ps st) of
                            Inl err \<Rightarrow> Some (Inl err)
                          | Inr n \<Rightarrow> start_node en n))
                  })))"

end
