(* ===== verification/Node_Inv.thy ===== *)
theory Node_Inv
  imports Node_Rpc
begin

text \<open>
  The invariant of a single node and its preservation by every transition function: the store is
  well-formed and its journal rebuilds it, the state machine is exactly the replay of the committed
  log over the snapshot, everything committed has been applied between calls, and every reply
  channel is sent to at most once.  \<open>node_le\<close> is what a node never takes back: its term and vote,
  its commit index and its committed entries, its failure.
\<close>

section \<open>The machine a log stands for\<close>

definition commands :: "Entry list \<Rightarrow> Command list" where
  "commands es = List.map_filter eCommand es"

lemma commands_simps [simp]:
  "commands [] = []"
  "commands (e # es) = (case eCommand e of None \<Rightarrow> commands es | Some c \<Rightarrow> c # commands es)"
  "commands (es @ fs) = commands es @ commands fs"
  by (simp_all add: commands_def List.map_filter_def split: option.splits)

definition base_machine :: "diskStore \<Rightarrow> Machine" where
  "base_machine s = (if dBase (sState s) = 0 then New_Machine else snd (Restore New_Machine (sSnapshot s)))"

text \<open>The machine after the entries up to index \<open>k\<close>.\<close>

definition machine_at :: "diskStore \<Rightarrow> nat \<Rightarrow> Machine" where
  "machine_at s k = apply_all (base_machine s) (commands (take (k - dBase (sState s)) (tl (dLog (sState s)))))"

lemma base_machine_wf: "wf_store s \<Longrightarrow> wf_machine (base_machine s)"
  by (auto simp: base_machine_def wf_store_def intro: Restore_wf) (metis Restore_wf prod.collapse)

lemma machine_at_wf: "wf_store s \<Longrightarrow> wf_machine (machine_at s k)"
  by (simp add: machine_at_def apply_all_wf base_machine_wf)

lemma machine_at_Suc:
  assumes "store_entry s (Suc k) = Some e" "dBase (sState s) \<le> k"
  shows "machine_at s (Suc k) =
    (case eCommand e of None \<Rightarrow> machine_at s k | Some c \<Rightarrow> snd (Apply (machine_at s k) c))"
proof -
  let ?l = "dLog (sState s)" and ?b = "dBase (sState s)"
  have "Suc k - ?b < length ?l" and e: "e = ?l ! (Suc k - ?b)"
    using store_entry_SomeD [OF assms(1)] by auto
  then have "k - ?b < length (tl ?l)" "tl ?l ! (k - ?b) = e"
    using assms(2) by (auto simp: nth_tl Suc_diff_le)
  then have "take (Suc k - ?b) (tl ?l) = take (k - ?b) (tl ?l) @ [e]"
    using assms(2) by (simp add: Suc_diff_le take_Suc_conv_app_nth)
  then show ?thesis by (simp add: machine_at_def split: option.splits)
qed

section \<open>The invariant\<close>

definition store_ok :: "Node \<Rightarrow> bool" where
  "store_ok n \<longleftrightarrow> wf_store (store n) \<and>
     (\<exists>t. journal_gives (store n) t \<and> wf_store t \<and> state_le (state n) (sState t)) \<and>
     (failed n = None \<longrightarrow> journal_gives (store n) (store n))"

definition machine_ok :: "Node \<Rightarrow> bool" where
  "machine_ok n \<longleftrightarrow> dBase (state n) \<le> applied n \<and> applied n \<le> dCommit (state n) \<and>
     machine n = machine_at (store n) (applied n)"

text \<open>Waiting calls own distinct empty channels; no channel holds more than one outcome.\<close>

definition chan_ok :: "Node \<Rightarrow> bool" where
  "chan_ok n \<longleftrightarrow>
     (\<forall>i w. fmlookup (pending n) i = Some w \<longrightarrow> wdone w < chanCount n \<and> chans n (wdone w) = []) \<and>
     (\<forall>i j v w. fmlookup (pending n) i = Some v \<longrightarrow> fmlookup (pending n) j = Some w \<longrightarrow>
        wdone v = wdone w \<longrightarrow> i = j) \<and>
     (\<forall>c. length (chans n c) \<le> 1) \<and> (\<forall>c \<ge> chanCount n. chans n c = [])"

definition role_ok :: "Node \<Rightarrow> bool" where
  "role_ok n \<longleftrightarrow> (role n = Candidate \<longrightarrow> votes n \<noteq> None) \<and> (failed n \<noteq> None \<longrightarrow> role n = Follower)"

definition node_inv :: "Node \<Rightarrow> bool" where
  "node_inv n \<longleftrightarrow> store_ok n \<and> machine_ok n \<and> chan_ok n \<and> role_ok n"

definition synced :: "Node \<Rightarrow> bool" where
  "synced n \<longleftrightarrow> applied n = dCommit (state n)"

text \<open>A store on an in-memory disk that was never compacted, also not on the disk.\<close>

definition uncut :: "diskStore \<Rightarrow> bool" where
  "uncut s \<longleftrightarrow> dBase (sState s) = 0 \<and> (\<exists>d. sWal s = Some (Memory d) \<and> (\<forall>r \<in> set (mrecords d). jCheckpoint r = None))"

definition node_le :: "Node \<Rightarrow> Node \<Rightarrow> bool" where
  "node_le n n' \<longleftrightarrow> cfg n' = cfg n \<and> peers n' = peers n \<and> manual n' = manual n \<and> bootID n' = bootID n \<and>
     sIdentity (store n') = sIdentity (store n) \<and> state_le (state n) (state n') \<and>
     (failed n \<noteq> None \<longrightarrow> failed n' \<noteq> None) \<and> applied n \<le> applied n' \<and>
     (SnapshotEvery (cfg n) = 0 \<longrightarrow> uncut (store n) \<longrightarrow> uncut (store n'))"

text \<open>
  \<open>weak_ok n n'\<close>: going from \<open>n\<close> to \<open>n'\<close> keeps the invariant and takes nothing back.  \<open>step_ok\<close> also
  keeps everything committed applied.
\<close>

definition weak_ok :: "Node \<Rightarrow> Node \<Rightarrow> bool" where
  "weak_ok n n' \<longleftrightarrow> (node_inv n \<longrightarrow> node_inv n' \<and> node_le n n')"

definition step_ok :: "Node \<Rightarrow> Node \<Rightarrow> bool" where
  "step_ok n n' \<longleftrightarrow> weak_ok n n' \<and> (node_inv n \<longrightarrow> synced n \<longrightarrow> synced n')"

lemma node_inv_wf: "node_inv n \<Longrightarrow> wf_store (store n)" "node_inv n \<Longrightarrow> wf_state (state n)"
  by (auto simp: node_inv_def store_ok_def wf_store_def)

lemma node_inv_wal: "node_inv n \<Longrightarrow> sWal (store n) \<noteq> None"
  by (auto simp: node_inv_def store_ok_def journal_gives_def)

lemma node_le_refl: "node_inv n \<Longrightarrow> node_le n n"
  using node_inv_wf(2) by (auto simp: node_le_def wf_state_def intro: state_le_refl)

lemma node_le_trans: "node_le a b \<Longrightarrow> node_le b c \<Longrightarrow> node_le a c"
  by (auto simp: node_le_def intro: state_le_trans)

lemma weak_ok_refl [simp, intro]: "weak_ok n n"
  by (simp add: weak_ok_def node_le_refl)

lemma step_ok_refl [simp, intro]: "step_ok n n"
  by (simp add: step_ok_def)

lemma weak_ok_trans [trans]: "weak_ok a b \<Longrightarrow> weak_ok b c \<Longrightarrow> weak_ok a c"
  by (auto simp: weak_ok_def intro: node_le_trans)

lemma step_ok_trans [trans]: "step_ok a b \<Longrightarrow> step_ok b c \<Longrightarrow> step_ok a c"
  by (auto simp: step_ok_def weak_ok_def intro: node_le_trans)

lemma step_weak: "step_ok a b \<Longrightarrow> weak_ok a b"
  by (simp add: step_ok_def)

text \<open>The fields the invariant looks at; changing only others is always fine.\<close>

lemma step_ok_frame:
  assumes "store n' = store n" "machine n' = machine n" "applied n' = applied n" "pending n' = pending n"
    "chans n' = chans n" "chanCount n' = chanCount n" "failed n' = failed n"
    "cfg n' = cfg n" "peers n' = peers n" "manual n' = manual n" "bootID n' = bootID n"
    "role_ok n \<Longrightarrow> role_ok n'"
  shows "step_ok n n'"
proof -
  have "node_inv n'" if "node_inv n"
    using assms that unfolding node_inv_def store_ok_def machine_ok_def chan_ok_def by auto
  moreover have "node_le n n'" if "node_inv n"
    using assms node_le_refl [OF that] by (simp add: node_le_def)
  ultimately show ?thesis using assms by (simp add: step_ok_def weak_ok_def synced_def)
qed

section \<open>Helpers\<close>

lemma emit_sel [simp]:
  "cfg (emitLocked en k i p m d n) = cfg n" "peers (emitLocked en k i p m d n) = peers n"
  "store (emitLocked en k i p m d n) = store n" "machine (emitLocked en k i p m d n) = machine n"
  "role (emitLocked en k i p m d n) = role n" "leader (emitLocked en k i p m d n) = leader n"
  "applied (emitLocked en k i p m d n) = applied n" "nextIndex (emitLocked en k i p m d n) = nextIndex n"
  "matchIndex (emitLocked en k i p m d n) = matchIndex n" "pending (emitLocked en k i p m d n) = pending n"
  "chans (emitLocked en k i p m d n) = chans n" "chanCount (emitLocked en k i p m d n) = chanCount n"
  "failed (emitLocked en k i p m d n) = failed n" "closed (emitLocked en k i p m d n) = closed n"
  "manual (emitLocked en k i p m d n) = manual n" "outbox (emitLocked en k i p m d n) = outbox n"
  "calls (emitLocked en k i p m d n) = calls n" "busy (emitLocked en k i p m d n) = busy n"
  "votes (emitLocked en k i p m d n) = votes n" "sequence (emitLocked en k i p m d n) = sequence n"
  "paused (emitLocked en k i p m d n) = paused n" "bootID (emitLocked en k i p m d n) = bootID n"
  "wake (emitLocked en k i p m d n) = wake n" "deadline (emitLocked en k i p m d n) = deadline n"
  by (simp_all add: emitLocked_def)

lemma reset_sel [simp]:
  "cfg (resetTimerLocked en n) = cfg n" "peers (resetTimerLocked en n) = peers n"
  "store (resetTimerLocked en n) = store n" "machine (resetTimerLocked en n) = machine n"
  "role (resetTimerLocked en n) = role n" "leader (resetTimerLocked en n) = leader n"
  "applied (resetTimerLocked en n) = applied n" "nextIndex (resetTimerLocked en n) = nextIndex n"
  "matchIndex (resetTimerLocked en n) = matchIndex n" "pending (resetTimerLocked en n) = pending n"
  "chans (resetTimerLocked en n) = chans n" "chanCount (resetTimerLocked en n) = chanCount n"
  "failed (resetTimerLocked en n) = failed n" "closed (resetTimerLocked en n) = closed n"
  "manual (resetTimerLocked en n) = manual n" "outbox (resetTimerLocked en n) = outbox n"
  "calls (resetTimerLocked en n) = calls n" "busy (resetTimerLocked en n) = busy n"
  "votes (resetTimerLocked en n) = votes n" "sequence (resetTimerLocked en n) = sequence n"
  "paused (resetTimerLocked en n) = paused n" "bootID (resetTimerLocked en n) = bootID n"
  by (simp_all add: resetTimerLocked_def)

lemma failPending_sel [simp]:
  "cfg (failPendingLocked e n) = cfg n" "peers (failPendingLocked e n) = peers n"
  "store (failPendingLocked e n) = store n" "machine (failPendingLocked e n) = machine n"
  "role (failPendingLocked e n) = role n" "leader (failPendingLocked e n) = leader n"
  "applied (failPendingLocked e n) = applied n" "nextIndex (failPendingLocked e n) = nextIndex n"
  "matchIndex (failPendingLocked e n) = matchIndex n" "pending (failPendingLocked e n) = fmempty"
  "chanCount (failPendingLocked e n) = chanCount n" "failed (failPendingLocked e n) = failed n"
  "closed (failPendingLocked e n) = closed n" "manual (failPendingLocked e n) = manual n"
  "outbox (failPendingLocked e n) = outbox n" "calls (failPendingLocked e n) = calls n"
  "busy (failPendingLocked e n) = busy n" "votes (failPendingLocked e n) = votes n"
  "sequence (failPendingLocked e n) = sequence n" "paused (failPendingLocked e n) = paused n"
  "bootID (failPendingLocked e n) = bootID n" "events (failPendingLocked e n) = events n"
  by (simp_all add: failPendingLocked_def)

lemma step_ok_emit [simp, intro]: "step_ok n (emitLocked en k i p m d n)"
  by (rule step_ok_frame) (auto simp: role_ok_def)

lemma step_ok_reset [simp, intro]: "step_ok n (resetTimerLocked en n)"
  by (rule step_ok_frame) (auto simp: role_ok_def)

text \<open>Failing all waiting calls sends one outcome to each of their channels.\<close>

lemma send_fold:
  assumes "distinct (map (wdone \<circ> snd) ws)"
  shows "foldl (\<lambda>ch (index, w). send_outcome (wdone w) out ch) ch ws c =
    (if c \<in> (wdone \<circ> snd) ` set ws then ch c @ [out] else ch c)"
  using assms
proof (induction ws arbitrary: ch)
  case (Cons x ws)
  obtain i w where x: "x = (i, w)" by (cases x)
  show ?case using Cons by (auto simp: x send_outcome_def)
qed simp

lemma pending_list:
  "set (sorted_list_of_fmap m) = {(k, v). fmlookup m k = Some v}"
  "distinct (map fst (sorted_list_of_fmap m))"
  by (auto simp: sorted_list_of_fmap_def fmlookup_dom_iff comp_def sorted_list_of_fset.rep_eq)

lemma pending_channels_distinct:
  assumes "chan_ok n"
  shows "distinct (map (wdone \<circ> snd) (sorted_list_of_fmap (pending n)))"
proof -
  have "distinct (sorted_list_of_fmap (pending n))"
    using pending_list(2) distinct_map by blast
  moreover have "inj_on (wdone \<circ> snd) (set (sorted_list_of_fmap (pending n)))"
    using assms by (auto simp: pending_list chan_ok_def inj_on_def) (metis option.inject)
  ultimately show ?thesis by (simp add: distinct_map)
qed

lemma failPending_chans:
  assumes "chan_ok n"
  shows "chans (failPendingLocked e n) c =
    (if \<exists>i w. fmlookup (pending n) i = Some w \<and> wdone w = c then [(zeroResult, Some e)] else chans n c)"
  using assms send_fold [OF pending_channels_distinct [OF assms], of "(zeroResult, Some e)" "chans n" c]
  by (auto simp: failPendingLocked_def pending_list chan_ok_def image_iff)

lemma failPending_chan_ok: "chan_ok n \<Longrightarrow> chan_ok (failPendingLocked e n)"
  unfolding chan_ok_def [of "failPendingLocked e n"]
  by (simp add: failPending_chans) (auto simp: chan_ok_def not_le [symmetric])

lemma step_ok_failPending [simp, intro]: "step_ok n (failPendingLocked e n)"
proof -
  have "node_inv (failPendingLocked e n)" if "node_inv n"
    using that failPending_chan_ok [of n e]
    unfolding node_inv_def store_ok_def machine_ok_def role_ok_def by auto
  moreover have "node_le n (failPendingLocked e n)" if "node_inv n"
    using node_le_refl [OF that] by (simp add: node_le_def)
  ultimately show ?thesis by (simp add: step_ok_def weak_ok_def synced_def)
qed

section \<open>Persisting\<close>

lemma persist_cases:
  assumes "persistLocked en T v c f es n = Some (ok, n')"
  obtains (saved) st where "save (store n) T v c f es = Some (None, st)" "ok" "n' = n\<lparr>store := st\<rparr>"
    | (failed) st e where "save (store n) T v c f es = Some (Some e, st)" "\<not> ok"
        "n' = failPendingLocked ErrUnavailable ((emitLocked en ''DISK_ERROR'' 0 [] [] []
           (n\<lparr>store := st, failed := Some e\<rparr>))\<lparr>role := Follower, leader := []\<rparr>)"
  using assms by (auto simp: persistLocked_def Let_def split: option.splits)

text \<open>The log up to the commit index is what the machine was built from, and a save keeps it.\<close>

lemma machine_at_save:
  assumes wf: "wf_store s" and j: "sWal s = Some j" and sv: "save s T v c f es = Some (err, s')"
    and k: "dBase (sState s) \<le> k" "k \<le> dCommit (sState s)"
  shows "machine_at s' k = machine_at s k"
proof (cases err)
  case (Some e)
  then show ?thesis
    using save_state(5) [OF wf j sv] by (simp add: machine_at_def base_machine_def)
next
  case None
  note st = save_state(6) [OF wf j sv None]
  have "take (k - dBase (sState s)) (tl (dLog (sState s'))) = take (k - dBase (sState s)) (tl (dLog (sState s)))"
  proof (cases "f = 0")
    case True
    then show ?thesis using st by simp
  next
    case False
    have wst: "wf_state (sState s)" using wf by (simp add: wf_store_def)
    from wf j have "validate s (plain_record s T v c f es) = Some None"
      by (cases rule: save_cases [where T = T and v = v and c = c and f = f and es = es]) (use sv None in auto)
    from validate_plain(6) [OF wst _ this] False
    have f: "dCommit (sState s) < f" "f \<le> dBase (sState s) + length (dLog (sState s))"
      by (auto simp: plain_record_def)
    obtain x xs where l: "dLog (sState s) = x # xs" using wst by (cases "dLog (sState s)") (auto simp: wf_state_def)
    obtain m where m: "f - dBase (sState s) = Suc m" using f k by (cases "f - dBase (sState s)") auto
    have "k - dBase (sState s) \<le> m" "m \<le> length xs" using f k m l by auto
    then show ?thesis using st False l m by simp
  qed
  then show ?thesis using st by (simp add: machine_at_def base_machine_def)
qed

lemma save_uncut:
  assumes wf: "wf_store s" and j: "sWal s = Some j" and sv: "save s T v c f es = Some (err, s')" and u: "uncut s"
  shows "uncut s'"
proof -
  have b: "dBase (sState s') = 0" using save_state(5,6) [OF wf j sv] u by (cases err) (auto simp: uncut_def)
  let ?r = "plain_record s T v c f es"
  obtain d where d: "j = Memory d" "\<forall>r \<in> set (mrecords d). jCheckpoint r = None" using u j by (auto simp: uncut_def)
  have a: "\<exists>d'. j' = Memory d' \<and> (\<forall>r \<in> set (mrecords d'). jCheckpoint r = None)" if "journal_append j ?r = (e, j')" for e j'
    using that d by (auto simp: Append_memory_def plain_record_def Let_def split: if_splits)
  from wf j have "\<exists>d'. sWal s' = Some (Memory d') \<and> (\<forall>r \<in> set (mrecords d'). jCheckpoint r = None)"
    by (cases rule: save_cases [where T = T and v = v and c = c and f = f and es = es]) (use sv j d a in fastforce)+
  then show ?thesis using b by (simp add: uncut_def)
qed

lemma persist_weak:
  assumes ps: "persistLocked en T v c f es n = Some (ok, n')" and healthy: "failed n = None"
  shows "weak_ok n n'"
  unfolding weak_ok_def
proof
  assume inv: "node_inv n"
  then have wf: "wf_store (store n)" and so: "store_ok n" and mo: "machine_ok n" and co: "chan_ok n"
    and ro: "role_ok n"
    by (auto simp: node_inv_def store_ok_def)
  obtain j where j: "sWal (store n) = Some j" using node_inv_wal [OF inv] by auto
  have jg: "journal_gives (store n) (store n)" using so healthy by (simp add: store_ok_def)
  from ps show "node_inv n' \<and> node_le n n'"
  proof (cases rule: persist_cases)
    case (saved st)
    note ss = save_state [OF wf j saved(1)]
    have "machine_at st (applied n) = machine_at (store n) (applied n)"
      using machine_at_save [OF wf j saved(1)] mo by (simp add: machine_ok_def)
    then have "machine_ok n'" using mo ss(2,6) saved(3) by (auto simp: machine_ok_def state_le_def)
    moreover have "store_ok n'"
      using save_journal [OF wf jg saved(1)] ss(1) saved(3) by (simp add: store_ok_def)
    ultimately show ?thesis
      using co ro ss(2,4) saved(3) save_uncut [OF wf j saved(1)]
      by (simp add: node_inv_def chan_ok_def role_ok_def node_le_def)
  next
    case (failed st e)
    note ss = save_state [OF wf j failed(1)]
    let ?m = "n\<lparr>store := st, failed := Some e, role := Follower, leader := []\<rparr>"
    have same: "sState st = state n" "sSnapshot st = sSnapshot (store n)" using ss(5) by auto
    then have "machine_at st k = machine_at (store n) k" for k
      by (simp add: machine_at_def base_machine_def)
    then have "node_inv ?m"
      using mo co save_journal(2) [OF wf jg failed(1)] ss(1) same
      by (simp add: node_inv_def machine_ok_def store_ok_def chan_ok_def role_ok_def)
    moreover have "node_le n ?m"
      using ss(2,4) save_uncut [OF wf j failed(1)] by (simp add: node_le_def)
    moreover have "weak_ok ?m n'"
    proof -
      let ?e = "(emitLocked en ''DISK_ERROR'' 0 [] [] [] (n\<lparr>store := st, failed := Some e\<rparr>))
          \<lparr>role := Follower, leader := []\<rparr>"
      have "step_ok ?m ?e" by (rule step_ok_frame) (auto simp: role_ok_def)
      then have "step_ok ?m (failPendingLocked ErrUnavailable ?e)" by (rule step_ok_trans) simp
      then show ?thesis using failed(3) by (auto intro: step_weak)
    qed
    ultimately show ?thesis by (auto simp: weak_ok_def intro: node_le_trans)
  qed
qed

lemma persist_sel:
  assumes "persistLocked en T v c f es n = Some (ok, n')"
  shows "cfg n' = cfg n" "peers n' = peers n" "manual n' = manual n" "applied n' = applied n"
    "machine n' = machine n" "votes n' = votes n" "nextIndex n' = nextIndex n" "matchIndex n' = matchIndex n"
    "busy n' = busy n" "sequence n' = sequence n" "outbox n' = outbox n" "calls n' = calls n"
    "closed n' = closed n" "paused n' = paused n" "bootID n' = bootID n" "chanCount n' = chanCount n"
    "ok \<Longrightarrow> role n' = role n \<and> leader n' = leader n \<and> failed n' = failed n \<and> pending n' = pending n \<and> chans n' = chans n"
    "\<not> ok \<Longrightarrow> role n' = Follower \<and> failed n' \<noteq> None \<and> leader n' = []"
  using assms by (cases rule: persist_cases; simp)+

lemma persist_state:
  assumes inv: "node_inv n" and ps: "persistLocked en T v c f es n = Some (ok, n')"
  shows "\<not> ok \<Longrightarrow> state n' = state n"
    and "ok \<Longrightarrow> dTerm (state n') = T \<and> dVote (state n') = v \<and> dCommit (state n') = c \<and>
      dBase (state n') = dBase (state n) \<and> sSnapshot (store n') = sSnapshot (store n) \<and>
      dLog (state n') = (if f = 0 then dLog (state n) else take (f - dBase (state n)) (dLog (state n)) @ es)"
proof -
  obtain j where j: "sWal (store n) = Some j" using node_inv_wal [OF inv] by auto
  note ss = save_state [OF node_inv_wf(1) [OF inv] j]
  show "\<not> ok \<Longrightarrow> state n' = state n"
    using ps by (cases rule: persist_cases) (auto dest: ss(5))
  show "ok \<Longrightarrow> dTerm (state n') = T \<and> dVote (state n') = v \<and> dCommit (state n') = c \<and>
      dBase (state n') = dBase (state n) \<and> sSnapshot (store n') = sSnapshot (store n) \<and>
      dLog (state n') = (if f = 0 then dLog (state n) else take (f - dBase (state n)) (dLog (state n)) @ es)"
    using ps by (cases rule: persist_cases) (auto dest: ss(6))
qed

lemma persist_total: "node_inv n \<Longrightarrow> persistLocked en T v c f es n \<noteq> None"
  using save_total [OF node_inv_wf(1) node_inv_wal, of n T v c f es]
  by (auto simp: persistLocked_def Let_def split: option.splits)

lemma persist_step:
  assumes ps: "persistLocked en T v (dCommit (state n)) f es n = Some (ok, n')" and healthy: "failed n = None"
  shows "step_ok n n'"
proof -
  have "synced n'" if "node_inv n" "synced n"
    using persist_state [OF that(1) ps] persist_sel(4) [OF ps] that(2) by (cases ok) (auto simp: synced_def)
  then show ?thesis using persist_weak [OF assms] by (simp add: step_ok_def)
qed

lemma step_ok_upd [simp, intro]:
  "step_ok n (n\<lparr>nextIndex := x\<rparr>)" "step_ok n (n\<lparr>matchIndex := y\<rparr>)"
  "step_ok n (n\<lparr>wake := w\<rparr>)" "step_ok n (n\<lparr>outbox := ob\<rparr>)" "step_ok n (n\<lparr>calls := cs\<rparr>)"
  "step_ok n (n\<lparr>busy := b\<rparr>)" "step_ok n (n\<lparr>sequence := q\<rparr>)" "step_ok n (n\<lparr>leader := l\<rparr>)"
  "step_ok n (n\<lparr>paused := p\<rparr>)" "step_ok n (n\<lparr>closed := c\<rparr>)"
  "step_ok n (n\<lparr>role := Follower\<rparr>)" "step_ok n (n\<lparr>votes := Some vs\<rparr>)"
  by (rule step_ok_frame; auto simp: role_ok_def)+

lemma stepDown_step:
  assumes sd: "stepDownLocked en T l n = Some (ok, n')" and healthy: "failed n = None"
  shows "step_ok n n'"
proof -
  obtain ok1 n1 where p: "(if dTerm (state n) < T then persistLocked en T [] (dCommit (state n)) 0 [] n
      else Some (True, n)) = Some (ok1, n1)"
    using sd by (auto simp: stepDownLocked_def Let_def)
  have s1: "step_ok n n1" using p persist_step [OF _ healthy] by (auto split: if_splits)
  show ?thesis
  proof (cases ok1)
    case False
    then show ?thesis using sd p s1 by (auto simp: stepDownLocked_def Let_def)
  next
    case True
    let ?n2 = "n1\<lparr>role := Follower, leader := l\<rparr>"
    define n3 where "n3 = (if role n \<noteq> Follower \<or> dTerm (state n) < T
      then emitLocked en ''STEPPED_DOWN'' 0 l [] [] ?n2 else ?n2)"
    have "step_ok n1 ?n2" by (rule step_ok_frame) (auto simp: role_ok_def)
    moreover have "step_ok ?n2 n3" by (simp add: n3_def)
    moreover have "n' = failPendingLocked (leaderErrorLocked n3) n3"
      using sd p True by (auto simp: stepDownLocked_def Let_def n3_def)
    ultimately show ?thesis using s1 by (metis step_ok_trans step_ok_failPending)
  qed
qed

lemma stepDown_sel:
  assumes sd: "stepDownLocked en T l n = Some (ok, n')"
  shows "cfg n' = cfg n" "peers n' = peers n" "votes n' = votes n" "role n' = Follower"
    "closed n' = closed n" "paused n' = paused n" "sequence n' = sequence n" "busy n' = busy n"
    "outbox n' = outbox n" "calls n' = calls n" "manual n' = manual n" "bootID n' = bootID n"
    "nextIndex n' = nextIndex n" "matchIndex n' = matchIndex n"
    "ok \<Longrightarrow> failed n' = failed n" "\<not> ok \<Longrightarrow> failed n' \<noteq> None"
  using sd
  by (auto simp: stepDownLocked_def Let_def persist_sel dest: persist_sel(18) split: if_splits)

end
