(* ===== verification/Node_Steps.thy ===== *)
theory Node_Steps
  imports Node_Inv
begin

text \<open>
  Every transition function of the node keeps the invariant and takes nothing back.
\<close>

section \<open>Sending\<close>

text \<open>The fields that queueing messages leaves alone.\<close>

definition quiet :: "Node \<Rightarrow> Node \<Rightarrow> bool" where
  "quiet n n' \<longleftrightarrow> n' = n\<lparr>wake := wake n', outbox := outbox n', busy := busy n', sequence := sequence n', events := events n'\<rparr>"

lemma quietI: "n' = n\<lparr>wake := wk, outbox := ob, busy := bs, sequence := sq, events := ev\<rparr> \<Longrightarrow> quiet n n'"
  by (simp add: quiet_def)

lemma quiet_refl [simp, intro]: "quiet n n"
  by (simp add: quiet_def)

lemma quietE:
  assumes "quiet n n'"
  obtains wk ob bs sq ev where "n' = n\<lparr>wake := wk, outbox := ob, busy := bs, sequence := sq, events := ev\<rparr>"
  using assms unfolding quiet_def by blast

lemma quiet_trans [trans]:
  assumes "quiet a b" "quiet b c" shows "quiet a c"
  using assms(1) by (rule quietE, use assms(2) in \<open>rule quietE\<close>) (simp add: quiet_def)

lemma quiet_sel:
  assumes "quiet n n'"
  shows "cfg n' = cfg n" "peers n' = peers n" "store n' = store n" "machine n' = machine n" "role n' = role n"
    "leader n' = leader n" "applied n' = applied n" "nextIndex n' = nextIndex n" "matchIndex n' = matchIndex n"
    "pending n' = pending n" "chans n' = chans n" "chanCount n' = chanCount n" "failed n' = failed n"
    "closed n' = closed n" "paused n' = paused n" "votes n' = votes n" "manual n' = manual n" "bootID n' = bootID n"
    "calls n' = calls n" "deadline n' = deadline n"
  by (rule quietE [OF assms]; simp)+

lemma quiet_step: "quiet n n' \<Longrightarrow> step_ok n n'"
  by (rule step_ok_frame) (simp_all add: quiet_sel role_ok_def)

lemma prepare_eq:
  assumes "prepareAppendLocked en p n = Some (req, n')"
  shows "\<exists>ev. n' = n\<lparr>sequence := sequence n + 1, events := ev\<rparr>"
proof -
  obtain k i m where "n' = emitLocked en k i (pID p) m [] (n\<lparr>sequence := sequence n + 1\<rparr>)"
    using assms unfolding prepareAppendLocked_def Let_def
    by (elim bind_SomeE) (auto elim: bind_SomeE simp del: One_nat_def split: if_split_asm)
  then show ?thesis unfolding emitLocked_def by (intro exI) (rule trans, assumption, rule refl)
qed

lemma prepare_quiet: "prepareAppendLocked en p n = Some (req, n') \<Longrightarrow> quiet n n'"
  using prepare_eq [of en p n req n'] by (auto simp: quiet_def)

lemma queue_quiet: "queueAppendLocked en p n = Some n' \<Longrightarrow> quiet n n'"
proof (cases "busy n (pID p) \<noteq> 0 \<or> \<not> availableLocked n \<or> role n \<noteq> Leader")
  case False
  assume "queueAppendLocked en p n = Some n'"
  then obtain req n1 where r: "prepareAppendLocked en p n = Some (req, n1)"
    and n': "n' = n1\<lparr>busy := (busy n1)(pID p := sequence n1),
        outbox := outbox n1 @ [\<lparr>mSequence = sequence n1, mFrom = cID (cfg n1), mTo = pID p,
                     mVote = None, mAppend = Some req\<rparr>]\<rparr>"
    using False by (auto simp: queueAppendLocked_def)
  from prepare_eq [OF r] show ?thesis
    unfolding n' by (auto simp: quiet_def)
qed (simp add: queueAppendLocked_def)

lemma queue_all_quiet: "queue_all en ps n = Some n' \<Longrightarrow> quiet n n'"
  by (induction ps arbitrary: n) (auto split: if_splits dest: queue_quiet intro: quiet_trans)

lemma kick_quiet: "kickLocked en n = Some n' \<Longrightarrow> quiet n n'"
proof (cases "manual n")
  case False
  assume "kickLocked en n = Some n'"
  then have "n' = n\<lparr>wake := (\<lambda>i. map_option (\<lambda>_. True) (wake n i))\<rparr>" using False by (simp add: kickLocked_def)
  then show ?thesis by (simp add: quiet_def)
qed (auto simp: kickLocked_def dest: queue_all_quiet)

section \<open>Snapshots\<close>

lemma maybeSnapshot_cases:
  assumes "maybeSnapshotLocked en n = Some n'"
  obtains (none) "n' = n"
    | (failed) st e where "take_checkpoint (store n) (Snapshot_of (machine n)) (dCommit (state n)) = Some (Some e, st)"
        "role n = Leader" "dBase (state n) < dCommit (state n)"
        "n' = emitLocked en ''DISK_ERROR'' 0 [] [] [] (failPendingLocked ErrUnavailable
           (n\<lparr>store := st, failed := Some e, role := Follower, leader := []\<rparr>))"
    | (taken) st where "take_checkpoint (store n) (Snapshot_of (machine n)) (dCommit (state n)) = Some (None, st)"
        "role n = Leader" "dBase (state n) < dCommit (state n)"
        "n' = emitLocked en ''SNAPSHOT_CREATED'' (dBase (sState st)) [] [] [] (n\<lparr>store := st\<rparr>)"
proof -
  let ?skip = "SnapshotEvery (cfg n) = 0 \<or> dCommit (state n) - dBase (state n) < SnapshotEvery (cfg n) \<or> role n \<noteq> Leader"
  let ?all = "fBall (fmdom (peers n)) (\<lambda>i. i = cID (cfg n) \<or> dCommit (state n) \<le> matchIndex n i)"
  show ?thesis
  proof (cases "?skip \<or> \<not> ?all")
    case True
    then have "n' = n" using assms unfolding maybeSnapshotLocked_def by (simp split: if_split_asm)
    then show ?thesis by (rule none)
  next
    case False
    then have c: "role n = Leader" "dBase (state n) < dCommit (state n)" by auto
    from False assms obtain err st
      where t: "take_checkpoint (store n) (Snapshot_of (machine n)) (dCommit (state n)) = Some (err, st)"
      unfolding maybeSnapshotLocked_def by (auto split: if_split_asm)
    show ?thesis
    proof (cases err)
      case None
      show ?thesis
        by (rule taken [OF t [unfolded None] c])
          (use assms False t None in \<open>simp add: maybeSnapshotLocked_def split: if_split_asm\<close>)
    next
      case (Some e)
      show ?thesis
        by (rule failed [OF t [unfolded Some] c])
          (use assms False t Some in \<open>simp add: maybeSnapshotLocked_def split: if_split_asm\<close>)
    qed
  qed
qed

lemma machine_at_compacted:
  assumes "wf_machine m" "sState s' = sState (compacted s (Snapshot_of m) k)" "sSnapshot s' = Snapshot_of m" "0 < k"
  shows "machine_at s' k = m"
  using assms Restore_Snapshot [OF assms(1)] by (simp add: machine_at_def base_machine_def compacted_def)

lemma maybeSnapshot_off: "SnapshotEvery (cfg n) = 0 \<Longrightarrow> maybeSnapshotLocked en n = Some n"
  by (simp add: maybeSnapshotLocked_def)

lemma maybeSnapshot_step:
  assumes ms: "maybeSnapshotLocked en n = Some n'" and sy: "synced n"
  shows "step_ok n n'"
proof -
  have main: "node_inv n' \<and> node_le n n' \<and> synced n'" if inv: "node_inv n"
  proof -
    have wf: "wf_store (store n)" and so: "store_ok n" and mo: "machine_ok n" and co: "chan_ok n" and ro: "role_ok n"
      using inv by (auto simp: node_inv_def store_ok_def)
    have wm: "wf_machine (machine n)" using mo wf by (simp add: machine_ok_def machine_at_wf)
    note rs = Restore_Snapshot [OF wm]
    have g: "journal_gives (store n) (store n)" if "role n = Leader"
      using that ro so by (auto simp: role_ok_def store_ok_def)
    from ms show ?thesis
    proof (cases rule: maybeSnapshot_cases)
      case none
      then show ?thesis using inv sy by (simp add: node_le_refl)
    next
      case (failed st e)
      show ?thesis
      proof (cases "SnapshotEvery (cfg n) = 0")
        case True
        then show ?thesis using maybeSnapshot_off ms inv sy by (simp add: node_le_refl)
      next
      case on: False
      have m: "fst (Restore New_Machine (Snapshot_of (machine n))) = None" by (simp add: rs)
      note tk = take_checkpoint_state [OF wf g [OF failed(2)] failed(3) order_refl m failed(1)]
      let ?m = "n\<lparr>store := st, failed := Some e, role := Follower, leader := []\<rparr>"
      have "machine_at st (applied n) = machine_at (store n) (applied n)"
        using tk(5) by (simp add: machine_at_def base_machine_def)
      then have im: "node_inv ?m"
        using mo co tk(1,5,6)
        by (simp add: node_inv_def machine_ok_def store_ok_def chan_ok_def role_ok_def)
      have lm: "node_le n ?m" using node_le_refl [OF inv] tk(2,5) on by (simp add: node_le_def)
      have sm: "synced ?m" using sy tk(5) by (simp add: synced_def)
      have "step_ok ?m n'" unfolding failed(4) by (rule step_ok_trans [OF step_ok_failPending step_ok_emit])
      then show ?thesis using im lm sm by (auto simp: step_ok_def weak_ok_def intro: node_le_trans)
      qed
    next
      case (taken st)
      show ?thesis
      proof (cases "SnapshotEvery (cfg n) = 0")
        case True
        then show ?thesis using maybeSnapshot_off ms inv sy by (simp add: node_le_refl)
      next
      case on: False
      have m: "fst (Restore New_Machine (Snapshot_of (machine n))) = None" by (simp add: rs)
      note tk = take_checkpoint_state [OF wf g [OF taken(2)] taken(3) order_refl m taken(1)]
      let ?m = "n\<lparr>store := st\<rparr>"
      have st: "journal_gives st st" "sState st = sState (compacted (store n) (Snapshot_of (machine n)) (dCommit (state n)))"
        "sSnapshot st = Snapshot_of (machine n)" using tk(4) by auto
      have ap: "applied n = dCommit (state n)" using sy by (simp add: synced_def)
      have sle: "state_le (state n) (sState st)" using compacted_state(1) [OF wf _ order_refl] taken(3) st(2) by simp
      have c: "dBase (sState st) = dCommit (state n)" "dCommit (sState st) = dCommit (state n)"
        using st(2) by (simp_all add: compacted_def)
      have "machine_at st (dCommit (state n)) = machine n"
        using machine_at_compacted [OF wm st(2,3)] taken(3) by simp
      then have im: "node_inv ?m"
        using co ro tk(1) st(1) ap c tk(6)
        by (auto simp: node_inv_def machine_ok_def store_ok_def chan_ok_def role_ok_def)
      have lm: "node_le n ?m" using node_le_refl [OF inv] tk(2) sle on by (simp add: node_le_def)
      have sm: "synced ?m" using ap c by (simp add: synced_def)
      have "step_ok ?m n'" unfolding taken(4) by (rule step_ok_emit)
      then show ?thesis using im lm sm by (auto simp: step_ok_def weak_ok_def intro: node_le_trans)
      qed
    qed
  qed
  then show ?thesis by (simp add: step_ok_def weak_ok_def)
qed

section \<open>Applying\<close>

definition entry_outcome :: "Machine \<Rightarrow> Entry \<Rightarrow> outcome \<times> Machine" where
  "entry_outcome m e = (case eCommand e of None \<Rightarrow> ((zeroResult, None), m) | Some c \<Rightarrow> Apply m c)"

definition waiter_outcome :: "Machine \<Rightarrow> waiter \<Rightarrow> outcome \<Rightarrow> outcome" where
  "waiter_outcome m w out =
     (case readKey w of None \<Rightarrow> out
      | Some k \<Rightarrow> ((fst out)\<lparr>rValue := fst (Get_Machine m k), rFound := snd (Get_Machine m k)\<rparr>, snd out))"

text \<open>One step of the loop: the next entry goes through the machine, and whoever waits for it hears.\<close>

lemma apply_one_eq:
  assumes e: "store_entry (store n) (Suc (applied n)) = Some e"
    and x: "entry_outcome (machine n) e = (out, m)"
  obtains ev where "apply_one en n = Some (n\<lparr>machine := m, applied := Suc (applied n), events := ev,
      pending := fmdrop (Suc (applied n)) (pending n),
      chans := (case fmlookup (pending n) (Suc (applied n)) of None \<Rightarrow> chans n
                | Some w \<Rightarrow> send_outcome (wdone w) (waiter_outcome m w out) (chans n))\<rparr>)"
proof -
  define ev where "ev = events (emitLocked en ''APPLIED'' (Suc (applied n)) [] [] [] (n\<lparr>applied := Suc (applied n)\<rparr>))"
  let ?n2 = "n\<lparr>applied := Suc (applied n), events := ev\<rparr>"
  have em: "emitLocked en ''APPLIED'' (Suc (applied n)) [] [] [] (n\<lparr>applied := Suc (applied n)\<rparr>) = ?n2"
    by (simp add: emitLocked_def ev_def)
  have drop: "fmdrop i (pending n) = pending n" if "fmlookup (pending n) i = None" for i
    using that by (simp add: fmdrop_idle fmlookup_dom_iff)
  note x' = x [unfolded entry_outcome_def]
  show ?thesis
  proof (cases "fmlookup (pending n) (Suc (applied n))")
    case None
    show ?thesis
      by (rule that [of ev]) (use x' in \<open>cases "eCommand e"; simp add: apply_one_def Let_def entryLocked_def e em None drop\<close>)
  next
    case (Some w)
    show ?thesis
      by (rule that [of ev])
        (use x' in \<open>cases "eCommand e"; cases "readKey w";
           simp add: apply_one_def Let_def entryLocked_def e em Some waiter_outcome_def case_prod_beta\<close>)
  qed
qed

lemma apply_one_chan:
  assumes "chan_ok n" "fmlookup (pending n) i = Some w"
  shows "chan_ok (n\<lparr>pending := fmdrop i (pending n), chans := send_outcome (wdone w) out (chans n)\<rparr>)"
  using assms unfolding chan_ok_def send_outcome_def by (auto simp: fmlookup_drop) (metis not_le)+

lemma chan_ok_cong:
  "pending n' = pending n \<Longrightarrow> chans n' = chans n \<Longrightarrow> chanCount n' = chanCount n \<Longrightarrow> chan_ok n' = chan_ok n"
  by (simp add: chan_ok_def)

lemma apply_one_ok:
  assumes inv: "node_inv n" and lt: "applied n < dCommit (state n)"
  obtains m ev pd ch where
    "apply_one en n = Some (n\<lparr>machine := m, applied := Suc (applied n), events := ev, pending := pd, chans := ch\<rparr>)"
    "node_inv (n\<lparr>machine := m, applied := Suc (applied n), events := ev, pending := pd, chans := ch\<rparr>)"
proof -
  have wf: "wf_state (state n)" and mo: "machine_ok n" and co: "chan_ok n"
    using node_inv_wf inv by (auto simp: node_inv_def)
  have "dBase (state n) \<le> Suc (applied n)" "Suc (applied n) \<le> store_last (store n)"
    using mo lt wf_state_last [OF wf] by (auto simp: machine_ok_def)
  then obtain e where e: "store_entry (store n) (Suc (applied n)) = Some e" by (rule store_entry_get [OF wf])
  obtain out m where x: "entry_outcome (machine n) e = (out, m)" by (cases "entry_outcome (machine n) e")
  let ?ch = "case fmlookup (pending n) (Suc (applied n)) of None \<Rightarrow> chans n
                | Some w \<Rightarrow> send_outcome (wdone w) (waiter_outcome m w out) (chans n)"
  let ?pd = "fmdrop (Suc (applied n)) (pending n)"
  obtain ev where ap: "apply_one en n = Some (n\<lparr>machine := m, applied := Suc (applied n), events := ev,
      pending := ?pd, chans := ?ch\<rparr>)" (is "_ = Some ?n'")
    by (rule apply_one_eq [OF e x])
  have m: "m = machine_at (store n) (Suc (applied n))"
    using machine_at_Suc [OF e] mo x
    by (auto simp: machine_ok_def entry_outcome_def split: option.splits)
  have "chan_ok (n\<lparr>pending := ?pd, chans := ?ch\<rparr>)"
  proof (cases "fmlookup (pending n) (Suc (applied n))")
    case None
    then have "?pd = pending n" by (simp add: fmdrop_idle fmlookup_dom_iff)
    then show ?thesis using co None by simp
  next
    case (Some w)
    then show ?thesis using apply_one_chan [OF co Some] by simp
  qed
  then have "chan_ok ?n'" by (rule iffD2 [OF chan_ok_cong, rotated 3]) simp_all
  moreover have "store_ok ?n'" "role_ok ?n'" using inv by (simp_all add: node_inv_def store_ok_def role_ok_def)
  moreover have "machine_ok ?n'" using mo lt by (simp add: machine_ok_def m)
  ultimately have "node_inv ?n'" by (simp add: node_inv_def)
  then show ?thesis by (rule that [OF ap])
qed

text \<open>The loop always ends with everything committed applied.\<close>

definition ran :: "Node \<Rightarrow> Node \<Rightarrow> bool" where
  "ran n n' \<longleftrightarrow> n' = n\<lparr>machine := machine n', applied := applied n', events := events n', pending := pending n',
     chans := chans n'\<rparr>"

lemma ranE:
  assumes "ran n n'"
  obtains m a ev pd ch where "n' = n\<lparr>machine := m, applied := a, events := ev, pending := pd, chans := ch\<rparr>"
  using assms unfolding ran_def by blast

lemma ran_trans: assumes "ran a b" "ran b c" shows "ran a c"
  using assms(1) by (rule ranE, use assms(2) in \<open>rule ranE\<close>) (simp add: ran_def)

lemma ran_sel:
  assumes "ran n n'"
  shows "cfg n' = cfg n" "peers n' = peers n" "store n' = store n" "role n' = role n" "leader n' = leader n"
    "nextIndex n' = nextIndex n" "matchIndex n' = matchIndex n" "chanCount n' = chanCount n" "failed n' = failed n"
    "closed n' = closed n" "paused n' = paused n" "votes n' = votes n" "manual n' = manual n" "bootID n' = bootID n"
    "outbox n' = outbox n" "calls n' = calls n" "busy n' = busy n" "sequence n' = sequence n" "deadline n' = deadline n"
  by (rule ranE [OF assms]; simp)+

lemma apply_loop_ok:
  assumes "node_inv n" "applied n + k = dCommit (state n)"
  obtains n' where "apply_loop en k n = Some n'" "node_inv n'" "ran n n'" "applied n' = dCommit (state n)"
  using assms
proof (induction k arbitrary: n thesis)
  case 0
  then show ?case by (simp add: ran_def)
next
  case (Suc k)
  have "applied n < dCommit (state n)" using Suc.prems(3) by simp
  then obtain m ev pd ch where one:
      "apply_one en n = Some (n\<lparr>machine := m, applied := Suc (applied n), events := ev, pending := pd, chans := ch\<rparr>)"
    and inv: "node_inv (n\<lparr>machine := m, applied := Suc (applied n), events := ev, pending := pd, chans := ch\<rparr>)"
    by (rule apply_one_ok [OF Suc.prems(2)])
  let ?n = "n\<lparr>machine := m, applied := Suc (applied n), events := ev, pending := pd, chans := ch\<rparr>"
  have k: "applied ?n + k = dCommit (state ?n)" using Suc.prems(3) by simp
  have r: "ran n ?n" by (simp add: ran_def)
  obtain n' where l: "apply_loop en k ?n = Some n'" "node_inv n'" "ran ?n n'" "applied n' = dCommit (state ?n)"
    by (rule Suc.IH [OF _ inv k])
  have "apply_loop en (Suc k) n = Some n'" by (simp add: one l(1))
  moreover have "applied n' = dCommit (state n)" using l(4) by simp
  ultimately show ?case using Suc.prems(1) l(2) ran_trans [OF r l(3)] by blast
qed

lemma applyLocked_eq:
  assumes inv: "node_inv n"
  obtains n1 where "applyLocked en n = maybeSnapshotLocked en n1" "node_inv n1" "ran n n1" "synced n1" "node_le n n1"
proof -
  have le: "applied n + (dCommit (state n) - applied n) = dCommit (state n)"
    using inv by (simp add: node_inv_def machine_ok_def)
  obtain n1 where l: "apply_loop en (dCommit (state n) - applied n) n = Some n1" "node_inv n1" "ran n n1"
      "applied n1 = dCommit (state n)"
    by (rule apply_loop_ok [OF inv le])
  have "node_le n n1" using node_le_refl [OF inv] l(4) le by (simp add: node_le_def ran_sel [OF l(3)])
  then show ?thesis using l by (intro that [of n1]) (simp_all add: applyLocked_def synced_def ran_sel)
qed

lemma apply_ok:
  assumes inv: "node_inv n" and ap: "applyLocked en n = Some n'"
  shows "node_inv n'" "node_le n n'" "synced n'"
proof -
  obtain n1 where n1: "applyLocked en n = maybeSnapshotLocked en n1" "node_inv n1" "ran n n1" "synced n1" "node_le n n1"
    by (rule applyLocked_eq [OF inv])
  have "step_ok n1 n'" using maybeSnapshot_step [OF _ n1(4)] n1(1) ap by simp
  then show "node_inv n'" "node_le n n'" "synced n'"
    using n1 by (auto simp: step_ok_def weak_ok_def intro: node_le_trans)
qed

lemma maybeSnapshot_total: "node_inv n \<Longrightarrow> synced n \<Longrightarrow> maybeSnapshotLocked en n \<noteq> None"
proof -
  assume inv: "node_inv n" and sy: "synced n"
  have wf: "wf_store (store n)" and mo: "machine_ok n"
    using inv by (auto simp: node_inv_def store_ok_def)
  then have wm: "wf_machine (machine n)" by (simp add: machine_ok_def machine_at_wf)
  obtain j where j: "sWal (store n) = Some j" using node_inv_wal [OF inv] by auto
  have m: "fst (Restore New_Machine (Snapshot_of (machine n))) = None" by (simp add: Restore_Snapshot [OF wm])
  have tk: "take_checkpoint (store n) (Snapshot_of (machine n)) (dCommit (state n)) \<noteq> None"
    if "dBase (state n) < dCommit (state n)"
    by (rule take_checkpoint_cases [OF wf j that order_refl m]) auto
  show ?thesis
  proof (cases "dCommit (state n) \<le> dBase (state n)")
    case True
    then have "SnapshotEvery (cfg n) = 0 \<or> dCommit (state n) - dBase (state n) < SnapshotEvery (cfg n) \<or> role n \<noteq> Leader"
      by auto
    then show ?thesis unfolding maybeSnapshotLocked_def by simp
  next
    case False
    then obtain err st where "take_checkpoint (store n) (Snapshot_of (machine n)) (dCommit (state n)) = Some (err, st)"
      using tk by force
    then show ?thesis by (cases err) (simp_all add: maybeSnapshotLocked_def)
  qed
qed

lemma apply_total:
  assumes "node_inv n" shows "applyLocked en n \<noteq> None"
  by (rule applyLocked_eq [OF assms, of en]) (simp add: maybeSnapshot_total)

section \<open>Committing\<close>

lemma advance_cases:
  assumes "advanceCommitLocked en n = Some n'"
  obtains (none) "n' = n"
    | (failed) index where "role n = Leader" "availableLocked n" "scan_commit n (lastLocked n) = Some (Some index)"
        "persistLocked en (dTerm (state n)) (dVote (state n)) index 0 [] n = Some (False, n')"
    | (committed) index n1 n2 where "role n = Leader" "availableLocked n" "scan_commit n (lastLocked n) = Some (Some index)"
        "persistLocked en (dTerm (state n)) (dVote (state n)) index 0 [] n = Some (True, n1)"
        "applyLocked en (emitLocked en ''COMMITTED'' index [] [] [] n1) = Some n2" "kickLocked en n2 = Some n'"
  using assms unfolding advanceCommitLocked_def
  by (auto split: if_split_asm option.split_asm elim!: bind_SomeE)

lemma available_failed: "availableLocked n \<Longrightarrow> failed n = None"
  by (simp add: availableLocked_def)

text \<open>A persist that moves the commit index, followed by the application loop, is a whole step.\<close>

lemma persist_apply_step:
  assumes p: "persistLocked en T v c f es n = Some (True, n1)" and h: "failed n = None"
    and q: "step_ok n1 n2" and a: "applyLocked en n2 = Some n3"
  shows "step_ok n n3"
proof -
  have "node_inv n3 \<and> node_le n n3 \<and> synced n3" if inv: "node_inv n"
  proof -
    have 1: "node_inv n1" "node_le n n1" using persist_weak [OF p h] inv by (auto simp: weak_ok_def)
    then have 2: "node_inv n2" "node_le n1 n2" using q by (auto simp: step_ok_def weak_ok_def)
    show ?thesis using apply_ok [OF 2(1) a] 1(2) 2(2) by (auto intro: node_le_trans)
  qed
  then show ?thesis by (simp add: step_ok_def weak_ok_def)
qed

lemma persist_fail_step:
  assumes p: "persistLocked en T v c f es n = Some (False, n1)" and h: "failed n = None"
  shows "step_ok n n1"
  using persist_weak [OF assms] persist_state(1) [OF _ p] persist_sel(4) [OF p]
  by (auto simp: step_ok_def synced_def)

lemma advance_step:
  assumes "advanceCommitLocked en n = Some n'"
  shows "step_ok n n'"
  using assms
proof (cases rule: advance_cases)
  case (failed index)
  then show ?thesis using persist_fail_step available_failed by blast
next
  case (committed index n1 n2)
  have "step_ok n n2"
    using persist_apply_step [OF committed(4) available_failed [OF committed(2)] step_ok_emit committed(5)] .
  then show ?thesis using quiet_step [OF kick_quiet [OF committed(6)]] by (rule step_ok_trans)
qed simp_all

section \<open>Elections\<close>

text \<open>The state of a fresh leader before its first entry is written.\<close>

definition crowned :: "Env \<Rightarrow> Node \<Rightarrow> Node" where
  "crowned en n =
     (let n1 = emitLocked en ''LEADER_ELECTED'' 0 [] [] [] (n\<lparr>role := Leader, leader := cID (cfg n)\<rparr>) in
      n1\<lparr>nextIndex := (\<lambda>i. if i |\<in>| fmdom (peers n1) then lastLocked n1 + 1 else nextIndex n1 i),
         matchIndex := (\<lambda>i. if i |\<in>| fmdom (peers n1) then 0 else matchIndex n1 i)\<rparr>)"

lemma crowned_sel [simp]:
  "cfg (crowned en n) = cfg n" "peers (crowned en n) = peers n" "store (crowned en n) = store n"
  "machine (crowned en n) = machine n" "role (crowned en n) = Leader" "applied (crowned en n) = applied n"
  "pending (crowned en n) = pending n" "chans (crowned en n) = chans n" "chanCount (crowned en n) = chanCount n"
  "failed (crowned en n) = failed n" "closed (crowned en n) = closed n" "paused (crowned en n) = paused n"
  "manual (crowned en n) = manual n" "bootID (crowned en n) = bootID n" "votes (crowned en n) = votes n"
  "outbox (crowned en n) = outbox n" "calls (crowned en n) = calls n" "busy (crowned en n) = busy n"
  "sequence (crowned en n) = sequence n"
  "nextIndex (crowned en n) = (\<lambda>i. if i |\<in>| fmdom (peers n) then lastLocked n + 1 else nextIndex n i)"
  "matchIndex (crowned en n) = (\<lambda>i. if i |\<in>| fmdom (peers n) then 0 else matchIndex n i)"
  by (simp_all add: crowned_def Let_def lastLocked_def cong: if_cong)

lemma becomeLeader_eq:
  "becomeLeaderLocked en n =
     do {
       (ok, n3) \<leftarrow> persistLocked en (dTerm (state n)) (dVote (state n)) (dCommit (state n)) (lastLocked n + 1)
                   [\<lparr>eIndex = lastLocked n + 1, eTerm = dTerm (state n), eCommand = None\<rparr>] (crowned en n);
       (if \<not> ok then Some n3
        else
          do {
            n4 \<leftarrow> advanceCommitLocked en (n3\<lparr>matchIndex := (matchIndex n3)(cID (cfg n3) := lastLocked n + 1)\<rparr>);
            kickLocked en n4
          })
     }"
  unfolding becomeLeaderLocked_def crowned_def Let_def by (simp add: lastLocked_def cong: if_cong)

lemma becomeLeader_cases:
  assumes "becomeLeaderLocked en n = Some n'"
  obtains (failed) "persistLocked en (dTerm (state n)) (dVote (state n)) (dCommit (state n)) (lastLocked n + 1)
        [\<lparr>eIndex = lastLocked n + 1, eTerm = dTerm (state n), eCommand = None\<rparr>] (crowned en n) = Some (False, n')"
    | (led) n3 n4 where "persistLocked en (dTerm (state n)) (dVote (state n)) (dCommit (state n)) (lastLocked n + 1)
        [\<lparr>eIndex = lastLocked n + 1, eTerm = dTerm (state n), eCommand = None\<rparr>] (crowned en n) = Some (True, n3)"
        "advanceCommitLocked en (n3\<lparr>matchIndex := (matchIndex n3)(cID (cfg n3) := lastLocked n + 1)\<rparr>) = Some n4"
        "kickLocked en n4 = Some n'"
  using assms unfolding becomeLeader_eq by (auto split: if_split_asm elim!: bind_SomeE)

lemma crowned_step: "failed n = None \<Longrightarrow> step_ok n (crowned en n)"
  by (rule step_ok_frame) (simp_all add: role_ok_def)

lemma becomeLeader_step:
  assumes "becomeLeaderLocked en n = Some n'" and h: "failed n = None"
  shows "step_ok n n'"
  using assms(1)
proof (cases rule: becomeLeader_cases)
  case failed
  have "step_ok (crowned en n) n'" using persist_fail_step [OF failed] h by simp
  then show ?thesis using crowned_step [OF h] step_ok_trans by blast
next
  case (led n3 n4)
  have "step_ok n (crowned en n)" by (rule crowned_step [OF h])
  also have "step_ok (crowned en n) n3" by (rule persist_step [OF led(1) [folded crowned_sel(3) [of en n]]]) (simp add: h)
  also have "step_ok n3 (n3\<lparr>matchIndex := (matchIndex n3)(cID (cfg n3) := lastLocked n + 1)\<rparr>)" by simp
  also have "step_ok \<dots> n4" by (rule advance_step [OF led(2)])
  also have "step_ok n4 n'" by (rule quiet_step [OF kick_quiet [OF led(3)]])
  finally show ?thesis .
qed

text \<open>What sending the vote requests changes.\<close>

definition chatty :: "Node \<Rightarrow> Node \<Rightarrow> bool" where
  "chatty n n' \<longleftrightarrow> n' = n\<lparr>outbox := outbox n', calls := calls n', sequence := sequence n', events := events n'\<rparr>"

lemma chattyE:
  assumes "chatty n n'"
  obtains ob cs sq ev where "n' = n\<lparr>outbox := ob, calls := cs, sequence := sq, events := ev\<rparr>"
  using assms unfolding chatty_def by blast

lemma chatty_trans: assumes "chatty a b" "chatty b c" shows "chatty a c"
  using assms(1) by (rule chattyE, use assms(2) in \<open>rule chattyE\<close>) (simp add: chatty_def)

lemma chatty_sel:
  assumes "chatty n n'"
  shows "cfg n' = cfg n" "peers n' = peers n" "store n' = store n" "machine n' = machine n" "role n' = role n"
    "leader n' = leader n" "applied n' = applied n" "nextIndex n' = nextIndex n" "matchIndex n' = matchIndex n"
    "pending n' = pending n" "chans n' = chans n" "chanCount n' = chanCount n" "failed n' = failed n"
    "closed n' = closed n" "paused n' = paused n" "votes n' = votes n" "manual n' = manual n" "bootID n' = bootID n"
    "busy n' = busy n" "deadline n' = deadline n"
  by (rule chattyE [OF assms]; simp)+

lemma send_votes_chatty: "chatty n (send_votes en req ps n)"
proof (induction ps arbitrary: n)
  case Nil
  show ?case by (simp add: chatty_def)
next
  case (Cons p ps)
  show ?case
    unfolding send_votes.simps
    by (rule chatty_trans [OF _ Cons.IH]) (simp add: chatty_def Let_def emitLocked_def)
qed

lemma chatty_step: "chatty n n' \<Longrightarrow> step_ok n n'"
  by (rule step_ok_frame) (simp_all add: chatty_sel role_ok_def)

definition candidate :: "Env \<Rightarrow> Node \<Rightarrow> Node" where
  "candidate en n = emitLocked en ''ELECTION_STARTED'' 0 [] [] []
     ((resetTimerLocked en (n\<lparr>role := Candidate, leader := []\<rparr>))\<lparr>votes := Some {|cID (cfg n)|}\<rparr>)"

lemma candidate_sel [simp]:
  "cfg (candidate en n) = cfg n" "peers (candidate en n) = peers n" "store (candidate en n) = store n"
  "machine (candidate en n) = machine n" "role (candidate en n) = Candidate" "applied (candidate en n) = applied n"
  "pending (candidate en n) = pending n" "chans (candidate en n) = chans n" "chanCount (candidate en n) = chanCount n"
  "failed (candidate en n) = failed n" "closed (candidate en n) = closed n" "paused (candidate en n) = paused n"
  "manual (candidate en n) = manual n" "bootID (candidate en n) = bootID n"
  "votes (candidate en n) = Some {|cID (cfg n)|}" "outbox (candidate en n) = outbox n"
  "calls (candidate en n) = calls n" "busy (candidate en n) = busy n" "sequence (candidate en n) = sequence n"
  "nextIndex (candidate en n) = nextIndex n" "matchIndex (candidate en n) = matchIndex n"
  by (simp_all add: candidate_def)

definition vote_request :: "u64 \<Rightarrow> Entry \<Rightarrow> Node \<Rightarrow> VoteRequest" where
  "vote_request T e n = \<lparr>vqMessageID = [], vqClusterID = ClusterID (cfg n), vqTerm = T, CandidateID = cID (cfg n),
     LastLogIndex = lastLocked n, LastLogTerm = eTerm e\<rparr>"

lemma startElection_eq:
  "startElectionLocked en n =
     do {
       (ok, n1) \<leftarrow> persistLocked en (dTerm (state n) + 1) (cID (cfg n)) (dCommit (state n)) 0 [] n;
       (if \<not> ok then Some n1
        else if fmsize (peers n1) div 2 < 1 then becomeLeaderLocked en (candidate en n1)
        else
          do {
            e \<leftarrow> entryLocked n1 (lastLocked n1);
            Some (send_votes en (vote_request (dTerm (state n) + 1) e n1) (Peers (cfg n1)) (candidate en n1))
          })
     }"
  unfolding startElectionLocked_def Let_def
  by (simp add: candidate_def vote_request_def lastLocked_def entryLocked_def cong: if_cong)

lemma startElection_cases:
  assumes "startElectionLocked en n = Some n'"
  obtains (failed) "persistLocked en (dTerm (state n) + 1) (cID (cfg n)) (dCommit (state n)) 0 [] n = Some (False, n')"
    | (alone) n1 where
        "persistLocked en (dTerm (state n) + 1) (cID (cfg n)) (dCommit (state n)) 0 [] n = Some (True, n1)"
        "fmsize (peers n) div 2 < 1" "becomeLeaderLocked en (candidate en n1) = Some n'"
    | (asked) n1 e where
        "persistLocked en (dTerm (state n) + 1) (cID (cfg n)) (dCommit (state n)) 0 [] n = Some (True, n1)"
        "\<not> fmsize (peers n) div 2 < 1" "entryLocked n1 (lastLocked n1) = Some e"
        "n' = send_votes en (vote_request (dTerm (state n) + 1) e n1) (Peers (cfg n1)) (candidate en n1)"
  using assms unfolding startElection_eq
  by (auto simp: persist_sel(2) split: if_split_asm elim!: bind_SomeE)

lemma candidate_step: "failed n = None \<Longrightarrow> step_ok n (candidate en n)"
  by (rule step_ok_frame) (simp_all add: role_ok_def)

lemma startElection_step:
  assumes "startElectionLocked en n = Some n'" and h: "failed n = None"
  shows "step_ok n n'"
  using assms(1)
proof (cases rule: startElection_cases)
  case failed
  then show ?thesis using persist_step h by blast
next
  case (alone n1)
  have f1: "failed n1 = None" using persist_sel(17) [OF alone(1)] h by simp
  have "step_ok n n1" by (rule persist_step [OF alone(1) h])
  also have "step_ok n1 (candidate en n1)" by (rule candidate_step [OF f1])
  also have "step_ok (candidate en n1) n'" by (rule becomeLeader_step [OF alone(3)]) (simp add: f1)
  finally show ?thesis .
next
  case (asked n1 e)
  have f1: "failed n1 = None" using persist_sel(17) [OF asked(1)] h by simp
  have "step_ok n n1" by (rule persist_step [OF asked(1) h])
  also have "step_ok n1 (candidate en n1)" by (rule candidate_step [OF f1])
  also have "step_ok (candidate en n1) n'" unfolding asked(4) by (rule chatty_step [OF send_votes_chatty])
  finally show ?thesis .
qed

lemma Tick_step: "Tick en n = Some n' \<Longrightarrow> step_ok n n'"
  by (auto simp: Tick_def split: if_splits dest: kick_quiet quiet_step startElection_step available_failed)

lemma voteResponse_cases:
  assumes "voteResponseLocked en peer req resp err n = Some n'"
  obtains (ignored) "n' = n"
    | (noted) "n' = emitLocked en ''VOTE_RESPONSE'' 0 (pID peer) (vqMessageID req) [] n"
    | (down) ok where "availableLocked n" "dTerm (state n) < vrTerm resp"
        "stepDownLocked en (vrTerm resp) [] (emitLocked en ''VOTE_RESPONSE'' 0 (pID peer) (vqMessageID req) [] n) = Some (ok, n')"
    | (counted) vs where "availableLocked n" "err = None" "role n = Candidate" "dTerm (state n) = vqTerm req"
        "vrTerm resp = vqTerm req" "Granted resp" "votes n = Some vs"
        "n' = (emitLocked en ''VOTE_RESPONSE'' 0 (pID peer) (vqMessageID req) [] n)\<lparr>votes := Some (finsert (pID peer) vs)\<rparr>"
    | (won) vs where "availableLocked n" "err = None" "role n = Candidate" "dTerm (state n) = vqTerm req"
        "vrTerm resp = vqTerm req" "Granted resp" "votes n = Some vs"
        "fmsize (peers n) div 2 < fcard (finsert (pID peer) vs)"
        "becomeLeaderLocked en ((emitLocked en ''VOTE_RESPONSE'' 0 (pID peer) (vqMessageID req) [] n)
           \<lparr>votes := Some (finsert (pID peer) vs)\<rparr>) = Some n'"
proof -
  let ?e = "emitLocked en ''VOTE_RESPONSE'' 0 (pID peer) (vqMessageID req) [] n"
  show ?thesis
  proof (cases "\<not> availableLocked n \<or> err \<noteq> None")
    case True
    then show ?thesis using assms ignored by (auto simp: voteResponseLocked_def)
  next
    case a: False
    note u = assms [unfolded voteResponseLocked_def Let_def]
    show ?thesis
    proof (cases "dTerm (state n) < vrTerm resp")
      case True
      then show ?thesis using u a down by (auto elim!: bind_SomeE)
    next
      case b: False
      show ?thesis
      proof (cases "role n \<noteq> Candidate \<or> dTerm (state n) \<noteq> vqTerm req \<or> vrTerm resp \<noteq> vqTerm req \<or> \<not> Granted resp")
        case True
        then have "n' = ?e" using u a b by (simp split: if_split_asm)
        then show ?thesis by (rule noted)
      next
        case c: False
        then obtain vs where "votes n = Some vs" using u a b by (auto elim!: bind_SomeE)
        note v = this
        show ?thesis
        proof (cases "fmsize (peers n) div 2 < fcard (finsert (pID peer) vs)")
          case True
          then have "becomeLeaderLocked en (?e\<lparr>votes := Some (finsert (pID peer) vs)\<rparr>) = Some n'"
            using u a b c v by simp
          then show ?thesis using a c v True by (intro won) auto
        next
          case False
          then have "n' = ?e\<lparr>votes := Some (finsert (pID peer) vs)\<rparr>" using u a b c v by simp
          then show ?thesis using a c v by (intro counted) auto
        qed
      qed
    qed
  qed
qed

lemma voteResponse_step:
  assumes "voteResponseLocked en peer req resp err n = Some n'"
  shows "step_ok n n'"
  using assms
proof (cases rule: voteResponse_cases)
  case (down ok)
  then show ?thesis
    using stepDown_step [OF down(3)] available_failed step_ok_trans [OF step_ok_emit] by fastforce
next
  case (counted vs)
  then show ?thesis by (auto intro: step_ok_trans [OF step_ok_emit])
next
  case (won vs)
  let ?e = "emitLocked en ''VOTE_RESPONSE'' 0 (pID peer) (vqMessageID req) [] n"
  have "step_ok n ?e" by simp
  also have "step_ok ?e (?e\<lparr>votes := Some (finsert (pID peer) vs)\<rparr>)" by simp
  also have "step_ok \<dots> n'" by (rule becomeLeader_step [OF won(9)]) (use won(1) in \<open>simp add: availableLocked_def\<close>)
  finally show ?thesis .
qed simp_all

end
