(* ===== verification/Node_Calls.thy ===== *)
theory Node_Calls
  imports Node_Steps
begin

text \<open>
  The entry points of the node: what paths each of them takes, and that each path keeps the
  invariant and takes nothing back.
\<close>

section \<open>AppendEntries\<close>

lemma repair_sel [simp]:
  "store (note_repair en req f n) = store n" "failed (note_repair en req f n) = failed n"
  "cfg (note_repair en req f n) = cfg n" "peers (note_repair en req f n) = peers n"
  "role (note_repair en req f n) = role n" "votes (note_repair en req f n) = votes n"
  "nextIndex (note_repair en req f n) = nextIndex n" "outbox (note_repair en req f n) = outbox n"
  "calls (note_repair en req f n) = calls n" "closed (note_repair en req f n) = closed n"
  "paused (note_repair en req f n) = paused n"
  by (simp_all add: note_repair_def)

lemma repair_step [simp, intro]: "step_ok n (note_repair en req f n)"
  by (simp add: note_repair_def)

lemma append_accept_cases:
  assumes "append_accept en req n = Some (r, n')"
  obtains (refused) err where "r = (append_response n, Some err)" "n' = n"
    | (unchanged) es where "merge_entries n (aqTerm req) (PrevLogIndex req + 1) (aqEntries req) = Some (Inr (0, es))"
        "r = (\<lparr>arTerm = dTerm (state n'), Success = True,
           MatchIndex = PrevLogIndex req + length (aqEntries req), ConflictIndex = 0\<rparr>, None)" "n' = n"
        "LeaderCommit req \<le> dCommit (state n) \<or> min (LeaderCommit req) (PrevLogIndex req + length (aqEntries req)) \<le> dCommit (state n)"
    | (failed) c f es where
        "merge_entries n (aqTerm req) (PrevLogIndex req + 1) (aqEntries req) = Some (Inr (f, es))"
        "persistLocked en (dTerm (state n)) (dVote (state n)) c f es (note_repair en req f n) = Some (False, n')"
        "r = (append_response n', Some ErrUnavailable)"
        "c = (if dCommit (state n) < LeaderCommit req
            then max (min (LeaderCommit req) (PrevLogIndex req + length (aqEntries req))) (dCommit (state n))
            else dCommit (state n))"
    | (stored) n2 f es where
        "merge_entries n (aqTerm req) (PrevLogIndex req + 1) (aqEntries req) = Some (Inr (f, es))"
        "f = 0 \<or> dCommit (state n) < f"
        "persistLocked en (dTerm (state n)) (dVote (state n))
           (if dCommit (state n) < LeaderCommit req
            then max (min (LeaderCommit req) (PrevLogIndex req + length (aqEntries req))) (dCommit (state n))
            else dCommit (state n)) f es (note_repair en req f n) = Some (True, n2)" "applyLocked en n2 = Some n'"
        "r = (\<lparr>arTerm = dTerm (state n'), Success = True,
           MatchIndex = PrevLogIndex req + length (aqEntries req), ConflictIndex = 0\<rparr>, None)"
proof -
  let ?c0 = "dCommit (state n)"
  let ?m = "PrevLogIndex req + length (aqEntries req)"
  define c where "c = (if ?c0 < LeaderCommit req then max (min (LeaderCommit req) ?m) ?c0 else ?c0)"
  obtain merged where m: "merge_entries n (aqTerm req) (PrevLogIndex req + 1) (aqEntries req) = Some merged"
    using assms by (auto simp: append_accept_def elim!: bind_SomeE)
  note u = assms [unfolded append_accept_def m Let_def, folded c_def]
  show ?thesis
  proof (cases merged)
    case (Inl err)
    then show ?thesis using u by (intro refused) auto
  next
    case (Inr x)
    obtain f es where x: "x = (f, es)" by (cases x)
    show ?thesis
    proof (cases "f \<noteq> 0 \<and> f \<le> ?c0")
      case True
      then show ?thesis using u Inr x by (intro refused) auto
    next
      case a: False
      show ?thesis
      proof (cases "f \<noteq> 0 \<or> c \<noteq> ?c0")
        case False
        then show ?thesis using u Inr x m a by (intro unchanged [of es]) (auto simp: c_def split: if_splits)
      next
        case True
        obtain ok n2 where p: "persistLocked en (dTerm (state n)) (dVote (state n)) c f es (note_repair en req f n) = Some (ok, n2)"
          using u Inr x a True by (auto elim!: bind_SomeE)
        show ?thesis
        proof (cases ok)
          case False
          then have "r = (append_response n', Some ErrUnavailable)" "n' = n2"
            using u Inr x a True p by auto
          then show ?thesis using failed [OF m [unfolded Inr x] _ _ c_def] p False by simp
        next
          case ok: True
          then have ap: "applyLocked en n2 = Some n'" and r: "r = (\<lparr>arTerm = dTerm (state n'), Success = True,
             MatchIndex = ?m, ConflictIndex = 0\<rparr>, None)"
            using u Inr x a True p by (auto elim!: bind_SomeE)
          show ?thesis
            by (rule stored [OF m [unfolded Inr x] _ p [unfolded c_def ok [THEN eqTrueI]] ap r]) (use a in auto)
        qed
      qed
    qed
  qed
qed

lemma append_accept_step:
  assumes "append_accept en req n = Some (r, n')" and h: "failed n = None"
  shows "step_ok n n'"
  using assms(1)
proof (cases rule: append_accept_cases)
  case (failed c f es)
  have "step_ok (note_repair en req f n) n'" by (rule persist_fail_step [OF failed(2)]) (simp add: h)
  then show ?thesis by (rule step_ok_trans [OF repair_step])
next
  case (stored n2 f es)
  have "step_ok (note_repair en req f n) n'"
    by (rule persist_apply_step [OF stored(3) _ step_ok_refl stored(4)]) (simp add: h)
  then show ?thesis by (rule step_ok_trans [OF repair_step])
qed simp_all

definition heard :: "Env \<Rightarrow> AppendRequest \<Rightarrow> Node \<Rightarrow> Node" where
  "heard en req n = emitLocked en ''APPEND_RECEIVED'' (PrevLogIndex req) (LeaderID req) (aqMessageID req) [] n"

lemma heard_sel [simp]:
  "store (heard en req n) = store n" "failed (heard en req n) = failed n" "cfg (heard en req n) = cfg n"
  "peers (heard en req n) = peers n" "votes (heard en req n) = votes n" "role (heard en req n) = role n"
  "outbox (heard en req n) = outbox n" "calls (heard en req n) = calls n"
  by (simp_all add: heard_def)

lemma heard_step [simp, intro]: "step_ok n (heard en req n)"
  by (simp add: heard_def)

lemma append_check_cases:
  assumes "append_check en req n = Some (r, n')"
  obtains (mismatch) ci where "r = ((append_response n)\<lparr>ConflictIndex := ci\<rparr>, None)" "n' = n"
    | (consistent) pe where "entryLocked n (PrevLogIndex req) = Some pe" "eTerm pe = PrevLogTerm req"
        "append_accept en req n = Some (r, n')"
proof (cases "lastLocked n < PrevLogIndex req \<or> PrevLogIndex req < dBase (state n)")
  case True
  then have "r = ((append_response n)\<lparr>ConflictIndex := (if lastLocked n < PrevLogIndex req then lastLocked n + 1
      else dBase (state n) + 1)\<rparr>, None)" "n' = n"
    using assms unfolding append_check_def by (auto simp: append_response_def split: if_split_asm)
  then show ?thesis by (rule mismatch)
next
  case False
  then obtain pe where pe: "entryLocked n (PrevLogIndex req) = Some pe"
    using assms unfolding append_check_def by (simp split: if_split_asm) (erule bind_SomeE)
  show ?thesis
  proof (cases "eTerm pe = PrevLogTerm req")
    case True
    with False pe assms have "append_accept en req n = Some (r, n')" unfolding append_check_def by simp
    then show ?thesis by (rule consistent [OF pe True])
  next
    case ne: False
    with False pe assms obtain ci where "r = ((append_response n)\<lparr>ConflictIndex := ci\<rparr>, None)" "n' = n"
      unfolding append_check_def by (auto elim!: bind_SomeE)
    then show ?thesis by (rule mismatch)
  qed
qed

lemma AppendEntries_cases:
  assumes "AppendEntries en req n = Some (r, n')"
  obtains (rejected) err where "r = (append_response n, Some err)" "n' = n"
    | (stale) "availableLocked n" "member n (LeaderID req) (aqClusterID req)" "aqTerm req < dTerm (state n)"
        "r = (append_response n', None)" "n' = heard en req n"
    | (downfail) "availableLocked n" "stepDownLocked en (aqTerm req) (LeaderID req) (heard en req n) = Some (False, n')"
        "r = (append_response n', Some ErrUnavailable)"
    | (checked) n2 where "availableLocked n" "member n (LeaderID req) (aqClusterID req)"
        "dTerm (state n) \<le> aqTerm req"
        "stepDownLocked en (aqTerm req) (LeaderID req) (heard en req n) = Some (True, n2)"
        "append_check en req (resetTimerLocked en n2) = Some (r, n')"
proof (cases "availableLocked n \<and> member n (LeaderID req) (aqClusterID req)
    \<and> (FixedLeader (cfg n) = [] \<or> LeaderID req = FixedLeader (cfg n))")
  case False
  then have c: "\<not> availableLocked n \<or> (\<not> member n (LeaderID req) (aqClusterID req)
         \<or> FixedLeader (cfg n) \<noteq> [] \<and> LeaderID req \<noteq> FixedLeader (cfg n))" by blast
  show ?thesis
  proof (cases "availableLocked n")
    case False
    then have "AppendEntries en req n = Some ((append_response n, Some ErrUnavailable), n)"
      unfolding AppendEntries_def by (simp only: simp_thms if_True if_False)
    then show ?thesis using assms by (intro rejected) simp_all
  next
    case True
    with c have "AppendEntries en req n = Some ((append_response n, Some (ErrText ''unknown leader or cluster'')), n)"
      unfolding AppendEntries_def by (simp only: simp_thms if_True if_False)
    then show ?thesis using assms by (intro rejected) simp_all
  qed
next
  case a: True
  note u = assms [unfolded AppendEntries_def Let_def heard_def [symmetric]]
  show ?thesis
  proof (cases "aqTerm req < dTerm (state n)")
    case True
    with u a have "n' = heard en req n" "r = (append_response n', None)" by auto
    with True a show ?thesis by (intro stale) simp_all
  next
    case b: False
    with u a obtain ok n2 where sd: "stepDownLocked en (aqTerm req) (LeaderID req) (heard en req n) = Some (ok, n2)"
      by (auto elim!: bind_SomeE)
    show ?thesis
    proof (cases ok)
      case False
      with u a b sd have "n' = n2" "r = (append_response n2, Some ErrUnavailable)" by auto
      with False a sd show ?thesis by (intro downfail) simp_all
    next
      case True
      with u a b sd have "append_check en req (resetTimerLocked en n2) = Some (r, n')" by auto
      with True a b sd show ?thesis by (intro checked) (simp_all add: not_less)
    qed
  qed
qed

lemma append_check_step:
  assumes "append_check en req n = Some (r, n')" and h: "failed n = None"
  shows "step_ok n n'"
  using assms(1) by (cases rule: append_check_cases) (auto intro: append_accept_step h)

lemma AppendEntries_step:
  assumes "AppendEntries en req n = Some (r, n')"
  shows "step_ok n n'"
  using assms
proof (cases rule: AppendEntries_cases)
  case downfail
  then show ?thesis using stepDown_step [OF downfail(2)] available_failed step_ok_trans [OF heard_step] by fastforce
next
  case (checked n2)
  have f: "failed n2 = None" using stepDown_sel(15) [OF checked(4)] available_failed [OF checked(1)] by simp
  have "step_ok n (heard en req n)" by simp
  also have "step_ok \<dots> n2"
    using stepDown_step [OF checked(4)] available_failed [OF checked(1)] by simp
  also have "step_ok n2 (resetTimerLocked en n2)" by simp
  also have "step_ok \<dots> n'" by (rule append_check_step [OF checked(5)]) (simp add: f)
  finally show ?thesis .
qed simp_all

section \<open>RequestVote\<close>

definition asked :: "Env \<Rightarrow> VoteRequest \<Rightarrow> Node \<Rightarrow> Node" where
  "asked en req n = emitLocked en ''VOTE_RECEIVED'' 0 (CandidateID req) (vqMessageID req) [] n"

lemma asked_sel [simp]:
  "store (asked en req n) = store n" "failed (asked en req n) = failed n" "cfg (asked en req n) = cfg n"
  "peers (asked en req n) = peers n" "votes (asked en req n) = votes n" "role (asked en req n) = role n"
  "outbox (asked en req n) = outbox n" "calls (asked en req n) = calls n"
  by (simp_all add: asked_def)

lemma asked_step [simp, intro]: "step_ok n (asked en req n)"
  by (simp add: asked_def)

definition up_to_date :: "VoteRequest \<Rightarrow> Entry \<Rightarrow> bool" where
  "up_to_date req le \<longleftrightarrow> eTerm le < LastLogTerm req \<or> LastLogTerm req = eTerm le \<and> eIndex le \<le> LastLogIndex req"

definition granting :: "Env \<Rightarrow> VoteRequest \<Rightarrow> Node \<Rightarrow> Node" where
  "granting en req n = emitLocked en ''VOTE_GRANTED'' 0 (CandidateID req) (vqMessageID req) [] (resetTimerLocked en n)"

lemma vote_decide_cases:
  assumes "vote_decide en req n = Some (r, n')"
  obtains (denied) "r = (vote_response n False, None)" "n' = n"
    | (failed) le where "dVote (state n) = []"
        "persistLocked en (vqTerm req) (CandidateID req) (dCommit (state n)) 0 [] n = Some (False, n')"
        "r = (vote_response n' False, Some ErrUnavailable)" "entryLocked n (lastLocked n) = Some le" "up_to_date req le"
    | (voted) le n1 where "dVote (state n) = []" "entryLocked n (lastLocked n) = Some le" "up_to_date req le"
        "persistLocked en (vqTerm req) (CandidateID req) (dCommit (state n)) 0 [] n = Some (True, n1)"
        "n' = granting en req n1" "r = (vote_response n' True, None)"
    | (again) le where "dVote (state n) \<noteq> []" "dVote (state n) = CandidateID req"
        "entryLocked n (lastLocked n) = Some le" "up_to_date req le"
        "n' = granting en req n" "r = (vote_response n' True, None)"
proof -
  note u = assms [unfolded vote_decide_def Let_def up_to_date_def [symmetric] granting_def [symmetric]]
  from u obtain le where le: "entryLocked n (lastLocked n) = Some le" by (auto elim!: bind_SomeE)
  show ?thesis
  proof (cases "up_to_date req le \<and> (dVote (state n) = [] \<or> dVote (state n) = CandidateID req)")
    case False
    with u le have "r = (vote_response n False, None)" "n' = n" by auto
    then show ?thesis by (rule denied)
  next
    case a: True
    show ?thesis
    proof (cases "dVote (state n) = []")
      case False
      with u le a have "n' = granting en req n" "r = (vote_response n' True, None)" by auto
      with False a le show ?thesis by (intro again) auto
    next
      case free: True
      with u le a obtain ok n1
        where p: "persistLocked en (vqTerm req) (CandidateID req) (dCommit (state n)) 0 [] n = Some (ok, n1)"
        by (auto elim!: bind_SomeE)
      show ?thesis
      proof (cases ok)
        case False
        with u le a free p have "n' = n1" "r = (vote_response n1 False, Some ErrUnavailable)" by auto
        with False free p le a show ?thesis by (intro failed) simp_all
      next
        case True
        with u le a free p have "n' = granting en req n1" "r = (vote_response n' True, None)" by auto
        with True free p le a show ?thesis by (intro voted) simp_all
      qed
    qed
  qed
qed

lemma RequestVote_cases:
  assumes "RequestVote en req n = Some (r, n')"
  obtains (rejected) err where "r = (vote_response n False, Some err)" "n' = n"
    | (refused) "r = (vote_response n' False, None)" "n' = asked en req n"
    | (downfail) "availableLocked n" "FixedLeader (cfg n) = []"
        "stepDownLocked en (vqTerm req) [] (asked en req n) = Some (False, n')"
        "r = (vote_response n' False, Some ErrUnavailable)"
    | (newer) n2 where "availableLocked n" "member n (CandidateID req) (vqClusterID req)" "FixedLeader (cfg n) = []"
        "dTerm (state n) < vqTerm req"
        "stepDownLocked en (vqTerm req) [] (asked en req n) = Some (True, n2)" "vote_decide en req n2 = Some (r, n')"
    | (same) "availableLocked n" "member n (CandidateID req) (vqClusterID req)" "FixedLeader (cfg n) = []"
        "dTerm (state n) = vqTerm req"
        "vote_decide en req (asked en req n) = Some (r, n')"
proof (cases "availableLocked n \<and> member n (CandidateID req) (vqClusterID req)")
  case False
  show ?thesis
  proof (cases "availableLocked n")
    case True
    with False have "RequestVote en req n = Some ((vote_response n False, Some (ErrText ''unknown candidate or cluster'')), n)"
      unfolding RequestVote_def by (simp only: simp_thms if_True if_False)
    then show ?thesis using assms by (intro rejected) simp_all
  next
    case False
    then have "RequestVote en req n = Some ((vote_response n False, Some ErrUnavailable), n)"
      unfolding RequestVote_def by (simp only: simp_thms if_True if_False)
    then show ?thesis using assms by (intro rejected) simp_all
  qed
next
  case a: True
  note u = assms [unfolded RequestVote_def Let_def asked_def [symmetric]]
  show ?thesis
  proof (cases "FixedLeader (cfg n) \<noteq> [] \<or> vqTerm req < dTerm (state n)")
    case True
    with u a have "n' = asked en req n" "r = (vote_response n' False, None)" by (auto split: if_split_asm)
    then show ?thesis by (intro refused) simp_all
  next
    case b: False
    show ?thesis
    proof (cases "dTerm (state n) < vqTerm req")
      case False
      with u a b have "vote_decide en req (asked en req n) = Some (r, n')" by simp
      with a b False show ?thesis by (intro same) simp_all
    next
      case c: True
      with u a b obtain ok n2 where sd: "stepDownLocked en (vqTerm req) [] (asked en req n) = Some (ok, n2)"
        by (auto elim!: bind_SomeE)
      show ?thesis
      proof (cases ok)
        case False
        with u a b c sd have "n' = n2" "r = (vote_response n2 False, Some ErrUnavailable)" by auto
        with False a b sd show ?thesis by (intro downfail) simp_all
      next
        case True
        with u a b c sd have "vote_decide en req n2 = Some (r, n')" by simp
        with True a b c sd show ?thesis by (intro newer) simp_all
      qed
    qed
  qed
qed

lemma granting_sel [simp]:
  "store (granting en req n) = store n" "failed (granting en req n) = failed n" "cfg (granting en req n) = cfg n"
  "peers (granting en req n) = peers n" "votes (granting en req n) = votes n" "role (granting en req n) = role n"
  "outbox (granting en req n) = outbox n" "calls (granting en req n) = calls n"
  by (simp_all add: granting_def)

lemma granting_step [simp, intro]: "step_ok n (granting en req n)"
  unfolding granting_def by (rule step_ok_trans [OF step_ok_reset step_ok_emit])

lemma vote_decide_step:
  assumes "vote_decide en req n = Some (r, n')" and h: "failed n = None"
  shows "step_ok n n'"
  using assms(1)
proof (cases rule: vote_decide_cases)
  case failed
  then show ?thesis using persist_step h by blast
next
  case (voted le n1)
  have "step_ok n n1" by (rule persist_step [OF voted(4) h])
  then show ?thesis unfolding voted(5) by (rule step_ok_trans) simp
qed simp_all

lemma RequestVote_step:
  assumes "RequestVote en req n = Some (r, n')"
  shows "step_ok n n'"
  using assms
proof (cases rule: RequestVote_cases)
  case downfail
  then show ?thesis using stepDown_step [OF downfail(3)] available_failed step_ok_trans [OF asked_step] by fastforce
next
  case (newer n2)
  have f: "failed n2 = None" using stepDown_sel(15) [OF newer(5)] available_failed [OF newer(1)] by simp
  have "step_ok n (asked en req n)" by simp
  also have "step_ok \<dots> n2" using stepDown_step [OF newer(5)] available_failed [OF newer(1)] by simp
  also have "step_ok n2 n'" by (rule vote_decide_step [OF newer(6) f])
  finally show ?thesis .
next
  case same
  then show ?thesis
    using vote_decide_step [OF same(5)] available_failed [OF same(1)] step_ok_trans [OF asked_step] by fastforce
qed simp_all

section \<open>Responses\<close>

definition answered :: "Env \<Rightarrow> Peer \<Rightarrow> AppendRequest \<Rightarrow> AppendResponse \<Rightarrow> gerror option \<Rightarrow> Node \<Rightarrow> Node" where
  "answered en peer req resp err n =
     (if err = None then emitLocked en ''APPEND_RESPONSE'' (MatchIndex resp) (pID peer) (aqMessageID req) [] n
      else emitLocked en ''RPC_FAILED'' 0 (pID peer) (aqMessageID req) [] n)"

lemma answered_sel [simp]:
  "store (answered en peer req resp err n) = store n" "failed (answered en peer req resp err n) = failed n"
  "cfg (answered en peer req resp err n) = cfg n" "peers (answered en peer req resp err n) = peers n"
  "votes (answered en peer req resp err n) = votes n" "role (answered en peer req resp err n) = role n"
  "outbox (answered en peer req resp err n) = outbox n" "calls (answered en peer req resp err n) = calls n"
  "matchIndex (answered en peer req resp err n) = matchIndex n" "nextIndex (answered en peer req resp err n) = nextIndex n"
  "applied (answered en peer req resp err n) = applied n"
  by (simp_all add: answered_def)

lemma answered_step [simp, intro]: "step_ok n (answered en peer req resp err n)"
  by (simp add: answered_def)

definition matched_to :: "Peer \<Rightarrow> AppendRequest \<Rightarrow> Node \<Rightarrow> Node" where
  "matched_to peer req n =
     (let m = max (matchIndex n (pID peer)) (PrevLogIndex req + length (aqEntries req)) in
      n\<lparr>matchIndex := (matchIndex n)(pID peer := m), nextIndex := (nextIndex n)(pID peer := m + 1)\<rparr>)"

lemma acceptAppend_cases:
  assumes "acceptAppendLocked en peer req resp err n = Some (again, n')"
  obtains (ignored) "n' = n" "\<not> again"
    | (down) ok where "availableLocked n" "dTerm (state n) < arTerm resp" "\<not> again"
        "stepDownLocked en (arTerm resp) [] (answered en peer req resp err n) = Some (ok, n')"
    | (noted) "n' = answered en peer req resp err n" "\<not> again"
    | (matched) n3 where "availableLocked n" "err = None" "role n = Leader" "dTerm (state n) = aqTerm req"
        "arTerm resp = aqTerm req" "Success resp"
        "advanceCommitLocked en (matched_to peer req (answered en peer req resp err n)) = Some n3"
        "maybeSnapshotLocked en n3 = Some n'" "again = (nextIndex n' (pID peer) \<le> lastLocked n')"
    | (backed) "availableLocked n" "err = None" "role n = Leader" "dTerm (state n) = aqTerm req"
        "arTerm resp = aqTerm req" "\<not> Success resp" "again"
        "n' = (let m = answered en peer req resp err n in
           m\<lparr>nextIndex := (nextIndex m)(pID peer := max 1 (min (PrevLogIndex req) (ConflictIndex resp)))\<rparr>)"
proof (cases "availableLocked n")
  case False
  then show ?thesis using assms ignored by (simp add: acceptAppendLocked_def)
next
  case av: True
  let ?a = "answered en peer req resp err n"
  note u = assms [unfolded acceptAppendLocked_def, folded answered_def]
  show ?thesis
  proof (cases "err = None \<and> dTerm (state n) < arTerm resp")
    case True
    with u av obtain ok where "stepDownLocked en (arTerm resp) [] ?a = Some (ok, n')" "\<not> again"
      by (auto simp: Let_def elim!: bind_SomeE)
    then show ?thesis using av True by (intro down) simp_all
  next
    case a: False
    show ?thesis
    proof (cases "err \<noteq> None \<or> role n \<noteq> Leader \<or> dTerm (state n) \<noteq> aqTerm req \<or> arTerm resp \<noteq> aqTerm req")
      case True
      with u av a have "n' = ?a" "\<not> again" by (auto simp: Let_def)
      then show ?thesis by (rule noted)
    next
      case b: False
      show ?thesis
      proof (cases "Success resp")
        case True
        with u av a b obtain n3 where "advanceCommitLocked en (matched_to peer req ?a) = Some n3"
          "maybeSnapshotLocked en n3 = Some n'" "again = (nextIndex n' (pID peer) \<le> lastLocked n')"
          by (auto simp: Let_def matched_to_def elim!: bind_SomeE)
        then show ?thesis using av b True by (intro matched) simp_all
      next
        case c: False
        show ?thesis
        proof (cases "PrevLogIndex req + 1 \<le> 1")
          case True
          with u av a b c have "n' = ?a" "\<not> again" by (auto simp: Let_def)
          then show ?thesis by (rule noted)
        next
          case False
          with u av a b c have "again" "n' = (let m = ?a in
             m\<lparr>nextIndex := (nextIndex m)(pID peer := max 1 (min (PrevLogIndex req) (ConflictIndex resp)))\<rparr>)"
            by (simp_all add: Let_def)
          then show ?thesis using av b c by (intro backed) simp_all
        qed
      qed
    qed
  qed
qed

lemma matched_to_step [simp, intro]: "step_ok n (matched_to peer req n)"
  by (rule step_ok_frame) (simp_all add: matched_to_def Let_def role_ok_def)

lemma maybeSnapshot_step': "maybeSnapshotLocked en n = Some n' \<Longrightarrow> synced m \<Longrightarrow> node_inv m \<Longrightarrow> step_ok m n \<Longrightarrow> step_ok m n'"
  by (meson maybeSnapshot_step step_ok_def step_ok_trans weak_ok_def)

text \<open>Handling an append response snapshots only what has been applied, so this one needs \<open>synced\<close>.\<close>

lemma acceptAppend_step:
  assumes "acceptAppendLocked en peer req resp err n = Some (again, n')" and inv: "node_inv n" and sy: "synced n"
  shows "step_ok n n'"
  using assms(1)
proof (cases rule: acceptAppend_cases)
  case (down ok)
  then show ?thesis using stepDown_step [OF down(4)] available_failed step_ok_trans [OF answered_step] by fastforce
next
  case (matched n3)
  have "step_ok n (answered en peer req resp err n)" by simp
  also have "step_ok \<dots> (matched_to peer req (answered en peer req resp err n))" by simp
  also have "step_ok \<dots> n3" by (rule advance_step [OF matched(7)])
  finally show ?thesis by (rule maybeSnapshot_step' [OF matched(8) sy inv])
next
  case backed
  then show ?thesis by (auto simp: Let_def intro: step_ok_trans [OF answered_step])
qed simp_all

lemma DeliverVote_step: "DeliverVote en m resp err n = Some n' \<Longrightarrow> step_ok n n'"
  by (auto simp: DeliverVote_def split: option.splits dest: voteResponse_step)

lemma DeliverAppend_cases:
  assumes "DeliverAppend en m resp err n = Some n'"
  obtains (ignored) "n' = n"
    | (taken) req again n1 where "mAppend m = Some req" "busy n (mTo m) = mSequence m"
        "acceptAppendLocked en (peerOf n (mTo m)) req resp err (n\<lparr>busy := (busy n)(mTo m := 0)\<rparr>) = Some (again, n1)"
        "n' = n1 \<or> queueAppendLocked en (peerOf n1 (mTo m)) n1 = Some n'"
  using assms unfolding DeliverAppend_def
  by (auto split: option.split_asm if_split_asm elim!: bind_SomeE)

lemma DeliverAppend_step:
  assumes "DeliverAppend en m resp err n = Some n'" and inv: "node_inv n" and sy: "synced n"
  shows "step_ok n n'"
  using assms(1)
proof (cases rule: DeliverAppend_cases)
  case (taken req again n1)
  let ?b = "n\<lparr>busy := (busy n)(mTo m := 0)\<rparr>"
  have b: "step_ok n ?b" by simp
  then have "node_inv ?b" "synced ?b" using inv sy by (auto simp: step_ok_def weak_ok_def)
  then have "step_ok ?b n1" by (rule acceptAppend_step [OF taken(3)])
  moreover have "step_ok n1 n'" using taken(4) quiet_step [OF queue_quiet] by auto
  ultimately show ?thesis using b by (blast intro: step_ok_trans)
qed simp_all

lemma replicate_begin_step: "replicate_begin en peer n = Some (req, n') \<Longrightarrow> step_ok n n'"
  by (auto simp: replicate_begin_def split: if_splits dest: prepare_quiet quiet_step)

section \<open>Proposals\<close>

definition registered :: "Env \<Rightarrow> nat \<Rightarrow> string option \<Rightarrow> Node \<Rightarrow> Node" where
  "registered en index key n =
     emitLocked en ''PROPOSED'' index [] [] []
       (n\<lparr>chanCount := chanCount n + 1, pending := fmupd index \<lparr>readKey = key, wdone = chanCount n\<rparr> (pending n),
          matchIndex := (matchIndex n)(cID (cfg n) := index)\<rparr>)"

lemma submit_cases:
  assumes "submitLocked en command key n = Some (r, n')"
  obtains (refused) err where "r = Inl err" "n' = n"
    | (failed) "availableLocked n" "role n = Leader"
        "persistLocked en (dTerm (state n)) (dVote (state n)) (dCommit (state n)) (lastLocked n + 1)
           [\<lparr>eIndex = lastLocked n + 1, eTerm = dTerm (state n), eCommand = command\<rparr>] n = Some (False, n')"
        "r = Inl ErrUnavailable"
    | (proposed) n1 n3 where "availableLocked n" "role n = Leader" "\<And>c. command = Some c \<Longrightarrow> Validate c = None"
        "lastLocked n - dCommit (state n) < 256"
        "persistLocked en (dTerm (state n)) (dVote (state n)) (dCommit (state n)) (lastLocked n + 1)
           [\<lparr>eIndex = lastLocked n + 1, eTerm = dTerm (state n), eCommand = command\<rparr>] n = Some (True, n1)"
        "advanceCommitLocked en (registered en (lastLocked n + 1) key n1) = Some n3" "kickLocked en n3 = Some n'"
        "r = Inr \<lparr>tIndex = lastLocked n + 1, tdone = chanCount n1\<rparr>"
proof -
  let ?v = "case command of None \<Rightarrow> None | Some c \<Rightarrow> Validate c"
  let ?e = "\<lparr>eIndex = lastLocked n + 1, eTerm = dTerm (state n), eCommand = command\<rparr>"
  let ?p = "persistLocked en (dTerm (state n)) (dVote (state n)) (dCommit (state n)) (lastLocked n + 1) [?e] n"
  note u = assms [unfolded submitLocked_def]
  show ?thesis
  proof (cases "availableLocked n \<and> role n = Leader \<and> ?v = None \<and> \<not> 256 \<le> lastLocked n - dCommit (state n)")
    case False
    then have "\<exists>err. r = Inl err \<and> n' = n"
      using u by (cases "availableLocked n"; cases "role n = Leader"; cases ?v) auto
    then show ?thesis using refused by blast
  next
    case a: True
    with u obtain ok n1 where p: "?p = Some (ok, n1)" by (auto simp: Let_def elim!: bind_SomeE)
    show ?thesis
    proof (cases ok)
      case False
      with u a p have "r = Inl ErrUnavailable" "n' = n1" by (auto simp: Let_def)
      with a p False show ?thesis by (intro failed) simp_all
    next
      case True
      with u a p obtain n3 where "advanceCommitLocked en (registered en (lastLocked n + 1) key n1) = Some n3"
        "kickLocked en n3 = Some n'" "r = Inr \<lparr>tIndex = lastLocked n + 1, tdone = chanCount n1\<rparr>"
        by (auto simp: Let_def registered_def elim!: bind_SomeE)
      with a p True show ?thesis by (intro proposed) auto
    qed
  qed
qed

lemma registered_sel [simp]:
  "store (registered en i key n) = store n" "failed (registered en i key n) = failed n"
  "cfg (registered en i key n) = cfg n" "peers (registered en i key n) = peers n" "role (registered en i key n) = role n"
  "votes (registered en i key n) = votes n" "outbox (registered en i key n) = outbox n"
  "calls (registered en i key n) = calls n" "nextIndex (registered en i key n) = nextIndex n"
  "applied (registered en i key n) = applied n" "machine (registered en i key n) = machine n"
  "manual (registered en i key n) = manual n" "bootID (registered en i key n) = bootID n"
  by (simp_all add: registered_def)

lemma registered_chan_ok:
  assumes "chan_ok n" shows "chan_ok (registered en i key n)"
  using assms unfolding chan_ok_def registered_def
  by (auto simp: less_Suc_eq) (metis less_irrefl)+

lemma registered_step [simp, intro]: "step_ok n (registered en i key n)"
proof -
  have "node_inv (registered en i key n)" if "node_inv n"
    using that registered_chan_ok [of n en i key]
    by (simp add: node_inv_def store_ok_def machine_ok_def role_ok_def)
  moreover have "node_le n (registered en i key n)" if "node_inv n"
    using node_le_refl [OF that] by (simp add: node_le_def)
  ultimately show ?thesis by (simp add: step_ok_def weak_ok_def synced_def)
qed

lemma submit_step:
  assumes "submitLocked en command key n = Some (r, n')"
  shows "step_ok n n'"
  using assms
proof (cases rule: submit_cases)
  case failed
  then show ?thesis using persist_step available_failed by blast
next
  case (proposed n1 n3)
  have "step_ok n n1" by (rule persist_step [OF proposed(5) available_failed [OF proposed(1)]])
  also have "step_ok n1 (registered en (lastLocked n + 1) key n1)" by simp
  also have "step_ok \<dots> n3" by (rule advance_step [OF proposed(6)])
  also have "step_ok n3 n'" by (rule quiet_step [OF kick_quiet [OF proposed(7)]])
  finally show ?thesis .
qed simp

text \<open>Receiving from a channel, or no longer waiting on it.\<close>

lemma chan_step:
  assumes e: "\<And>c. ch c = chans n c \<or> (\<exists>x. chans n c = x # ch c)"
    and p: "\<And>i w. fmlookup pd i = Some w \<Longrightarrow> fmlookup (pending n) i = Some w"
  shows "step_ok n (n\<lparr>pending := pd, chans := ch\<rparr>)" (is "step_ok n ?n")
proof -
  have l: "chans n c = [] \<Longrightarrow> ch c = []" "length (ch c) \<le> length (chans n c)" for c
    using e [of c] by auto
  have c: "chan_ok ?n" if "chan_ok n"
    unfolding chan_ok_def
  proof (intro conjI allI impI)
    fix i w assume "fmlookup (pending ?n) i = Some w"
    then show "wdone w < chanCount ?n" "chans ?n (wdone w) = []"
      using that p [of i w] l(1) by (auto simp: chan_ok_def)
  next
    fix i j v w assume "fmlookup (pending ?n) i = Some v" "fmlookup (pending ?n) j = Some w" "wdone v = wdone w"
    then show "i = j" using that p [of i v] p [of j w] by (auto simp: chan_ok_def)
  next
    fix c show "length (chans ?n c) \<le> 1" using that l(2) [of c] unfolding chan_ok_def by (simp, metis le_trans)
  next
    fix c assume "chanCount ?n \<le> c"
    then show "chans ?n c = []" using that l(1) [of c] by (simp add: chan_ok_def)
  qed
  have "node_inv ?n" if "node_inv n"
    using that c by (simp add: node_inv_def store_ok_def machine_ok_def role_ok_def)
  moreover have "node_le n ?n" if "node_inv n"
    using node_le_refl [OF that] by (simp add: node_le_def)
  ultimately show ?thesis by (simp add: step_ok_def weak_ok_def synced_def)
qed

lemma forget_step: "step_ok n (n\<lparr>pending := fmdrop i (pending n)\<rparr>)"
proof -
  have "step_ok n (n\<lparr>pending := fmdrop i (pending n), chans := chans n\<rparr>)"
    by (rule chan_step) (auto simp: fmlookup_drop split: if_splits)
  then show ?thesis by simp
qed

lemma Cancel_step: "step_ok n (Cancel t n)"
  by (auto simp: Cancel_def forget_step split: option.splits)

lemma receive_step: "chans n c = x # rest \<Longrightarrow> step_ok n (n\<lparr>chans := (chans n)(c := rest)\<rparr>)"
  using chan_step [of "(chans n)(c := rest)" n "pending n"] by (auto split: if_splits)

lemma Poll_step: "Poll t n = (r, n') \<Longrightarrow> step_ok n n'"
  by (auto simp: Poll_def split: list.splits intro: receive_step)

lemma propose_end_step: "propose_end t timeout n = (r, n') \<Longrightarrow> step_ok n n'"
  by (auto simp: propose_end_def split: list.splits if_splits intro: receive_step Cancel_step)

lemma propose_begin_step: "propose_begin en expired command key n = Some (r, n') \<Longrightarrow> step_ok n n'"
  by (auto simp: propose_begin_def split: if_splits intro: submit_step)

section \<open>Control\<close>

lemma Drain_step: "step_ok n (snd (DrainMessages n))"
  by (simp add: DrainMessages_def)

lemma SetPaused_step:
  assumes "SetPaused en p n = Some n'"
  shows "step_ok n n'"
proof -
  obtain n2 where n2: "(if p then Some (failPendingLocked ErrUnavailable (n\<lparr>paused := p\<rparr>))
      else kickLocked en (resetTimerLocked en (n\<lparr>paused := p\<rparr>))) = Some n2"
    and n': "n' = emitLocked en (if p then ''PAUSED'' else ''RESUMED'') 0 [] [] [] n2"
    using assms by (auto simp: SetPaused_def Let_def simp del: if_split elim!: bind_SomeE)
  have "step_ok n (n\<lparr>paused := p\<rparr>)" by simp
  also have "step_ok \<dots> n2"
    using n2 by (auto split: if_splits dest!: kick_quiet quiet_step intro: step_ok_trans [OF step_ok_reset])
  also have "step_ok n2 n'" by (simp add: n')
  finally show ?thesis .
qed

lemma Close_step: "step_ok n (Close n)"
  by (auto simp: Close_def intro: step_ok_trans [OF step_ok_upd(10)])

section \<open>Opening\<close>

lemma restore_node_inv:
  assumes st: "wf_store st" "journal_gives st st"
    and rn: "restore_node (fresh_node en man c ps st) = Inr n"
  shows "node_inv n" "store n = st" "cfg n = c" "peers n = ps" "failed n = None" "role n = Follower" "votes n = None"
    "outbox n = []" "calls n = []" "pending n = fmempty" "applied n = dBase (sState st)" "manual n = man"
proof -
  have wst: "wf_state (sState st)" using st(1) by (simp add: wf_store_def)
  have n: "n = (fresh_node en man c ps st)\<lparr>machine := base_machine st, applied := dBase (sState st)\<rparr>"
    using rn by (auto simp: restore_node_def fresh_node_def base_machine_def split: if_splits prod.splits option.splits)
  show "store n = st" "cfg n = c" "peers n = ps" "failed n = None" "role n = Follower" "votes n = None"
    "outbox n = []" "calls n = []" "pending n = fmempty" "applied n = dBase (sState st)" "manual n = man"
    by (simp_all add: n fresh_node_def)
  have "state_le (sState st) (sState st)" using wst by (auto simp: wf_state_def intro: state_le_refl)
  then have "store_ok n" using st by (auto simp: store_ok_def n fresh_node_def)
  moreover have "machine_ok n"
    using wst by (simp add: machine_ok_def n fresh_node_def machine_at_def wf_state_def)
  moreover have "chan_ok n" "role_ok n" by (simp_all add: chan_ok_def role_ok_def n fresh_node_def)
  ultimately show "node_inv n" by (simp add: node_inv_def)
qed

text \<open>After the journal has been read back, the node applies what is committed and, when it is the
  configured leader, takes a new term.\<close>

lemma start_node_cases:
  assumes "start_node en n = Some (Inr n')"
  obtains (follower) n1 where "applyLocked en n = Some n1" "FixedLeader (cfg n1) \<noteq> cID (cfg n1)"
      "store n' = store (resetTimerLocked en n1)" "step_ok (resetTimerLocked en n1) n'" "failed n' = None"
      "role n' = role n1" "votes n' = votes n1" "outbox n' = outbox n1" "calls n' = calls n1"
      "cfg n' = cfg n1" "peers n' = peers n1"
    | (leader) n1 n2 n3 where "applyLocked en n = Some n1" "FixedLeader (cfg n1) = cID (cfg n1)"
      "persistLocked en (dTerm (state n1) + 1) (cID (cfg n1)) (dCommit (state n1)) 0 [] (resetTimerLocked en n1) = Some (True, n2)"
      "becomeLeaderLocked en n2 = Some n3" "store n' = store n3" "step_ok n3 n'" "failed n' = None"
      "role n' = role n3" "votes n' = votes n3" "outbox n' = outbox n3" "calls n' = calls n3"
      "cfg n' = cfg n3" "peers n' = peers n3"
proof -
  obtain n1 where n1: "applyLocked en n = Some n1" using assms by (auto simp: start_node_def elim!: bind_SomeE)
  define fin where "fin m = (if manual m then m else m\<lparr>wake := (\<lambda>i. if i \<in> pID ` set (Peers (cfg m)) \<and> i \<noteq> cID (cfg m)
                                          then Some False else None)\<rparr>)" for m :: Node
  have fin: "store (fin m) = store m" "step_ok m (fin m)" "failed (fin m) = failed m" "role (fin m) = role m"
    "votes (fin m) = votes m" "outbox (fin m) = outbox m" "calls (fin m) = calls m" "cfg (fin m) = cfg m"
    "peers (fin m) = peers m" for m
    by (simp_all add: fin_def)
  note u = assms [unfolded start_node_def n1 Let_def, folded fin_def]
  show ?thesis
  proof (cases "FixedLeader (cfg n1) = cID (cfg n1)")
    case False
    then have "failed n1 = None" "n' = fin (resetTimerLocked en n1)"
      using u by (auto split: option.split_asm)
    then show ?thesis using False n1 fin [of "resetTimerLocked en n1"] by (intro follower [of n1]) simp_all
  next
    case True
    then obtain ok n2 where p: "persistLocked en (dTerm (state n1) + 1) (cID (cfg n1)) (dCommit (state n1)) 0 []
        (resetTimerLocked en n1) = Some (ok, n2)"
      using u by (auto elim!: bind_SomeE)
    show ?thesis
    proof (cases ok)
      case False
      then have "failed n2 \<noteq> None" using persist_sel(18) [OF p] by simp
      then show ?thesis using u True p False by (auto split: option.split_asm)
    next
      case ok: True
      then obtain n3 where b: "becomeLeaderLocked en n2 = Some n3" and f: "failed n3 = None" "n' = fin n3"
        using u True p by (auto split: option.split_asm elim!: bind_SomeE)
      show ?thesis using True n1 p ok b f fin [of n3] by (intro leader [of n1 n2 n3]) simp_all
    qed
  qed
qed

lemma apply_follower:
  assumes "node_inv n" "role n = Follower" "applyLocked en n = Some n'"
  shows "ran n n'"
proof -
  obtain n1 where n1: "applyLocked en n = maybeSnapshotLocked en n1" "ran n n1"
    by (rule applyLocked_eq [OF assms(1)])
  then have "maybeSnapshotLocked en n1 = Some n1" using assms(2) ran_sel(4) by (simp add: maybeSnapshotLocked_def)
  then show ?thesis using n1 assms(3) by simp
qed

lemma start_node_inv:
  assumes "start_node en n = Some (Inr n')" and inv: "node_inv n" "failed n = None" "role n = Follower"
  shows "node_inv n' \<and> synced n' \<and> node_le n n'"
  using assms(1)
proof (cases rule: start_node_cases)
  case (follower n1)
  note a = apply_ok [OF inv(1) follower(1)]
  have "step_ok n1 n'" using step_ok_trans [OF step_ok_reset follower(4)] .
  then show ?thesis using a by (auto simp: step_ok_def weak_ok_def intro: node_le_trans)
next
  case (leader n1 n2 n3)
  note a = apply_ok [OF inv(1) leader(1)]
  have f1: "failed n1 = None" using ran_sel(9) [OF apply_follower [OF inv(1,3) leader(1)]] inv(2) by simp
  then have f2: "failed n2 = None" using persist_sel(17) [OF leader(3)] by simp
  have "step_ok n1 (resetTimerLocked en n1)" by simp
  also have "step_ok \<dots> n2"
    by (rule persist_step [OF leader(3) [folded reset_sel(3) [of en n1]]]) (simp add: f1)
  also have "step_ok n2 n3" by (rule becomeLeader_step [OF leader(4) f2])
  also have "step_ok n3 n'" by (rule leader(6))
  finally show ?thesis using a by (auto simp: step_ok_def weak_ok_def intro: node_le_trans)
qed

lemma Open_cases:
  assumes "OpenWithRuntime origin identity en man nt c0 openErr j = Some (Inr n')"
  obtains ps st n where "check_peers origin (Peers c0) fmempty {||} = Inr ps" "cID c0 |\<in>| fmdom ps" "cID c0 \<noteq> []"
    "openStoreUsing (identity (default_config c0)) openErr j = Some (Inr st)"
    "restore_node (fresh_node en man (default_config c0) ps st) = Inr n" "start_node en n = Some (Inr n')"
    "FixedLeader c0 \<noteq> [] \<Longrightarrow> FixedLeader c0 |\<in>| fmdom ps"
proof -
  have d: "Peers (default_config c0) = Peers c0" "cID (default_config c0) = cID c0"
    "FixedLeader (default_config c0) = FixedLeader c0"
    by (simp_all add: default_config_def Let_def)
  show ?thesis
    using assms that unfolding OpenWithRuntime_def
    by (simp add: Let_def d split: if_split_asm sum.split_asm option.split_asm bind_splits) blast
qed

lemma Open_inv:
  assumes "OpenWithRuntime origin identity en man nt c0 openErr j = Some (Inr n')"
  shows "node_inv n'" "synced n'"
proof -
  obtain ps st n where st: "openStoreUsing (identity (default_config c0)) openErr j = Some (Inr st)"
    and rn: "restore_node (fresh_node en man (default_config c0) ps st) = Inr n"
    and sn: "start_node en n = Some (Inr n')"
    by (rule Open_cases [OF assms])
  note r = restore_node_inv [OF openStoreUsing_ok(1,2) [OF st] rn]
  show "node_inv n'" "synced n'" using start_node_inv [OF sn r(1,5,6)] by auto
qed

end
