(* ===== verification/Node_Total.thy ===== *)
theory Node_Total
  imports Node_Calls
begin

text \<open>
  When the node can panic.  The two request handlers of \<^verbatim>\<open>internal/raft/rpc.go\<close> never do, whatever request arrives.
  On the sending side, \<open>prepareAppendLocked\<close> reads the log from the follower's next index before it
  raises that index to the base of the compacted log, so it panics when the next index has fallen below
  the base; the last section follows this through the handling of a refused append.
\<close>

section \<open>Serving requests\<close>

lemma entry_total:
  assumes "node_inv n" "dBase (state n) \<le> i" "i \<le> lastLocked n"
  obtains e where "entryLocked n i = Some e"
  using store_entry_get [OF node_inv_wf(2) [OF assms(1)], of i] assms(2,3) by (auto simp: entryLocked_def lastLocked_def)

lemma last_base: "node_inv n \<Longrightarrow> dBase (state n) \<le> lastLocked n"
  using node_inv_wf(2) [of n] by (auto simp: lastLocked_def store_last_def wf_state_def)

lemma stepDown_total: "node_inv n \<Longrightarrow> stepDownLocked en T l n \<noteq> None"
  using persist_total [of n en T "[]" "dCommit (state n)" 0 "[]"]
  by (cases "dTerm (state n) < T") (auto simp: stepDownLocked_def Let_def split: if_splits)

lemma vote_decide_total:
  assumes "node_inv n"
  shows "vote_decide en req n \<noteq> None"
proof -
  obtain le where le: "entryLocked n (lastLocked n) = Some le"
    by (rule entry_total [OF assms last_base [OF assms] order_refl])
  obtain ok n1 where "persistLocked en (vqTerm req) (CandidateID req) (dCommit (state n)) 0 [] n = Some (ok, n1)"
    using persist_total [OF assms] by fastforce
  then show ?thesis using le by (simp add: vote_decide_def Let_def)
qed

lemma RequestVote_total:
  assumes inv: "node_inv n"
  shows "RequestVote en req n \<noteq> None"
proof -
  have a: "node_inv (asked en req n)" using asked_step inv by (auto simp: step_ok_def weak_ok_def)
  obtain ok n2 where s: "stepDownLocked en (vqTerm req) [] (asked en req n) = Some (ok, n2)"
    using stepDown_total [OF a] by fastforce
  have "vote_decide en req n2 \<noteq> None" if "availableLocked n"
    using stepDown_step [OF s] available_failed [OF that] a by (intro vote_decide_total) (simp add: step_ok_def weak_ok_def)
  then show ?thesis
    using s vote_decide_total [OF a]
    unfolding RequestVote_def Let_def asked_def [symmetric] by (simp split: if_split)
qed

lemma merge_total:
  assumes inv: "node_inv n"
  shows "merge_entries n T i es \<noteq> None"
proof (induction es arbitrary: i)
  case (Cons e es)
  show ?case
  proof (cases "dBase (state n) < eIndex e \<and> eIndex e \<le> lastLocked n")
    case True
    then obtain mine where "entryLocked n (eIndex e) = Some mine" using entry_total [OF inv, of "eIndex e"] by auto
    then show ?thesis using Cons by auto
  next
    case False
    then show ?thesis using Cons by auto
  qed
qed simp

lemma conflict_total:
  assumes inv: "node_inv n"
  shows "i \<le> lastLocked n \<Longrightarrow> conflict_start n T i \<noteq> None"
proof (induction i)
  case (Suc i)
  show ?case
  proof (cases "dBase (state n) < Suc i")
    case True
    then obtain e where "entryLocked n i = Some e" using entry_total [OF inv, of i] Suc.prems by auto
    then show ?thesis using Suc by simp
  qed simp
qed simp

lemma append_accept_total:
  assumes inv: "node_inv n" and h: "failed n = None"
  shows "append_accept en req n \<noteq> None"
proof -
  obtain merged where m: "merge_entries n (aqTerm req) (PrevLogIndex req + 1) (aqEntries req) = Some merged"
    using merge_total [OF inv] by blast
  have p: "\<exists>ok n2. persistLocked en T v c f es (note_repair en req f n) = Some (ok, n2) \<and> (ok \<longrightarrow> applyLocked en n2 \<noteq> None)"
    for T v c f es
  proof -
    have r: "node_inv (note_repair en req f n)" using repair_step inv by (auto simp: step_ok_def weak_ok_def)
    obtain ok n2 where ps: "persistLocked en T v c f es (note_repair en req f n) = Some (ok, n2)"
      using persist_total [OF r] by fastforce
    have "node_inv n2" using persist_weak [OF ps] r h by (simp add: weak_ok_def)
    then show ?thesis using ps apply_total by blast
  qed
  show ?thesis
  proof (cases merged)
    case (Inl err)
    then show ?thesis unfolding append_accept_def m by simp
  next
    case (Inr x)
    obtain f es where x: "x = (f, es)" by (cases x)
    define c where "c = (if dCommit (state n) < LeaderCommit req
      then max (min (LeaderCommit req) (PrevLogIndex req + length (aqEntries req))) (dCommit (state n)) else dCommit (state n))"
    obtain ok n2 where "persistLocked en (dTerm (state n)) (dVote (state n)) c f es (note_repair en req f n) = Some (ok, n2)"
      "ok \<longrightarrow> applyLocked en n2 \<noteq> None" using p by blast
    then show ?thesis
      unfolding append_accept_def m Let_def c_def [symmetric] by (auto simp: Inr x)
  qed
qed

lemma append_check_total:
  assumes inv: "node_inv n" and h: "failed n = None"
  shows "append_check en req n \<noteq> None"
proof (cases "dBase (state n) \<le> PrevLogIndex req \<and> PrevLogIndex req \<le> lastLocked n")
  case True
  then obtain pe where "entryLocked n (PrevLogIndex req) = Some pe" using entry_total [OF inv] by blast
  then show ?thesis
    using True conflict_total [OF inv, of "PrevLogIndex req" "eTerm pe"] append_accept_total [OF inv h, of en req]
    by (auto simp: append_check_def)
next
  case False
  then show ?thesis by (auto simp: append_check_def)
qed

lemma AppendEntries_total:
  assumes inv: "node_inv n"
  shows "AppendEntries en req n \<noteq> None"
proof -
  have a: "node_inv (heard en req n)" using heard_step inv by (auto simp: step_ok_def weak_ok_def)
  obtain ok n2 where s: "stepDownLocked en (aqTerm req) (LeaderID req) (heard en req n) = Some (ok, n2)"
    using stepDown_total [OF a] by fastforce
  have "append_check en req (resetTimerLocked en n2) \<noteq> None" if "availableLocked n" ok
  proof (rule append_check_total)
    have "node_inv n2" using stepDown_step [OF s] available_failed [OF that(1)] a by (simp add: step_ok_def weak_ok_def)
    then show "node_inv (resetTimerLocked en n2)" using step_ok_reset by (auto simp: step_ok_def weak_ok_def)
    show "failed (resetTimerLocked en n2) = None"
      using stepDown_sel(15) [OF s] available_failed [OF that(1)] that(2) by simp
  qed
  then show ?thesis
    using s unfolding AppendEntries_def Let_def heard_def [symmetric] by (simp split: if_split)
qed

section \<open>Preparing an append request\<close>

text \<open>The follower's next index as \<open>prepareAppendLocked\<close> clamps it.\<close>

definition start_index :: "Node \<Rightarrow> Peer \<Rightarrow> nat" where
  "start_index n p = min (max 1 (nextIndex n (pID p))) (lastLocked n + 1)"

lemma batch_end_total:
  assumes inv: "node_inv n"
  shows "dBase (state n) \<le> i \<Longrightarrow> \<exists>k. batch_end n room i bytes = Some k \<and> i \<le> k \<and> (k \<le> i \<or> k \<le> lastLocked n + 1)"
proof (induction room arbitrary: i bytes)
  case (Suc room)
  show ?case
  proof (cases "i \<le> lastLocked n")
    case True
    then obtain e where e: "entryLocked n i = Some e" using entry_total [OF inv Suc.prems] by blast
    obtain k where k: "batch_end n room (Suc i) (bytes + entry_size e) = Some k" "Suc i \<le> k" "k \<le> Suc i \<or> k \<le> lastLocked n + 1"
      using Suc.IH [of "Suc i" "bytes + entry_size e"] Suc.prems by auto
    then show ?thesis using True e by auto
  qed simp
qed simp

lemma entries_from_total:
  assumes inv: "node_inv n"
  shows "dBase (state n) \<le> i \<Longrightarrow> i + k \<le> lastLocked n + 1 \<Longrightarrow>
    \<exists>es. entries_from n i k = Some es \<and> length es = k \<and> (\<forall>j < k. entryLocked n (i + j) = Some (es ! j))"
proof (induction k arbitrary: i)
  case (Suc k)
  obtain e where e: "entryLocked n i = Some e" using entry_total [OF inv, of i] Suc.prems by auto
  obtain es where es: "entries_from n (Suc i) k = Some es" "length es = k" "\<forall>j < k. entryLocked n (Suc i + j) = Some (es ! j)"
    using Suc.IH [of "Suc i"] Suc.prems by auto
  have "entryLocked n (i + j) = Some ((e # es) ! j)" if "j < Suc k" for j
    using e es(3) that by (cases j) auto
  then show ?case using e es by auto
qed simp

lemma prepare_total:
  assumes inv: "node_inv n" and b: "dBase (state n) < start_index n p"
  obtains req n' where "prepareAppendLocked en p n = Some (req, n')" "PrevLogIndex req = start_index n p - 1"
    "PrevLogIndex req + length (aqEntries req) \<le> lastLocked n" "aqTerm req = dTerm (state n)"
    "\<forall>j < length (aqEntries req). entryLocked n (start_index n p + j) = Some (aqEntries req ! j)"
    "\<exists>pe. entryLocked n (PrevLogIndex req) = Some pe \<and> PrevLogTerm req = eTerm pe"
    "LeaderCommit req = dCommit (state n)"
proof -
  let ?i = "start_index n p"
  obtain k where k: "batch_end n 32 ?i 1024 = Some k" "?i \<le> k" "k \<le> ?i \<or> k \<le> lastLocked n + 1"
    using batch_end_total [OF inv, of ?i 32 1024] b by auto
  have l: "?i \<le> lastLocked n + 1" by (simp add: start_index_def)
  have kl: "?i + (k - ?i) \<le> lastLocked n + 1" using k l by auto
  obtain es where es: "entries_from n ?i (k - ?i) = Some es" "length es = k - ?i"
    "\<forall>j < k - ?i. entryLocked n (?i + j) = Some (es ! j)"
    using entries_from_total [OF inv _ kl] b by auto
  obtain pe where pe: "entryLocked n (?i - 1) = Some pe" by (rule entry_total [OF inv, of "?i - 1"]) (use b l in auto)
  let ?n1 = "n\<lparr>sequence := sequence n + 1\<rparr>"
  let ?req = "\<lparr>aqMessageID = messageID ?n1, aqClusterID = ClusterID (cfg n), aqTerm = dTerm (state n), LeaderID = cID (cfg n),
      PrevLogIndex = ?i - 1, PrevLogTerm = eTerm pe, aqEntries = es, LeaderCommit = dCommit (state n)\<rparr>"
  have "prepareAppendLocked en p n = Some (?req, emitLocked en ''APPEND_SENT'' (?i - 1 + length es) (pID p) (aqMessageID ?req) [] ?n1)"
    unfolding prepareAppendLocked_def Let_def start_index_def [symmetric] using k es pe b by auto
  then show ?thesis by (rule that) (use es kl b pe l in auto)
qed

lemma prepare_panics:
  assumes inv: "node_inv n" and b: "start_index n p < dBase (state n)"
  shows "prepareAppendLocked en p n = None"
proof -
  have "start_index n p \<le> lastLocked n" using b last_base [OF inv] by simp
  moreover have "entryLocked n (start_index n p) = None" using b by (simp add: entryLocked_def store_entry_def Let_def)
  ultimately have "batch_end n (Suc 31) (start_index n p) 1024 = None" unfolding batch_end.simps by simp
  then have "batch_end n 32 (start_index n p) 1024 = None" by simp
  then show ?thesis unfolding prepareAppendLocked_def Let_def start_index_def [symmetric] by simp
qed

section \<open>Backing off after a refusal\<close>

text \<open>The next index that the leader takes from a refused append.\<close>

definition backed_off :: "AppendRequest \<Rightarrow> AppendResponse \<Rightarrow> nat" where
  "backed_off req resp = max 1 (min (PrevLogIndex req) (ConflictIndex resp))"

definition refused :: "Env \<Rightarrow> Message \<Rightarrow> AppendRequest \<Rightarrow> AppendResponse \<Rightarrow> Node \<Rightarrow> Node" where
  "refused en m req resp n =
     (let b = answered en (peerOf n (mTo m)) req resp None (n\<lparr>busy := (busy n)(mTo m := 0)\<rparr>)
      in b\<lparr>nextIndex := (nextIndex b)(mTo m := backed_off req resp)\<rparr>)"

lemma refused_step: "step_ok n (refused en m req resp n)"
proof -
  let ?b = "n\<lparr>busy := (busy n)(mTo m := 0)\<rparr>"
  have "step_ok n ?b" "step_ok ?b (answered en (peerOf n (mTo m)) req resp None ?b)" by simp_all
  moreover have "step_ok k (k\<lparr>nextIndex := N\<rparr>)" for k N by simp
  ultimately show ?thesis unfolding refused_def Let_def by (meson step_ok_trans)
qed

lemma refused_sel [simp]:
  "store (refused en m req resp n) = store n" "role (refused en m req resp n) = role n" "busy (refused en m req resp n) (mTo m) = 0"
  "availableLocked (refused en m req resp n) = availableLocked n" "nextIndex (refused en m req resp n) (mTo m) = backed_off req resp"
  "peers (refused en m req resp n) = peers n"
  by (simp_all add: refused_def answered_def emitLocked_def Let_def availableLocked_def)

lemma DeliverAppend_refused:
  assumes "mAppend m = Some req" "busy n (mTo m) = mSequence m" "availableLocked n" "role n = Leader"
    and "dTerm (state n) = aqTerm req" "arTerm resp = aqTerm req" "\<not> Success resp" "0 < PrevLogIndex req" "pID (peerOf n (mTo m)) = mTo m"
  shows "DeliverAppend en m resp None n =
    map_option snd (prepareAppendLocked en (peerOf n (mTo m)) (refused en m req resp n)) \<bind> (\<lambda>_.
      queueAppendLocked en (peerOf n (mTo m)) (refused en m req resp n))"
proof -
  let ?b = "n\<lparr>busy := (busy n)(mTo m := 0)\<rparr>"
  have "acceptAppendLocked en (peerOf n (mTo m)) req resp None ?b = Some (True, refused en m req resp n)"
    using assms(3-) by (simp add: acceptAppendLocked_def refused_def backed_off_def answered_def Let_def availableLocked_def)
  then have "DeliverAppend en m resp None n = queueAppendLocked en (peerOf n (mTo m)) (refused en m req resp n)"
    using assms(1,2) by (simp add: DeliverAppend_def peerOf_def)
  then show ?thesis
    using assms(3,4,9) by (cases "prepareAppendLocked en (peerOf n (mTo m)) (refused en m req resp n)") (auto simp: queueAppendLocked_def)
qed

lemma refused_start:
  assumes "node_inv n" "PrevLogIndex req \<le> lastLocked n" "pID p = mTo m"
  shows "start_index (refused en m req resp n) p = backed_off req resp"
  using assms by (auto simp: start_index_def backed_off_def lastLocked_def)

lemma refused_panics:
  assumes inv: "node_inv n" and h: "mAppend m = Some req" "busy n (mTo m) = mSequence m" "availableLocked n" "role n = Leader"
    "dTerm (state n) = aqTerm req" "arTerm resp = aqTerm req" "\<not> Success resp" "0 < PrevLogIndex req" "pID (peerOf n (mTo m)) = mTo m"
    and l: "PrevLogIndex req \<le> lastLocked n"
  shows "(backed_off req resp < dBase (state n) \<longrightarrow> DeliverAppend en m resp None n = None) \<and>
    (dBase (state n) < backed_off req resp \<longrightarrow> DeliverAppend en m resp None n \<noteq> None)"
proof -
  let ?r = "refused en m req resp n" let ?p = "peerOf n (mTo m)"
  have i: "node_inv ?r" using refused_step [of n en m req resp] inv by (simp add: step_ok_def weak_ok_def)
  note e = DeliverAppend_refused [OF h, of en] and s = refused_start [OF inv l h(9), of en resp]
  have "DeliverAppend en m resp None n = None" if "backed_off req resp < dBase (state n)"
    using e prepare_panics [OF i, of ?p en] that s by simp
  moreover have "DeliverAppend en m resp None n \<noteq> None" if b: "dBase (state n) < backed_off req resp"
  proof -
    obtain q n' where "prepareAppendLocked en ?p ?r = Some (q, n')" by (rule prepare_total [OF i, of ?p en]) (use b s in auto)
    then show ?thesis using e h by (simp add: queueAppendLocked_def)
  qed
  ultimately show ?thesis by blast
qed

end
