(* ===== verification/Inspect.thy ===== *)
theory Inspect
  imports Node_Total
begin

text \<open>
  The read-only views of a node in \<^verbatim>\<open>internal/raft/runtime.go\<close>: \<open>Audit\<close>, which the simulator's checker
  reads, and \<open>Inspect\<close>, which \<^verbatim>\<open>GET /v1/inspect\<close> serves.  The SHA-256 digests of an entry and of a
  state machine are the arguments \<open>EntryHash\<close> and \<open>Digest\<close>.

  \<open>Inspect\<close> lists the last hundred entries by index.  It does not stop at the base of a compacted log,
  and the lemmas say exactly when it panics and what it returns otherwise.
\<close>

record Audit =
  aStatus :: Status
  aVote :: string
  aLog :: "Entry list"
  aStateHash :: string

definition Audit_of :: "(Machine \<Rightarrow> string) \<Rightarrow> Node \<Rightarrow> Audit" where
  "Audit_of Digest n =
     \<lparr>aStatus = statusLocked n, aVote = dVote (state n), aLog = dLog (state n), aStateHash = Digest (machine n)\<rparr>"

record LogMeta =
  lmIndex :: nat
  lmTerm :: u64
  lmOperation :: string
  lmKey :: string
  lmHash :: string
  lmCommitted :: bool
  lmApplied :: bool

record Inspection =
  iStatus :: Status
  iBootID :: string
  iStateHash :: string
  iLog :: "LogMeta list"
  iEvents :: "Event list"

definition log_meta :: "(Entry \<Rightarrow> string) \<Rightarrow> Node \<Rightarrow> nat \<Rightarrow> Entry \<Rightarrow> LogMeta" where
  "log_meta EntryHash n i e =
     (let m = \<lparr>lmIndex = i, lmTerm = eTerm e, lmOperation = ''BARRIER'', lmKey = [], lmHash = EntryHash e,
               lmCommitted = (i \<le> dCommit (state n)), lmApplied = (i \<le> applied n)\<rparr>
      in case eCommand e of None \<Rightarrow> m | Some c \<Rightarrow> m\<lparr>lmOperation := Operation c, lmKey := Key c\<rparr>)"

text \<open>The first index of the listing, and the loop over the \<open>k\<close> indices from \<open>i\<close>.\<close>

definition inspect_start :: "Node \<Rightarrow> nat" where
  "inspect_start n = max 1 (lastLocked n + 1 - min (lastLocked n) 100)"

primrec inspect_log :: "(Entry \<Rightarrow> string) \<Rightarrow> Node \<Rightarrow> nat \<Rightarrow> nat \<Rightarrow> LogMeta list option" where
  "inspect_log EntryHash n i 0 = Some []"
| "inspect_log EntryHash n i (Suc k) =
     do { e \<leftarrow> entryLocked n i; ms \<leftarrow> inspect_log EntryHash n (Suc i) k; Some (log_meta EntryHash n i e # ms) }"

definition Inspect :: "(Machine \<Rightarrow> string) \<Rightarrow> (Entry \<Rightarrow> string) \<Rightarrow> u64 \<Rightarrow> Node \<Rightarrow> Inspection option" where
  "Inspect Digest EntryHash after n =
     do {
       ms \<leftarrow> inspect_log EntryHash n (inspect_start n) (lastLocked n + 1 - inspect_start n);
       Some \<lparr>iStatus = statusLocked n, iBootID = bootID n, iStateHash = Digest (machine n), iLog = ms,
             iEvents = After (events n) after\<rparr>
     }"

lemma inspect_log_ok:
  assumes inv: "node_inv n"
  shows "dBase (state n) \<le> i \<Longrightarrow> i + k \<le> lastLocked n + 1 \<Longrightarrow>
    \<exists>ms. inspect_log EntryHash n i k = Some ms \<and> length ms = k \<and>
      (\<forall>j < k. \<exists>e. entryLocked n (i + j) = Some e \<and> ms ! j = log_meta EntryHash n (i + j) e)"
proof (induction k arbitrary: i)
  case (Suc k)
  obtain e where e: "entryLocked n i = Some e" using entry_total [OF inv, of i] Suc.prems by auto
  obtain ms where ms: "inspect_log EntryHash n (Suc i) k = Some ms" "length ms = k"
    "\<forall>j < k. \<exists>e. entryLocked n (Suc i + j) = Some e \<and> ms ! j = log_meta EntryHash n (Suc i + j) e"
    using Suc.IH [of "Suc i"] Suc.prems by auto
  have "\<exists>x. entryLocked n (i + j) = Some x \<and> (log_meta EntryHash n i e # ms) ! j = log_meta EntryHash n (i + j) x" if "j < Suc k" for j
    using e ms(3) that by (cases j) auto
  then show ?case using e ms by auto
qed simp

lemma inspect_log_panics: "i < dBase (state n) \<Longrightarrow> inspect_log EntryHash n i (Suc k) = None"
  by (simp add: entryLocked_def store_entry_def Let_def)

lemma inspect_start_le: "inspect_start n \<le> lastLocked n + 1" "0 < inspect_start n"
  by (auto simp: inspect_start_def)

text \<open>\<open>Inspect\<close> panics exactly when the last hundred entries reach below the base of the log.\<close>

lemma Inspect_panics_iff:
  assumes inv: "node_inv n"
  shows "Inspect Digest EntryHash after n = None \<longleftrightarrow> inspect_start n < dBase (state n)"
proof (cases "inspect_start n < dBase (state n)")
  case True
  then have "inspect_start n \<le> lastLocked n" using last_base [OF inv] by simp
  then obtain k where "lastLocked n + 1 - inspect_start n = Suc k" by (cases "lastLocked n + 1 - inspect_start n") auto
  then show ?thesis using True inspect_log_panics [OF True] by (simp add: Inspect_def)
next
  case False
  then show ?thesis
    using inspect_log_ok [OF inv, of "inspect_start n" "lastLocked n + 1 - inspect_start n" EntryHash] inspect_start_le [of n]
    by (auto simp: Inspect_def)
qed

lemma Inspect_lists:
  assumes inv: "node_inv n" and i: "Inspect Digest EntryHash after n = Some v"
  shows "length (iLog v) = min (lastLocked n) 100"
    "j < length (iLog v) \<Longrightarrow> \<exists>e. entryLocked n (lastLocked n - length (iLog v) + 1 + j) = Some e \<and>
       iLog v ! j = log_meta EntryHash n (lastLocked n - length (iLog v) + 1 + j) e"
    "iStatus v = statusLocked n" "iEvents v = After (events n) after"
proof -
  let ?s = "inspect_start n" let ?k = "lastLocked n + 1 - ?s"
  have nb: "\<not> ?s < dBase (state n)" using Inspect_panics_iff [OF inv, of Digest EntryHash after] i by simp
  obtain ms where ms: "inspect_log EntryHash n ?s ?k = Some ms" "length ms = ?k"
    "\<forall>j < ?k. \<exists>e. entryLocked n (?s + j) = Some e \<and> ms ! j = log_meta EntryHash n (?s + j) e"
    using inspect_log_ok [OF inv, of ?s ?k EntryHash] nb inspect_start_le [of n] by auto
  then have v: "iLog v = ms" "iStatus v = statusLocked n" "iEvents v = After (events n) after" using i by (auto simp: Inspect_def)
  show l: "length (iLog v) = min (lastLocked n) 100" using ms(2) v by (auto simp: inspect_start_def)
  have s: "?s = lastLocked n - length (iLog v) + 1" if "0 < length (iLog v)" using that l by (auto simp: inspect_start_def)
  show "\<exists>e. entryLocked n (lastLocked n - length (iLog v) + 1 + j) = Some e \<and>
       iLog v ! j = log_meta EntryHash n (lastLocked n - length (iLog v) + 1 + j) e" if j: "j < length (iLog v)"
  proof -
    have "?s = lastLocked n - length (iLog v) + 1" by (rule s) (use j in linarith)
    moreover have "\<exists>e. entryLocked n (?s + j) = Some e \<and> iLog v ! j = log_meta EntryHash n (?s + j) e"
      using ms(2,3) v(1) j by simp
    ultimately show ?thesis by (simp only:)
  qed
  show "iStatus v = statusLocked n" "iEvents v = After (events n) after" by (rule v)+
qed

end
