(* ===== verification/Http.thy ===== *)
theory Http
  imports Prelude
begin

text \<open>
  What the HTTP handlers and clients of the repository use of Go's standard library: requests and
  replies, path escaping (\<open>url.PathEscape\<close> and its inverse), the cleaning of paths and the choice of a
  handler by an \<open>http.ServeMux\<close> with method patterns and single-segment wildcards, \<open>strconv.ParseUint\<close>, and the
  decoding of one JSON document from a body.

  A path is the list of its escaped segments: \<open>/v1/kv/a%20b\<close> is \<open>[''v1'', ''kv'', ''a%20b'']\<close>, and a trailing
  slash is a last empty segment.  The body of a request is a parameter of its type: the handlers of the client API and of the lab
  get the outcome of decoding it (\<open>body\<close>), the transport between nodes and the fault proxy its bytes.
\<close>

section \<open>Requests and replies\<close>

text \<open>
  What decoding a body into a struct gives: an error (malformed, too long, or with a field the struct does not
  have), a value, or a value followed by more data.
\<close>

datatype 'b body = Malformed | Document 'b | Trailing 'b

record 'b Request =
  qMethod :: string
  qPath :: "string list"
  qRawQuery :: string
  qQuery :: "string \<Rightarrow> string"
  qHeader :: "string \<Rightarrow> string"
  qBody :: 'b

definition path_text :: "string list \<Rightarrow> string" where
  "path_text segs = concat (map (\<lambda>s. CHR ''/'' # s) segs)"

definition RequestURI :: "'b Request \<Rightarrow> string" where
  "RequestURI r = path_text (qPath r) @ (if qRawQuery r = [] then [] else CHR ''?'' # qRawQuery r)"

text \<open>What can be read through \<open>http.MaxBytesReader\<close>: the bytes up to the limit, and whether the body ends there without an error.\<close>

definition MaxBytesReader :: "nat \<Rightarrow> string \<Rightarrow> string \<times> bool" where
  "MaxBytesReader limit body = (take limit body, length body \<le> limit)"

record 'p Reply =
  rpStatus :: nat
  rpHeaders :: "(string \<times> string) list"
  rpBody :: 'p

section \<open>Path escaping\<close>

definition hex_char :: "nat \<Rightarrow> char" where
  "hex_char d = char_of (if d < 10 then 48 + d else 55 + d)"

definition hex_value :: "char \<Rightarrow> nat option" where
  "hex_value c =
     (let n = of_char c :: nat in
      if 48 \<le> n \<and> n \<le> 57 then Some (n - 48)
      else if 65 \<le> n \<and> n \<le> 70 then Some (n - 55)
      else if 97 \<le> n \<and> n \<le> 102 then Some (n - 87)
      else None)"

text \<open>The bytes a path segment keeps: letters, digits, \<open>- _ . ~\<close> and \<open>$ & + : = @\<close>.\<close>

definition segment_char :: "char \<Rightarrow> bool" where
  "segment_char c =
     (let n = of_char c :: nat in
      48 \<le> n \<and> n \<le> 57 \<or> 65 \<le> n \<and> n \<le> 90 \<or> 97 \<le> n \<and> n \<le> 122 \<or> c \<in> set ''-_.~$&+:=@'')"

definition escape_char :: "char \<Rightarrow> string" where
  "escape_char c =
     (if segment_char c then [c]
      else [CHR ''%'', hex_char (of_char c div 16), hex_char (of_char c mod 16)])"

definition PathEscape :: "string \<Rightarrow> string" where
  "PathEscape s = concat (map escape_char s)"

fun PathUnescape :: "string \<Rightarrow> string" where
  "PathUnescape (p # a # b # s) =
     (if p = CHR ''%'' then
        (case (hex_value a, hex_value b) of
           (Some x, Some y) \<Rightarrow> char_of (16 * x + y) # PathUnescape s
         | _ \<Rightarrow> p # PathUnescape (a # b # s))
      else p # PathUnescape (a # b # s))"
| "PathUnescape s = s"

lemma hex_roundtrip: "d < 16 \<Longrightarrow> hex_value (hex_char d) = Some d"
  by (auto simp: hex_value_def hex_char_def Let_def of_char_of)

lemma segment_char_simps [simp]: "segment_char CHR ''%'' = False" "segment_char CHR ''/'' = False"
  by (simp_all add: segment_char_def Let_def)

lemma unescape_plain: "c \<noteq> CHR ''%'' \<Longrightarrow> PathUnescape (c # s) = c # PathUnescape s"
  by (cases s rule: PathUnescape.cases) auto

lemma unescape_code:
  "PathUnescape (CHR ''%'' # hex_char (of_char c div 16) # hex_char (of_char c mod 16) # s) = c # PathUnescape s"
proof -
  have "(of_char c :: nat) mod 256 = of_char c" by (rule of_char_mod_256)
  then have "(of_char c :: nat) div 16 < 16" by arith
  then show ?thesis
    using hex_roundtrip [of "of_char c div 16"] hex_roundtrip [of "of_char c mod 16"]
    by (simp add: mult_div_mod_eq)
qed

lemma PathUnescape_PathEscape [simp]: "PathUnescape (PathEscape s) = s"
proof (induction s)
  case (Cons c s)
  show ?case
  proof (cases "segment_char c")
    case True
    then have "c \<noteq> CHR ''%''" by auto
    then show ?thesis using Cons True by (simp add: PathEscape_def escape_char_def unescape_plain)
  next
    case False
    then show ?thesis using Cons unescape_code [of c] by (simp add: PathEscape_def escape_char_def)
  qed
qed (simp add: PathEscape_def)

lemma PathEscape_inj: "PathEscape s = PathEscape t \<longleftrightarrow> s = t"
  by (metis PathUnescape_PathEscape)

text \<open>Escaping changes nothing in a text that is kept, in particular in \<open>.\<close> and \<open>..\<close>.\<close>

lemma PathEscape_kept: "\<forall>c \<in> set s. segment_char c \<Longrightarrow> PathEscape s = s"
  by (induction s) (auto simp: PathEscape_def escape_char_def)

lemma PathEscape_dots [simp]: "PathEscape ''.'' = ''.''" "PathEscape ''..'' = ''..''" "PathEscape [] = []"
  by (simp_all add: PathEscape_def escape_char_def segment_char_def Let_def)

lemma PathEscape_dot_iff: "PathEscape s = ''.'' \<longleftrightarrow> s = ''.''" "PathEscape s = ''..'' \<longleftrightarrow> s = ''..''" "PathEscape s = [] \<longleftrightarrow> s = []"
  using PathEscape_inj [of s "''.''"] PathEscape_inj [of s "''..''"] PathEscape_inj [of s "[]"] by simp_all

section \<open>Choosing a handler\<close>

text \<open>\<open>cleanPath\<close>: empty segments and \<open>.\<close> vanish, \<open>..\<close> removes the segment before it, a trailing slash stays.\<close>

primrec clean_from :: "string list \<Rightarrow> string list \<Rightarrow> string list" where
  "clean_from acc [] = rev acc"
| "clean_from acc (s # ss) =
     (if s = [] \<or> s = ''.'' then clean_from acc ss
      else if s = ''..'' then clean_from (tl acc) ss
      else clean_from (s # acc) ss)"

definition cleanPath :: "string list \<Rightarrow> string list" where
  "cleanPath segs =
     (let c = clean_from [] segs
      in if c = [] then [[]] else if last segs = [] then c @ [[]] else c)"

datatype pattern_segment = Literal string | Wildcard

fun match_segments :: "pattern_segment list \<Rightarrow> string list \<Rightarrow> string list option" where
  "match_segments [] [] = Some []"
| "match_segments (Literal l # ps) (s # ss) = (if PathUnescape s = l then match_segments ps ss else None)"
| "match_segments (Wildcard # ps) (s # ss) =
     (if s = [] \<or> PathUnescape s = ''/'' then None
      else map_option (\<lambda>vs. PathUnescape s # vs) (match_segments ps ss))"
| "match_segments _ _ = None"

definition method_matches :: "string \<Rightarrow> string \<Rightarrow> bool" where
  "method_matches pattern m \<longleftrightarrow> pattern = m \<or> pattern = ''GET'' \<and> m = ''HEAD''"

text \<open>
  The outcome of a \<open>ServeMux\<close> whose patterns do not overlap: a handler with the values of its wildcards, a redirect to
  the cleaned path, or an error status of its own (404, or 405 when another method has the path).
\<close>

datatype 'h routed = Found 'h "string list" | Moved "string list" | MuxError nat

definition path_matches :: "(string \<times> pattern_segment list \<times> 'h) list \<Rightarrow> string list \<Rightarrow> (string \<times> 'h \<times> string list) list" where
  "path_matches routes segs =
     List.map_filter (\<lambda>(m, ps, h). map_option (\<lambda>vs. (m, h, vs)) (match_segments ps segs)) routes"

definition route :: "(string \<times> pattern_segment list \<times> 'h) list \<Rightarrow> string \<Rightarrow> string list \<Rightarrow> 'h routed" where
  "route routes m segs =
     (if m \<noteq> ''CONNECT'' \<and> cleanPath segs \<noteq> segs then Moved (cleanPath segs)
      else
        (case filter (\<lambda>(pm, _). method_matches pm m) (path_matches routes segs) of
           (_, h, vs) # _ \<Rightarrow> Found h vs
         | [] \<Rightarrow> MuxError (if path_matches routes segs = [] then 404 else 405)))"

lemma clean_from_plain: "\<forall>s \<in> set ss. s \<noteq> [] \<and> s \<noteq> ''.'' \<and> s \<noteq> ''..'' \<Longrightarrow> clean_from acc ss = rev acc @ ss"
  by (induction ss arbitrary: acc) auto

lemma cleanPath_plain: "ss \<noteq> [] \<Longrightarrow> \<forall>s \<in> set ss. s \<noteq> [] \<and> s \<noteq> ''.'' \<and> s \<noteq> ''..'' \<Longrightarrow> cleanPath ss = ss"
  by (auto simp: cleanPath_def clean_from_plain Let_def)

section \<open>Numbers\<close>

text \<open>
  \<open>strconv.ParseUint(s, 10, 64)\<close> with its error ignored: 0 for a text that is no decimal number, the largest value for one that
  is too large.
\<close>

definition ParseUint :: "string \<Rightarrow> u64" where
  "ParseUint s =
     (let digits = map (\<lambda>c. (of_char c :: nat)) s in
      if s = [] \<or> \<not> list_all (\<lambda>d. 48 \<le> d \<and> d \<le> 57) digits then 0
      else
        (let n = foldl (\<lambda>a d. 10 * a + (d - 48)) 0 digits
         in if n < 2 ^ 64 then of_nat n else - 1))"

section \<open>Upper case\<close>

text \<open>
  \<open>strings.ToUpper\<close>, as far as it decides whether the result is an ASCII word: ASCII letters, and U+017F (the long s,
  bytes 197 and 191), whose upper case is \<open>S\<close>.  Other text outside ASCII is kept; its upper case is outside ASCII too.
\<close>

definition upper_char :: "char \<Rightarrow> char" where
  "upper_char c = (let n = (of_char c :: nat) in if 97 \<le> n \<and> n \<le> 122 then char_of (n - 32) else c)"

fun ToUpper :: "string \<Rightarrow> string" where
  "ToUpper [] = []"
| "ToUpper [c] = [upper_char c]"
| "ToUpper (c # d # s) =
     (if (of_char c :: nat) = 197 \<and> (of_char d :: nat) = 191 then CHR ''S'' # ToUpper s
      else upper_char c # ToUpper (d # s))"

end
