(* ===== verification/Api.thy ===== *)
theory Api
  imports Http Database Inspect
begin

text \<open>
  The client API of \<^verbatim>\<open>internal/api/http.go\<close>: the routes, the checks on a write, the translation of errors to status
  codes, and the administration handler.  As in the code, one \<open>handler\<close> serves both modes: it takes the functions
  that execute a command and read a key.  They are instantiated with the standalone database (\<open>Handler\<close>) and with a
  Raft node (\<open>ClusterHandler\<close>).

  A message that the code takes from \<open>err.Error()\<close> is kept as the error it came from.
\<close>

section \<open>Requests and payloads\<close>

record writeRequest =
  wClientID :: string
  wRequestID :: u64
  wValue :: "string option"
  wExpected :: "string option"

datatype message = Text string | ErrorText gerror

datatype view = StandaloneStatus string string Stats | NodeStatus Status

datatype payload = Fields "(string \<times> message) list" | ResultBody Result | StatusBody view | InspectionBody Inspection | NoBody

text \<open>\<open>headers\<close> holds what the handler has set before.\<close>

definition respond :: "(string \<times> string) list \<Rightarrow> nat \<Rightarrow> payload \<Rightarrow> payload Reply" where
  "respond headers status value =
     \<lparr>rpStatus = status,
      rpHeaders = headers @ [(''Content-Type'', ''application/json''), (''Cache-Control'', ''no-store'')],
      rpBody = value\<rparr>"

definition apiError :: "nat \<Rightarrow> string \<Rightarrow> message \<Rightarrow> payload Reply" where
  "apiError status code message = respond [] status (Fields [(''error'', Text code), (''message'', message)])"

section \<open>Errors\<close>

text \<open>\<open>errors.As\<close> with a \<open>*NotLeaderError\<close>.\<close>

fun as_not_leader :: "gerror \<Rightarrow> (string \<times> string) option" where
  "as_not_leader (NotLeaderError i u) = Some (i, u)"
| "as_not_leader (ErrWrap m e) = as_not_leader e"
| "as_not_leader (ErrJoin a b) = (case as_not_leader a of Some x \<Rightarrow> Some x | None \<Rightarrow> as_not_leader b)"
| "as_not_leader _ = None"

definition handleError :: "gerror \<Rightarrow> payload Reply" where
  "handleError err =
     (if errors_is err ErrInvalid then apiError 400 ''invalid_command'' (ErrorText err)
      else if errors_is err ErrStale then apiError 409 ''stale_request'' (ErrorText err)
      else if errors_is err ErrReused then apiError 409 ''request_id_reused'' (ErrorText err)
      else apiError 503 ''storage_unavailable''
             (Text ''storage unavailable; outcome may be unknown, restart and retry the same request''))"

definition handleRequestError :: "'b Request \<Rightarrow> gerror \<Rightarrow> payload Reply" where
  "handleRequestError r err =
     (case as_not_leader err of
        Some (i, u) \<Rightarrow>
          if u \<noteq> [] then
            respond [(''Location'', u @ RequestURI r)] 307
              (Fields [(''error'', Text ''not_leader''), (''leaderId'', Text i), (''leaderUrl'', Text u)])
          else apiError 503 ''leader_unknown'' (Text ''leader election in progress; retry the same request'')
      | None \<Rightarrow>
          if errors_is err ErrNoQuorum then apiError 503 ''no_quorum'' (ErrorText err)
          else handleError err)"

section \<open>The handler\<close>

type_synonym 's executor = "Command \<Rightarrow> 's \<Rightarrow> ((Result \<times> gerror option) \<times> 's) option"
type_synonym 's reader = "string \<Rightarrow> 's \<Rightarrow> ((string \<times> bool \<times> gerror option) \<times> 's) option"

definition get_key :: "'s reader \<Rightarrow> string \<Rightarrow> 'b Request \<Rightarrow> 's \<Rightarrow> (payload Reply \<times> 's) option" where
  "get_key get key r s =
     (if 1024 < length key then Some (apiError 400 ''invalid_key'' (Text ''key exceeds 1024 bytes''), s)
      else
        do {
          ((value, found, err), s') \<leftarrow> get key s;
          Some (case err of
                  Some e \<Rightarrow> (handleRequestError r e, s')
                | None \<Rightarrow> (respond [] (if found then 200 else 404)
                            (ResultBody \<lparr>rValue = value, rFound = found, rApplied = False, rConflict = False\<rparr>), s'))
        })"

definition body_command :: "string \<Rightarrow> string \<Rightarrow> writeRequest \<Rightarrow> Command" where
  "body_command operation key body =
     \<lparr>ClientID = wClientID body, RequestID = wRequestID body, Operation = operation, Key = key,
      Value = (case wValue body of Some v \<Rightarrow> v | None \<Rightarrow> []), Expected = (case wExpected body of Some v \<Rightarrow> v | None \<Rightarrow> [])\<rparr>"

text \<open>The two tests of the optional fields.\<close>

definition fields_missing :: "string \<Rightarrow> writeRequest \<Rightarrow> bool" where
  "fields_missing operation body \<longleftrightarrow>
     (operation = ''SET'' \<or> operation = ''CAS'') \<and> wValue body = None \<or> operation = ''CAS'' \<and> wExpected body = None"

definition fields_unexpected :: "string \<Rightarrow> writeRequest \<Rightarrow> bool" where
  "fields_unexpected operation body \<longleftrightarrow>
     operation = ''DELETE'' \<and> (wValue body \<noteq> None \<or> wExpected body \<noteq> None) \<or> operation = ''SET'' \<and> wExpected body \<noteq> None"

definition write_op :: "'s executor \<Rightarrow> string \<Rightarrow> string \<Rightarrow> writeRequest body Request \<Rightarrow> 's \<Rightarrow> (payload Reply \<times> 's) option" where
  "write_op exec operation key r s =
     (case qBody r of
        Malformed \<Rightarrow> Some (apiError 400 ''invalid_json'' (Text ''expected a JSON command body''), s)
      | Trailing _ \<Rightarrow> Some (apiError 400 ''invalid_json'' (Text ''body must contain exactly one JSON object''), s)
      | Document body \<Rightarrow>
          if fields_missing operation body
          then Some (apiError 400 ''invalid_command'' (Text ''value is required; CAS also requires expected''), s)
          else if fields_unexpected operation body
          then Some (apiError 400 ''invalid_command'' (Text ''unexpected value or expected field''), s)
          else
            do {
              ((result, err), s') \<leftarrow> exec (body_command operation key body) s;
              Some (case err of
                      Some e \<Rightarrow> (handleRequestError r e, s')
                    | None \<Rightarrow> (respond [] (if rConflict result then 409 else 200) (ResultBody result), s'))
            })"

datatype endpoint = HealthRoute | StatusRoute | GetRoute | WriteRoute string

definition api_routes :: "(string \<times> pattern_segment list \<times> endpoint) list" where
  "api_routes =
     [(''GET'', [Literal ''health''], HealthRoute),
      (''GET'', [Literal ''v1'', Literal ''status''], StatusRoute),
      (''GET'', [Literal ''v1'', Literal ''kv'', Wildcard], GetRoute),
      (''PUT'', [Literal ''v1'', Literal ''kv'', Wildcard], WriteRoute ''SET''),
      (''DELETE'', [Literal ''v1'', Literal ''kv'', Wildcard], WriteRoute ''DELETE''),
      (''POST'', [Literal ''v1'', Literal ''kv'', Wildcard, Literal ''cas''], WriteRoute ''CAS'')]"

text \<open>A reply of the handler, or one that the multiplexer makes on its own.\<close>

datatype 'p answer = Answer "'p Reply" | MovedTo "string list" | MuxStatus nat

definition handler ::
  "'s executor \<Rightarrow> 's reader \<Rightarrow> ('s \<Rightarrow> view) \<Rightarrow> writeRequest body Request \<Rightarrow> 's \<Rightarrow> (payload answer \<times> 's) option" where
  "handler exec get status r s =
     (case route api_routes (qMethod r) (qPath r) of
        Moved p \<Rightarrow> Some (MovedTo p, s)
      | MuxError k \<Rightarrow> Some (MuxStatus k, s)
      | Found e vs \<Rightarrow>
          map_option (\<lambda>(rep, s'). (Answer rep, s'))
            (case e of
               HealthRoute \<Rightarrow> Some (respond [] 200 (Fields [(''status'', Text ''alive'')]), s)
             | StatusRoute \<Rightarrow> Some (respond [] 200 (StatusBody (status s)), s)
             | GetRoute \<Rightarrow> get_key get (hd vs) r s
             | WriteRoute operation \<Rightarrow> write_op exec operation (hd vs) r s))"

section \<open>The two modes\<close>

definition db_execute :: "Database executor" where
  "db_execute c d = Some (Execute_Database d c)"

definition db_get :: "Database reader" where
  "db_get k d = Some (Get_Database d k, d)"

definition Handler :: "string \<Rightarrow> writeRequest body Request \<Rightarrow> Database \<Rightarrow> (payload answer \<times> Database) option" where
  "Handler nodeID = handler db_execute db_get (\<lambda>d. StandaloneStatus nodeID ''standalone'' (Stats_Database d))"

text \<open>
  A call into the node that waits: \<open>wait\<close> says how the call is begun (the clock, and whether the context had ended), what the
  node does until the call wakes up, and whether the deadline wins when the outcome is there too.  Without an outcome only
  the deadline wakes the call.
\<close>

record Wait =
  wEnv :: Env
  wExpired :: bool
  wMeanwhile :: "Node \<Rightarrow> Node"
  wDeadline :: bool

definition await :: "Wait \<Rightarrow> ((gerror + Ticket) \<times> Node) option \<Rightarrow> ((Result \<times> gerror option) \<times> Node) option" where
  "await w start =
     do {
       (t, n1) \<leftarrow> start;
       (case t of
          Inl e \<Rightarrow> Some ((zeroResult, Some e), n1)
        | Inr t \<Rightarrow>
            (let n2 = wMeanwhile w n1 in
             case propose_end t (wDeadline w \<or> chans n2 (tdone t) = []) n2 of
               (Some out, n3) \<Rightarrow> Some (out, n3)
             | (None, n3) \<Rightarrow> None))
     }"

definition node_execute :: "Wait \<Rightarrow> Node executor" where
  "node_execute w c n = await w (Execute_begin (wEnv w) (wExpired w) c n)"

definition node_get :: "Wait \<Rightarrow> Node reader" where
  "node_get w k n =
     do { ((r, err), n') \<leftarrow> await w (Get_begin (wEnv w) (wExpired w) k n); Some ((rValue r, rFound r, err), n') }"

text \<open>The outer multiplexer: \<open>GET /v1/inspect\<close>, and everything else to the handler above, with the path as it is.\<close>

definition ClusterHandler ::
  "(Machine \<Rightarrow> string) \<Rightarrow> (Entry \<Rightarrow> string) \<Rightarrow> Wait \<Rightarrow> writeRequest body Request \<Rightarrow> Node \<Rightarrow> (payload answer \<times> Node) option" where
  "ClusterHandler Digest EntryHash w r n =
     (if qMethod r \<noteq> ''CONNECT'' \<and> cleanPath (qPath r) \<noteq> qPath r then Some (MovedTo (cleanPath (qPath r)), n)
      else if method_matches ''GET'' (qMethod r) \<and> match_segments [Literal ''v1'', Literal ''inspect''] (qPath r) \<noteq> None then
        do {
          v \<leftarrow> Inspect Digest EntryHash (ParseUint (qQuery r ''after'')) n;
          Some (Answer (respond [] 200 (InspectionBody v)), n)
        }
      else handler (node_execute w) (node_get w) (\<lambda>n. NodeStatus (statusLocked n)) r n)"

definition AdminHandler :: "string \<Rightarrow> Env \<Rightarrow> 'b Request \<Rightarrow> Node \<Rightarrow> (payload Reply \<times> Node) option" where
  "AdminHandler token en r n =
     (if token = [] \<or> qHeader r ''X-ShardZero-Admin'' \<noteq> token then Some (apiError 403 ''forbidden'' (Text ''admin token required''), n)
      else if qMethod r \<noteq> ''POST'' then Some (\<lparr>rpStatus = 405, rpHeaders = [], rpBody = NoBody\<rparr>, n)
      else
        (let p = path_text (map PathUnescape (qPath r)) in
         if p = ''/admin/pause'' then
           do { n' \<leftarrow> SetPaused en True n; Some (respond [] 200 (StatusBody (NodeStatus (statusLocked n'))), n') }
         else if p = ''/admin/resume'' then
           do { n' \<leftarrow> SetPaused en False n; Some (respond [] 200 (StatusBody (NodeStatus (statusLocked n'))), n') }
         else Some (\<lparr>rpStatus = 404, rpHeaders = [], rpBody = NoBody\<rparr>, n)))"

section \<open>Routing\<close>

definition kv_path :: "string \<Rightarrow> string list" where
  "kv_path k = [''v1'', ''kv'', PathEscape k]"

text \<open>The keys that survive as one path segment.\<close>

definition plain_key :: "string \<Rightarrow> bool" where
  "plain_key k \<longleftrightarrow> k \<notin> {[], ''.'', ''..'', ''/''}"

lemma plain_clean: "plain_key k \<Longrightarrow> cleanPath (kv_path k) = kv_path k" "plain_key k \<Longrightarrow> cleanPath (kv_path k @ [''cas'']) = kv_path k @ [''cas'']"
  by (rule cleanPath_plain; auto simp: plain_key_def kv_path_def PathEscape_dot_iff)+

lemma unescape_words [simp]: "PathUnescape ''v1'' = ''v1''" "PathUnescape ''kv'' = ''kv''" "PathUnescape ''cas'' = ''cas''"
  "PathUnescape ''health'' = ''health''" "PathUnescape ''status'' = ''status''" "PathUnescape ''inspect'' = ''inspect''"
  by code_simp+

lemma route_kv:
  assumes "plain_key k"
  shows "route api_routes ''GET'' (kv_path k) = Found GetRoute [k]"
    "route api_routes ''PUT'' (kv_path k) = Found (WriteRoute ''SET'') [k]"
    "route api_routes ''DELETE'' (kv_path k) = Found (WriteRoute ''DELETE'') [k]"
    "route api_routes ''POST'' (kv_path k @ [''cas'']) = Found (WriteRoute ''CAS'') [k]"
  using assms plain_clean [OF assms]
  by (auto simp: route_def path_matches_def api_routes_def List.map_filter_simps method_matches_def kv_path_def plain_key_def PathEscape_dot_iff)

text \<open>A key \<open>.\<close> or \<open>..\<close> never reaches a handler.\<close>

lemma route_dots:
  "route api_routes m (kv_path ''.'') = Moved [''v1'', ''kv'']" if "m \<noteq> ''CONNECT''" for m
  using that by (simp add: route_def kv_path_def cleanPath_def Let_def)

lemma route_dotdots:
  "route api_routes m (kv_path ''..'') = Moved [''v1'']" if "m \<noteq> ''CONNECT''" for m
  using that by (simp add: route_def kv_path_def cleanPath_def Let_def)

section \<open>What a reply says\<close>

lemma status_simps [simp]:
  "rpStatus (respond hs k v) = k" "rpBody (respond hs k v) = v" "rpStatus (apiError k c m) = k"
  "rpHeaders (apiError k c m) = [(''Content-Type'', ''application/json''), (''Cache-Control'', ''no-store'')]"
  by (simp_all add: respond_def apiError_def)

lemma handleRequestError_status: "rpStatus (handleRequestError r e) \<in> {307, 400, 409, 503}"
  by (auto simp: handleRequestError_def handleError_def split: option.splits)

text \<open>The method, the path and the operation of the three writes.\<close>

definition write_method :: "string \<Rightarrow> string" where
  "write_method operation = (if operation = ''SET'' then ''PUT'' else if operation = ''DELETE'' then ''DELETE'' else ''POST'')"

definition write_path :: "string \<Rightarrow> string \<Rightarrow> string list" where
  "write_path operation k = (if operation = ''CAS'' then kv_path k @ [''cas''] else kv_path k)"

definition operations :: "string set" where
  "operations = {''SET'', ''DELETE'', ''CAS''}"

lemma handler_write:
  assumes "plain_key k" "operation \<in> operations" "qMethod r = write_method operation" "qPath r = write_path operation k"
  shows "handler exec get status r s = map_option (\<lambda>(rep, s'). (Answer rep, s')) (write_op exec operation k r s)"
  using assms route_kv [OF assms(1)] by (auto simp: handler_def write_method_def write_path_def operations_def)

lemma handler_get:
  assumes "plain_key k" "qMethod r = ''GET''" "qPath r = kv_path k"
  shows "handler exec get status r s = map_option (\<lambda>(rep, s'). (Answer rep, s')) (get_key get k r s)"
  using assms route_kv [OF assms(1)] by (simp add: handler_def)

lemma write_fields:
  assumes "operation \<in> operations" "\<not> fields_missing operation b" "\<not> fields_unexpected operation b"
  shows "(wValue b = None) = (operation = ''DELETE'')" "(wExpected b = None) = (operation \<noteq> ''CAS'')"
proof -
  consider "operation = ''SET''" | "operation = ''DELETE''" | "operation = ''CAS''" using assms(1) by (auto simp: operations_def)
  then have "(wValue b = None) = (operation = ''DELETE'') \<and> (wExpected b = None) = (operation \<noteq> ''CAS'')"
    using assms(2,3) by cases (simp_all add: fields_missing_def fields_unexpected_def)
  then show "(wValue b = None) = (operation = ''DELETE'')" "(wExpected b = None) = (operation \<noteq> ''CAS'')" by simp_all
qed

text \<open>The cases of a write: refused before execution, or executed with the reply its outcome calls for.\<close>

lemma write_cases:
  assumes "write_op exec operation k r s = Some (rep, s')"
  obtains (refused) code m where "rep = apiError 400 code m" "s' = s"
    | (failed) body result e where "qBody r = Document body" "exec (body_command operation k body) s = Some ((result, Some e), s')"
        "rep = handleRequestError r e"
    | (executed) body result where "qBody r = Document body" "exec (body_command operation k body) s = Some ((result, None), s')"
        "rep = respond [] (if rConflict result then 409 else 200) (ResultBody result)"
        "\<not> fields_missing operation body" "\<not> fields_unexpected operation body"
proof (cases "qBody r")
  case (Document body)
  show ?thesis
  proof (cases "fields_missing operation body \<or> fields_unexpected operation body")
    case True
    then show ?thesis using assms Document refused by (auto simp: write_op_def split: if_splits)
  next
    case False
    then obtain result err where x: "exec (body_command operation k body) s = Some ((result, err), s')"
      "rep = (case err of Some e \<Rightarrow> handleRequestError r e | None \<Rightarrow> respond [] (if rConflict result then 409 else 200) (ResultBody result))"
      using assms Document by (auto simp: write_op_def split: option.splits)
    show ?thesis
    proof (cases err)
      case None
      then show ?thesis using x False Document by (intro executed) auto
    next
      case (Some e)
      then show ?thesis using x Document by (intro failed) auto
    qed
  qed
qed (use assms refused in \<open>auto simp: write_op_def\<close>)

section \<open>Properties\<close>

text \<open>
  C14.  An acknowledged write was executed: when a write is answered with status 200, its body held exactly the fields of the
  operation, the command built from the path and the body was executed once, without an error or a conflict, and the
  reply carries its result.  A redirect (307) names the leader that the executor's error named, with the path and query of the
  request.  Whatever the reply, the state is unchanged or is what executing that one command left.
\<close>

theorem acknowledged_write_executed:
  assumes "handler exec get status r s = Some (Answer rep, s')" "operation \<in> operations" "plain_key k"
    and "qMethod r = write_method operation" "qPath r = write_path operation k"
  shows "(rpStatus rep = 200 \<longrightarrow> (\<exists>body result. qBody r = Document body \<and>
      exec (body_command operation k body) s = Some ((result, None), s') \<and> \<not> rConflict result \<and> rpBody rep = ResultBody result \<and>
      (wValue body = None \<longleftrightarrow> operation = ''DELETE'') \<and> (wExpected body = None \<longleftrightarrow> operation \<noteq> ''CAS''))) \<and>
    (rpStatus rep = 307 \<longrightarrow> (\<exists>body result e i u. qBody r = Document body \<and> exec (body_command operation k body) s = Some ((result, Some e), s') \<and>
      as_not_leader e = Some (i, u) \<and> u \<noteq> [] \<and> (''Location'', u @ RequestURI r) \<in> set (rpHeaders rep))) \<and>
    (s' = s \<or> (\<exists>body out. qBody r = Document body \<and> exec (body_command operation k body) s = Some (out, s')))"
proof -
  have w: "write_op exec operation k r s = Some (rep, s')"
    using assms(1) handler_write [OF assms(3,2,4,5), of exec get status s] by auto
  have f: "wValue b = None \<longleftrightarrow> operation = ''DELETE''" "wExpected b = None \<longleftrightarrow> operation \<noteq> ''CAS''"
    if "\<not> fields_missing operation b" "\<not> fields_unexpected operation b" for b
    using that write_fields [OF assms(2)] by blast+
  from w show ?thesis
  proof (cases rule: write_cases)
    case (refused code m)
    then show ?thesis by simp
  next
    case (failed body result e)
    have "\<exists>i u. as_not_leader e = Some (i, u) \<and> u \<noteq> [] \<and> (''Location'', u @ RequestURI r) \<in> set (rpHeaders rep)" if "rpStatus rep = 307"
      using failed(3) that by (auto simp: handleRequestError_def handleError_def respond_def split: option.splits if_splits)
    moreover have "rpStatus rep \<noteq> 200" using failed(3) handleRequestError_status [of r e] by auto
    ultimately show ?thesis using failed(1,2) by blast
  next
    case (executed body result)
    then show ?thesis using f [of body] by (auto split: if_splits)
  qed
qed

definition wPut :: "string \<Rightarrow> string \<Rightarrow> u64 \<Rightarrow> string \<Rightarrow> writeRequest body Request" where
  "wPut k client i v = \<lparr>qMethod = ''PUT'', qPath = kv_path k, qRawQuery = [], qQuery = (\<lambda>_. []), qHeader = (\<lambda>_. []),
     qBody = Document \<lparr>wClientID = client, wRequestID = i, wValue = Some v, wExpected = None\<rparr>\<rparr>"

definition wGet :: "string \<Rightarrow> writeRequest body Request" where
  "wGet k = \<lparr>qMethod = ''GET'', qPath = kv_path k, qRawQuery = [], qQuery = (\<lambda>_. []), qHeader = (\<lambda>_. []), qBody = Malformed\<rparr>"

lemma wPut_200:
  obtains rep d' where "Handler ''n'' (wPut ''a b'' ''c1'' 1 ''v'') (wDatabase []) = Some (Answer rep, d')" "rpStatus rep = 200"
proof -
  have "(case Handler ''n'' (wPut ''a b'' ''c1'' 1 ''v'') (wDatabase []) of Some (Answer rep, d') \<Rightarrow> rpStatus rep = 200 | _ \<Rightarrow> False)"
    by code_simp
  then show ?thesis using that by (auto split: option.splits answer.splits)
qed

lemma plain_example: "plain_key ''a b''"
  by (simp add: plain_key_def)

theorem acknowledged_write_executed_witness:
  "\<exists>rep d' result. Handler ''n'' (wPut ''a b'' ''c1'' 1 ''v'') (wDatabase []) = Some (Answer rep, d') \<and> rpBody rep = ResultBody result \<and>
     Execute_Database (wDatabase []) \<lparr>ClientID = ''c1'', RequestID = 1, Operation = ''SET'', Key = ''a b'', Value = ''v'', Expected = []\<rparr>
       = ((result, None), d')"
proof (rule wPut_200)
  fix rep d'
  assume h: "Handler ''n'' (wPut ''a b'' ''c1'' 1 ''v'') (wDatabase []) = Some (Answer rep, d')" and r: "rpStatus rep = 200"
  note e = acknowledged_write_executed [OF h [unfolded Handler_def], of "''SET''" "''a b''"]
  show ?thesis
    using e r h plain_example by (auto simp: operations_def write_method_def write_path_def wPut_def db_execute_def body_command_def)
qed

text \<open>
  C15.  Read your write: after the standalone server has acknowledged a \<^verbatim>\<open>PUT\<close> of a request it had not seen, a \<^verbatim>\<open>GET\<close> of the same key
  is answered with status 200 and the value written, and changes nothing.
\<close>

theorem put_then_get:
  assumes "Handler nodeID put d = Some (Answer rep, d')" "rpStatus rep = 200" "plain_key k" "qMethod put = ''PUT''" "qPath put = kv_path k"
    and "qBody put = Document \<lparr>wClientID = client, wRequestID = i, wValue = Some v, wExpected = None\<rparr>"
    and "\<forall>p. fmlookup (msessions (dmachine d)) client = Some p \<longrightarrow> RequestID (sCommand p) \<noteq> i"
    and "qMethod get = ''GET''" "qPath get = kv_path k"
  shows "Handler nodeID get d' =
    Some (Answer (respond [] 200 (ResultBody \<lparr>rValue = v, rFound = True, rApplied = False, rConflict = False\<rparr>)), d')"
proof -
  let ?c = "body_command ''SET'' k \<lparr>wClientID = client, wRequestID = i, wValue = Some v, wExpected = None\<rparr>"
  have "write_op db_execute ''SET'' k put d = Some (rep, d')"
    using assms(1) handler_write [of k "''SET''" put db_execute db_get _ d] assms(3-5)
    by (auto simp: Handler_def operations_def write_method_def write_path_def)
  then obtain result where x: "Execute_Database d ?c = ((result, None), d')"
  proof (cases rule: write_cases)
    case (failed body result e)
    then show ?thesis using assms(2) handleRequestError_status [of put e] by auto
  next
    case (executed body result)
    then show ?thesis using assms(6) that by (simp add: db_execute_def)
  qed (use assms(2) in simp)
  have v: "Validate ?c = None" and a: "check (dmachine d) ?c = (zeroResult, False, None)" "\<not> dclosed d" "\<not> dfailed d"
    using x assms(7) by (cases "dmachine d" ?c rule: check_cases; fastforce simp: Execute_Database_def body_command_def split: if_splits)+
  obtain w where w: "journal_append (dwal d) ?c = (None, w)"
    using x a by (cases "journal_append (dwal d) ?c") (auto simp: Execute_Database_def split: option.splits)
  have d': "\<not> dclosed d'" "\<not> dfailed d'" "fmlookup (mvalues (dmachine d')) k = Some v"
    using x a w Apply_fresh [OF a(1)] by (auto simp: Execute_Database_def execute_def body_command_def Let_def)
  have "length k \<le> 1024" using Validate_NoneD [OF v] by (simp add: body_command_def)
  then show ?thesis
    using d' handler_get [OF assms(3,8,9), of db_execute db_get _ d']
    by (simp add: Handler_def get_key_def db_get_def Get_Database_def Get_Machine_def)
qed

theorem put_then_get_witness:
  "\<exists>d'. Handler ''n'' (wGet ''a b'') d' =
     Some (Answer (respond [] 200 (ResultBody \<lparr>rValue = ''v'', rFound = True, rApplied = False, rConflict = False\<rparr>)), d')"
proof (rule wPut_200)
  fix rep d'
  assume h: "Handler ''n'' (wPut ''a b'' ''c1'' 1 ''v'') (wDatabase []) = Some (Answer rep, d')" and r: "rpStatus rep = 200"
  have "Handler ''n'' (wGet ''a b'') d' =
     Some (Answer (respond [] 200 (ResultBody \<lparr>rValue = ''v'', rFound = True, rApplied = False, rConflict = False\<rparr>)), d')"
    by (rule put_then_get [OF h r plain_example, of "''c1''" 1]) (simp_all add: wPut_def wGet_def wDatabase_def New_Machine_def)
  then show ?thesis by blast
qed

end
