(* ===== verification/Node_Votes.thy ===== *)
theory Node_Votes
  imports Node_Calls
begin

text \<open>
  What the transition functions do to a node's role, its vote and the vote requests it has sent.
  \<open>calm\<close>: the node stays in its role within its term, or falls back to follower; nothing else.  Only
  \<open>startElectionLocked\<close>, \<open>voteResponseLocked\<close> and opening the configured leader are not calm.
\<close>

definition vote_msgs :: "Node \<Rightarrow> Message set" where
  "vote_msgs n = {m \<in> set (outbox n) \<union> set (calls n). mVote m \<noteq> None}"

definition calm :: "Node \<Rightarrow> Node \<Rightarrow> bool" where
  "calm n n' \<longleftrightarrow> cfg n' = cfg n \<and> peers n' = peers n \<and> vote_msgs n' \<subseteq> vote_msgs n \<and>
     (role n' = Follower \<or>
      role n' = role n \<and> votes n' = votes n \<and> dTerm (state n') = dTerm (state n) \<and> dVote (state n') = dVote (state n))"

lemma calm_refl [simp, intro]: "calm n n"
  by (simp add: calm_def)

lemma calm_trans [trans]: "calm a b \<Longrightarrow> calm b c \<Longrightarrow> calm a c"
  by (auto simp: calm_def)

lemma calm_frame:
  assumes "cfg n' = cfg n" "peers n' = peers n" "votes n' = votes n" "outbox n' = outbox n" "calls n' = calls n"
    "role n' = role n" "dTerm (state n') = dTerm (state n)" "dVote (state n') = dVote (state n)"
  shows "calm n n'"
  using assms by (simp add: calm_def vote_msgs_def)

lemma calm_follower:
  assumes "cfg n' = cfg n" "peers n' = peers n" "outbox n' = outbox n" "calls n' = calls n"
    "role n' = Follower"
  shows "calm n n'"
  using assms by (simp add: calm_def vote_msgs_def)

lemma calm_emit [simp, intro]: "calm n (emitLocked en k i p m d n)"
  by (rule calm_frame) simp_all

lemma calm_reset [simp, intro]: "calm n (resetTimerLocked en n)"
  by (rule calm_frame) simp_all

lemma calm_failPending [simp, intro]: "calm n (failPendingLocked e n)"
  by (rule calm_frame) simp_all

lemma calm_upd [simp, intro]:
  "calm n (n\<lparr>nextIndex := x\<rparr>)" "calm n (n\<lparr>matchIndex := y\<rparr>)" "calm n (n\<lparr>busy := b\<rparr>)"
  "calm n (n\<lparr>paused := p\<rparr>)" "calm n (n\<lparr>closed := c\<rparr>)" "calm n (n\<lparr>chans := ch\<rparr>)" "calm n (n\<lparr>pending := pd\<rparr>)"
  by (rule calm_frame; simp)+

text \<open>A write that keeps term and vote, or that fails, or by a follower.\<close>

lemma persist_calm:
  assumes inv: "node_inv n" and p: "persistLocked en T v c f es n = Some (ok, n')"
    and "T = dTerm (state n) \<and> v = dVote (state n) \<or> \<not> ok \<or> role n = Follower"
  shows "calm n n'"
proof (cases ok)
  case True
  note s = persist_sel [OF p] persist_state(2) [OF inv p True]
  show ?thesis
    using assms(3) True s(17) [OF True] by (auto simp: calm_def vote_msgs_def s(1,2,6,11,12) s(19))
next
  case False
  then show ?thesis using persist_sel [OF p] by (intro calm_follower) simp_all
qed

lemma stepDown_calm:
  assumes "stepDownLocked en T l n = Some (ok, n')"
  shows "calm n n'"
  by (rule calm_follower) (simp_all add: stepDown_sel [OF assms])

lemma prepare_calm: "prepareAppendLocked en p n = Some (req, n') \<Longrightarrow> calm n n'"
  using prepare_eq [of en p n req n'] by (auto intro: calm_frame)

lemma queue_calm:
  assumes "queueAppendLocked en p n = Some n'"
  shows "calm n n'"
proof -
  have "vote_msgs n' = vote_msgs n"
    using assms unfolding queueAppendLocked_def
    by (auto simp: vote_msgs_def split: if_splits elim!: bind_SomeE dest!: prepare_eq)
  then show ?thesis using quiet_sel [OF queue_quiet [OF assms]] by (simp add: calm_def)
qed

lemma queue_all_calm: "queue_all en ps n = Some n' \<Longrightarrow> calm n n'"
  by (induction ps arbitrary: n) (auto split: if_splits dest: queue_calm intro: calm_trans)

lemma kick_calm: "kickLocked en n = Some n' \<Longrightarrow> calm n n'"
  by (auto simp: kickLocked_def split: if_splits intro: queue_all_calm) (auto intro: calm_frame)

lemma maybeSnapshot_calm:
  assumes inv: "node_inv n" and ms: "maybeSnapshotLocked en n = Some n'"
  shows "calm n n'"
  using ms
proof (cases rule: maybeSnapshot_cases)
  case (failed st e)
  then show ?thesis by (intro calm_follower) simp_all
next
  case (taken st)
  have wf: "wf_store (store n)" "wf_machine (machine n)"
    using inv by (auto simp: node_inv_def store_ok_def machine_ok_def machine_at_wf)
  have g: "journal_gives (store n) (store n)" using inv taken(2) by (auto simp: node_inv_def role_ok_def store_ok_def)
  have m: "fst (Restore New_Machine (Snapshot_of (machine n))) = None" by (simp add: Restore_Snapshot [OF wf(2)])
  have "sState st = sState (compacted (store n) (Snapshot_of (machine n)) (dCommit (state n)))"
    using take_checkpoint_state(4) [OF wf(1) g taken(3) order_refl m taken(1)] by simp
  then show ?thesis unfolding taken(4) by (intro calm_frame) (simp_all add: compacted_def)
qed simp

lemma apply_calm:
  assumes inv: "node_inv n" and ap: "applyLocked en n = Some n'"
  shows "calm n n'"
proof -
  obtain n1 where n1: "applyLocked en n = maybeSnapshotLocked en n1" "node_inv n1" "ran n n1"
    by (rule applyLocked_eq [OF inv])
  have "calm n n1" by (rule calm_frame) (simp_all add: ran_sel [OF n1(3)])
  also have "calm n1 n'" by (rule maybeSnapshot_calm [OF n1(2)]) (use n1(1) ap in simp)
  finally show ?thesis .
qed

lemma inv_step: "node_inv n \<Longrightarrow> step_ok n n' \<Longrightarrow> node_inv n'"
  by (simp add: step_ok_def weak_ok_def)

lemma inv_persist: "node_inv n \<Longrightarrow> persistLocked en T v c f es n = Some (ok, n') \<Longrightarrow> failed n = None \<Longrightarrow> node_inv n'"
  using persist_weak by (auto simp: weak_ok_def)

lemma advance_calm:
  assumes inv: "node_inv n" and "advanceCommitLocked en n = Some n'"
  shows "calm n n'"
  using assms(2)
proof (cases rule: advance_cases)
  case (failed index)
  then show ?thesis using persist_calm [OF inv] by blast
next
  case (committed index n1 n2)
  let ?e = "emitLocked en ''COMMITTED'' index [] [] [] n1"
  have "calm n n1" using persist_calm [OF inv committed(4)] by blast
  also have "calm n1 ?e" by simp
  also have "calm ?e n2"
    using apply_calm [OF _ committed(5)] inv_persist [OF inv committed(4) available_failed [OF committed(2)]]
      inv_step [OF _ step_ok_emit] by blast
  also have "calm n2 n'" by (rule kick_calm [OF committed(6)])
  finally show ?thesis .
qed simp

section \<open>Becoming leader\<close>

text \<open>\<open>crown n n'\<close>: same term, vote, votes counted; leader now, or follower after a failed write.\<close>

definition crown :: "Node \<Rightarrow> Node \<Rightarrow> bool" where
  "crown n n' \<longleftrightarrow> cfg n' = cfg n \<and> peers n' = peers n \<and> vote_msgs n' \<subseteq> vote_msgs n \<and>
     (role n' = Follower \<or>
      role n' = Leader \<and> votes n' = votes n \<and> dTerm (state n') = dTerm (state n) \<and> dVote (state n') = dVote (state n))"

lemma crown_calm: "calm n n' \<Longrightarrow> role n = Leader \<Longrightarrow> crown n n'"
  by (auto simp: calm_def crown_def)

lemma becomeLeader_crown:
  assumes inv: "node_inv n" and h: "failed n = None" and b: "becomeLeaderLocked en n = Some n'"
  shows "crown n n'"
proof -
  let ?c = "crowned en n"
  have ic: "node_inv ?c" by (rule inv_step [OF inv crowned_step [OF h]])
  have "calm ?c n'"
    using b
  proof (cases rule: becomeLeader_cases)
    case failed
    then show ?thesis using persist_calm [OF ic] by blast
  next
    case (led n3 n4)
    let ?m = "n3\<lparr>matchIndex := (matchIndex n3)(cID (cfg n3) := lastLocked n + 1)\<rparr>"
    have i3: "node_inv n3" using inv_persist [OF ic led(1)] h by simp
    have "calm ?c n3" using persist_calm [OF ic led(1)] by simp
    also have "calm n3 ?m" by simp
    also have "calm ?m n4" by (rule advance_calm [OF inv_step [OF i3 step_ok_upd(2)] led(2)])
    also have "calm n4 n'" by (rule kick_calm [OF led(3)])
    finally show ?thesis .
  qed
  then show ?thesis by (auto simp: calm_def crown_def vote_msgs_def)
qed

section \<open>Elections\<close>

text \<open>\<open>ballot n n'\<close>: an election was started in a new term and the node voted for itself.\<close>

definition own_request :: "Node \<Rightarrow> Message \<Rightarrow> bool" where
  "own_request n m \<longleftrightarrow> mFrom m = cID (cfg n) \<and> mTo m \<in> pID ` set (Peers (cfg n)) \<and>
     (\<exists>req. mVote m = Some req \<and> CandidateID req = cID (cfg n) \<and> vqTerm req = dTerm (state n) \<and>
        LastLogIndex req = lastLocked n \<and> entryLocked n (lastLocked n) \<noteq> None \<and>
        LastLogTerm req = eTerm (the (entryLocked n (lastLocked n))))"

definition ballot :: "Node \<Rightarrow> Node \<Rightarrow> bool" where
  "ballot n n' \<longleftrightarrow> cfg n' = cfg n \<and> peers n' = peers n \<and> FixedLeader (cfg n) = [] \<and>
     votes n' = Some {|cID (cfg n)|} \<and> dTerm (state n') = dTerm (state n) + 1 \<and> dVote (state n') = cID (cfg n) \<and>
     (role n' = Leader \<longrightarrow> fmsize (peers n) div 2 < 1) \<and>
     vote_msgs n' \<subseteq> vote_msgs n \<union> {m. role n' = Candidate \<and> own_request n' m}"

lemma send_votes_msgs:
  "vote_msgs (send_votes en req ps n) \<subseteq> vote_msgs n \<union>
     {m. mFrom m = cID (cfg n) \<and> mTo m \<in> pID ` set ps \<and> (\<exists>i. mVote m = Some (req\<lparr>vqMessageID := i\<rparr>))}"
proof (induction ps arbitrary: n)
  case (Cons p ps)
  let ?n1 = "if pID p \<noteq> cID (cfg n) then
          (let n1 = n\<lparr>sequence := sequence n + 1\<rparr>;
               request = req\<lparr>vqMessageID := messageID n1\<rparr>;
               n2 = emitLocked en ''VOTE_SENT'' 0 (pID p) (vqMessageID request) [] n1;
               m = \<lparr>mSequence = sequence n2, mFrom = cID (cfg n2), mTo = pID p, mVote = Some request,
                    mAppend = None\<rparr>
           in if manual n2 then n2\<lparr>outbox := outbox n2 @ [m]\<rparr> else n2\<lparr>calls := calls n2 @ [m]\<rparr>)
        else n"
  have "cfg ?n1 = cfg n" by (simp add: Let_def)
  moreover have "vote_msgs ?n1 \<subseteq> vote_msgs n \<union>
     {m. mFrom m = cID (cfg n) \<and> mTo m = pID p \<and> (\<exists>i. mVote m = Some (req\<lparr>vqMessageID := i\<rparr>))}"
    by (auto simp: Let_def vote_msgs_def split: if_splits)
  ultimately show ?case using Cons.IH [of ?n1] unfolding send_votes.simps by auto
qed simp

lemma startElection_ballot:
  assumes inv: "node_inv n" and h: "failed n = None" and fl: "FixedLeader (cfg n) = []"
    and s: "startElectionLocked en n = Some n'"
  shows "calm n n' \<or> ballot n n'"
  using s
proof (cases rule: startElection_cases)
  case failed
  then show ?thesis using persist_calm [OF inv] by blast
next
  case (alone n1)
  note s1 = persist_sel [OF alone(1)] and st = persist_state(2) [OF inv alone(1) TrueI]
  have f1: "failed n1 = None" using s1(17) h by simp
  have i1: "node_inv n1" by (rule inv_persist [OF inv alone(1) h])
  have "crown (candidate en n1) n'"
    by (rule becomeLeader_crown [OF inv_step [OF i1 candidate_step [OF f1]] _ alone(3)]) (simp add: f1)
  then have c: "cfg n' = cfg n" "peers n' = peers n" "vote_msgs n' \<subseteq> vote_msgs n"
    "role n' = Follower \<or> role n' = Leader \<and> votes n' = Some {|cID (cfg n)|} \<and>
       dTerm (state n') = dTerm (state n) + 1 \<and> dVote (state n') = cID (cfg n)"
    using s1 st by (auto simp: crown_def vote_msgs_def)
  then show ?thesis using alone(2) fl by (auto simp: calm_def ballot_def)
next
  case (asked n1 e)
  note s1 = persist_sel [OF asked(1)] and st = persist_state(2) [OF inv asked(1) TrueI]
  have cy: "chatty (candidate en n1) n'" unfolding asked(4) by (rule send_votes_chatty)
  note ch = chatty_sel [OF cy]
  have "vote_msgs n' \<subseteq> vote_msgs (candidate en n1) \<union> {m. mFrom m = cID (cfg n1) \<and> mTo m \<in> pID ` set (Peers (cfg n1)) \<and>
      (\<exists>i. mVote m = Some ((vote_request (dTerm (state n) + 1) e n1)\<lparr>vqMessageID := i\<rparr>))}"
    using send_votes_msgs [of en "vote_request (dTerm (state n) + 1) e n1" "Peers (cfg n1)" "candidate en n1"] asked(4)
    by simp
  moreover have "vote_msgs (candidate en n1) = vote_msgs n" using s1(11,12) by (simp add: vote_msgs_def)
  moreover have "own_request n' m" if "mFrom m = cID (cfg n1)" "mTo m \<in> pID ` set (Peers (cfg n1))"
    "mVote m = Some ((vote_request (dTerm (state n) + 1) e n1)\<lparr>vqMessageID := i\<rparr>)" for m i
    unfolding own_request_def using that asked(3) ch(1,3) st
    by (simp add: vote_request_def lastLocked_def entryLocked_def)
  ultimately have "vote_msgs n' \<subseteq> vote_msgs n \<union> {m. own_request n' m}" by blast
  then have "ballot n n'" using ch(1,2,3,5,16) s1(1,2) st fl by (auto simp: ballot_def)
  then show ?thesis ..
qed

lemma Tick_ballot:
  assumes inv: "node_inv n" and t: "Tick en n = Some n'"
  shows "calm n n' \<or> ballot n n'"
proof (cases "availableLocked n \<and> role n \<noteq> Leader \<and> FixedLeader (cfg n) = [] \<and> deadline n \<le> Now en")
  case True
  then have "startElectionLocked en n = Some n'" using t by (simp add: Tick_def)
  then show ?thesis using startElection_ballot [OF inv available_failed] True by blast
next
  case False
  then have "n' = n \<or> kickLocked en n = Some n'" using t by (auto simp: Tick_def split: if_splits)
  then show ?thesis using kick_calm by auto
qed

text \<open>\<open>tally p n n'\<close>: a candidate counted the vote of \<open>p\<close>; it leads only with a majority.\<close>

definition tally :: "string \<Rightarrow> Node \<Rightarrow> Node \<Rightarrow> bool" where
  "tally p n n' \<longleftrightarrow> cfg n' = cfg n \<and> peers n' = peers n \<and> vote_msgs n' \<subseteq> vote_msgs n \<and> role n = Candidate \<and>
     (\<exists>vs. votes n = Some vs \<and>
       (role n' = Follower \<or>
        role n' \<noteq> Follower \<and> votes n' = Some (finsert p vs) \<and> dTerm (state n') = dTerm (state n) \<and>
        dVote (state n') = dVote (state n) \<and>
        (role n' = Leader \<longrightarrow> fmsize (peers n) div 2 < fcard (finsert p vs))))"

lemma voteResponse_tally:
  assumes inv: "node_inv n" and v: "voteResponseLocked en peer req resp err n = Some n'"
  shows "calm n n' \<or> tally (pID peer) n n' \<and> err = None \<and> Granted resp \<and> vrTerm resp = vqTerm req \<and>
    dTerm (state n) = vqTerm req"
  using v
proof (cases rule: voteResponse_cases)
  case noted
  then show ?thesis by simp
next
  case (down ok)
  then show ?thesis using stepDown_calm calm_trans [OF calm_emit] by blast
next
  case (counted vs)
  then show ?thesis by (simp add: tally_def vote_msgs_def)
next
  case (won vs)
  let ?e = "emitLocked en ''VOTE_RESPONSE'' 0 (pID peer) (vqMessageID req) [] n"
  let ?m = "?e\<lparr>votes := Some (finsert (pID peer) vs)\<rparr>"
  have "step_ok n ?e" by simp
  also have "step_ok ?e ?m" by simp
  finally have i: "node_inv ?m" by (rule inv_step [OF inv])
  have "crown ?m n'"
    by (rule becomeLeader_crown [OF i _ won(9)]) (use won(1) in \<open>simp add: availableLocked_def\<close>)
  then have "tally (pID peer) n n'" using won by (auto simp: crown_def tally_def vote_msgs_def)
  then show ?thesis using won by blast
qed simp

section \<open>Everything else is calm\<close>

lemma append_accept_calm:
  assumes inv: "node_inv n" and h: "failed n = None" and a: "append_accept en req n = Some (r, n')"
  shows "calm n n'"
  using a
proof (cases rule: append_accept_cases)
  case (failed c f es)
  have r: "calm n (note_repair en req f n)" by (rule calm_frame) simp_all
  have "node_inv (note_repair en req f n)" by (rule inv_step [OF inv repair_step])
  from calm_trans [OF r persist_calm [OF this failed(2)]] show ?thesis by simp
next
  case (stored n2 f es)
  have r: "calm n (note_repair en req f n)" by (rule calm_frame) simp_all
  have i: "node_inv (note_repair en req f n)" by (rule inv_step [OF inv repair_step])
  note r
  also have "calm (note_repair en req f n) n2" using persist_calm [OF i stored(3)] by simp
  also have "calm n2 n'" by (rule apply_calm [OF inv_persist [OF i stored(3)] stored(4)]) (simp add: h)
  finally show ?thesis .
qed simp_all

lemma AppendEntries_calm:
  assumes inv: "node_inv n" and a: "AppendEntries en req n = Some (r, n')"
  shows "calm n n'"
  using a
proof (cases rule: AppendEntries_cases)
  case stale
  then show ?thesis by (auto intro: calm_frame)
next
  case downfail
  have "calm n (heard en req n)" by (rule calm_frame) simp_all
  then show ?thesis using stepDown_calm [OF downfail(2)] by (rule calm_trans)
next
  case (checked n2)
  let ?t = "resetTimerLocked en n2"
  have f: "failed (heard en req n) = None" using available_failed [OF checked(1)] by simp
  have "step_ok n (heard en req n)" by simp
  also have "step_ok \<dots> n2" by (rule stepDown_step [OF checked(4) f])
  also have "step_ok n2 ?t" by simp
  finally have i: "node_inv ?t" by (rule inv_step [OF inv])
  have ft: "failed ?t = None" using stepDown_sel(15) [OF checked(4)] f by simp
  have "calm n (heard en req n)" by (rule calm_frame) simp_all
  also have "calm \<dots> n2" by (rule stepDown_calm [OF checked(4)])
  also have "calm n2 ?t" by simp
  also have "calm ?t n'"
    using checked(5) by (cases rule: append_check_cases) (auto intro: append_accept_calm [OF i ft])
  finally show ?thesis .
qed simp

lemma stepDown_state:
  assumes inv: "node_inv n" and sd: "stepDownLocked en T l n = Some (True, n')"
  shows "state n' = (if dTerm (state n) < T then (state n)\<lparr>dTerm := T, dVote := []\<rparr> else state n)"
proof (cases "dTerm (state n) < T")
  case False
  then show ?thesis using sd by (auto simp: stepDownLocked_def Let_def)
next
  case True
  then obtain ok n1 where p: "persistLocked en T [] (dCommit (state n)) 0 [] n = Some (ok, n1)"
    using sd by (auto simp: stepDownLocked_def Let_def elim!: bind_SomeE)
  then have ok: "ok" and s: "store n' = store n1" using sd True by (auto simp: stepDownLocked_def Let_def split: if_splits)
  show ?thesis using persist_state(2) [OF inv p ok] s True by simp
qed

text \<open>A granted vote is the recorded vote of the term it was asked for.\<close>

lemma vote_decide_granted:
  assumes inv: "node_inv n" and T: "dTerm (state n) = vqTerm req"
    and d: "vote_decide en req n = Some ((resp, err), n')" and g: "Granted resp"
  shows "err = None \<and> vrTerm resp = vqTerm req \<and> dTerm (state n') = vqTerm req \<and> dVote (state n') = CandidateID req \<and>
    dLog (state n') = dLog (state n) \<and> dBase (state n') = dBase (state n) \<and>
    (\<exists>le. entryLocked n (lastLocked n) = Some le \<and> up_to_date req le)"
  using d
proof (cases rule: vote_decide_cases)
  case (voted le n1)
  then show ?thesis using persist_state(2) [OF inv voted(4) TrueI] by (simp add: vote_response_def)
qed (use g T in \<open>simp_all add: vote_response_def\<close>)

lemma RequestVote_granted:
  assumes inv: "node_inv n" and r: "RequestVote en req n = Some ((resp, err), n')" and g: "Granted resp"
  shows "err = None \<and> vrTerm resp = vqTerm req \<and> dTerm (state n') = vqTerm req \<and> dVote (state n') = CandidateID req \<and>
    dLog (state n') = dLog (state n) \<and> dBase (state n') = dBase (state n) \<and> member n (CandidateID req) (vqClusterID req) \<and>
    (\<exists>le. entryLocked n (lastLocked n) = Some le \<and> up_to_date req le)"
  using r
proof (cases rule: RequestVote_cases)
  case (newer n2)
  have ia: "node_inv (asked en req n)" by (rule inv_step [OF inv asked_step])
  have f: "failed (asked en req n) = None" using available_failed [OF newer(1)] by simp
  have i2: "node_inv n2" by (rule inv_step [OF ia stepDown_step [OF newer(5) f]])
  have s2: "state n2 = (state n)\<lparr>dTerm := vqTerm req, dVote := []\<rparr>"
    using stepDown_state [OF ia newer(5)] newer(4) by simp
  then have "entryLocked n2 (lastLocked n2) = entryLocked n (lastLocked n)"
    by (simp add: entryLocked_def lastLocked_def store_entry_def store_last_def Let_def)
  then show ?thesis using vote_decide_granted [OF i2 _ newer(6) g] s2 newer(2) by simp
next
  case same
  have ia: "node_inv (asked en req n)" by (rule inv_step [OF inv asked_step])
  then show ?thesis using vote_decide_granted [OF ia _ same(5) g] same(2,4) by (simp add: entryLocked_def lastLocked_def)
qed (use g in \<open>simp_all add: vote_response_def\<close>)

lemma vote_decide_calm:
  assumes inv: "node_inv n" and v: "role n \<noteq> Follower \<Longrightarrow> dVote (state n) \<noteq> []"
    and d: "vote_decide en req n = Some (r, n')"
  shows "calm n n'"
  using d
proof (cases rule: vote_decide_cases)
  case failed
  then show ?thesis using persist_calm [OF inv] by blast
next
  case (voted le n1)
  have "calm n n1" using persist_calm [OF inv voted(4)] v voted(1) by blast
  also have "calm n1 n'" unfolding voted(5) by (rule calm_frame) simp_all
  finally show ?thesis .
next
  case (again le)
  then show ?thesis by (auto intro: calm_frame)
qed simp

lemma RequestVote_calm:
  assumes inv: "node_inv n" and v: "role n \<noteq> Follower \<Longrightarrow> dVote (state n) \<noteq> []"
    and d: "RequestVote en req n = Some (r, n')"
  shows "calm n n'"
proof -
  have ca: "calm n (asked en req n)" by (rule calm_frame) simp_all
  have ia: "node_inv (asked en req n)" by (rule inv_step [OF inv asked_step])
  from d show ?thesis
  proof (cases rule: RequestVote_cases)
    case downfail
    then show ?thesis using calm_trans [OF ca stepDown_calm] by blast
  next
    case (newer n2)
    have f: "failed (asked en req n) = None" using available_failed [OF newer(1)] by simp
    have i2: "node_inv n2" by (rule inv_step [OF ia stepDown_step [OF newer(5) f]])
    have "calm n2 n'" by (rule vote_decide_calm [OF i2 _ newer(6)]) (use stepDown_sel(4) [OF newer(5)] in simp)
    then show ?thesis using calm_trans [OF ca calm_trans [OF stepDown_calm [OF newer(5)]]] by blast
  next
    case same
    have "calm (asked en req n) n'" by (rule vote_decide_calm [OF ia _ same(5)]) (use v in simp)
    then show ?thesis by (rule calm_trans [OF ca])
  qed (use ca in simp_all)
qed

lemma acceptAppend_calm:
  assumes inv: "node_inv n" and a: "acceptAppendLocked en peer req resp err n = Some (again, n')"
  shows "calm n n'"
proof -
  let ?a = "answered en peer req resp err n"
  have ca: "calm n ?a" by (rule calm_frame) simp_all
  have ia: "node_inv ?a" by (rule inv_step [OF inv answered_step])
  from a show ?thesis
  proof (cases rule: acceptAppend_cases)
    case (down ok)
    then show ?thesis using calm_trans [OF ca stepDown_calm] by blast
  next
    case (matched n3)
    note ca
    also have "calm ?a (matched_to peer req ?a)" by (rule calm_frame) (simp_all add: matched_to_def Let_def)
    also have "calm \<dots> n3" by (rule advance_calm [OF inv_step [OF ia matched_to_step] matched(7)])
    also have "calm n3 n'"
      by (rule maybeSnapshot_calm [OF inv_step [OF inv_step [OF ia matched_to_step] advance_step [OF matched(7)]] matched(8)])
    finally show ?thesis .
  next
    case backed
    then show ?thesis using calm_trans [OF ca calm_upd(1)] by (simp add: Let_def)
  qed (use ca in simp_all)
qed

lemma DeliverAppend_calm:
  assumes inv: "node_inv n" and d: "DeliverAppend en m resp err n = Some n'"
  shows "calm n n'"
  using d
proof (cases rule: DeliverAppend_cases)
  case (taken req again n1)
  have "calm n (n\<lparr>busy := (busy n)(mTo m := 0)\<rparr>)" by simp
  also have "calm \<dots> n1" by (rule acceptAppend_calm [OF inv_step [OF inv step_ok_upd(6)] taken(3)])
  also have "calm n1 n'" using taken(4) queue_calm by auto
  finally show ?thesis .
qed simp

lemma replicate_begin_calm: "replicate_begin en peer n = Some (req, n') \<Longrightarrow> calm n n'"
  by (auto simp: replicate_begin_def split: if_splits dest: prepare_calm)

lemma submit_calm:
  assumes inv: "node_inv n" and s: "submitLocked en command key n = Some (r, n')"
  shows "calm n n'"
  using s
proof (cases rule: submit_cases)
  case failed
  then show ?thesis using persist_calm [OF inv] by blast
next
  case (proposed n1 n3)
  have i1: "node_inv n1" by (rule inv_persist [OF inv proposed(5) available_failed [OF proposed(1)]])
  have "calm n n1" using persist_calm [OF inv proposed(5)] by simp
  also have "calm n1 (registered en (lastLocked n + 1) key n1)" by (rule calm_frame) simp_all
  also have "calm \<dots> n3" by (rule advance_calm [OF inv_step [OF i1 registered_step] proposed(6)])
  also have "calm n3 n'" by (rule kick_calm [OF proposed(7)])
  finally show ?thesis .
qed simp

lemma control_calm:
  "calm n (snd (DrainMessages n))" "calm n (Close n)" "calm n (Cancel t n)" "calm n (snd (Poll t n))"
  "calm n (snd (propose_end t timeout n))"
  by (auto simp: DrainMessages_def Close_def Cancel_def Poll_def propose_end_def calm_def vote_msgs_def
      split: option.splits list.splits)

lemma SetPaused_calm: "SetPaused en p n = Some n' \<Longrightarrow> calm n n'"
  by (auto simp: SetPaused_def Let_def split: if_splits elim!: bind_SomeE dest!: kick_calm
      intro: calm_trans [OF _ calm_emit] calm_trans [OF calm_upd(4)] calm_trans [OF calm_reset])

section \<open>Opening\<close>

lemma Open_role:
  assumes o: "OpenWithRuntime origin identity en man nt c0 openErr j = Some (Inr n')"
  obtains ps st where "check_peers origin (Peers c0) fmempty {||} = Inr ps" "cID c0 |\<in>| fmdom ps" "cID c0 \<noteq> []"
    "openStoreUsing (identity (default_config c0)) openErr j = Some (Inr st)"
    "cfg n' = default_config c0" "peers n' = ps" "vote_msgs n' = {}" "state_le (sState st) (state n')"
    "sIdentity (store n') = identity (default_config c0)"
    "role n' = Follower \<or> role n' = Leader \<and> FixedLeader c0 = cID c0 \<and> dVote (state n') = cID c0"
proof -
  obtain ps st n where oc: "check_peers origin (Peers c0) fmempty {||} = Inr ps" "cID c0 |\<in>| fmdom ps" "cID c0 \<noteq> []"
    "openStoreUsing (identity (default_config c0)) openErr j = Some (Inr st)"
    and rn: "restore_node (fresh_node en man (default_config c0) ps st) = Inr n"
    and sn: "start_node en n = Some (Inr n')"
    by (rule Open_cases [OF o])
  note r = restore_node_inv [OF openStoreUsing_ok(1,2) [OF oc(4)] rn]
  have d: "cID (default_config c0) = cID c0" "FixedLeader (default_config c0) = FixedLeader c0"
    by (simp_all add: default_config_def Let_def)
  have le: "state_le (sState st) (state n')" "cfg n' = default_config c0" "peers n' = ps"
    "sIdentity (store n') = identity (default_config c0)"
    using start_node_inv [OF sn r(1,5,6)] r(2,3,4) openStoreUsing_ok(3) [OF oc(4)] by (simp_all add: node_le_def)
  have "vote_msgs n = {}" using r(8,9) by (simp add: vote_msgs_def)
  from sn show ?thesis
  proof (cases rule: start_node_cases)
    case (follower n1)
    note ra = ran_sel [OF apply_follower [OF r(1,6) follower(1)]]
    show ?thesis
      by (rule that [OF oc le(2,3) _ le(1,4)]) (use follower ra r in \<open>simp_all add: vote_msgs_def\<close>)
  next
    case (leader n1 n2 n3)
    note rn1 = apply_follower [OF r(1,6) leader(1)]
    note ra = ran_sel [OF rn1]
    let ?t = "resetTimerLocked en n1"
    have it: "node_inv ?t" by (rule inv_step [OF apply_ok(1) [OF r(1) leader(1)] step_ok_reset])
    note p2 = persist_sel [OF leader(3)] and s2 = persist_state(2) [OF it leader(3) TrueI]
    have f: "failed ?t = None" "failed n2 = None" using p2(17) ra(9) r(5) by simp_all
    have c: "crown n2 n3" by (rule becomeLeader_crown [OF inv_persist [OF it leader(3) f(1)] f(2) leader(4)])
    have "vote_msgs n2 = {}" using p2(11,12) ra(15,16) r(8,9) by (simp add: vote_msgs_def)
    moreover have "vote_msgs n' = vote_msgs n3" using leader(10,11) by (simp add: vote_msgs_def)
    ultimately have vm: "vote_msgs n' = {}" using c by (auto simp: crown_def)
    have "role n' = Follower \<or> role n' = Leader \<and> FixedLeader c0 = cID c0 \<and> dVote (state n') = cID c0"
      using c s2 leader(2,5,8) ra(1) r(3) d by (auto simp: crown_def)
    then show ?thesis by (rule that [OF oc le(2,3) vm le(1,4)])
  qed
qed

end
