(* ===== verification/Quorums.thy ===== *)
theory Quorums
  imports Raft_Types
begin

text \<open>
  Quorums: any two of them meet, so a function of the members cannot have two unanimous quorums with
  different values.  The majorities of a membership (more than \<open>len(peers)/2\<close> members, the test of
  \<^verbatim>\<open>internal/raft/node.go\<close> and \<^verbatim>\<open>runtime.go\<close>) are quorums.
\<close>

locale quorum_system =
  fixes quorum :: "'a set \<Rightarrow> bool"
  assumes intersect: "quorum Q \<Longrightarrow> quorum R \<Longrightarrow> Q \<inter> R \<noteq> {}"
begin

lemma one_choice:
  assumes "quorum Q" "quorum R" "\<And>v. v \<in> Q \<Longrightarrow> f v = Some a" "\<And>v. v \<in> R \<Longrightarrow> f v = Some b"
  shows "a = b"
proof -
  obtain v where "v \<in> Q" "v \<in> R" using intersect [OF assms(1,2)] by blast
  then show ?thesis using assms(3) [of v] assms(4) [of v] by simp
qed

end

definition majority :: "(string, Peer) fmap \<Rightarrow> string set \<Rightarrow> bool" where
  "majority ps Q \<longleftrightarrow> Q \<subseteq> fset (fmdom ps) \<and> fmsize ps div 2 < card Q"

interpretation quorum: quorum_system "majority ps" for ps
proof
  fix Q R assume q: "majority ps Q" and r: "majority ps R"
  show "Q \<inter> R \<noteq> {}"
  proof
    assume e: "Q \<inter> R = {}"
    have f: "finite Q" "finite R" using q r by (auto simp: majority_def intro: finite_subset)
    have "card Q + card R = card (Q \<union> R)" using card_Un_disjoint [OF f e] by simp
    also have "\<dots> \<le> card (fset (fmdom ps))" using q r by (intro card_mono) (auto simp: majority_def)
    finally have "card Q + card R \<le> fmsize ps" by (simp add: fmsize_def fcard.rep_eq)
    moreover have "fmsize ps div 2 < card Q" "fmsize ps div 2 < card R" using q r by (simp_all add: majority_def)
    ultimately show False by linarith
  qed
qed

end
