(* ===== verification/Cluster.thy ===== *)
theory Cluster
  imports Node_Votes Quorums
begin

text \<open>
  A cluster: processes that are up with a node or down with a journal, a network that may lose,
  duplicate, delay and reorder requests and responses, crashes at any time and restarts from the
  journal.  Every step of a process is one call of an entry point of its node.  Two ghost fields
  record history: which node voted for whom in which term, and which node led which term.
\<close>

section \<open>The cluster\<close>

datatype proc = Up Node | Down "journalRecord journal"

record Cluster =
  procs :: "string \<Rightarrow> proc"
  wires :: "Message set"
  vreplies :: "(Message \<times> VoteResponse \<times> gerror option) set"
  areplies :: "(Message \<times> AppendResponse \<times> gerror option) set"
  voted :: "string \<Rightarrow> u64 \<Rightarrow> string option"
  led :: "(u64 \<times> string) set"

text \<open>Process \<open>i\<close> goes on with node \<open>n\<close>; what the node has sent is on the wires for ever.\<close>

definition put :: "string \<Rightarrow> Node \<Rightarrow> Cluster \<Rightarrow> Cluster" where
  "put i n c =
     c\<lparr>procs := (procs c)(i := Up n), wires := wires c \<union> set (outbox n) \<union> set (calls n),
       voted := (if dVote (state n) = [] then voted c
                 else (voted c)(i := (voted c i)(dTerm (state n) := Some (dVote (state n))))),
       led := (if role n = Leader then insert (dTerm (state n), i) (led c) else led c)\<rparr>"

text \<open>An in-memory disk whose injected failure is set or cleared from outside.\<close>

fun refit_journal :: "string \<Rightarrow> 'p journal \<Rightarrow> 'p journal" where
  "refit_journal f (Memory d) = Memory (d\<lparr>mfailure := f\<rparr>)"
| "refit_journal f (Log l) = Log l"

definition refit :: "string \<Rightarrow> Node \<Rightarrow> Node" where
  "refit f n = n\<lparr>store := (store n)\<lparr>sWal := map_option (refit_journal f) (sWal (store n))\<rparr>\<rparr>"

definition initial :: "Cluster \<Rightarrow> bool" where
  "initial c \<longleftrightarrow> (\<forall>i. \<exists>j. procs c i = Down j \<and> journal_records j = []) \<and> wires c = {} \<and> vreplies c = {} \<and>
     areplies c = {} \<and> voted c = (\<lambda>_ _. None) \<and> led c = {}"

inductive step :: "(string \<Rightarrow> bool) \<Rightarrow> (Config \<Rightarrow> string) \<Rightarrow> (string \<Rightarrow> Config) \<Rightarrow> Cluster \<Rightarrow> Cluster \<Rightarrow> bool"
  for origin identity cfgs where
  tick: "procs c i = Up n \<Longrightarrow> Tick en n = Some n' \<Longrightarrow> step origin identity cfgs c (put i n' c)"
| serve_vote: "m \<in> wires c \<Longrightarrow> mVote m = Some req \<Longrightarrow> procs c (mTo m) = Up n \<Longrightarrow>
    RequestVote en req n = Some ((resp, err), n') \<Longrightarrow>
    step origin identity cfgs c ((put (mTo m) n' c)\<lparr>vreplies := insert (m, resp, err) (vreplies c)\<rparr>)"
| serve_append: "m \<in> wires c \<Longrightarrow> mAppend m = Some req \<Longrightarrow> procs c (mTo m) = Up n \<Longrightarrow>
    AppendEntries en req n = Some ((resp, err), n') \<Longrightarrow>
    step origin identity cfgs c ((put (mTo m) n' c)\<lparr>areplies := insert (m, resp, err) (areplies c)\<rparr>)"
| vote_reply: "(m, resp, err) \<in> vreplies c \<Longrightarrow> procs c (mFrom m) = Up n \<Longrightarrow>
    DeliverVote en m resp err n = Some n' \<Longrightarrow> step origin identity cfgs c (put (mFrom m) n' c)"
| vote_lost: "m \<in> wires c \<Longrightarrow> procs c (mFrom m) = Up n \<Longrightarrow>
    DeliverVote en m resp (Some e) n = Some n' \<Longrightarrow> step origin identity cfgs c (put (mFrom m) n' c)"
| append_reply: "(m, resp, err) \<in> areplies c \<Longrightarrow> procs c (mFrom m) = Up n \<Longrightarrow>
    DeliverAppend en m resp err n = Some n' \<Longrightarrow> step origin identity cfgs c (put (mFrom m) n' c)"
| append_lost: "m \<in> wires c \<Longrightarrow> procs c (mFrom m) = Up n \<Longrightarrow>
    DeliverAppend en m resp (Some e) n = Some n' \<Longrightarrow> step origin identity cfgs c (put (mFrom m) n' c)"
| replicate: "procs c i = Up n \<Longrightarrow> p \<in> set (Peers (cfg n)) \<Longrightarrow> replicate_begin en p n = Some (Some req, n') \<Longrightarrow>
    step origin identity cfgs c ((put i n' c)\<lparr>wires := insert \<lparr>mSequence = sequence n', mFrom = i, mTo = pID p,
      mVote = None, mAppend = Some req\<rparr> (wires (put i n' c))\<rparr>)"
| replicated: "(m, resp, err) \<in> areplies c \<Longrightarrow> procs c (mFrom m) = Up n \<Longrightarrow> mAppend m = Some req \<Longrightarrow>
    replicate_finish en (peerOf n (mTo m)) req resp err n = Some (again, n') \<Longrightarrow>
    step origin identity cfgs c (put (mFrom m) n' c)"
| replicate_lost: "m \<in> wires c \<Longrightarrow> procs c (mFrom m) = Up n \<Longrightarrow> mAppend m = Some req \<Longrightarrow>
    replicate_finish en (peerOf n (mTo m)) req resp (Some e) n = Some (again, n') \<Longrightarrow>
    step origin identity cfgs c (put (mFrom m) n' c)"
| submit: "procs c i = Up n \<Longrightarrow> Submit en command key n = Some (r, n') \<Longrightarrow> step origin identity cfgs c (put i n' c)"
| wait: "procs c i = Up n \<Longrightarrow> propose_end t timeout n = (out, n') \<Longrightarrow> step origin identity cfgs c (put i n' c)"
| poll: "procs c i = Up n \<Longrightarrow> Poll t n = (r, n') \<Longrightarrow> step origin identity cfgs c (put i n' c)"
| cancel: "procs c i = Up n \<Longrightarrow> step origin identity cfgs c (put i (Cancel t n) c)"
| drain: "procs c i = Up n \<Longrightarrow> step origin identity cfgs c (put i (snd (DrainMessages n)) c)"
| pause: "procs c i = Up n \<Longrightarrow> SetPaused en p n = Some n' \<Longrightarrow> step origin identity cfgs c (put i n' c)"
| close: "procs c i = Up n \<Longrightarrow> step origin identity cfgs c (put i (Close n) c)"
| refit: "procs c i = Up n \<Longrightarrow> step origin identity cfgs c (put i (refit f n) c)"
| crash: "procs c i = Up n \<Longrightarrow> sWal (store n) = Some j \<Longrightarrow>
    step origin identity cfgs c (c\<lparr>procs := (procs c)(i := Down j)\<rparr>)"
| restart: "procs c i = Down j \<Longrightarrow> cID (cfgs i) = i \<Longrightarrow>
    OpenWithRuntime origin identity en man nt (cfgs i) None j = Some (Inr n') \<Longrightarrow>
    step origin identity cfgs c (put i n' c)"

inductive reachable :: "(string \<Rightarrow> bool) \<Rightarrow> (Config \<Rightarrow> string) \<Rightarrow> (string \<Rightarrow> Config) \<Rightarrow> Cluster \<Rightarrow> bool"
  for origin identity cfgs where
  start: "initial c \<Longrightarrow> reachable origin identity cfgs c"
| onward: "reachable origin identity cfgs c \<Longrightarrow> step origin identity cfgs c c' \<Longrightarrow> reachable origin identity cfgs c'"

text \<open>All processes are configured with the same membership and the same election mode.\<close>

definition agreed :: "(string \<Rightarrow> bool) \<Rightarrow> (string \<Rightarrow> Config) \<Rightarrow> (string, Peer) fmap \<Rightarrow> string \<Rightarrow> bool" where
  "agreed origin cfgs ps fl \<longleftrightarrow>
     (\<forall>i. check_peers origin (Peers (cfgs i)) fmempty {||} = Inr ps \<and> FixedLeader (cfgs i) = fl)"

section \<open>Membership\<close>

lemma check_peers_fmap:
  assumes "check_peers origin l m seen = Inr ps" "\<forall>i p. fmlookup m i = Some p \<longrightarrow> pID p = i \<and> i \<noteq> []"
  shows "fset (fmdom ps) = fset (fmdom m) \<union> pID ` set l \<and> (\<forall>i p. fmlookup ps i = Some p \<longrightarrow> pID p = i \<and> i \<noteq> [])"
  using assms
proof (induction l arbitrary: m seen)
  case (Cons a l)
  from Cons.prems(1) obtain seen' where c: "check_peers origin l (fmupd (pID a) a m) seen' = Inr ps" "pID a \<noteq> []"
    by (auto split: if_splits sum.splits)
  have "\<forall>i p. fmlookup (fmupd (pID a) a m) i = Some p \<longrightarrow> pID p = i \<and> i \<noteq> []" using Cons.prems(2) c(2) by auto
  from Cons.IH [OF c(1) this] show ?case by auto
qed simp

section \<open>The election invariant\<close>

text \<open>Recorded votes agree with the state: an old term, or the current term with that vote.\<close>

definition votes_of :: "(u64 \<Rightarrow> string option) \<Rightarrow> durableState \<Rightarrow> bool" where
  "votes_of V st \<longleftrightarrow> (\<forall>T v. V T = Some v \<longrightarrow> v \<noteq> [] \<and> (T < dTerm st \<or> T = dTerm st \<and> v = dVote st))"

definition elected :: "(string, Peer) fmap \<Rightarrow> string \<Rightarrow> Cluster \<Rightarrow> u64 \<Rightarrow> string \<Rightarrow> bool" where
  "elected ps fl c T i \<longleftrightarrow> (if fl \<noteq> [] then i = fl else \<exists>Q. majority ps Q \<and> (\<forall>v \<in> Q. voted c v T = Some i))"

definition wire_ok :: "(string, Peer) fmap \<Rightarrow> Message \<Rightarrow> bool" where
  "wire_ok ps m \<longleftrightarrow> (\<forall>req. mVote m = Some req \<longrightarrow> CandidateID req = mFrom m \<and> mTo m |\<in>| fmdom ps)"

text \<open>Candidates and leaders have voted for themselves, and their votes are recorded.\<close>

definition backed :: "(string, Peer) fmap \<Rightarrow> string \<Rightarrow> Cluster \<Rightarrow> string \<Rightarrow> Node \<Rightarrow> bool" where
  "backed ps fl c i n \<longleftrightarrow> role n \<noteq> Follower \<longrightarrow> dVote (state n) = i \<and>
     (if fl \<noteq> [] then i = fl
      else \<exists>vs. votes n = Some vs \<and> vs |\<subseteq>| fmdom ps \<and> (\<forall>v. v |\<in>| vs \<longrightarrow> voted c v (dTerm (state n)) = Some i) \<and>
        (role n = Leader \<longrightarrow> fmsize ps div 2 < fcard vs))"

definition up_ok :: "(Config \<Rightarrow> string) \<Rightarrow> (string \<Rightarrow> Config) \<Rightarrow> (string, Peer) fmap \<Rightarrow> string \<Rightarrow> Cluster \<Rightarrow> string \<Rightarrow> Node \<Rightarrow> bool" where
  "up_ok identity cfgs ps fl c i n \<longleftrightarrow> node_inv n \<and> synced n \<and> cfg n = default_config (cfgs i) \<and> cID (cfgs i) = i \<and>
     i \<noteq> [] \<and> sIdentity (store n) = identity (default_config (cfgs i)) \<and>
     peers n = ps \<and> i |\<in>| fmdom ps \<and> (\<forall>m \<in> vote_msgs n. wire_ok ps m) \<and>
     votes_of (voted c i) (state n) \<and> (dVote (state n) \<noteq> [] \<longrightarrow> voted c i (dTerm (state n)) = Some (dVote (state n))) \<and>
     backed ps fl c i n"

definition down_ok :: "(Config \<Rightarrow> string) \<Rightarrow> (string \<Rightarrow> Config) \<Rightarrow> Cluster \<Rightarrow> string \<Rightarrow> journalRecord journal \<Rightarrow> bool" where
  "down_ok identity cfgs c i j \<longleftrightarrow>
     (\<forall>t. openStoreUsing (identity (default_config (cfgs i))) None j = Some (Inr t) \<longrightarrow> votes_of (voted c i) (sState t))"

definition proc_ok :: "(Config \<Rightarrow> string) \<Rightarrow> (string \<Rightarrow> Config) \<Rightarrow> (string, Peer) fmap \<Rightarrow> string \<Rightarrow> Cluster \<Rightarrow> string \<Rightarrow> bool" where
  "proc_ok identity cfgs ps fl c i \<longleftrightarrow>
     (case procs c i of Up n \<Rightarrow> up_ok identity cfgs ps fl c i n | Down j \<Rightarrow> down_ok identity cfgs c i j)"

definition reply_ok :: "(string, Peer) fmap \<Rightarrow> Cluster \<Rightarrow> Message \<times> VoteResponse \<times> gerror option \<Rightarrow> bool" where
  "reply_ok ps c x \<longleftrightarrow> (case x of (m, resp, err) \<Rightarrow> wire_ok ps m \<and>
     (\<forall>req. mVote m = Some req \<longrightarrow> Granted resp \<longrightarrow>
        vrTerm resp = vqTerm req \<and> voted c (mTo m) (vqTerm req) = Some (CandidateID req)))"

definition election_inv :: "(Config \<Rightarrow> string) \<Rightarrow> (string \<Rightarrow> Config) \<Rightarrow> (string, Peer) fmap \<Rightarrow> string \<Rightarrow> Cluster \<Rightarrow> bool" where
  "election_inv identity cfgs ps fl c \<longleftrightarrow> (\<forall>i. proc_ok identity cfgs ps fl c i) \<and> (\<forall>m \<in> wires c. wire_ok ps m) \<and>
     (\<forall>x \<in> vreplies c. reply_ok ps c x) \<and> (\<forall>(T, i) \<in> led c. elected ps fl c T i)"

lemma votes_of_le:
  assumes "votes_of V a" "hard_le a b"
  shows "votes_of V b"
  unfolding votes_of_def
proof (intro allI impI)
  fix T v assume "V T = Some v"
  then have "v \<noteq> []" "T < dTerm a \<or> T = dTerm a \<and> v = dVote a" using assms(1) by (auto simp: votes_of_def)
  then show "v \<noteq> [] \<and> (T < dTerm b \<or> T = dTerm b \<and> v = dVote b)"
    using assms(2) unfolding hard_le_def by (metis less_trans)
qed

text \<open>The recorded votes only grow.\<close>

definition grows :: "Cluster \<Rightarrow> Cluster \<Rightarrow> bool" where
  "grows c c' \<longleftrightarrow> (\<forall>v T x. voted c v T = Some x \<longrightarrow> voted c' v T = Some x)"

lemma put_grows: "votes_of (voted c i) (state n) \<Longrightarrow> grows c (put i n c)"
  by (auto simp: grows_def put_def votes_of_def)

lemma put_votes:
  assumes "votes_of (voted c i) (state n)"
  shows "votes_of (voted (put i n c) i) (state n)"
    "dVote (state n) \<noteq> [] \<Longrightarrow> voted (put i n c) i (dTerm (state n)) = Some (dVote (state n))"
  using assms by (auto simp: put_def votes_of_def)

lemma put_other: "j \<noteq> i \<Longrightarrow> voted (put i n c) j = voted c j" "j \<noteq> i \<Longrightarrow> procs (put i n c) j = procs c j"
  by (auto simp: put_def)

lemma backed_grows: "grows c c' \<Longrightarrow> backed ps fl c i n \<Longrightarrow> backed ps fl c' i n"
  by (auto simp: backed_def grows_def split: if_splits)

lemma elected_grows: "grows c c' \<Longrightarrow> elected ps fl c T i \<Longrightarrow> elected ps fl c' T i"
  by (auto simp: elected_def grows_def split: if_splits)

lemma reply_grows: "grows c c' \<Longrightarrow> reply_ok ps c x \<Longrightarrow> reply_ok ps c' x"
  by (auto simp: reply_ok_def grows_def)

lemma leader_elected:
  assumes b: "backed ps fl c i n" and l: "role n = Leader" "T = dTerm (state n)" "j = i"
  shows "elected ps fl c T j"
proof (cases "fl = []")
  case True
  then obtain vs where "vs |\<subseteq>| fmdom ps" "\<And>v. v |\<in>| vs \<Longrightarrow> voted c v (dTerm (state n)) = Some i"
    "fmsize ps div 2 < fcard vs"
    using b l(1) unfolding backed_def by auto
  then show ?thesis
    using True l unfolding elected_def majority_def
    by (simp, intro exI [of _ "fset vs"]) (auto simp: less_eq_fset.rep_eq fcard.rep_eq)
next
  case False
  then show ?thesis using b l unfolding backed_def elected_def by auto
qed

lemma put_inv:
  assumes inv: "election_inv identity cfgs ps fl c" and v: "votes_of (voted c i) (state n)"
    and up: "up_ok identity cfgs ps fl (put i n c) i n"
  shows "election_inv identity cfgs ps fl (put i n c)"
proof -
  let ?c = "put i n c"
  have g: "grows c ?c" by (rule put_grows [OF v])
  have "proc_ok identity cfgs ps fl ?c j" for j
  proof (cases "j = i")
    case True
    then show ?thesis using up by (simp add: proc_ok_def put_def)
  next
    case False
    have "proc_ok identity cfgs ps fl c j" using inv by (simp add: election_inv_def)
    then show ?thesis
      using False backed_grows [OF g] put_other [OF False, of n c]
      by (auto simp: proc_ok_def up_ok_def down_ok_def split: proc.splits)
  qed
  moreover have "wire_ok ps m" if "m \<in> wires ?c" for m
    using that inv up
    by (auto simp: election_inv_def put_def up_ok_def vote_msgs_def wire_ok_def)
  moreover have "reply_ok ps ?c x" if "x \<in> vreplies ?c" for x
    using that inv reply_grows [OF g] by (auto simp: election_inv_def put_def)
  moreover have "elected ps fl ?c T j" if "(T, j) \<in> led ?c" for T j
  proof (cases "(T, j) \<in> led c")
    case True
    then show ?thesis using inv elected_grows [OF g] by (auto simp: election_inv_def)
  next
    case False
    then have "role n = Leader" "T = dTerm (state n)" "j = i" using that by (auto simp: put_def split: if_splits)
    then have "backed ps fl ?c i n" "role n = Leader" "T = dTerm (state n)" "j = i" using up by (simp_all add: up_ok_def)
    then show ?thesis by (rule leader_elected)
  qed
  ultimately show ?thesis by (auto simp: election_inv_def)
qed

section \<open>Steps of a process\<close>

text \<open>What a call does to an up process, as far as elections are concerned.\<close>

definition moves :: "Cluster \<Rightarrow> string \<Rightarrow> Node \<Rightarrow> Node \<Rightarrow> bool" where
  "moves c i n n' \<longleftrightarrow> calm n n' \<or> ballot n n' \<or>
     (\<exists>p. tally p n n' \<and> p |\<in>| fmdom (peers n) \<and> voted c p (dTerm (state n)) = Some i)"

lemma default_config_sel [simp]:
  "Peers (default_config c) = Peers c" "cID (default_config c) = cID c" "FixedLeader (default_config c) = FixedLeader c"
  "ClusterID (default_config c) = ClusterID c"
  by (simp_all add: default_config_def Let_def)

lemma moves_backed:
  assumes mv: "moves c i n n'" and b: "backed ps fl c i n" and g: "grows c c'"
    and fl: "FixedLeader (cfg n) = fl" "cID (cfg n) = i" "peers n = ps" "i |\<in>| fmdom ps"
    and own: "dVote (state n') \<noteq> [] \<Longrightarrow> voted c' i (dTerm (state n')) = Some (dVote (state n'))" "i \<noteq> []"
  shows "backed ps fl c' i n'"
proof -
  note b' = backed_grows [OF g b]
  from mv consider (calm) "calm n n'" | (ballot) "ballot n n'"
    | (tally) p where "tally p n n'" "p |\<in>| fmdom (peers n)" "voted c p (dTerm (state n)) = Some i"
    unfolding moves_def by blast
  then show ?thesis
  proof cases
    case calm
    then show ?thesis using b' by (auto simp: calm_def backed_def)
  next
    case ballot
    then show ?thesis using fl own by (auto simp: ballot_def backed_def fcard.rep_eq)
  next
    case (tally p)
    have "voted c' p (dTerm (state n)) = Some i" using tally(3) g by (simp add: grows_def)
    then show ?thesis
      using tally(1,2) b' fl(3) by (auto simp: tally_def backed_def split: if_splits)
  qed
qed

lemma moves_msgs:
  assumes mv: "moves c i n n'" and w: "\<forall>m \<in> vote_msgs n. wire_ok ps m"
    and fl: "cID (cfg n) = i" "pID ` set (Peers (cfg n)) = fset (fmdom ps)"
  shows "\<forall>m \<in> vote_msgs n'. wire_ok ps m"
proof
  fix m assume m: "m \<in> vote_msgs n'"
  show "wire_ok ps m"
  proof (cases "m \<in> vote_msgs n")
    case False
    then have "ballot n n'" using mv m by (auto simp: moves_def calm_def tally_def)
    then have "own_request n' m" "cfg n' = cfg n" using m False by (auto simp: ballot_def)
    then show ?thesis using fl by (auto simp: own_request_def wire_ok_def)
  qed (use w in simp)
qed

lemma agreed_peers:
  assumes "agreed origin cfgs ps fl"
  shows "pID ` set (Peers (cfgs i)) = fset (fmdom ps)" "fmlookup ps j = Some p \<Longrightarrow> pID p = j" "FixedLeader (cfgs i) = fl"
    "j |\<in>| fmdom ps \<Longrightarrow> j \<noteq> []"
  using assms check_peers_fmap [of origin "Peers (cfgs i)" fmempty "{||}" ps] by (auto simp: agreed_def fmlookup_dom_iff)

lemma up_okI:
  assumes "election_inv identity cfgs ps fl c" "procs c i = Up n"
  shows "up_ok identity cfgs ps fl c i n"
proof -
  have "proc_ok identity cfgs ps fl c i" using assms(1) by (simp add: election_inv_def)
  then show ?thesis using assms(2) by (simp add: proc_ok_def)
qed

text \<open>The invariant survives every call on an up process.\<close>

lemma call_inv:
  assumes ag: "agreed origin cfgs ps fl" and inv: "election_inv identity cfgs ps fl c"
    and up: "procs c i = Up n" and st: "step_ok n n'" and mv: "moves c i n n'"
  shows "election_inv identity cfgs ps fl (put i n' c)"
proof -
  have u: "up_ok identity cfgs ps fl c i n"
    by (rule up_okI [OF inv up])
  then have i: "node_inv n" "synced n" by (auto simp: up_ok_def)
  then have n': "node_inv n'" "synced n'" "node_le n n'" using st by (auto simp: step_ok_def weak_ok_def)
  have v: "votes_of (voted c i) (state n')"
    using votes_of_le [of "voted c i" "state n" "state n'"] u n'(3) by (auto simp: up_ok_def node_le_def state_le_def)
  note pv = put_votes [OF v] and g = put_grows [OF v]
  have "backed ps fl (put i n' c) i n'"
    by (rule moves_backed [OF mv _ g _ _ _ _ pv(2)]) (use u agreed_peers(3) [OF ag] in \<open>auto simp: up_ok_def\<close>)
  moreover have "\<forall>m \<in> vote_msgs n'. wire_ok ps m"
    by (rule moves_msgs [OF mv]) (use u agreed_peers(1) [OF ag] in \<open>auto simp: up_ok_def\<close>)
  ultimately have "up_ok identity cfgs ps fl (put i n' c) i n'"
    using u n' pv by (auto simp: up_ok_def node_le_def)
  then show ?thesis by (rule put_inv [OF inv v])
qed

lemma calm_moves: "calm n n' \<Longrightarrow> moves c i n n'"
  by (simp add: moves_def)

lemma backed_vote: "backed ps fl c i n \<Longrightarrow> i \<noteq> [] \<Longrightarrow> role n \<noteq> Follower \<Longrightarrow> dVote (state n) \<noteq> []"
  by (auto simp: backed_def)

lemma DeliverVote_moves:
  assumes ag: "agreed origin cfgs ps fl" and u: "up_ok identity cfgs ps fl c (mFrom m) n"
    and d: "DeliverVote en m resp err n = Some n'"
    and r: "err = None \<Longrightarrow> reply_ok ps c (m, resp, err)"
  shows "moves c (mFrom m) n n'"
proof (cases "mVote m")
  case None
  then show ?thesis using d by (simp add: DeliverVote_def calm_moves)
next
  case (Some req)
  let ?p = "peerOf n (mTo m)"
  have inv: "node_inv n" and ps: "peers n = ps" using u by (auto simp: up_ok_def)
  have "voteResponseLocked en ?p req resp err n = Some n'" using d Some by (simp add: DeliverVote_def)
  from voteResponse_tally [OF inv this] consider "calm n n'"
    | (t) "tally (pID ?p) n n'" "err = None" "Granted resp" "dTerm (state n) = vqTerm req" by blast
  then show ?thesis
  proof cases
    case t
    then have w: "mTo m |\<in>| fmdom ps" "voted c (mTo m) (vqTerm req) = Some (mFrom m)"
      using r Some by (auto simp: reply_ok_def wire_ok_def)
    then have "pID ?p = mTo m"
      using agreed_peers(2) [OF ag] ps by (auto simp: peerOf_def fmlookup_dom_iff)
    then show ?thesis using t w ps unfolding moves_def by auto
  qed (rule calm_moves)
qed

lemma ghost_frame [simp]:
  "proc_ok identity cfgs ps fl (c\<lparr>vreplies := V\<rparr>) i = proc_ok identity cfgs ps fl c i"
  "proc_ok identity cfgs ps fl (c\<lparr>areplies := A\<rparr>) i = proc_ok identity cfgs ps fl c i"
  "proc_ok identity cfgs ps fl (c\<lparr>wires := W\<rparr>) i = proc_ok identity cfgs ps fl c i"
  "reply_ok ps (c\<lparr>vreplies := V\<rparr>) = reply_ok ps c" "reply_ok ps (c\<lparr>areplies := A\<rparr>) = reply_ok ps c"
  "reply_ok ps (c\<lparr>wires := W\<rparr>) = reply_ok ps c"
  "elected ps fl (c\<lparr>vreplies := V\<rparr>) = elected ps fl c" "elected ps fl (c\<lparr>areplies := A\<rparr>) = elected ps fl c"
  "elected ps fl (c\<lparr>wires := W\<rparr>) = elected ps fl c"
  by (simp_all add: proc_ok_def up_ok_def down_ok_def backed_def reply_ok_def elected_def fun_eq_iff split: proc.splits)

lemma serve_vote_inv:
  assumes ag: "agreed origin cfgs ps fl" and inv: "election_inv identity cfgs ps fl c"
    and m: "m \<in> wires c" "mVote m = Some req" and up: "procs c (mTo m) = Up n"
    and rv: "RequestVote en req n = Some ((resp, err), n')"
  shows "election_inv identity cfgs ps fl ((put (mTo m) n' c)\<lparr>vreplies := insert (m, resp, err) (vreplies c)\<rparr>)"
proof -
  let ?i = "mTo m" let ?c = "put ?i n' c"
  have u: "up_ok identity cfgs ps fl c ?i n" by (rule up_okI [OF inv up])
  have ni: "node_inv n" "peers n = ps" using u by (auto simp: up_ok_def)
  have "calm n n'" by (rule RequestVote_calm [OF ni(1) _ rv]) (use u backed_vote in \<open>auto simp: up_ok_def\<close>)
  then have i': "election_inv identity cfgs ps fl ?c"
    by (intro call_inv [OF ag inv up RequestVote_step [OF rv]] calm_moves)
  then have u': "up_ok identity cfgs ps fl ?c ?i n'" by (rule up_okI) (simp add: put_def)
  have w: "wire_ok ps m" using inv m(1) by (simp add: election_inv_def)
  have "reply_ok ps ?c (m, resp, err)"
  proof (cases "Granted resp")
    case True
    note g = RequestVote_granted [OF ni(1) rv True]
    have "CandidateID req |\<in>| fmdom ps" using g ni(2) by (simp add: member_def)
    then have "dVote (state n') \<noteq> []" using agreed_peers(4) [OF ag] g by simp
    then have "voted ?c ?i (vqTerm req) = Some (CandidateID req)" using u' g by (auto simp: up_ok_def)
    then show ?thesis using w g m(2) by (simp add: reply_ok_def)
  qed (use w in \<open>simp add: reply_ok_def\<close>)
  then have "\<forall>x \<in> insert (m, resp, err) (vreplies c). reply_ok ps ?c x"
    using i' by (auto simp: election_inv_def put_def)
  then show ?thesis
    using i' by (simp add: election_inv_def)
qed

lemma refit_records [simp]: "journal_records (refit_journal f j) = journal_records j"
  by (cases j) simp_all

lemma refit_gives [simp]: "journal_gives (store (refit f n)) t = journal_gives (store n) t" "journal_gives s (store (refit f n)) = journal_gives s (store n)"
  by (cases "sWal (store n)"; simp add: refit_def journal_gives_def)+

lemma refit_sel [simp]:
  "state (refit f n) = state n" "sSnapshot (store (refit f n)) = sSnapshot (store n)" "sIdentity (store (refit f n)) = sIdentity (store n)"
  "cfg (refit f n) = cfg n" "peers (refit f n) = peers n" "votes (refit f n) = votes n" "outbox (refit f n) = outbox n" "calls (refit f n) = calls n"
  "role (refit f n) = role n" "failed (refit f n) = failed n" "matchIndex (refit f n) = matchIndex n" "applied (refit f n) = applied n"
  "machine (refit f n) = machine n" "pending (refit f n) = pending n" "chans (refit f n) = chans n" "chanCount (refit f n) = chanCount n"
  "manual (refit f n) = manual n" "bootID (refit f n) = bootID n"
  by (simp_all add: refit_def)

lemma refit_step: "step_ok n (refit f n)"
proof -
  have w: "wf_store (store (refit f n)) = wf_store (store n)" by (simp add: wf_store_def refit_def)
  have u: "uncut (store n) \<longrightarrow> uncut (store (refit f n))" by (auto simp: uncut_def refit_def)
  have m: "machine_at (store (refit f n)) k = machine_at (store n) k" for k by (simp add: machine_at_def base_machine_def refit_def)
  have "node_inv (refit f n)" if "node_inv n"
    using that w m unfolding node_inv_def store_ok_def machine_ok_def role_ok_def chan_ok_def by simp
  moreover have "node_le n (refit f n)" if "node_inv n"
    using node_le_refl [OF that] u by (simp add: node_le_def)
  ultimately show ?thesis by (simp add: step_ok_def weak_ok_def synced_def)
qed

lemma refit_calm: "calm n (refit f n)"
  by (rule calm_frame) simp_all

lemma restart_inv:
  assumes ag: "agreed origin cfgs ps fl" and inv: "election_inv identity cfgs ps fl c"
    and down: "procs c i = Down j" and id: "cID (cfgs i) = i"
    and op: "OpenWithRuntime origin identity en man nt (cfgs i) None j = Some (Inr n')"
  shows "election_inv identity cfgs ps fl (put i n' c)"
proof -
  obtain ps' st where o: "check_peers origin (Peers (cfgs i)) fmempty {||} = Inr ps'" "cID (cfgs i) |\<in>| fmdom ps'"
    "cID (cfgs i) \<noteq> []" "openStoreUsing (identity (default_config (cfgs i))) None j = Some (Inr st)"
    "cfg n' = default_config (cfgs i)" "peers n' = ps'" "vote_msgs n' = {}" "state_le (sState st) (state n')"
    "sIdentity (store n') = identity (default_config (cfgs i))"
    "role n' = Follower \<or> role n' = Leader \<and> FixedLeader (cfgs i) = cID (cfgs i) \<and> dVote (state n') = cID (cfgs i)"
    by (rule Open_role [OF op])
  have ps: "ps' = ps" using ag o(1) by (simp add: agreed_def)
  have "proc_ok identity cfgs ps fl c i" using inv by (simp add: election_inv_def)
  then have "votes_of (voted c i) (sState st)" using down o(4) by (simp add: proc_ok_def down_ok_def)
  then have v: "votes_of (voted c i) (state n')" using o(8) by (auto simp: state_le_def intro: votes_of_le)
  have "backed ps fl (put i n' c) i n'"
    using o(3,10) id agreed_peers(3) [OF ag, of i] by (auto simp: backed_def)
  then have "up_ok identity cfgs ps fl (put i n' c) i n'"
    using Open_inv [OF op] o id ps put_votes [OF v] by (simp add: up_ok_def)
  then show ?thesis by (rule put_inv [OF inv v])
qed

lemma crash_inv:
  assumes inv: "election_inv identity cfgs ps fl c" and up: "procs c i = Up n" and j: "sWal (store n) = Some j"
  shows "election_inv identity cfgs ps fl (c\<lparr>procs := (procs c)(i := Down j)\<rparr>)"
proof -
  let ?c = "c\<lparr>procs := (procs c)(i := Down j)\<rparr>"
  have u: "up_ok identity cfgs ps fl c i n" by (rule up_okI [OF inv up])
  then have ni: "node_inv n" and id: "sIdentity (store n) = identity (default_config (cfgs i))" by (auto simp: up_ok_def)
  then obtain t where t: "journal_gives (store n) t" "state_le (state n) (sState t)"
    by (auto simp: node_inv_def store_ok_def)
  have "openStoreUsing (identity (default_config (cfgs i))) None j = Some (Inr (t\<lparr>sWal := Some (reopened j)\<rparr>))"
    using journal_gives_open [OF t(1) j] id by simp
  moreover have "votes_of (voted c i) (sState t)"
    using u t(2) by (auto simp: up_ok_def state_le_def intro: votes_of_le)
  ultimately have d: "down_ok identity cfgs c i j" by (simp add: down_ok_def)
  have "proc_ok identity cfgs ps fl ?c k" for k
  proof -
    have "proc_ok identity cfgs ps fl c k" using inv by (simp add: election_inv_def)
    then show ?thesis
      using d by (auto simp: proc_ok_def up_ok_def down_ok_def backed_def split: proc.splits)
  qed
  moreover have "reply_ok ps ?c x = reply_ok ps c x" "elected ps fl ?c T k = elected ps fl c T k" for x T k
    by (simp_all add: reply_ok_def elected_def)
  ultimately show ?thesis using inv by (simp add: election_inv_def)
qed

lemma initial_inv:
  assumes "initial c" shows "election_inv identity cfgs ps fl c"
proof -
  have "down_ok identity cfgs c i j" if "procs c i = Down j" for i j
    using assms by (simp add: down_ok_def votes_of_def initial_def)
  moreover have "\<exists>j. procs c i = Down j" for i using assms by (auto simp: initial_def)
  ultimately have "proc_ok identity cfgs ps fl c i" for i by (metis proc.simps(6) proc_ok_def)
  then show ?thesis using assms by (simp add: election_inv_def initial_def)
qed

lemma step_inv:
  assumes ag: "agreed origin cfgs ps fl" and inv: "election_inv identity cfgs ps fl c"
    and st: "step origin identity cfgs c c'"
  shows "election_inv identity cfgs ps fl c'"
  using st
proof cases
  case (tick i n en n')
  have "node_inv n" using up_okI [OF inv tick(2)] by (simp add: up_ok_def)
  then have "moves c i n n'" using Tick_ballot [OF _ tick(3)] by (auto simp: moves_def)
  then show ?thesis unfolding tick(1) by (rule call_inv [OF ag inv tick(2) Tick_step [OF tick(3)]])
next
  case (serve_vote m req n en resp err n')
  then show ?thesis using serve_vote_inv [OF ag inv] by blast
next
  case (serve_append m req n en resp err n')
  have "node_inv n" using up_okI [OF inv serve_append(4)] by (simp add: up_ok_def)
  then have "election_inv identity cfgs ps fl (put (mTo m) n' c)"
    by (intro call_inv [OF ag inv serve_append(4) AppendEntries_step [OF serve_append(5)]] calm_moves
        AppendEntries_calm [OF _ serve_append(5)])
  then show ?thesis unfolding serve_append(1) by (simp add: election_inv_def)
next
  case (vote_reply m resp err n en n')
  note u = up_okI [OF inv vote_reply(3)]
  have "reply_ok ps c (m, resp, err)" using inv vote_reply(2) by (simp add: election_inv_def)
  then show ?thesis unfolding vote_reply(1)
    using call_inv [OF ag inv vote_reply(3) DeliverVote_step [OF vote_reply(4)] DeliverVote_moves [OF ag u vote_reply(4)]]
    by blast
next
  case (vote_lost m n en resp e n')
  note u = up_okI [OF inv vote_lost(3)]
  show ?thesis unfolding vote_lost(1)
    using call_inv [OF ag inv vote_lost(3) DeliverVote_step [OF vote_lost(4)] DeliverVote_moves [OF ag u vote_lost(4)]]
    by simp
next
  case (append_reply m resp err n en n')
  have u: "node_inv n" "synced n" using up_okI [OF inv append_reply(3)] by (auto simp: up_ok_def)
  show ?thesis unfolding append_reply(1)
    by (rule call_inv [OF ag inv append_reply(3) DeliverAppend_step [OF append_reply(4) u]
          calm_moves [OF DeliverAppend_calm [OF u(1) append_reply(4)]]])
next
  case (append_lost m n en resp e n')
  have u: "node_inv n" "synced n" using up_okI [OF inv append_lost(3)] by (auto simp: up_ok_def)
  show ?thesis unfolding append_lost(1)
    by (rule call_inv [OF ag inv append_lost(3) DeliverAppend_step [OF append_lost(4) u]
          calm_moves [OF DeliverAppend_calm [OF u(1) append_lost(4)]]])
next
  case (replicate i n p en req n')
  have "election_inv identity cfgs ps fl (put i n' c)"
    by (rule call_inv [OF ag inv replicate(2) replicate_begin_step [OF replicate(4)]
          calm_moves [OF replicate_begin_calm [OF replicate(4)]]])
  then show ?thesis unfolding replicate(1) by (simp add: election_inv_def wire_ok_def)
next
  case (replicated m resp err n req en again n')
  have u: "node_inv n" "synced n" using up_okI [OF inv replicated(3)] by (auto simp: up_ok_def)
  note r = replicated(5) [unfolded replicate_finish_def]
  show ?thesis unfolding replicated(1)
    by (rule call_inv [OF ag inv replicated(3) acceptAppend_step [OF r u] calm_moves [OF acceptAppend_calm [OF u(1) r]]])
next
  case (replicate_lost m n req en resp e again n')
  have u: "node_inv n" "synced n" using up_okI [OF inv replicate_lost(3)] by (auto simp: up_ok_def)
  note r = replicate_lost(5) [unfolded replicate_finish_def]
  show ?thesis unfolding replicate_lost(1)
    by (rule call_inv [OF ag inv replicate_lost(3) acceptAppend_step [OF r u] calm_moves [OF acceptAppend_calm [OF u(1) r]]])
next
  case (submit i n en command key r n')
  have u: "node_inv n" using up_okI [OF inv submit(2)] by (simp add: up_ok_def)
  note r = submit(3) [unfolded Submit_def]
  show ?thesis unfolding submit(1)
    by (rule call_inv [OF ag inv submit(2) submit_step [OF r] calm_moves [OF submit_calm [OF u r]]])
next
  case (wait i n t timeout out n')
  show ?thesis unfolding wait(1)
    by (rule call_inv [OF ag inv wait(2) propose_end_step [OF wait(3)]])
      (use control_calm(5) [of n t timeout] wait(3) in \<open>simp add: calm_moves\<close>)
next
  case (poll i n t r n')
  show ?thesis unfolding poll(1)
    by (rule call_inv [OF ag inv poll(2) Poll_step [OF poll(3)]])
      (use control_calm(4) [of n t] poll(3) in \<open>simp add: calm_moves\<close>)
next
  case (cancel i n t)
  show ?thesis unfolding cancel(1) by (rule call_inv [OF ag inv cancel(2) Cancel_step calm_moves [OF control_calm(3)]])
next
  case (drain i n)
  show ?thesis unfolding drain(1) by (rule call_inv [OF ag inv drain(2) Drain_step calm_moves [OF control_calm(1)]])
next
  case (pause i n en p n')
  show ?thesis unfolding pause(1)
    by (rule call_inv [OF ag inv pause(2) SetPaused_step [OF pause(3)] calm_moves [OF SetPaused_calm [OF pause(3)]]])
next
  case (close i n)
  show ?thesis unfolding close(1) by (rule call_inv [OF ag inv close(2) Close_step calm_moves [OF control_calm(2)]])
next
  case (refit i n f)
  show ?thesis unfolding refit(1) by (rule call_inv [OF ag inv refit(2) refit_step calm_moves [OF refit_calm]])
next
  case (crash i n j)
  then show ?thesis using crash_inv [OF inv] by blast
next
  case (restart i j en man nt n')
  then show ?thesis using restart_inv [OF ag inv] by blast
qed

lemma reachable_inv:
  assumes "reachable origin identity cfgs c" "agreed origin cfgs ps fl"
  shows "election_inv identity cfgs ps fl c"
  using assms(1) by induction (auto intro: initial_inv step_inv [OF assms(2)])

end
