(* ===== verification/Scenario.thy ===== *)
theory Scenario
  imports Cluster
begin

text \<open>
  Executable runs of the cluster: a small script language whose actions are steps of the cluster,
  used to exhibit reachable states in which the theorems apply.
\<close>

datatype action = Restart_at string Env | Crash_at string | Tick_at string Env | Exchange string nat Env
  | Submit_at string "Command option" "string option" Env | Drain_at string

definition up :: "Cluster \<Rightarrow> string \<Rightarrow> Node option" where
  "up c i = (case procs c i of Up n \<Rightarrow> Some n | Down _ \<Rightarrow> None)"

text \<open>Serve the message and deliver the reply to its sender.\<close>

definition exchange :: "Env \<Rightarrow> Message \<Rightarrow> Cluster \<Rightarrow> Cluster option" where
  "exchange en m c =
     do {
       n \<leftarrow> up c (mTo m);
       (case mVote m of
          Some req \<Rightarrow>
            do {
              ((resp, err), n1) \<leftarrow> RequestVote en req n;
              (let c1 = (put (mTo m) n1 c)\<lparr>vreplies := insert (m, resp, err) (vreplies c)\<rparr> in
               do {
                 k \<leftarrow> up c1 (mFrom m);
                 k1 \<leftarrow> DeliverVote en m resp err k;
                 Some (put (mFrom m) k1 c1)
               })
            }
        | None \<Rightarrow>
            do {
              req \<leftarrow> mAppend m;
              ((resp, err), n1) \<leftarrow> AppendEntries en req n;
              (let c1 = (put (mTo m) n1 c)\<lparr>areplies := insert (m, resp, err) (areplies c)\<rparr> in
               do {
                 k \<leftarrow> up c1 (mFrom m);
                 k1 \<leftarrow> DeliverAppend en m resp err k;
                 Some (put (mFrom m) k1 c1)
               })
            })
     }"

fun act :: "(string \<Rightarrow> bool) \<Rightarrow> (Config \<Rightarrow> string) \<Rightarrow> (string \<Rightarrow> Config) \<Rightarrow> action \<Rightarrow> Cluster \<Rightarrow> Cluster option" where
  "act origin identity cfgs (Restart_at i en) c =
     (case procs c i of
        Up _ \<Rightarrow> None
      | Down j \<Rightarrow>
          if cID (cfgs i) = i then
            (case OpenWithRuntime origin identity en True True (cfgs i) None j of
               Some (Inr n) \<Rightarrow> Some (put i n c) | _ \<Rightarrow> None)
          else None)"
| "act origin identity cfgs (Crash_at i) c =
     do { n \<leftarrow> up c i; j \<leftarrow> sWal (store n); Some (c\<lparr>procs := (procs c)(i := Down j)\<rparr>) }"
| "act origin identity cfgs (Tick_at i en) c = do { n \<leftarrow> up c i; n1 \<leftarrow> Tick en n; Some (put i n1 c) }"
| "act origin identity cfgs (Exchange i k en) c =
     do {
       n \<leftarrow> up c i;
       (if k < length (outbox n) \<and> outbox n ! k \<in> wires c then exchange en (outbox n ! k) c else None)
     }"
| "act origin identity cfgs (Submit_at i command key en) c =
     do { n \<leftarrow> up c i; (_, n1) \<leftarrow> Submit en command key n; Some (put i n1 c) }"
| "act origin identity cfgs (Drain_at i) c = do { n \<leftarrow> up c i; Some (put i (snd (DrainMessages n)) c) }"

primrec play :: "(string \<Rightarrow> bool) \<Rightarrow> (Config \<Rightarrow> string) \<Rightarrow> (string \<Rightarrow> Config) \<Rightarrow> action list \<Rightarrow> Cluster \<Rightarrow> Cluster option" where
  "play origin identity cfgs [] c = Some c"
| "play origin identity cfgs (a # as) c = do { c1 \<leftarrow> act origin identity cfgs a c; play origin identity cfgs as c1 }"

lemma up_Some [simp]: "up c i = Some n \<longleftrightarrow> procs c i = Up n"
  by (auto simp: up_def split: proc.splits)

lemma steps_reachable:
  "(step origin identity cfgs)\<^sup>*\<^sup>* c c' \<Longrightarrow> reachable origin identity cfgs c \<Longrightarrow> reachable origin identity cfgs c'"
  by (induction rule: rtranclp_induct) (auto intro: onward)

lemma exchange_steps:
  assumes m: "m \<in> wires c" and e: "exchange en m c = Some c'"
  shows "(step origin identity cfgs)\<^sup>*\<^sup>* c c'"
proof (cases "mVote m")
  case (Some req)
  then obtain n resp err n1 k k1 where n: "procs c (mTo m) = Up n" "RequestVote en req n = Some ((resp, err), n1)"
    and k: "procs ((put (mTo m) n1 c)\<lparr>vreplies := insert (m, resp, err) (vreplies c)\<rparr>) (mFrom m) = Up k"
      "DeliverVote en m resp err k = Some k1"
    and c': "c' = put (mFrom m) k1 ((put (mTo m) n1 c)\<lparr>vreplies := insert (m, resp, err) (vreplies c)\<rparr>)"
    using e by (auto simp: exchange_def Let_def)
  let ?c = "(put (mTo m) n1 c)\<lparr>vreplies := insert (m, resp, err) (vreplies c)\<rparr>"
  have "step origin identity cfgs c ?c" by (rule serve_vote [OF m Some n])
  moreover have "step origin identity cfgs ?c c'" unfolding c' by (rule vote_reply [OF _ k]) simp
  ultimately show ?thesis by (rule converse_rtranclp_into_rtranclp [OF _ r_into_rtranclp])
next
  case None
  then obtain req n resp err n1 k k1 where q: "mAppend m = Some req"
    and n: "procs c (mTo m) = Up n" "AppendEntries en req n = Some ((resp, err), n1)"
    and k: "procs ((put (mTo m) n1 c)\<lparr>areplies := insert (m, resp, err) (areplies c)\<rparr>) (mFrom m) = Up k"
      "DeliverAppend en m resp err k = Some k1"
    and c': "c' = put (mFrom m) k1 ((put (mTo m) n1 c)\<lparr>areplies := insert (m, resp, err) (areplies c)\<rparr>)"
    using e by (auto simp: exchange_def Let_def)
  let ?c = "(put (mTo m) n1 c)\<lparr>areplies := insert (m, resp, err) (areplies c)\<rparr>"
  have "step origin identity cfgs c ?c" by (rule serve_append [OF m q n])
  moreover have "step origin identity cfgs ?c c'" unfolding c' by (rule append_reply [OF _ k]) simp
  ultimately show ?thesis by (rule converse_rtranclp_into_rtranclp [OF _ r_into_rtranclp])
qed

lemma act_steps:
  assumes a: "act origin identity cfgs a c = Some c'"
  shows "(step origin identity cfgs)\<^sup>*\<^sup>* c c'"
proof (cases a)
  case (Restart_at i en)
  then show ?thesis
    using a by (auto split: proc.splits if_splits option.splits sum.splits intro!: r_into_rtranclp restart)
next
  case (Crash_at i)
  then show ?thesis using a by (auto intro!: r_into_rtranclp crash)
next
  case (Tick_at i en)
  then show ?thesis using a by (auto intro!: r_into_rtranclp tick)
next
  case (Exchange i k en)
  then show ?thesis using a by (auto split: if_splits intro: exchange_steps)
next
  case (Submit_at i command key en)
  then show ?thesis using a by (auto intro!: r_into_rtranclp submit)
next
  case (Drain_at i)
  then show ?thesis using a by (auto intro!: r_into_rtranclp drain)
qed

lemma play_steps: "play origin identity cfgs as c = Some c' \<Longrightarrow> (step origin identity cfgs)\<^sup>*\<^sup>* c c'"
proof (induction as arbitrary: c)
  case (Cons a as)
  then obtain c1 where "act origin identity cfgs a c = Some c1" "play origin identity cfgs as c1 = Some c'" by auto
  then show ?case using act_steps Cons.IH by (meson rtranclp_trans)
qed simp

lemma play_append: "play origin identity cfgs (as @ bs) c = do { c1 \<leftarrow> play origin identity cfgs as c; play origin identity cfgs bs c1 }"
  by (induction as arbitrary: c) (auto split: bind_split)

section \<open>Running a script on the processes alone\<close>

text \<open>
  The wires and the history need not be computed: what a process has in its outbox is on the wires.
  \<open>run_procs\<close> runs a script on the processes alone.
\<close>

definition node_at :: "(string \<Rightarrow> proc) \<Rightarrow> string \<Rightarrow> Node option" where
  "node_at P i = (case P i of Up n \<Rightarrow> Some n | Down _ \<Rightarrow> None)"

definition exchange_procs :: "Env \<Rightarrow> Message \<Rightarrow> (string \<Rightarrow> proc) \<Rightarrow> (string \<Rightarrow> proc) option" where
  "exchange_procs en m P =
     do {
       n \<leftarrow> node_at P (mTo m);
       (case mVote m of
          Some req \<Rightarrow>
            do {
              ((resp, err), n1) \<leftarrow> RequestVote en req n;
              k \<leftarrow> node_at (P(mTo m := Up n1)) (mFrom m);
              k1 \<leftarrow> DeliverVote en m resp err k;
              Some (P(mTo m := Up n1, mFrom m := Up k1))
            }
        | None \<Rightarrow>
            do {
              req \<leftarrow> mAppend m;
              ((resp, err), n1) \<leftarrow> AppendEntries en req n;
              k \<leftarrow> node_at (P(mTo m := Up n1)) (mFrom m);
              k1 \<leftarrow> DeliverAppend en m resp err k;
              Some (P(mTo m := Up n1, mFrom m := Up k1))
            })
     }"

fun act_procs :: "(string \<Rightarrow> bool) \<Rightarrow> (Config \<Rightarrow> string) \<Rightarrow> (string \<Rightarrow> Config) \<Rightarrow> action \<Rightarrow> (string \<Rightarrow> proc) \<Rightarrow> (string \<Rightarrow> proc) option" where
  "act_procs origin identity cfgs (Restart_at i en) P =
     (case P i of
        Up _ \<Rightarrow> None
      | Down j \<Rightarrow>
          if cID (cfgs i) = i then
            (case OpenWithRuntime origin identity en True True (cfgs i) None j of
               Some (Inr n) \<Rightarrow> Some (P(i := Up n)) | _ \<Rightarrow> None)
          else None)"
| "act_procs origin identity cfgs (Crash_at i) P = do { n \<leftarrow> node_at P i; j \<leftarrow> sWal (store n); Some (P(i := Down j)) }"
| "act_procs origin identity cfgs (Tick_at i en) P = do { n \<leftarrow> node_at P i; n1 \<leftarrow> Tick en n; Some (P(i := Up n1)) }"
| "act_procs origin identity cfgs (Exchange i k en) P =
     do { n \<leftarrow> node_at P i; (if k < length (outbox n) then exchange_procs en (outbox n ! k) P else None) }"
| "act_procs origin identity cfgs (Submit_at i command key en) P =
     do { n \<leftarrow> node_at P i; (_, n1) \<leftarrow> Submit en command key n; Some (P(i := Up n1)) }"
| "act_procs origin identity cfgs (Drain_at i) P = do { n \<leftarrow> node_at P i; Some (P(i := Up (snd (DrainMessages n)))) }"

primrec run_procs :: "(string \<Rightarrow> bool) \<Rightarrow> (Config \<Rightarrow> string) \<Rightarrow> (string \<Rightarrow> Config) \<Rightarrow> action list \<Rightarrow> (string \<Rightarrow> proc) \<Rightarrow> (string \<Rightarrow> proc) option" where
  "run_procs origin identity cfgs [] P = Some P"
| "run_procs origin identity cfgs (a # as) P = do { P1 \<leftarrow> act_procs origin identity cfgs a P; run_procs origin identity cfgs as P1 }"

definition posted :: "Cluster \<Rightarrow> bool" where
  "posted c \<longleftrightarrow> (\<forall>i n. procs c i = Up n \<longrightarrow> set (outbox n) \<union> set (calls n) \<subseteq> wires c \<and>
     (role n = Leader \<longrightarrow> (dTerm (state n), i) \<in> led c))"

lemma posted_put: "posted c \<Longrightarrow> posted (put i n c)"
  unfolding posted_def put_def by (auto split: if_splits)

lemma posted_frame [simp]:
  "posted (c\<lparr>vreplies := V\<rparr>) = posted c" "posted (c\<lparr>areplies := A\<rparr>) = posted c"
  by (simp_all add: posted_def)

lemma posted_wire: "posted c \<Longrightarrow> posted (c\<lparr>wires := insert m (wires c)\<rparr>)"
  by (auto simp: posted_def)

lemma posted_down: "posted c \<Longrightarrow> posted (c\<lparr>procs := (procs c)(i := Down j)\<rparr>)"
  by (auto simp: posted_def)

lemma reachable_posted:
  assumes "reachable origin identity cfgs c"
  shows "posted c"
  using assms
proof induction
  case (start c)
  then show ?case unfolding posted_def initial_def by (metis proc.distinct(1))
next
  case (onward c c')
  from onward(2) show ?case
    by cases (auto intro: posted_put [OF onward.IH] posted_wire posted_down onward.IH)
qed

lemma node_at_up [simp]: "node_at (procs c) i = up c i"
  by (simp add: node_at_def up_def)

lemma put_procs [simp]: "procs (put i n c) = (procs c)(i := Up n)"
  by (simp add: put_def)

lemma exchange_procs_eq: "map_option procs (exchange en m c) = exchange_procs en m (procs c)"
proof -
  have u: "up ((put i n c)\<lparr>vreplies := V\<rparr>) j = node_at ((procs c)(i := Up n)) j"
    "up ((put i n c)\<lparr>areplies := A\<rparr>) j = node_at ((procs c)(i := Up n)) j" for i n V A j
    by (simp_all add: up_def node_at_def)
  show ?thesis
    unfolding exchange_def exchange_procs_def u Let_def node_at_up
    by (cases "procs c (mTo m)"; cases "mVote m") (auto simp: up_def map_option_bind split: bind_split option.splits)
qed

lemma act_procs_eq: "posted c \<Longrightarrow> map_option procs (act origin identity cfgs a c) = act_procs origin identity cfgs a (procs c)"
proof (cases a)
  case (Exchange i k en)
  assume "posted c"
  then have "outbox n ! k \<in> wires c" if "procs c i = Up n" "k < length (outbox n)" for n
    using that unfolding posted_def by (meson UnI1 nth_mem subsetD)
  then show ?thesis using Exchange exchange_procs_eq by (cases "procs c i") (auto simp: up_def)
qed (auto simp: up_def split: bind_split proc.splits option.splits sum.splits)

section \<open>Three processes\<close>

definition at :: "int \<Rightarrow> Env" where
  "at t = \<lparr>Now = t, Int64N = (\<lambda>_. 0)\<rparr>"

definition peerNamed :: "string \<Rightarrow> Peer" where
  "peerNamed i = \<lparr>pID = i, PeerURL = ''p'' @ i, ClientURL = ''c'' @ i\<rparr>"

definition config3 :: "string \<Rightarrow> Config" where
  "config3 i = \<lparr>cID = i, ClusterID = ''x'', Peers = map peerNamed [''a'', ''b'', ''c''], FixedLeader = [], ElectionMin = 0,
     ElectionMax = 0, Heartbeat = 0, RPCTimeout = 0, RequestTimeout = 0, SnapshotEvery = 0\<rparr>"

definition blank :: Cluster where
  "blank = \<lparr>procs = (\<lambda>_. Down (Log \<lparr>lrecords = [], lscript = [], lfailed = None\<rparr>)), wires = {}, vreplies = {}, areplies = {},
     voted = (\<lambda>_ _. None), led = {}\<rparr>"

definition play3 :: "action list \<Rightarrow> Cluster option" where
  "play3 as = play (\<lambda>_. True) cID config3 as blank"

definition opening3 :: "action list" where
  "opening3 = [Restart_at ''a'' (at 0), Restart_at ''b'' (at 0), Restart_at ''c'' (at 0)]"

lemma blank_reachable: "reachable origin identity cfgs blank"
  by (rule start) (simp add: initial_def blank_def)

lemma play3_reachable: "play3 as = Some c \<Longrightarrow> reachable (\<lambda>_. True) cID config3 c"
  unfolding play3_def using steps_reachable [OF play_steps blank_reachable] .

definition election3 :: "action list" where
  "election3 = opening3 @ [Tick_at ''a'' (at 5000000000), Exchange ''a'' 0 (at 5000000001)]"

definition members3 :: "(string, Peer) fmap" where
  "members3 = (case check_peers (\<lambda>_. True) (Peers (config3 [])) fmempty {||} of Inr ps \<Rightarrow> ps | Inl _ \<Rightarrow> fmempty)"

lemma agreed3: "agreed (\<lambda>_. True) config3 members3 []"
proof -
  have "(case check_peers (\<lambda>_. True) (Peers (config3 [])) fmempty {||} of Inr ps \<Rightarrow> True | Inl _ \<Rightarrow> False)" by code_simp
  then have "check_peers (\<lambda>_. True) (Peers (config3 [])) fmempty {||} = Inr members3"
    by (auto simp: members3_def split: sum.splits)
  moreover have "Peers (config3 i) = Peers (config3 [])" for i by (simp add: config3_def)
  ultimately show ?thesis by (simp add: agreed_def) (simp add: config3_def)
qed

lemma play_procs:
  assumes "reachable origin identity cfgs c"
  shows "map_option procs (play origin identity cfgs as c) = run_procs origin identity cfgs as (procs c)"
  using assms
proof (induction as arbitrary: c)
  case (Cons a as)
  note e = act_procs_eq [OF reachable_posted [OF Cons.prems], of origin identity cfgs a]
  show ?case
  proof (cases "act origin identity cfgs a c")
    case None
    then show ?thesis using e by simp
  next
    case (Some c1)
    then have "act_procs origin identity cfgs a (procs c) = Some (procs c1)" using e by simp
    then show ?thesis using Some Cons.IH [OF steps_reachable [OF act_steps [OF Some] Cons.prems]] by simp
  qed
qed simp

text \<open>The cluster a script leads to, given the processes it leads to.\<close>

lemma played:
  assumes "run_procs origin identity cfgs as (procs blank) = Some P"
  obtains c where "play origin identity cfgs as blank = Some c" "procs c = P" "reachable origin identity cfgs c" "posted c"
proof -
  obtain c where c: "play origin identity cfgs as blank = Some c" "procs c = P"
    using play_procs [OF blank_reachable, of origin identity cfgs as] assms by auto
  then have "reachable origin identity cfgs c" using steps_reachable [OF play_steps blank_reachable] by blast
  then show ?thesis using that c reachable_posted by blast
qed

definition procs3 :: "action list \<Rightarrow> (string \<Rightarrow> proc) option" where
  "procs3 as = run_procs (\<lambda>_. True) cID config3 as (procs blank)"

lemma play3_procs:
  assumes "procs3 as = Some P"
  obtains c where "play3 as = Some c" "procs c = P" "reachable (\<lambda>_. True) cID config3 c" "posted c"
  using played [OF assms [unfolded procs3_def]] unfolding play3_def by metis

text \<open>
  After an election: \<open>a\<close> leads term 1 with the vote of \<open>b\<close>, and its first entry, replicated to \<open>b\<close>, is
  committed.
\<close>

definition script3 :: "action list" where
  "script3 = election3 @ [Exchange ''a'' 2 (at 5000000002)]"

definition run3 :: Cluster where
  "run3 = (case play3 script3 of Some c \<Rightarrow> c | None \<Rightarrow> blank)"

definition node3 :: "string \<Rightarrow> Node" where
  "node3 i = the (up run3 i)"

definition reopen3 :: "Node \<Rightarrow> Node option" where
  "reopen3 n = do {
     j \<leftarrow> sWal (store n);
     r \<leftarrow> OpenWithRuntime (\<lambda>_. True) cID (at 9) True True (config3 (cID (cfg n))) None j;
     (case r of Inr n' \<Rightarrow> Some n' | Inl _ \<Rightarrow> None) }"

definition leader3 :: "Node \<Rightarrow> bool" where
  "leader3 n \<longleftrightarrow> role n = Leader \<and> dCommit (state n) = 1 \<and> dTerm (state n) = 1 \<and> dBase (state n) = 0 \<and> failed n = None \<and>
     cID (cfg n) = ''a'' \<and> map_option eTerm (entryLocked n 1) = Some 1 \<and> lastLocked n = 1 \<and>
     (case reopen3 n of Some n' \<Rightarrow> role n' = Follower | None \<Rightarrow> False)"

definition follower3 :: "Node \<Rightarrow> bool" where
  "follower3 n \<longleftrightarrow> dVote (state n) = ''a'' \<and> lastLocked n = 1 \<and> failed n = None \<and> dBase (state n) = 0 \<and>
     map_option eTerm (entryLocked n 1) = Some 1"

lemma run3_eval:
  "(case procs3 script3 of
      Some P \<Rightarrow>
        (case node_at P ''a'' of Some n \<Rightarrow> leader3 n | None \<Rightarrow> False) \<and>
        (case node_at P ''b'' of Some n \<Rightarrow> follower3 n | None \<Rightarrow> False)
    | None \<Rightarrow> False)"
  by code_simp

lemma run3_nodes:
  "reachable (\<lambda>_. True) cID config3 run3" "posted run3" "procs run3 ''a'' = Up (node3 ''a'')" "leader3 (node3 ''a'')"
  "procs run3 ''b'' = Up (node3 ''b'')" "follower3 (node3 ''b'')"
proof -
  obtain P where P: "procs3 script3 = Some P" using run3_eval by (auto split: option.splits)
  obtain c where c: "play3 script3 = Some c" "procs c = P" "reachable (\<lambda>_. True) cID config3 c" "posted c"
    by (rule play3_procs [OF P])
  have r: "run3 = c" by (simp add: run3_def c(1))
  obtain n m where n: "node_at P ''a'' = Some n" "leader3 n" and m: "node_at P ''b'' = Some m" "follower3 m"
    using run3_eval P by (auto split: option.splits)
  then have "procs c ''a'' = Up n" "procs c ''b'' = Up m" using c(2) node_at_up [of c] by auto
  then have "node3 ''a'' = n" "node3 ''b'' = m" using r by (simp_all add: node3_def up_def)
  then show "reachable (\<lambda>_. True) cID config3 run3" "posted run3" "procs run3 ''a'' = Up (node3 ''a'')" "leader3 (node3 ''a'')"
    "procs run3 ''b'' = Up (node3 ''b'')" "follower3 (node3 ''b'')"
    using r c n m \<open>procs c ''a'' = Up n\<close> \<open>procs c ''b'' = Up m\<close> by auto
qed

lemma run3_led: "(dTerm (state (node3 ''a'')), ''a'') \<in> led run3"
  using run3_nodes(2-4) unfolding posted_def leader3_def by blast

lemma run3_facts:
  "reachable (\<lambda>_. True) cID config3 run3" "(1, ''a'') \<in> led run3" "procs run3 ''a'' = Up (node3 ''a'')"
  "role (node3 ''a'') = Leader" "dCommit (state (node3 ''a'')) = 1" "dTerm (state (node3 ''a'')) = 1"
  "procs run3 ''b'' = Up (node3 ''b'')" "dVote (state (node3 ''b'')) = ''a''" "lastLocked (node3 ''b'') = 1"
  "failed (node3 ''a'') = None" "cID (cfg (node3 ''a'')) = ''a''" "\<exists>n'. reopen3 (node3 ''a'') = Some n' \<and> role n' = Follower"
  "dBase (state (node3 ''a'')) = 0" "\<exists>e. entryLocked (node3 ''a'') 1 = Some e \<and> eTerm e = 1"
  "\<exists>e. entryLocked (node3 ''b'') 1 = Some e \<and> eTerm e = 1"
  using run3_nodes(1,3-) run3_led unfolding leader3_def follower3_def by (auto split: option.splits)

lemma run3_reopened:
  obtains j n' where "sWal (store (node3 ''a'')) = Some j"
    "OpenWithRuntime (\<lambda>_. True) cID (at 9) True True (config3 ''a'') None j = Some (Inr n')" "role n' = Follower"
  using run3_facts(11,12) by (auto simp: reopen3_def split: sum.splits)

text \<open>The vote of \<open>b\<close> on its own.\<close>

definition votes3 :: "(string \<Rightarrow> proc) \<Rightarrow> bool" where
  "votes3 P \<longleftrightarrow> (case (node_at P ''a'', node_at P ''b'') of
     (Some n, Some k) \<Rightarrow>
       (case outbox n of
          m # _ \<Rightarrow> mTo m = ''b'' \<and>
            (case mVote m of
               Some req \<Rightarrow> (case RequestVote (at 5000000001) req k of Some ((resp, err), k') \<Rightarrow> Granted resp | None \<Rightarrow> False)
             | None \<Rightarrow> False)
        | [] \<Rightarrow> False)
   | _ \<Rightarrow> False)"

lemma votes3_eval:
  "(case procs3 (opening3 @ [Tick_at ''a'' (at 5000000000)]) of Some P \<Rightarrow> votes3 P | None \<Rightarrow> False)"
  by code_simp

lemma granted3:
  obtains c m req resp err where "reachable (\<lambda>_. True) cID config3 c" "(m, resp, err) \<in> vreplies c" "mVote m = Some req"
    "Granted resp" "mTo m = ''b''"
proof -
  obtain P where P: "procs3 (opening3 @ [Tick_at ''a'' (at 5000000000)]) = Some P" "votes3 P"
    using votes3_eval by (auto split: option.splits)
  obtain c where c: "procs c = P" "reachable (\<lambda>_. True) cID config3 c" "posted c" by (rule play3_procs [OF P(1)])
  obtain n k m ms req resp err k' where v: "node_at P ''a'' = Some n" "node_at P ''b'' = Some k" "outbox n = m # ms" "mTo m = ''b''"
    "mVote m = Some req" "RequestVote (at 5000000001) req k = Some ((resp, err), k')" "Granted resp"
    using P(2) unfolding votes3_def by (auto split: option.splits list.splits)
  have u: "procs c ''a'' = Up n" "procs c (mTo m) = Up k" using v(1,2,4) c(1) node_at_up [of c] by auto
  have w: "m \<in> wires c" using c(3) u(1) v(3) unfolding posted_def by (metis UnCI insertI1 list.set(2) subsetD)
  have "reachable (\<lambda>_. True) cID config3 ((put (mTo m) k' c)\<lparr>vreplies := insert (m, resp, err) (vreplies c)\<rparr>)"
    by (rule onward [OF c(2) serve_vote [OF w v(5) u(2) v(6)]])
  then show ?thesis by (rule that) (use v in auto)
qed

section \<open>A compacted log\<close>

text \<open>
  A single process that takes a snapshot after every entry: after its election and one command its log
  holds nothing but the base.
\<close>

definition config1 :: "string \<Rightarrow> Config" where
  "config1 i = \<lparr>cID = i, ClusterID = ''x'', Peers = [peerNamed ''a''], FixedLeader = [], ElectionMin = 0,
     ElectionMax = 0, Heartbeat = 0, RPCTimeout = 0, RequestTimeout = 0, SnapshotEvery = 1\<rparr>"

definition set_x :: Command where
  "set_x = \<lparr>ClientID = ''k'', RequestID = 1, Operation = ''SET'', Key = ''x'', Value = ''1'', Expected = []\<rparr>"

definition script1 :: "action list" where
  "script1 = [Restart_at ''a'' (at 0), Tick_at ''a'' (at 5000000000), Submit_at ''a'' (Some set_x) None (at 5000000001)]"

definition members1 :: "(string, Peer) fmap" where
  "members1 = (case check_peers (\<lambda>_. True) (Peers (config1 [])) fmempty {||} of Inr ps \<Rightarrow> ps | Inl _ \<Rightarrow> fmempty)"

lemma agreed1: "agreed (\<lambda>_. True) config1 members1 []"
  by (simp add: agreed_def members1_def config1_def peerNamed_def)

lemma script1_eval:
  "(case run_procs (\<lambda>_. True) cID config1 script1 (procs blank) of
      Some P \<Rightarrow> (case node_at P ''a'' of Some n \<Rightarrow> lastLocked n = 2 \<and> dBase (state n) = 2 \<and> availableLocked n | None \<Rightarrow> False)
    | None \<Rightarrow> False)"
  by code_simp

lemma compacted1:
  obtains c n where "reachable (\<lambda>_. True) cID config1 c" "procs c ''a'' = Up n" "lastLocked n = 2" "dBase (state n) = 2" "availableLocked n"
proof -
  obtain P n where P: "run_procs (\<lambda>_. True) cID config1 script1 (procs blank) = Some P" "node_at P ''a'' = Some n"
    "lastLocked n = 2" "dBase (state n) = 2" "availableLocked n"
    using script1_eval by (auto split: option.splits)
  obtain c where c: "procs c = P" "reachable (\<lambda>_. True) cID config1 c" by (rule played [OF P(1)])
  then have "procs c ''a'' = Up n" using P(2) node_at_up [of c] by auto
  then show ?thesis using that c(2) P(3-) by blast
qed

text \<open>
  The fixed leader of two processes, opened on a journal that was compacted at index 2, and its first append
  answered by the other member, opened on an empty disk.
\<close>

definition config2 :: "string \<Rightarrow> Config" where
  "config2 i = \<lparr>cID = i, ClusterID = ''x'', Peers = map peerNamed [''a'', ''b''], FixedLeader = ''a'', ElectionMin = 0,
     ElectionMax = 0, Heartbeat = 0, RPCTimeout = 0, RequestTimeout = 0, SnapshotEvery = 2\<rparr>"

definition compacted_disk :: "journalRecord journal" where
  "compacted_disk = Log \<lparr>lrecords = [\<lparr>jIdentity = ''a'', jTerm = 0, jVote = [], jCommit = 0, jFrom = 0, jEntries = [],
     jCheckpoint = Some \<lparr>ckIndex = 2, ckTerm = 1, ckMachine = zeroSnapshot, ckRaftTerm = 1, ckVote = ''a'', ckCommit = 2,
       ckLog = [\<lparr>eIndex = 2, eTerm = 1, eCommand = None\<rparr>]\<rparr>\<rparr>], lscript = [], lfailed = None\<rparr>"

definition empty_disk :: "journalRecord journal" where
  "empty_disk = Log \<lparr>lrecords = [], lscript = [], lfailed = None\<rparr>"

definition open2 :: "string \<Rightarrow> journalRecord journal \<Rightarrow> Node option" where
  "open2 i j = do {
     r \<leftarrow> OpenWithRuntime (\<lambda>_. True) cID (at 0) True True (config2 i) None j;
     (case r of Inl _ \<Rightarrow> None | Inr n \<Rightarrow> Some n) }"

definition refused2 :: "Node \<Rightarrow> Message \<Rightarrow> AppendRequest \<Rightarrow> AppendResponse \<Rightarrow> bool" where
  "refused2 n m req resp \<longleftrightarrow> mAppend m = Some req \<and> busy n (mTo m) = mSequence m \<and> availableLocked n \<and> role n = Leader \<and>
     dTerm (state n) = aqTerm req \<and> arTerm resp = aqTerm req \<and> \<not> Success resp \<and> 0 < PrevLogIndex req \<and> pID (peerOf n (mTo m)) = mTo m \<and>
     PrevLogIndex req \<le> lastLocked n \<and> max 1 (min (PrevLogIndex req) (ConflictIndex resp)) < dBase (state n)"

lemma refusal2_eval:
  "(case (open2 ''a'' compacted_disk, open2 ''b'' empty_disk) of
      (Some n, Some b) \<Rightarrow>
        (case outbox n of
           m # _ \<Rightarrow>
             (case mAppend m of
                Some req \<Rightarrow>
                  (case AppendEntries (at 1) req b of Some ((resp, err), b') \<Rightarrow> err = None \<and> refused2 n m req resp | None \<Rightarrow> False)
              | None \<Rightarrow> False)
         | [] \<Rightarrow> False)
    | _ \<Rightarrow> False)"
  by code_simp

lemma refusal2:
  obtains n b m req resp b' where "open2 ''a'' compacted_disk = Some n" "open2 ''b'' empty_disk = Some b" "m \<in> set (outbox n)"
    "mAppend m = Some req" "AppendEntries (at 1) req b = Some ((resp, None), b')" "refused2 n m req resp"
  using refusal2_eval by (auto split: option.split_asm list.split_asm) (metis list.set_intros(1))

lemma open2_inv: "open2 i j = Some n \<Longrightarrow> node_inv n"
  using Open_inv by (fastforce simp: open2_def split: sum.splits)

text \<open>The other member after it has heard from the leader.\<close>

definition hello2 :: AppendRequest where
  "hello2 = \<lparr>aqMessageID = [], aqClusterID = ''x'', aqTerm = 1, LeaderID = ''a'', PrevLogIndex = 0, PrevLogTerm = 0, aqEntries = [],
     LeaderCommit = 0\<rparr>"

lemma follower2_eval:
  "(case open2 ''b'' empty_disk of
      Some b \<Rightarrow>
        (case AppendEntries (at 1) hello2 b of
           Some (_, b') \<Rightarrow> role b' = Follower \<and> availableLocked b' \<and> leader b' = ''a'' \<and> ClientURL (peerOf b' ''a'') = ''ca''
         | None \<Rightarrow> False)
    | None \<Rightarrow> False)"
  by code_simp

lemma follower2:
  obtains b where "node_inv b" "role b = Follower" "availableLocked b" "leader b = ''a''" "ClientURL (peerOf b ''a'') = ''ca''"
proof -
  obtain b r b' where b: "open2 ''b'' empty_disk = Some b" "AppendEntries (at 1) hello2 b = Some (r, b')" "role b' = Follower"
    "availableLocked b'" "leader b' = ''a''" "ClientURL (peerOf b' ''a'') = ''ca''"
    using follower2_eval by (auto split: option.split_asm)
  have "step_ok b b'" using AppendEntries_step [of "at 1" hello2 b] b(2) by (cases r) auto
  then have "node_inv b'" using open2_inv [OF b(1)] by (simp add: step_ok_def weak_ok_def)
  then show ?thesis using that b(3-) by blast
qed

end
