(* ===== verification/Transport.thy ===== *)
theory Transport
  imports Http Scenario
begin

text \<open>
  The transport between nodes, \<^verbatim>\<open>internal/transport/http.go\<close>: the client side that turns a call into a request
  and a reply into a response or an error, and the server side that decodes the request, calls the node and encodes what it
  returns.

  Bodies are texts, cut where the code cuts them: the server reads at most 16 MiB of a request, the client at most 1 MiB of a
  reply.  What \<open>encoding/json\<close> makes of the requests and of the texts is the argument \<open>Codec\<close>; the replies, which are made of
  numbers and truth values only, are written out.
\<close>

section \<open>Messages on the wire\<close>

datatype rpcJSON = VoteJSON VoteRequest | AppendJSON AppendRequest

text \<open>
  \<open>Marshal\<close> is \<open>json.Marshal\<close> of a request and \<open>ErrorText\<close> the encoding of the object with an error's text.
  \<open>NextVote\<close> and \<open>NextAppend\<close> are \<open>Decode\<close> of a decoder that refuses unknown fields, on the bytes it can read: the value and the
  bytes behind it, or \<open>None\<close> when they do not start with a complete document of the type.  \<open>ReadVote\<close> and \<open>ReadAppend\<close> decode
  a reply: what has been stored in the output, and the error.
\<close>

record Codec =
  Marshal :: "rpcJSON \<Rightarrow> gerror + string"
  ErrorText :: "gerror \<Rightarrow> string"
  NextVote :: "string \<Rightarrow> (VoteRequest \<times> string) option"
  NextAppend :: "string \<Rightarrow> (AppendRequest \<times> string) option"
  ReadVote :: "string \<Rightarrow> VoteResponse \<times> gerror option"
  ReadAppend :: "string \<Rightarrow> AppendResponse \<times> gerror option"

text \<open>The limits: \<open>16<<20\<close> and \<open>1<<20\<close> bytes.\<close>

definition request_limit :: nat where
  "request_limit = 16 * 2 ^ 20"

definition reply_limit :: nat where
  "reply_limit = 2 ^ 20"

text \<open>What \<open>http.Client.Do\<close> gives: an error, or a status and a body.\<close>

type_synonym 's network = "string \<Rightarrow> string Request \<Rightarrow> 's \<Rightarrow> ((gerror + nat \<times> string) \<times> 's) option"

definition zeroVote :: VoteResponse where
  "zeroVote = \<lparr>vrTerm = 0, Granted = False\<rparr>"

definition zeroAppend :: AppendResponse where
  "zeroAppend = \<lparr>arTerm = 0, Success = False, MatchIndex = 0, ConflictIndex = 0\<rparr>"

section \<open>The texts of the replies\<close>

text \<open>A member of a JSON object, and the two responses as \<open>json.NewEncoder(w).Encode\<close> writes them (with the newline).\<close>

definition json_field :: "string \<Rightarrow> string \<Rightarrow> string" where
  "json_field name v = CHR 0x22 # name @ CHR 0x22 # CHR '':'' # v"

definition json_bool :: "bool \<Rightarrow> string" where
  "json_bool b = (if b then ''true'' else ''false'')"

definition json_u64 :: "u64 \<Rightarrow> string" where
  "json_u64 x = decimal (unat x)"

definition vote_text :: "VoteResponse \<Rightarrow> string" where
  "vote_text v = ''{'' @ json_field ''term'' (json_u64 (vrTerm v)) @ '','' @ json_field ''voteGranted'' (json_bool (Granted v)) @ ''}'' @ [CHR 0x0A]"

definition append_text :: "AppendResponse \<Rightarrow> string" where
  "append_text a =
     ''{'' @ json_field ''term'' (json_u64 (arTerm a)) @ '','' @ json_field ''success'' (json_bool (Success a)) @ '','' @
     json_field ''matchIndex'' (decimal (MatchIndex a)) @ '','' @ json_field ''conflictIndex'' (decimal (ConflictIndex a)) @ ''}'' @ [CHR 0x0A]"

section \<open>Client side\<close>

text \<open>The two headers, from the type switch on the input.\<close>

definition rpc_header :: "rpcJSON \<Rightarrow> string \<Rightarrow> string" where
  "rpc_header input h =
     (if h = ''Content-Type'' then ''application/json''
      else if h = ''X-ShardZero-From'' then (case input of VoteJSON r \<Rightarrow> CandidateID r | AppendJSON r \<Rightarrow> LeaderID r)
      else if h = ''X-ShardZero-Message'' then (case input of VoteJSON r \<Rightarrow> vqMessageID r | AppendJSON r \<Rightarrow> aqMessageID r)
      else [])"

definition rpc_request :: "string list \<Rightarrow> rpcJSON \<Rightarrow> string \<Rightarrow> string Request" where
  "rpc_request path input b =
     \<lparr>qMethod = ''POST'', qPath = path, qRawQuery = [], qQuery = (\<lambda>_. []), qHeader = rpc_header input, qBody = b\<rparr>"

text \<open>
  \<open>read\<close> decodes the reply into the output and \<open>zero\<close> is the output before.  \<open>bad\<close> is the error of
  \<open>http.NewRequestWithContext\<close> on a URL, if any.
\<close>

definition call ::
  "Codec \<Rightarrow> (string \<Rightarrow> gerror option) \<Rightarrow> 's network \<Rightarrow> Peer \<Rightarrow> string list \<Rightarrow> rpcJSON \<Rightarrow> (string \<Rightarrow> 'o \<times> gerror option) \<Rightarrow> 'o \<Rightarrow> 's \<Rightarrow>
     (('o \<times> gerror option) \<times> 's) option" where
  "call J bad net peer path input read zero s =
     (case Marshal J input of
        Inl e \<Rightarrow> Some ((zero, Some e), s)
      | Inr b \<Rightarrow>
          (case bad (PeerURL peer @ path_text path) of
             Some e \<Rightarrow> Some ((zero, Some e), s)
           | None \<Rightarrow>
               do {
                 (out, s') \<leftarrow> net (PeerURL peer) (rpc_request path input b) s;
                 Some (case out of
                         Inl e \<Rightarrow> ((zero, Some e), s')
                       | Inr (status, reply) \<Rightarrow>
                           if status \<noteq> 200 then ((zero, Some (ErrText ''peer returned'')), s')
                           else (read (take reply_limit reply), s'))
               }))"

definition HTTP_RequestVote ::
  "Codec \<Rightarrow> (string \<Rightarrow> gerror option) \<Rightarrow> 's network \<Rightarrow> Peer \<Rightarrow> VoteRequest \<Rightarrow> 's \<Rightarrow> ((VoteResponse \<times> gerror option) \<times> 's) option" where
  "HTTP_RequestVote J bad net p r = call J bad net p [''raft'', ''vote''] (VoteJSON r) (ReadVote J) zeroVote"

definition HTTP_AppendEntries ::
  "Codec \<Rightarrow> (string \<Rightarrow> gerror option) \<Rightarrow> 's network \<Rightarrow> Peer \<Rightarrow> AppendRequest \<Rightarrow> 's \<Rightarrow> ((AppendResponse \<times> gerror option) \<times> 's) option" where
  "HTTP_AppendEntries J bad net p r = call J bad net p [''raft'', ''append''] (AppendJSON r) (ReadAppend J) zeroAppend"

section \<open>Server side\<close>

definition http_error :: "nat \<Rightarrow> string \<Rightarrow> string Reply" where
  "http_error status t = \<lparr>rpStatus = status, rpHeaders = [(''Content-Type'', ''text/plain; charset=utf-8'')], rpBody = t @ [CHR 0x0A]\<rparr>"

text \<open>
  The second \<open>Decode\<close> reports \<open>io.EOF\<close> exactly when only white space is left and the body ended there; at the limit the
  reader reports an error of its own instead.
\<close>

definition json_space :: "char \<Rightarrow> bool" where
  "json_space c \<longleftrightarrow> c = CHR '' '' \<or> c = CHR 0x09 \<or> c = CHR 0x0A \<or> c = CHR 0x0D"

definition decode :: "(string \<Rightarrow> ('r \<times> string) option) \<Rightarrow> string \<Rightarrow> string Reply + 'r" where
  "decode nextValue body =
     (case MaxBytesReader request_limit body of
        (readable, complete) \<Rightarrow>
          (case nextValue readable of
             None \<Rightarrow> Inl (http_error 400 ''invalid RPC'')
           | Some (v, left) \<Rightarrow>
               if list_all json_space left \<and> complete then Inr v else Inl (http_error 400 ''trailing RPC data'')))"

definition reply :: "Codec \<Rightarrow> string \<Rightarrow> gerror option \<Rightarrow> string Reply" where
  "reply J out err =
     (case err of
        Some e \<Rightarrow> \<lparr>rpStatus = 503, rpHeaders = [(''Content-Type'', ''application/json'')], rpBody = ErrorText J e\<rparr>
      | None \<Rightarrow> \<lparr>rpStatus = 200, rpHeaders = [(''Content-Type'', ''application/json'')], rpBody = out\<rparr>)"

datatype rpc_endpoint = VoteRoute | AppendRoute

definition rpc_routes :: "(string \<times> pattern_segment list \<times> rpc_endpoint) list" where
  "rpc_routes =
     [(''POST'', [Literal ''raft'', Literal ''vote''], VoteRoute),
      (''POST'', [Literal ''raft'', Literal ''append''], AppendRoute)]"

text \<open>The redirect of a path that is not clean is not followed by the peers; it is an answer with status 301.\<close>

definition Handler_raft :: "Codec \<Rightarrow> Env \<Rightarrow> string Request \<Rightarrow> Node \<Rightarrow> (string Reply \<times> Node) option" where
  "Handler_raft J en r n =
     (case route rpc_routes (qMethod r) (qPath r) of
        Moved p \<Rightarrow> Some (\<lparr>rpStatus = 301, rpHeaders = [(''Location'', path_text p)], rpBody = []\<rparr>, n)
      | MuxError k \<Rightarrow> Some (http_error k [], n)
      | Found VoteRoute _ \<Rightarrow>
          (case decode (NextVote J) (qBody r) of
             Inl e \<Rightarrow> Some (e, n)
           | Inr req \<Rightarrow> do { ((out, err), n') \<leftarrow> RequestVote en req n; Some (reply J (vote_text out) err, n') })
      | Found AppendRoute _ \<Rightarrow>
          (case decode (NextAppend J) (qBody r) of
             Inl e \<Rightarrow> Some (e, n)
           | Inr req \<Rightarrow> do { ((out, err), n') \<leftarrow> AppendEntries en req n; Some (reply J (append_text out) err, n') }))"

text \<open>A network that reaches the node's handler.\<close>

definition direct :: "Codec \<Rightarrow> Env \<Rightarrow> Node network" where
  "direct J en url r n = do { (rep, n') \<leftarrow> Handler_raft J en r n; Some (Inr (rpStatus rep, rpBody rep), n') }"

section \<open>Texts and limits\<close>

lemma decimal_length: "n < 10 ^ Suc k \<Longrightarrow> length (decimal n) \<le> Suc k"
proof (induction k arbitrary: n)
  case 0
  then show ?case by (subst decimal.simps) simp
next
  case (Suc k)
  have "length (decimal (n div 10)) \<le> Suc k" using Suc.prems by (intro Suc.IH) (simp add: less_mult_imp_div_less)
  then show ?case by (subst decimal.simps) simp
qed

lemma decimal_fits: "n < 2 ^ 64 \<Longrightarrow> length (decimal n) \<le> 20"
  using decimal_length [of n 19] by simp

lemma json_u64_fits: "length (json_u64 x) \<le> 20"
  using unsigned_less [of x, where 'a = nat] by (simp add: json_u64_def decimal_fits)

text \<open>
  The replies of a node are far below the client's limit, which therefore cuts none of them, as long as the indices fit into the 64 bits
  they have in the code.
\<close>

definition fits64 :: "AppendResponse \<Rightarrow> bool" where
  "fits64 a \<longleftrightarrow> MatchIndex a < 2 ^ 64 \<and> ConflictIndex a < 2 ^ 64"

lemma vote_text_fits: "take reply_limit (vote_text v) = vote_text v"
proof -
  have "length (vote_text v) \<le> 1000" using json_u64_fits [of "vrTerm v"] by (simp add: vote_text_def json_field_def json_bool_def)
  then show ?thesis by (simp add: reply_limit_def)
qed

lemma append_text_fits: "fits64 a \<Longrightarrow> take reply_limit (append_text a) = append_text a"
proof -
  assume "fits64 a"
  then have "length (decimal (MatchIndex a)) \<le> 20" "length (decimal (ConflictIndex a)) \<le> 20" by (simp_all add: fits64_def decimal_fits)
  then have "length (append_text a) \<le> 1000" using json_u64_fits [of "arTerm a"] by (simp add: append_text_def json_field_def json_bool_def)
  then show ?thesis by (simp add: reply_limit_def)
qed

text \<open>
  What \<open>encoding/json\<close> documents of the text of an object: it decodes to the value it was made from, with nothing left, and no
  proper prefix of it is a complete document.
\<close>

definition one_document :: "(string \<Rightarrow> ('r \<times> string) option) \<Rightarrow> string \<Rightarrow> 'r \<Rightarrow> bool" where
  "one_document nextValue t r \<longleftrightarrow> nextValue t = Some (r, []) \<and> (\<forall>k < length t. nextValue (take k t) = None)"

lemma decode_document:
  assumes "one_document nextValue t r"
  shows "decode nextValue t = (if length t \<le> request_limit then Inr r else Inl (http_error 400 ''invalid RPC''))"
  using assms by (simp add: one_document_def decode_def MaxBytesReader_def)

section \<open>Properties\<close>

lemma rpc_route:
  "route rpc_routes ''POST'' [''raft'', ''vote''] = Found VoteRoute []" "route rpc_routes ''POST'' [''raft'', ''append''] = Found AppendRoute []"
  by code_simp+

lemma reply_sel: "rpStatus (reply J out err) = (if err = None then 200 else 503)" "err = None \<Longrightarrow> rpBody (reply J out err) = out"
  by (auto simp: reply_def split: option.splits)

lemma http_error_status: "rpStatus (http_error k t) = k"
  by (simp add: http_error_def)

lemmas wire_simps = call_def direct_def Handler_raft_def rpc_request_def rpc_route decode_document reply_sel http_error_status vote_text_fits append_text_fits

text \<open>
  C17.  A call over HTTP is the call itself: when the network reaches the handler of a node, a remote vote or append request whose text
  has at most 16 MiB runs the node's function exactly once on exactly the request given, and returns exactly its response if it had
  no error, and an error with an empty response otherwise.  A longer request is refused: the caller gets an error and the node is not run.
  The limit on the replies cuts none of them.  Of \<open>encoding/json\<close> it uses that the text of a request is one document that decodes to the
  request, and that a response decodes from its text; the indices in the response fit into 64 bits, as they do in the code.
\<close>

theorem http_call_is_direct_call:
  assumes "bad (PeerURL p @ ''/raft/vote'') = None" "bad (PeerURL p @ ''/raft/append'') = None"
    and "Marshal J (VoteJSON vq) = Inr vt" "one_document (NextVote J) vt vq"
    and "Marshal J (AppendJSON aq) = Inr xt" "one_document (NextAppend J) xt aq"
    and "\<And>v. ReadVote J (vote_text v) = (v, None)" "\<And>a. ReadAppend J (append_text a) = (a, None)"
    and "\<And>out n'. AppendEntries en aq n = Some ((out, None), n') \<Longrightarrow> fits64 out"
  shows "HTTP_RequestVote J bad (direct J en) p vq n =
      (if length vt \<le> 16 * 2 ^ 20
       then map_option (\<lambda>((out, err), n'). (if err = None then (out, None) else (zeroVote, Some (ErrText ''peer returned'')), n')) (RequestVote en vq n)
       else Some ((zeroVote, Some (ErrText ''peer returned'')), n)) \<and>
    HTTP_AppendEntries J bad (direct J en) p aq n =
      (if length xt \<le> 16 * 2 ^ 20
       then map_option (\<lambda>((out, err), n'). (if err = None then (out, None) else (zeroAppend, Some (ErrText ''peer returned'')), n')) (AppendEntries en aq n)
       else Some ((zeroAppend, Some (ErrText ''peer returned'')), n))"
proof -
  have b: "bad (PeerURL p @ path_text [''raft'', ''vote'']) = None" "bad (PeerURL p @ path_text [''raft'', ''append'']) = None"
    using assms(1,2) by (simp_all add: path_text_def)
  have "HTTP_RequestVote J bad (direct J en) p vq n =
      (if length vt \<le> request_limit
       then map_option (\<lambda>((out, err), n'). (if err = None then (out, None) else (zeroVote, Some (ErrText ''peer returned'')), n')) (RequestVote en vq n)
       else Some ((zeroVote, Some (ErrText ''peer returned'')), n))"
    using b(1) assms(3,4,7) by (cases "RequestVote en vq n") (auto simp: HTTP_RequestVote_def wire_simps)
  moreover have "HTTP_AppendEntries J bad (direct J en) p aq n =
      (if length xt \<le> request_limit
       then map_option (\<lambda>((out, err), n'). (if err = None then (out, None) else (zeroAppend, Some (ErrText ''peer returned'')), n')) (AppendEntries en aq n)
       else Some ((zeroAppend, Some (ErrText ''peer returned'')), n))"
    using b(2) assms(5,6,8,9) by (cases "AppendEntries en aq n") (auto simp: HTTP_AppendEntries_def wire_simps)
  ultimately show ?thesis by (simp add: request_limit_def)
qed

section \<open>A concrete codec\<close>

text \<open>The numbers of a text, and the replies read back from the text they are printed as.\<close>

definition is_digit :: "char \<Rightarrow> bool" where
  "is_digit c \<longleftrightarrow> 48 \<le> (of_char c :: nat) \<and> (of_char c :: nat) \<le> 57"

definition text_number :: "string \<Rightarrow> nat" where
  "text_number s = foldl (\<lambda>a c. 10 * a + (of_char c - 48)) 0 s"

primrec text_numbers :: "nat \<Rightarrow> string \<Rightarrow> nat list" where
  "text_numbers 0 t = []"
| "text_numbers (Suc k) t =
     (let d = dropWhile (\<lambda>c. \<not> is_digit c) t in text_number (takeWhile is_digit d) # text_numbers k (dropWhile is_digit d))"

definition exReadVote :: "string \<Rightarrow> VoteResponse \<times> gerror option" where
  "exReadVote t = (let v = \<lparr>vrTerm = of_nat (text_numbers 1 t ! 0), Granted = True\<rparr> in (v\<lparr>Granted := (t = vote_text v)\<rparr>, None))"

definition exReadAppend :: "string \<Rightarrow> AppendResponse \<times> gerror option" where
  "exReadAppend t =
     (let ns = text_numbers 3 t; a = \<lparr>arTerm = of_nat (ns ! 0), Success = True, MatchIndex = ns ! 1, ConflictIndex = ns ! 2\<rparr>
      in (a\<lparr>Success := (t = append_text a)\<rparr>, None))"

lemma digit_char_digit: "d < 10 \<Longrightarrow> is_digit (digit_char d) \<and> of_char (digit_char d) - 48 = d"
  by (simp add: is_digit_def digit_char_def)

lemma decimal_number: "decimal n \<noteq> [] \<and> list_all is_digit (decimal n) \<and> text_number (decimal n) = n"
proof (induction n rule: decimal.induct)
  case (1 n)
  show ?case
  proof (cases "n < 10")
    case True
    then show ?thesis using digit_char_digit [of n] by (subst (1 2 3) decimal.simps) (simp add: text_number_def)
  next
    case False
    then show ?thesis using 1 digit_char_digit [of "n mod 10"] by (subst (1 2 3) decimal.simps) (simp add: text_number_def)
  qed
qed

lemma numbers_step:
  assumes "list_all (\<lambda>c. \<not> is_digit c) xs" "ys \<noteq> []" "\<not> is_digit (hd ys)"
  shows "text_numbers (Suc k) (xs @ decimal n @ ys) = n # text_numbers k ys"
proof -
  have d: "decimal n \<noteq> []" "\<forall>c \<in> set (decimal n). is_digit c" "text_number (decimal n) = n" using decimal_number [of n] by (auto simp: list_all_iff)
  obtain c cs where c: "decimal n = c # cs" using d(1) by (cases "decimal n") auto
  obtain y ys' where y: "ys = y # ys'" using assms(2) by (cases ys) auto
  have "dropWhile (\<lambda>c. \<not> is_digit c) (xs @ decimal n @ ys) = decimal n @ ys"
    using assms(1) d(2) by (simp add: dropWhile_append2 list_all_iff c)
  moreover have "takeWhile is_digit (decimal n @ ys) = decimal n" "dropWhile is_digit (decimal n @ ys) = ys"
    using d(2) assms(3) by (simp_all add: takeWhile_append2 dropWhile_append2 y)
  ultimately show ?thesis using d(3) by (simp add: Let_def)
qed

lemma exReadVote_text: "exReadVote (vote_text v) = (v, None)"
proof -
  have "text_numbers 1 (vote_text v) = [unat (vrTerm v)]"
    using numbers_step [of "''{'' @ CHR 0x22 # ''term'' @ [CHR 0x22, CHR '':'']" "'','' @ json_field ''voteGranted'' (json_bool (Granted v)) @ ''}'' @ [CHR 0x0A]" 0 "unat (vrTerm v)"]
    by (simp add: vote_text_def json_field_def json_u64_def is_digit_def numeral_eq_Suc)
  then show ?thesis by (cases v) (auto simp: exReadVote_def vote_text_def json_field_def json_bool_def Let_def)
qed

lemma append_numbers: "text_numbers 3 (append_text a) = [unat (arTerm a), MatchIndex a, ConflictIndex a]"
proof -
  let ?e = "''}'' @ [CHR 0x0A]"
  let ?c = "'','' @ CHR 0x22 # ''conflictIndex'' @ [CHR 0x22, CHR '':'']"
  let ?m = "'','' @ json_field ''success'' (json_bool (Success a)) @ '','' @ CHR 0x22 # ''matchIndex'' @ [CHR 0x22, CHR '':'']"
  let ?t = "''{'' @ CHR 0x22 # ''term'' @ [CHR 0x22, CHR '':'']"
  let ?x = "?c @ decimal (ConflictIndex a) @ ?e"
  let ?y = "?m @ decimal (MatchIndex a) @ ?x"
  have "text_numbers 1 ?x = [ConflictIndex a]"
    using numbers_step [of ?c ?e 0] by (simp add: is_digit_def numeral_eq_Suc)
  moreover have "text_numbers 2 ?y = MatchIndex a # text_numbers 1 ?x"
    using numbers_step [of ?m ?x 1] by (simp add: is_digit_def json_field_def json_bool_def numeral_eq_Suc del: text_numbers.simps)
  moreover have "text_numbers 3 (?t @ decimal (unat (arTerm a)) @ ?y) = unat (arTerm a) # text_numbers 2 ?y"
    using numbers_step [of ?t ?y 2] by (simp add: is_digit_def numeral_eq_Suc del: text_numbers.simps)
  moreover have "append_text a = ?t @ decimal (unat (arTerm a)) @ ?y" by (simp add: append_text_def json_field_def json_u64_def)
  ultimately show ?thesis by (simp only:)
qed

lemma append_text_success: "append_text a = append_text (a\<lparr>Success := True\<rparr>) \<longleftrightarrow> Success a"
  by (simp add: append_text_def json_field_def json_bool_def)

lemma exReadAppend_text: "exReadAppend (append_text a) = (a, None)"
proof -
  have "exReadAppend (append_text a) = (let b = a\<lparr>Success := True\<rparr> in (b\<lparr>Success := (append_text a = append_text b)\<rparr>, None))"
    by (cases a) (simp add: exReadAppend_def append_numbers)
  then show ?thesis by (simp add: append_text_success Let_def)
qed

text \<open>A codec for two requests, printed as in the code.\<close>

definition exVote :: VoteRequest where
  "exVote = \<lparr>vqMessageID = [], vqClusterID = ''x'', vqTerm = 1, CandidateID = ''a'', LastLogIndex = 0, LastLogTerm = 0\<rparr>"

definition exAppend :: AppendRequest where
  "exAppend = \<lparr>aqMessageID = [], aqClusterID = ''x'', aqTerm = 1, LeaderID = ''a'', PrevLogIndex = 0, PrevLogTerm = 0, aqEntries = [], LeaderCommit = 0\<rparr>"

definition exText :: "rpcJSON \<Rightarrow> string" where
  "exText input =
     (case input of
        VoteJSON r \<Rightarrow>
          ''{'' @ json_field ''clusterId'' (CHR 0x22 # vqClusterID r @ [CHR 0x22]) @ '','' @ json_field ''term'' (json_u64 (vqTerm r)) @ '','' @
          json_field ''candidateId'' (CHR 0x22 # CandidateID r @ [CHR 0x22]) @ '','' @ json_field ''lastLogIndex'' (decimal (LastLogIndex r)) @ '','' @
          json_field ''lastLogTerm'' (json_u64 (LastLogTerm r)) @ ''}''
      | AppendJSON r \<Rightarrow>
          ''{'' @ json_field ''clusterId'' (CHR 0x22 # aqClusterID r @ [CHR 0x22]) @ '','' @ json_field ''term'' (json_u64 (aqTerm r)) @ '','' @
          json_field ''leaderId'' (CHR 0x22 # LeaderID r @ [CHR 0x22]) @ '','' @ json_field ''prevLogIndex'' (decimal (PrevLogIndex r)) @ '','' @
          json_field ''prevLogTerm'' (json_u64 (PrevLogTerm r)) @ '','' @ json_field ''entries'' ''[]'' @ '','' @
          json_field ''leaderCommit'' (decimal (LeaderCommit r)) @ ''}'')"

definition exCodec :: Codec where
  "exCodec =
     \<lparr>Marshal = (\<lambda>input. Inr (exText input)), ErrorText = (\<lambda>_. ''{}''),
      NextVote = (\<lambda>t. if t = exText (VoteJSON exVote) then Some (exVote, []) else None),
      NextAppend = (\<lambda>t. if t = exText (AppendJSON exAppend) then Some (exAppend, []) else None),
      ReadVote = exReadVote, ReadAppend = exReadAppend\<rparr>"

lemma proper_prefix: "k < length t \<Longrightarrow> take k t \<noteq> t"
  by (metis length_take less_irrefl min.absorb4)

lemma exCodec_documents: "one_document (NextVote exCodec) (exText (VoteJSON exVote)) exVote" "one_document (NextAppend exCodec) (exText (AppendJSON exAppend)) exAppend"
  by (simp_all add: one_document_def exCodec_def proper_prefix)

definition exNode :: Node where
  "exNode = (case OpenWithRuntime (\<lambda>_. True) cID (at 0) True True (config3 ''b'') None (Log \<lparr>lrecords = [], lscript = [], lfailed = None\<rparr>) of Some (Inr n) \<Rightarrow> n)"

lemma exAppend_answer:
  "map_option (\<lambda>(r, n). r) (AppendEntries (at 1) exAppend exNode) =
     Some (\<lparr>arTerm = 1, Success = True, MatchIndex = 0, ConflictIndex = 0\<rparr>, None)"
  by code_simp

lemma exVote_answer: "map_option (\<lambda>(r, n). r) (RequestVote (at 1) exVote exNode) = Some (\<lparr>vrTerm = 1, Granted = True\<rparr>, None)"
  by code_simp

lemma exText_fit: "length (exText (VoteJSON exVote)) \<le> 16 * 2 ^ 20" "length (exText (AppendJSON exAppend)) \<le> 16 * 2 ^ 20"
  by code_simp+

text \<open>Both requests reach a freshly opened follower, which grants the vote and accepts the empty append.\<close>

theorem http_call_is_direct_call_witness:
  "map_option fst (HTTP_RequestVote exCodec (\<lambda>_. None) (direct exCodec (at 1)) (peerNamed ''b'') exVote exNode) =
     Some (\<lparr>vrTerm = 1, Granted = True\<rparr>, None) \<and>
   map_option fst (HTTP_AppendEntries exCodec (\<lambda>_. None) (direct exCodec (at 1)) (peerNamed ''b'') exAppend exNode) =
     Some (\<lparr>arTerm = 1, Success = True, MatchIndex = 0, ConflictIndex = 0\<rparr>, None)"
proof -
  obtain n1 n2 where a: "AppendEntries (at 1) exAppend exNode = Some ((\<lparr>arTerm = 1, Success = True, MatchIndex = 0, ConflictIndex = 0\<rparr>, None), n1)"
      "RequestVote (at 1) exVote exNode = Some ((\<lparr>vrTerm = 1, Granted = True\<rparr>, None), n2)"
    using exAppend_answer exVote_answer by auto
  then show ?thesis
    using http_call_is_direct_call [of "\<lambda>_. None" "peerNamed ''b''" exCodec exVote "exText (VoteJSON exVote)" exAppend "exText (AppendJSON exAppend)" "at 1" exNode]
      exCodec_documents exText_fit by (simp add: fits64_def exCodec_def exReadVote_text exReadAppend_text)
qed

end
