(* ===== verification/Client.thy ===== *)
theory Client
  imports Http "HOL-Library.Multiset"
begin

text \<open>
  The cluster client, \<^verbatim>\<open>internal/cluster/client.go\<close>: the list of known servers, the choice of the next one, the bounded
  retry loop \<open>Do\<close> and the discovery of further servers.

  What the network and the clock answer is an argument, the record \<open>World\<close>: for every attempt and target an arbitrary outcome.  The
  test on a parsed URL is the argument \<open>validOrigin\<close>; \<open>parseURL\<close> gives the scheme and the host of a redirect's
  location.  The model also returns the list of requests sent, those for status pages included.
\<close>

section \<open>State\<close>

record Response =
  StatusCode :: nat
  Body :: string
  Server :: string

record Client =
  servers :: "string list"
  preferred :: string
  discovered :: "string fset"

definition zeroResponse :: Response where
  "zeroResponse = \<lparr>StatusCode = 0, Body = [], Server = []\<rparr>"

definition add :: "string \<Rightarrow> Client \<Rightarrow> Client" where
  "add server c = (if server \<in> set (servers c) then c else c\<lparr>servers := servers c @ [server]\<rparr>)"

text \<open>The first position of \<open>x\<close>, and the swap of the preferred server to the front.\<close>

primrec position :: "'a \<Rightarrow> 'a list \<Rightarrow> nat option" where
  "position x [] = None"
| "position x (y # ys) = (if y = x then Some 0 else map_option Suc (position x ys))"

definition addresses :: "Client \<Rightarrow> string list" where
  "addresses c =
     (if preferred c = [] then servers c
      else
        (case position (preferred c) (servers c) of
           None \<Rightarrow> servers c
         | Some i \<Rightarrow> (servers c)[0 := servers c ! i, i := servers c ! 0]))"

text \<open>\<open>strings.TrimSpace\<close> (on ASCII) and \<open>strings.TrimRight(_, "/")\<close>.\<close>

definition space :: "char \<Rightarrow> bool" where
  "space c \<longleftrightarrow> (of_char c :: nat) \<in> {9, 10, 11, 12, 13, 32}"

definition TrimSpace :: "string \<Rightarrow> string" where
  "TrimSpace s = rev (dropWhile space (rev (dropWhile space s)))"

definition TrimSlash :: "string \<Rightarrow> string" where
  "TrimSlash s = rev (dropWhile (\<lambda>c. c = CHR ''/'') (rev s))"

primrec add_all :: "(string \<Rightarrow> bool) \<Rightarrow> string list \<Rightarrow> Client \<Rightarrow> gerror + Client" where
  "add_all validOrigin [] c = Inr c"
| "add_all validOrigin (s # ss) c =
     (let server = TrimSlash (TrimSpace s) in
      if \<not> validOrigin server then Inl (ErrText ''invalid server URL'') else add_all validOrigin ss (add server c))"

definition New_Client :: "(string \<Rightarrow> bool) \<Rightarrow> string list \<Rightarrow> gerror + Client" where
  "New_Client validOrigin ss =
     (case add_all validOrigin ss \<lparr>servers = [], preferred = [], discovered = {||}\<rparr> of
        Inl e \<Rightarrow> Inl e
      | Inr c \<Rightarrow> if servers c = [] then Inl (ErrText ''at least one server is required'') else Inr c)"

section \<open>The outside world\<close>

datatype outcome = ConnError gerror | ReadError gerror | Replied nat string string

datatype statusOutcome = StatusFails | StatusReplied nat "string list option"

text \<open>
  By attempt: whether the context has ended when the attempt starts, and while the client waits before the next one; what a request
  to a target gives (with status, location and body), and what its status page gives (with the client URLs of the peers, if it decodes).
\<close>

record World =
  ctxErr :: "nat \<Rightarrow> gerror option"
  newErr :: "string \<Rightarrow> gerror option"
  send :: "nat \<Rightarrow> string \<Rightarrow> outcome"
  statusOf :: "nat \<Rightarrow> string \<Rightarrow> statusOutcome"
  waitErr :: "nat \<Rightarrow> gerror option"

record Origins =
  validOrigin :: "string \<Rightarrow> bool"
  parseURL :: "string \<Rightarrow> (string \<times> string) option"

section \<open>Discovery and the retry loop\<close>

text \<open>
  A request that was sent: a request of the caller to a server, with method, path and body, or the \<open>GET /v1/status\<close> of the discovery.
\<close>

datatype sentRequest = Sent (asked: string) string string string | StatusGet (asked: string)

fun main_request :: "sentRequest \<Rightarrow> bool" where
  "main_request (Sent _ _ _ _) \<longleftrightarrow> True"
| "main_request (StatusGet _) \<longleftrightarrow> False"

text \<open>The client afterwards, and the request sent, if any.\<close>

definition discover :: "Origins \<Rightarrow> World \<Rightarrow> nat \<Rightarrow> string \<Rightarrow> Client \<Rightarrow> Client \<times> sentRequest list" where
  "discover og w attempt server c =
     (if server |\<in>| discovered c then (c, [])
      else if newErr w (server @ ''/v1/status'') \<noteq> None then (c, [])
      else
        ((case statusOf w attempt server of
            StatusFails \<Rightarrow> c
          | StatusReplied code peers \<Rightarrow>
              if code \<noteq> 200 then c
              else
                (case peers of
                   None \<Rightarrow> c
                 | Some urls \<Rightarrow>
                     (let c1 = fold (\<lambda>u c. if validOrigin og u then add u c else c) urls c
                      in c1\<lparr>discovered := finsert server (discovered c1)\<rparr>))),
         [StatusGet server]))"

definition redirect_origin :: "Origins \<Rightarrow> string \<Rightarrow> string" where
  "redirect_origin og location =
     (case parseURL og location of
        None \<Rightarrow> []
      | Some (scheme, host) \<Rightarrow> (let origin = scheme @ ''://'' @ host in if validOrigin og origin then origin else []))"

text \<open>
  One attempt: the final response with the client and what the discovery sent, or what the loop goes on with: the client, the redirect, the response
  and the error.  At most 16 MiB of an answer are read.
\<close>

definition answer_limit :: nat where
  "answer_limit = 16 * 2 ^ 20"

definition try_once ::
  "Origins \<Rightarrow> World \<Rightarrow> nat \<Rightarrow> string \<Rightarrow> Response \<Rightarrow> Client \<Rightarrow> (Response \<times> Client \<times> sentRequest list) + (Client \<times> string \<times> Response \<times> gerror)" where
  "try_once og w attempt target response c =
     (case send w attempt target of
        ConnError e \<Rightarrow> Inr (c, [], response, e)
      | ReadError e \<Rightarrow> Inr (c, [], response, e)
      | Replied code location body \<Rightarrow>
          (let response' = \<lparr>StatusCode = code, Body = take answer_limit body, Server = target\<rparr>;
               err = ErrText ''server returned HTTP''
           in if code = 307 \<or> code = 308 then
                (let redirect = redirect_origin og location
                 in Inr (if redirect = [] then c else add redirect c, redirect, response', err))
              else if code \<noteq> 503 then
                (let c1 = c\<lparr>preferred := target\<rparr>
                 in Inl (response', if code < 300 then discover og w attempt target c1 else (c1, [])))
              else Inr (c, [], response', err)))"

text \<open>The target of the next attempt: the redirect on even attempts, else the next address in turn.  \<open>None\<close> is a panic: no address.\<close>

definition next_target :: "Client \<Rightarrow> string \<Rightarrow> string \<Rightarrow> nat \<Rightarrow> nat \<Rightarrow> (string \<times> nat) option" where
  "next_target c redirect target attempt cursor =
     (if redirect \<noteq> [] \<and> redirect \<noteq> target \<and> attempt mod 2 = 0 then Some (redirect, cursor)
      else (let as = addresses c; cursor' = cursor + 1 in if as = [] then None else Some (as ! (cursor' mod length as), cursor')))"

type_synonym sent = "sentRequest list"

text \<open>The loop with \<open>k\<close> attempts left of 40; \<open>sent\<close> are the requests sent so far.\<close>

primrec do_loop ::
  "Origins \<Rightarrow> World \<Rightarrow> string \<Rightarrow> string \<Rightarrow> string \<Rightarrow> nat \<Rightarrow> string \<Rightarrow> nat \<Rightarrow> Response \<Rightarrow> gerror option \<Rightarrow> Client \<Rightarrow> sent \<Rightarrow>
     ((Response \<times> gerror option) \<times> Client \<times> sent) option" where
  "do_loop og w verb path body 0 target cursor response lastErr c sent =
     Some ((response, Some (ErrWrap ''retry limit reached; outcome may be unknown'' (case lastErr of Some e \<Rightarrow> e | None \<Rightarrow> ErrText []))), c, sent)"
| "do_loop og w verb path body (Suc k) target cursor response lastErr c sent =
     (let attempt = 39 - k in
      case ctxErr w attempt of
        Some e \<Rightarrow> Some ((response, Some (ErrWrap ''request deadline; outcome may be unknown'' e)), c, sent)
      | None \<Rightarrow>
          (case newErr w (target @ path) of
             Some e \<Rightarrow> Some ((response, Some e), c, sent)
           | None \<Rightarrow>
               (let sent' = sent @ [Sent target verb path body] in
                case try_once og w attempt target response c of
                  Inl (response', c', status) \<Rightarrow> Some ((response', None), c', sent' @ status)
                | Inr (c1, redirect, response', err) \<Rightarrow>
                    (case discover og w attempt target c1 of
                       (c2, status) \<Rightarrow>
                         do {
                           (target', cursor') \<leftarrow> next_target c2 redirect target attempt cursor;
                           (case waitErr w attempt of
                              Some e \<Rightarrow> Some ((response', Some (ErrWrap ''request deadline; outcome may be unknown'' e)), c2, sent' @ status)
                            | None \<Rightarrow> do_loop og w verb path body k target' cursor' response' (Some err) c2 (sent' @ status))
                         }))))"

definition Do ::
  "Origins \<Rightarrow> World \<Rightarrow> string \<Rightarrow> string \<Rightarrow> string \<Rightarrow> Client \<Rightarrow> ((Response \<times> gerror option) \<times> Client \<times> sent) option" where
  "Do og w verb path body c =
     (case addresses c of
        [] \<Rightarrow> None
      | target # _ \<Rightarrow> do_loop og w verb path body 40 target 0 zeroResponse None c [])"

section \<open>The list of servers\<close>

lemma position_Some: "position x xs = Some i \<Longrightarrow> i < length xs \<and> xs ! i = x"
  by (induction xs arbitrary: i) (auto split: if_splits)

lemma position_None: "position x xs = None \<longleftrightarrow> x \<notin> set xs"
  by (induction xs) auto

lemma mset_addresses: "mset (addresses c) = mset (servers c)"
proof (cases "position (preferred c) (servers c)")
  case (Some i)
  then have "i < length (servers c)" using position_Some [OF Some] by blast
  then have "mset ((servers c)[0 := servers c ! i, i := servers c ! 0]) = mset (servers c)" by (intro mset_swap) auto
  then show ?thesis using Some by (simp add: addresses_def)
qed (simp add: addresses_def)

lemma set_addresses [simp]: "set (addresses c) = set (servers c)"
  using mset_addresses by (metis set_mset_mset)

lemma addresses_nil [simp]: "addresses c = [] \<longleftrightarrow> servers c = []"
  using mset_addresses [of c] by (metis mset_zero_iff)

lemma hd_addresses: "preferred c \<noteq> [] \<Longrightarrow> preferred c \<in> set (servers c) \<Longrightarrow> hd (addresses c) = preferred c"
proof -
  assume p: "preferred c \<noteq> []" "preferred c \<in> set (servers c)"
  then obtain i where i: "position (preferred c) (servers c) = Some i" using position_None [of "preferred c" "servers c"] by fastforce
  then have l: "i < length (servers c)" "servers c ! i = preferred c" using position_Some [OF i] by blast+
  then have "servers c \<noteq> []" by auto
  then show ?thesis using p(1) i l by (auto simp: addresses_def hd_conv_nth nth_list_update)
qed

text \<open>What every operation keeps: the servers are distinct, only grow, and are valid origins.\<close>

definition client_ok :: "Origins \<Rightarrow> Client \<Rightarrow> bool" where
  "client_ok og c \<longleftrightarrow> servers c \<noteq> [] \<and> distinct (servers c) \<and> (\<forall>s \<in> set (servers c). validOrigin og s)"

definition grows :: "Client \<Rightarrow> Client \<Rightarrow> bool" where
  "grows c c' \<longleftrightarrow> (\<exists>more. servers c' = servers c @ more)"

lemma grows_refl [simp]: "grows c c" by (simp add: grows_def)

lemma grows_trans: "grows a b \<Longrightarrow> grows b c \<Longrightarrow> grows a c" by (auto simp: grows_def)

lemma grows_set: "grows c c' \<Longrightarrow> set (servers c) \<subseteq> set (servers c')" by (auto simp: grows_def)

lemma add_ok: "grows c (add s c)" "client_ok og c \<Longrightarrow> validOrigin og s \<Longrightarrow> client_ok og (add s c)" "s \<in> set (servers (add s c))"
  "preferred (add s c) = preferred c" "discovered (add s c) = discovered c"
  by (auto simp: add_def grows_def client_ok_def)

lemma add_fold:
  "grows c (fold (\<lambda>u c. if validOrigin og u then add u c else c) us c) \<and>
   (client_ok og c \<longrightarrow> client_ok og (fold (\<lambda>u c. if validOrigin og u then add u c else c) us c)) \<and>
   preferred (fold (\<lambda>u c. if validOrigin og u then add u c else c) us c) = preferred c"
proof (induction us arbitrary: c)
  case (Cons u us)
  show ?case using Cons [of "if validOrigin og u then add u c else c"] add_ok(2) [of og c u] add_ok(4) [of u c] grows_trans [OF add_ok(1) [of c u]]
    by auto
qed simp

lemma discover_ok: "grows c (fst (discover og w k s c))" "client_ok og c \<Longrightarrow> client_ok og (fst (discover og w k s c))"
  "preferred (fst (discover og w k s c)) = preferred c" "snd (discover og w k s c) \<in> {[], [StatusGet s]}"
  using add_fold [of c og]
  by (auto simp: discover_def Let_def grows_def client_ok_def split: statusOutcome.splits option.splits)

lemma add_all_ok:
  "add_all (validOrigin og) ss c0 = Inr c1 \<Longrightarrow> distinct (servers c0) \<Longrightarrow> \<forall>s \<in> set (servers c0). validOrigin og s \<Longrightarrow>
    distinct (servers c1) \<and> (\<forall>s \<in> set (servers c1). validOrigin og s) \<and> preferred c1 = preferred c0"
proof (induction ss arbitrary: c0)
  case (Cons s ss)
  let ?s = "TrimSlash (TrimSpace s)"
  from Cons.prems(1) have v: "validOrigin og ?s" "add_all (validOrigin og) ss (add ?s c0) = Inr c1" by (auto simp: Let_def split: if_splits)
  have "distinct (servers (add ?s c0))" "\<forall>s \<in> set (servers (add ?s c0)). validOrigin og s" using Cons.prems(2,3) v(1) by (simp_all add: add_def)
  from Cons.IH [OF v(2) this] show ?case by (simp add: add_ok(4))
qed auto

lemma New_Client_ok:
  assumes "New_Client (validOrigin og) ss = Inr c"
  shows "client_ok og c" "preferred c = []"
proof -
  let ?c0 = "\<lparr>servers = [], preferred = [], discovered = {||}\<rparr>"
  have a: "add_all (validOrigin og) ss ?c0 = Inr c" and n: "servers c \<noteq> []"
    using assms unfolding New_Client_def by (simp_all split: sum.split_asm if_split_asm)
  show "client_ok og c" "preferred c = []" using add_all_ok [OF a] n by (simp_all add: client_ok_def)
qed

section \<open>The loop\<close>

lemma try_once_ok:
  assumes "client_ok og c" "target \<in> set (servers c)" "try_once og w k target r c = Inr (c1, redirect, r', err)"
  shows "client_ok og c1" "grows c c1" "preferred c1 = preferred c" "redirect \<noteq> [] \<Longrightarrow> redirect \<in> set (servers c1)"
proof -
  have "client_ok og c1 \<and> grows c c1 \<and> preferred c1 = preferred c \<and> (redirect \<noteq> [] \<longrightarrow> redirect \<in> set (servers c1))"
    using assms add_ok(1) [of c redirect] add_ok(2) [of og c redirect] add_ok(3,4) [of redirect c]
    by (auto simp: try_once_def Let_def redirect_origin_def split: outcome.splits if_splits option.splits prod.splits)
  then show "client_ok og c1" "grows c c1" "preferred c1 = preferred c" "redirect \<noteq> [] \<Longrightarrow> redirect \<in> set (servers c1)" by auto
qed

text \<open>The answer of a server as the client keeps it.\<close>

definition answers_with :: "World \<Rightarrow> nat \<Rightarrow> Response \<Rightarrow> bool" where
  "answers_with w k r \<longleftrightarrow> (\<exists>location body. send w k (Server r) = Replied (StatusCode r) location body \<and> Body r = take answer_limit body)"

lemma try_once_final:
  assumes "client_ok og c" "try_once og w k target r c = Inl (r', c', status)"
  shows "client_ok og c'" "grows c c'" "preferred c' = target" "Server r' = target" "StatusCode r' \<notin> {307, 308, 503}"
    "answers_with w k r'" "status \<in> {[], [StatusGet target]}"
proof -
  let ?c1 = "c\<lparr>preferred := target\<rparr>"
  obtain code location body where s: "send w k target = Replied code location body" "code \<notin> {307, 308, 503}"
    "r' = \<lparr>StatusCode = code, Body = take answer_limit body, Server = target\<rparr>"
    "(c', status) = (if code < 300 then discover og w k target ?c1 else (?c1, []))"
    using assms(2) by (auto simp: try_once_def Let_def split: outcome.splits if_splits)
  have c': "c' = fst (if code < 300 then discover og w k target ?c1 else (?c1, []))" "status = snd (if code < 300 then discover og w k target ?c1 else (?c1, []))"
    using s(4) [symmetric] by simp_all
  have p: "client_ok og ?c1" using assms(1) by (simp add: client_ok_def)
  show "client_ok og c'" using c' p discover_ok(2) [OF p] by simp
  show "grows c c'" using c' discover_ok(1) [of ?c1 og w k target] by (simp add: grows_def)
  show "preferred c' = target" using c' discover_ok(3) [of og w k target ?c1] by simp
  show "status \<in> {[], [StatusGet target]}" using c'(2) discover_ok(4) [of og w k target ?c1] by (simp split: if_splits)
  show "Server r' = target" "StatusCode r' \<notin> {307, 308, 503}" "answers_with w k r'" using s by (auto simp: answers_with_def)
qed

text \<open>The next target is a known server.\<close>

lemma next_target_ok:
  assumes "client_ok og c" "redirect \<noteq> [] \<Longrightarrow> redirect \<in> set (servers c)"
  obtains t k where "next_target c redirect target attempt cursor = Some (t, k)" "t \<in> set (servers c)"
proof -
  have n: "addresses c \<noteq> []" using assms(1) by (simp add: client_ok_def)
  then have "addresses c ! ((cursor + 1) mod length (addresses c)) \<in> set (addresses c)" by (intro nth_mem) simp
  then show ?thesis using that assms(2) n by (cases "redirect \<noteq> [] \<and> redirect \<noteq> target \<and> attempt mod 2 = 0") (auto simp: next_target_def Let_def)
qed

declare do_loop.simps(2) [simp del]

lemmas do_loop_Suc = do_loop.simps(2) [unfolded Let_def]

text \<open>A request of the list is the caller's, or one for a status page, to a server the client knows.\<close>

definition sent_ok :: "string \<times> string \<times> string \<Rightarrow> Client \<Rightarrow> sentRequest \<Rightarrow> bool" where
  "sent_ok message c x \<longleftrightarrow> asked x \<in> set (servers c) \<and> (case x of Sent t verb path body \<Rightarrow> (verb, path, body) = message | StatusGet t \<Rightarrow> True)"

text \<open>At most one status page is asked for after each request.\<close>

abbreviation mains :: "sent \<Rightarrow> sent" where
  "mains sent \<equiv> filter main_request sent"

definition sent_within :: "string \<times> string \<times> string \<Rightarrow> nat \<Rightarrow> Client \<Rightarrow> sent \<Rightarrow> bool" where
  "sent_within message k c xs \<longleftrightarrow> length (mains xs) \<le> k \<and> length xs \<le> 2 * length (mains xs) \<and> (\<forall>x \<in> set xs. sent_ok message c x)"

definition run_ok :: "Origins \<Rightarrow> World \<Rightarrow> string \<times> string \<times> string \<Rightarrow> nat \<Rightarrow> Client \<Rightarrow> sent \<Rightarrow> (Response \<times> gerror option) \<times> Client \<times> sent \<Rightarrow> bool" where
  "run_ok og w message k c sent = (\<lambda>((r, err), c', sent').
     client_ok og c' \<and> grows c c' \<and>
     (\<exists>more. sent' = sent @ more \<and> sent_within message k c' more \<and>
       (err = None \<longrightarrow> Server r \<in> set (servers c') \<and> StatusCode r \<notin> {307, 308, 503} \<and> preferred c' = Server r \<and> (\<exists>attempt. answers_with w attempt r))))"

lemma sent_within_attempt:
  assumes "t \<in> set (servers c)" "status \<in> {[], [StatusGet t]}"
  shows "sent_within (verb, path, body) (Suc 0) c (Sent t verb path body # status)"
  using assms by (auto simp: sent_within_def sent_ok_def)

lemma sent_within_mono: "sent_within message k c xs \<Longrightarrow> k \<le> k' \<Longrightarrow> sent_within message k' c xs"
  by (auto simp: sent_within_def)

lemma sent_within_append: "sent_within message k c xs \<Longrightarrow> sent_within message k' c ys \<Longrightarrow> sent_within message (k + k') c (xs @ ys)"
  by (auto simp: sent_within_def)

lemma run_ok_cons:
  assumes "run_ok og w (verb, path, body) k c1 (sent @ Sent t verb path body # status) out" "grows c c1" "t \<in> set (servers c)" "status \<in> {[], [StatusGet t]}"
  shows "run_ok og w (verb, path, body) (Suc k) c sent out"
proof -
  obtain r err c' sent' where o: "out = ((r, err), c', sent')" by (metis prod.exhaust)
  obtain more where m: "sent' = sent @ (Sent t verb path body # status) @ more" "sent_within (verb, path, body) k c' more"
    "err = None \<longrightarrow> Server r \<in> set (servers c') \<and> StatusCode r \<notin> {307, 308, 503} \<and> preferred c' = Server r \<and> (\<exists>attempt. answers_with w attempt r)"
    and c: "client_ok og c'" "grows c1 c'" using assms(1) unfolding run_ok_def o by auto
  have g: "grows c c'" by (rule grows_trans [OF assms(2) c(2)])
  then have "t \<in> set (servers c')" using grows_set [OF g] assms(3) by blast
  from sent_within_append [OF sent_within_attempt [OF this assms(4)] m(2)]
  have "sent_within (verb, path, body) (Suc k) c' ((Sent t verb path body # status) @ more)" by simp
  then show ?thesis unfolding run_ok_def o using c(1) g m(1,3) by blast
qed

lemma do_loop_ok:
  assumes "client_ok og c" "target \<in> set (servers c)"
  shows "\<exists>out. do_loop og w verb path body k target cursor r e c sent = Some out \<and> run_ok og w (verb, path, body) k c sent out"
  using assms
proof (induction k arbitrary: target cursor r e c sent)
  case 0
  then show ?case by (simp add: run_ok_def sent_within_def)
next
  case (Suc k)
  let ?a = "39 - k" and ?m = "Sent target verb path body"
  have attempt: "sent_within (verb, path, body) (Suc k) c' (?m # status)" if "grows c c'" "status \<in> {[], [StatusGet target]}" for c' status
    using sent_within_mono [OF sent_within_attempt [of target c' status]] grows_set [OF that(1)] that(2) Suc.prems(2) by auto
  show ?case
  proof (cases "ctxErr w ?a = None \<and> newErr w (target @ path) = None")
    case False
    then obtain e' where "do_loop og w verb path body (Suc k) target cursor r e c sent = Some ((r, Some e'), c, sent)"
      by (cases "ctxErr w ?a"; cases "newErr w (target @ path)") (auto simp: do_loop_Suc)
    then show ?thesis using Suc.prems by (auto simp: run_ok_def sent_within_def)
  next
    case go: True
    show ?thesis
    proof (cases "try_once og w ?a target r c")
      case (Inl x)
      obtain r' c' status where x: "x = (r', c', status)" by (cases x)
      note f = try_once_final [OF Suc.prems(1) Inl [unfolded x]]
      have "do_loop og w verb path body (Suc k) target cursor r e c sent = Some ((r', None), c', sent @ ?m # status)"
        using go Inl x by (simp add: do_loop_Suc)
      moreover have "run_ok og w (verb, path, body) (Suc k) c sent ((r', None), c', sent @ ?m # status)"
        using f(1-6) grows_set [OF f(2)] Suc.prems(2) attempt [OF f(2,7)] unfolding run_ok_def by auto
      ultimately show ?thesis by blast
    next
      case (Inr x)
      obtain c1 redirect r' err where x: "x = (c1, redirect, r', err)" by (metis prod.exhaust)
      note t = try_once_ok [OF Suc.prems Inr [unfolded x]]
      obtain c2 status where d: "discover og w ?a target c1 = (c2, status)" by (metis prod.exhaust)
      have dk: "grows c1 c2" "client_ok og c2" using discover_ok(1) [of c1 og w ?a target] discover_ok(2) [OF t(1), of w ?a target] by (simp_all add: d)
      have c2: "client_ok og c2" "grows c c2" using dk(2) grows_trans [OF t(2) dk(1)] by auto
      have st: "status \<in> {[], [StatusGet target]}" using discover_ok(4) [of og w ?a target c1] by (simp add: d)
      obtain t' k' where n: "next_target c2 redirect target ?a cursor = Some (t', k')" "t' \<in> set (servers c2)"
        by (rule next_target_ok [OF c2(1), of redirect target ?a cursor]) (use t(4) grows_set [OF dk(1)] in blast)+
      show ?thesis
      proof (cases "waitErr w ?a")
        case None
        obtain out where o: "do_loop og w verb path body k t' k' r' (Some err) c2 (sent @ ?m # status) = Some out"
          "run_ok og w (verb, path, body) k c2 (sent @ ?m # status) out"
          using Suc.IH [OF c2(1) n(2)] by blast
        have "do_loop og w verb path body (Suc k) target cursor r e c sent = Some out"
          using go Inr x n None d o(1) by (simp add: do_loop_Suc)
        then show ?thesis using run_ok_cons [OF o(2) c2(2) Suc.prems(2) st] by blast
      next
        case (Some e')
        then show ?thesis using go Inr x n d c2 attempt [OF c2(2) st] by (auto simp: do_loop_Suc run_ok_def)
      qed
    qed
  qed
qed

section \<open>Reaching a server that answers\<close>

lemma map_nth_upt_take: "k \<le> length xs \<Longrightarrow> map (nth xs) [0 ..< k] = take k xs"
  by (simp add: list_eq_iff_nth_eq)

text \<open>An outcome that makes the client go on to the next address.\<close>

fun unhelpful :: "outcome \<Rightarrow> bool" where
  "unhelpful (Replied code location body) \<longleftrightarrow> code = 503"
| "unhelpful _ \<longleftrightarrow> True"

text \<open>No deadline passes, and status pages list no server beyond those in \<open>A\<close>.\<close>

definition calm :: "Origins \<Rightarrow> World \<Rightarrow> string list \<Rightarrow> bool" where
  "calm og w A \<longleftrightarrow> (\<forall>k. ctxErr w k = None \<and> waitErr w k = None) \<and> (\<forall>u. newErr w u = None) \<and>
     (\<forall>k t code us. statusOf w k t = StatusReplied code (Some us) \<longrightarrow> (\<forall>u \<in> set us. validOrigin og u \<longrightarrow> u \<in> set A))"

lemma add_known: "u \<in> set (servers c) \<Longrightarrow> add u c = c"
  by (simp add: add_def)

lemma fold_known:
  "\<forall>u \<in> set us. validOrigin og u \<longrightarrow> u \<in> set (servers c) \<Longrightarrow> fold (\<lambda>u c. if validOrigin og u then add u c else c) us c = c"
  by (induction us) (auto simp: add_known)

lemma discover_calm:
  assumes "calm og w (servers c)"
  shows "servers (fst (discover og w k t c)) = servers c"
  using assms fold_known [of _ og c] unfolding discover_def calm_def
  by (auto simp: Let_def split: statusOutcome.splits option.splits)

lemma try_unhelpful: "unhelpful (send w k t) \<Longrightarrow> \<exists>r' err. try_once og w k t r c = Inr (c, [], r', err)"
  by (cases "send w k t") (auto simp: try_once_def Let_def)

lemma addresses_cong: "servers c' = servers c \<Longrightarrow> preferred c' = preferred c \<Longrightarrow> addresses c' = addresses c"
  by (simp add: addresses_def split: option.split)

lemma discover_status: "mains (snd (discover og w k t c)) = []"
  using discover_ok(4) [of og w k t c] by auto

lemma do_loop_reaches:
  assumes w: "calm og w (servers c)" and A: "A = addresses c" and j: "j < length A" "j < 40"
    and bad: "\<forall>k. \<forall>i < j. unhelpful (send w k (A ! i))"
    and good: "send w j (A ! j) = Replied code location answer" "code \<notin> {307, 308, 503}"
  shows "a \<le> j \<Longrightarrow> servers c1 = servers c \<Longrightarrow> preferred c1 = preferred c \<Longrightarrow> \<exists>c' sent'.
    do_loop og w verb path body (40 - a) (A ! a) a r e c1 sent =
      Some ((\<lparr>StatusCode = code, Body = take answer_limit answer, Server = A ! j\<rparr>, None), c', sent') \<and>
    map asked (mains sent') = map asked (mains sent) @ map (nth A) [a ..< Suc j]"
proof (induction "j - a" arbitrary: a r e c1 sent)
  case 0
  then have a: "a = j" by simp
  have k: "40 - j = Suc (39 - j)" "39 - (39 - j) = j" using j(2) by simp_all
  have n: "ctxErr w j = None" "newErr w (A ! j @ path) = None" using w by (auto simp: calm_def)
  obtain c' status where d: "(if code < 300 then discover og w j (A ! j) (c1\<lparr>preferred := A ! j\<rparr>) else (c1\<lparr>preferred := A ! j\<rparr>, [])) = (c', status)"
    by (metis prod.exhaust)
  then have "mains status = []" using discover_status [of og w j "A ! j" "c1\<lparr>preferred := A ! j\<rparr>"] by (auto split: if_splits)
  then show ?case using a n good d by (simp add: k do_loop_Suc try_once_def Let_def)
next
  case (Suc d)
  then have a: "a < j" "d = j - Suc a" by auto
  have k: "40 - a = Suc (39 - a)" "39 - (39 - a) = a" "40 - Suc a = 39 - a" using a(1) j(2) by simp_all
  have n: "ctxErr w a = None" "newErr w (A ! a @ path) = None" "waitErr w a = None" using w by (auto simp: calm_def)
  obtain r' err where t: "try_once og w a (A ! a) r c1 = Inr (c1, [], r', err)" using try_unhelpful bad a(1) by blast
  obtain c2 status where c2_def: "discover og w a (A ! a) c1 = (c2, status)" by (metis prod.exhaust)
  have c2: "servers c2 = servers c" "preferred c2 = preferred c" "mains status = []"
    using discover_calm [of og w c1 a "A ! a"] discover_ok(3) [of og w a "A ! a" c1] discover_status [of og w a "A ! a" c1] w Suc.prems(2,3) by (simp_all add: c2_def)
  then have "addresses c2 = A" using addresses_cong A by blast
  moreover have "Suc a mod length A = Suc a" "A \<noteq> []" using a(1) j(1) by auto
  ultimately have nt: "next_target c2 [] (A ! a) a a = Some (A ! Suc a, Suc a)" by (simp add: next_target_def)
  let ?sent = "sent @ Sent (A ! a) verb path body # status"
  obtain c' sent' where l: "do_loop og w verb path body (40 - Suc a) (A ! Suc a) (Suc a) r' (Some err) c2 ?sent =
      Some ((\<lparr>StatusCode = code, Body = take answer_limit answer, Server = A ! j\<rparr>, None), c', sent')"
    "map asked (mains sent') = map asked (mains ?sent) @ map (nth A) [Suc a ..< Suc j]"
    using Suc.hyps(1) [OF a(2) _ c2(1,2)] a(1) by fastforce
  have "do_loop og w verb path body (40 - a) (A ! a) a r e c1 sent =
      Some ((\<lparr>StatusCode = code, Body = take answer_limit answer, Server = A ! j\<rparr>, None), c', sent')"
    using n t nt l(1) c2_def unfolding k(3) by (simp add: k(1,2) do_loop_Suc k(3))
  moreover have "map asked (mains sent') = map asked (mains sent) @ map (nth A) [a ..< Suc j]"
    using l(2) c2(3) a(1) upt_conv_Cons [of a "Suc j"] by simp
  ultimately show ?case by blast
qed

section \<open>Properties\<close>

text \<open>
  C18.  A request through the client always comes to an end: whatever the network answers, \<open>Do\<close> returns, having sent the caller's request
  at most 40 times, always with the same method, path and body, so that the servers can recognise a repetition, and besides nothing but
  \<open>GET /v1/status\<close>, no more often than the caller's request, so at most 80 requests in all; all of them go to known servers with valid
  addresses, and the list of servers stays well-formed.  If it reports success, the response is the answer (up to 16 MiB) that the
  server named in it gave, neither a redirect nor status 503, and that server is tried first from then on.
\<close>

theorem client_bounded_retries:
  assumes "client_ok og c"
  shows "\<exists>r err c' sent. Do og w verb path body c = Some ((r, err), c', sent) \<and> client_ok og c' \<and>
    length (filter main_request sent) \<le> 40 \<and> length sent \<le> 2 * length (filter main_request sent) \<and>
    (\<forall>x \<in> set sent. (x = Sent (asked x) verb path body \<or> x = StatusGet (asked x)) \<and> asked x \<in> set (servers c') \<and> validOrigin og (asked x)) \<and>
    (err = None \<longrightarrow> StatusCode r \<notin> {307, 308, 503} \<and> (\<exists>k. answers_with w k r) \<and> (Server r \<noteq> [] \<longrightarrow> hd (addresses c') = Server r))"
proof -
  obtain t ts where t: "addresses c = t # ts" using assms addresses_nil [of c] by (cases "addresses c") (auto simp: client_ok_def)
  then have "t \<in> set (servers c)" using set_addresses [of c] by auto
  then obtain out where o: "do_loop og w verb path body 40 t 0 zeroResponse None c [] = Some out" "run_ok og w (verb, path, body) 40 c [] out"
    using do_loop_ok [OF assms] by blast
  obtain r err c' sent where x: "out = ((r, err), c', sent)" by (metis prod.exhaust)
  have c': "client_ok og c'" "sent_within (verb, path, body) 40 c' sent"
    and f: "err = None \<Longrightarrow> Server r \<in> set (servers c') \<and> StatusCode r \<notin> {307, 308, 503} \<and> preferred c' = Server r \<and> (\<exists>k. answers_with w k r)"
    using o(2) unfolding run_ok_def x by auto
  have s: "(y = Sent (asked y) verb path body \<or> y = StatusGet (asked y)) \<and> asked y \<in> set (servers c') \<and> validOrigin og (asked y)" if "y \<in> set sent" for y
    using c' that unfolding sent_within_def sent_ok_def client_ok_def by (cases y) fastforce+
  have "hd (addresses c') = Server r" if "err = None" "Server r \<noteq> []" using hd_addresses [of c'] f [OF that(1)] that(2) by simp
  moreover have "Do og w verb path body c = Some ((r, err), c', sent)" using o(1) t x by (simp add: Do_def)
  moreover have "length (mains sent) \<le> 40" "length sent \<le> 2 * length (mains sent)" using c'(2) by (simp_all add: sent_within_def)
  ultimately show ?thesis using c'(1) f s by blast
qed

definition wOrigins :: Origins where
  "wOrigins = \<lparr>validOrigin = (\<lambda>s. s \<noteq> []), parseURL = (\<lambda>s. Some (''http'', drop 7 s))\<rparr>"

definition wWorld :: "(nat \<Rightarrow> string \<Rightarrow> outcome) \<Rightarrow> World" where
  "wWorld answers = \<lparr>ctxErr = (\<lambda>_. None), newErr = (\<lambda>_. None), send = answers, statusOf = (\<lambda>_ _. StatusFails), waitErr = (\<lambda>_. None)\<rparr>"

definition wClient :: Client where
  "wClient = \<lparr>servers = [''http://a'', ''http://b'', ''http://c''], preferred = [], discovered = {||}\<rparr>"

lemma wClient_New: "New_Client (validOrigin wOrigins) ['' http://a/ '', ''http://b'', ''http://a'', ''http://c''] = Inr wClient"
  by code_simp

theorem client_bounded_retries_witness:
  "\<exists>r err c' sent. Do wOrigins (wWorld (\<lambda>_ _. ConnError ErrIO)) ''PUT'' ''/v1/kv/x'' ''{}'' wClient = Some ((r, err), c', sent) \<and>
     length (filter main_request sent) \<le> 40"
  using client_bounded_retries [OF New_Client_ok(1) [OF wClient_New]] by blast

text \<open>
  C19.  A server that answers is reached.  Suppose that no deadline passes, every URL gives a request, and the status pages list no valid address the
  client does not know.  If the servers before the \<open>j\<close>-th in the client's order, fewer than 40, refuse connections, break off or
  answer 503 in every attempt, and the \<open>j\<close>-th answers the attempt that reaches it with a status that is neither a redirect (307, 308) nor 503, then
  \<open>Do\<close> returns that answer (up to 16 MiB), having sent the request exactly once to each of the servers up to it, in the client's order.
\<close>

theorem client_reaches_live_server:
  assumes "calm og w (servers c)" "j < length (servers c)" "j < 40" "\<forall>k. \<forall>i < j. unhelpful (send w k (addresses c ! i))"
    and "send w j (addresses c ! j) = Replied code location answer" "code \<notin> {307, 308, 503}"
  shows "\<exists>c' sent. Do og w verb path body c =
      Some ((\<lparr>StatusCode = code, Body = take (16 * 2 ^ 20) answer, Server = addresses c ! j\<rparr>, None), c', sent) \<and>
    map asked (filter main_request sent) = take (Suc j) (addresses c)"
proof -
  let ?A = "addresses c"
  have l: "length ?A = length (servers c)" using mset_addresses [of c] by (metis size_mset)
  have "j < length ?A" using l assms(2) by simp
  from do_loop_reaches [OF assms(1) refl this assms(3-6), of 0 c "verb" "path" "body" zeroResponse None "[]"]
  obtain c' sent where d: "do_loop og w verb path body 40 (?A ! 0) 0 zeroResponse None c [] =
      Some ((\<lparr>StatusCode = code, Body = take answer_limit answer, Server = ?A ! j\<rparr>, None), c', sent)" "map asked (mains sent) = map (nth ?A) [0 ..< Suc j]"
    by auto
  moreover have "map (nth ?A) [0 ..< Suc j] = take (Suc j) ?A" using l assms(2) by (simp add: map_nth_upt_take del: upt_Suc)
  moreover have "?A \<noteq> []" using l assms(2) by auto
  ultimately show ?thesis by (cases ?A) (auto simp: Do_def answer_limit_def)
qed

theorem client_reaches_live_server_witness:
  "\<exists>c' sent. Do wOrigins (wWorld (\<lambda>_ t. if t = ''http://c'' then Replied 200 [] ''ok'' else Replied 503 [] [])) ''GET'' ''/v1/kv/x'' [] wClient =
     Some ((\<lparr>StatusCode = 200, Body = ''ok'', Server = ''http://c''\<rparr>, None), c', sent) \<and>
     map asked (filter main_request sent) = [''http://a'', ''http://b'', ''http://c'']"
proof -
  let ?w = "wWorld (\<lambda>_ t. if t = ''http://c'' then Replied 200 [] ''ok'' else Replied 503 [] [])"
  have a: "addresses wClient = [''http://a'', ''http://b'', ''http://c'']" by code_simp
  have "calm wOrigins ?w (servers wClient)" by (simp add: calm_def wWorld_def)
  moreover have "unhelpful (send ?w k (addresses wClient ! i))" if "i < 2" for k i
    using that unfolding a by (cases i) (auto simp: wWorld_def less_Suc_eq)
  ultimately show ?thesis
    using client_reaches_live_server [of wOrigins ?w wClient 2 200 "[]" "''ok''" "''GET''" "''/v1/kv/x''" "[]"]
    unfolding a by (auto simp: wWorld_def wClient_def)
qed

text \<open>
  A redirect is followed: when the first server redirects to another valid origin and that one answers, \<open>Do\<close> returns its
  answer, having sent the request exactly to these two, and remembers the server.
\<close>

theorem client_follows_redirect:
  assumes "calm og w (servers c)" "addresses c = first # others" "send w 0 first = Replied 307 location b" "redirect_origin og location = target"
    and "target \<noteq> []" "target \<noteq> first" "send w 1 target = Replied code l answer" "code \<notin> {307, 308, 503}"
  shows "\<exists>c' sent. Do og w verb path body c = Some ((\<lparr>StatusCode = code, Body = take answer_limit answer, Server = target\<rparr>, None), c', sent) \<and>
    mains sent = [Sent first verb path body, Sent target verb path body] \<and> preferred c' = target \<and> target \<in> set (servers c')"
proof -
  obtain c2 s2 where c2: "discover og w 0 first (add target c) = (c2, s2)" by (metis prod.exhaust)
  let ?r = "\<lparr>StatusCode = 307, Body = take answer_limit b, Server = first\<rparr>"
  have n: "ctxErr w k = None" "newErr w u = None" "waitErr w k = None" for k u using assms(1) by (auto simp: calm_def)
  have k: "40 = Suc 39" "39 - 39 = (0 :: nat)" "39 = Suc 38" "39 - 38 = (1 :: nat)" by simp_all
  have t: "try_once og w 0 first zeroResponse c = Inr (add target c, target, ?r, ErrText ''server returned HTTP'')"
    using assms(3-5) by (simp add: try_once_def Let_def)
  have "do_loop og w verb path body (Suc 39) first 0 zeroResponse None c [] =
      do_loop og w verb path body 39 target 0 ?r (Some (ErrText ''server returned HTTP'')) c2 (Sent first verb path body # s2)"
    unfolding do_loop_Suc k(2) using assms(5,6) n t c2 by (simp add: next_target_def)
  then have d: "Do og w verb path body c =
      do_loop og w verb path body 39 target 0 ?r (Some (ErrText ''server returned HTTP'')) c2 (Sent first verb path body # s2)"
    using assms(2) by (simp add: Do_def)
  obtain c' s3 where e: "(if code < 300 then discover og w 1 target (c2\<lparr>preferred := target\<rparr>) else (c2\<lparr>preferred := target\<rparr>, [])) = (c', s3)"
    by (metis prod.exhaust)
  have f: "try_once og w 1 target ?r c2 = Inl (\<lparr>StatusCode = code, Body = take answer_limit answer, Server = target\<rparr>, c', s3)"
    unfolding e [symmetric] using assms(7,8) by (simp add: try_once_def Let_def)
  have c': "c' = (if code < 300 then fst (discover og w 1 target (c2\<lparr>preferred := target\<rparr>)) else c2\<lparr>preferred := target\<rparr>)"
    "s3 = (if code < 300 then snd (discover og w 1 target (c2\<lparr>preferred := target\<rparr>)) else [])"
    using e by (auto split: if_splits)
  have "target \<in> set (servers c2)" using add_ok(3) [of target c] grows_set [OF discover_ok(1) [of "add target c" og w 0 first]] c2 by auto
  then have "target \<in> set (servers c')" using c'(1) subsetD [OF grows_set [OF discover_ok(1) [of "c2\<lparr>preferred := target\<rparr>" og w 1 target]], of target] by simp
  moreover have "preferred c' = target" using c'(1) discover_ok(3) by simp
  moreover have "mains (Sent first verb path body # s2 @ Sent target verb path body # s3) = [Sent first verb path body, Sent target verb path body]"
    using discover_status [of og w 0 first "add target c"] discover_status [of og w 1 target "c2\<lparr>preferred := target\<rparr>"] c2 c'(2) by simp
  moreover have "Do og w verb path body c = Some ((\<lparr>StatusCode = code, Body = take answer_limit answer, Server = target\<rparr>, None), c',
      Sent first verb path body # s2 @ Sent target verb path body # s3)"
    unfolding d k(3) do_loop_Suc k(4) using n f by simp
  ultimately show ?thesis by blast
qed

end
