(* ===== verification/Sim_Queue.thy ===== *)
theory Sim_Queue
  imports Prelude "HOL-Library.Multiset"
begin

text \<open>
  The event queue of the simulator (\<^verbatim>\<open>internal/simulation/simulation.go\<close>): a slice of items ordered by virtual time and
  then by sequence number, kept as a binary heap by Go's \<open>container/heap\<close>.  The theory models the array operations
  (\<open>up\<close>, \<open>down\<close>, \<open>Push\<close>, \<open>Pop\<close>) on lists and proves that they implement a priority queue.

  What the event loop relies on is the locale \<open>event_queue\<close>: a queue represents a multiset of items, pushing adds an
  item and popping removes a least one.
\<close>

section \<open>The contract\<close>

locale event_queue =
  fixes push :: "'i \<Rightarrow> 'q \<Rightarrow> 'q"
    and pop :: "'q \<Rightarrow> ('i \<times> 'q) option"
    and items :: "'q \<Rightarrow> 'i multiset"
    and inv :: "'q \<Rightarrow> bool"
    and less :: "'i \<Rightarrow> 'i \<Rightarrow> bool"
    and start :: 'q
  assumes start_inv: "inv start" and start_items: "items start = {#}"
    and push_inv: "inv q \<Longrightarrow> inv (push x q)"
    and push_items: "inv q \<Longrightarrow> items (push x q) = add_mset x (items q)"
    and pop_none: "inv q \<Longrightarrow> pop q = None \<longleftrightarrow> items q = {#}"
    and pop_inv: "inv q \<Longrightarrow> pop q = Some (x, q') \<Longrightarrow> inv q'"
    and pop_items: "inv q \<Longrightarrow> pop q = Some (x, q') \<Longrightarrow> items q = add_mset x (items q')"
    and pop_least: "inv q \<Longrightarrow> pop q = Some (x, q') \<Longrightarrow> y \<in># items q \<Longrightarrow> \<not> less y x"
begin

text \<open>Pushing a list of items and popping everything.\<close>

fun drain :: "nat \<Rightarrow> 'q \<Rightarrow> 'i list" where
  "drain 0 q = []"
| "drain (Suc k) q = (case pop q of None \<Rightarrow> [] | Some (x, q') \<Rightarrow> x # drain k q')"

lemma fold_push: "inv q \<Longrightarrow> inv (fold push xs q) \<and> items (fold push xs q) = items q + mset xs"
  by (induction xs arbitrary: q) (auto simp: push_inv push_items)

lemma drain_items: "inv q \<Longrightarrow> size (items q) \<le> k \<Longrightarrow> mset (drain k q) = items q"
proof (induction k arbitrary: q)
  case (Suc k)
  show ?case
  proof (cases "pop q")
    case None
    then show ?thesis using pop_none [OF Suc.prems(1)] by simp
  next
    case (Some r)
    obtain x q' where r: "r = (x, q')" by (cases r)
    note p = pop_items [OF Suc.prems(1) Some [unfolded r]] pop_inv [OF Suc.prems(1) Some [unfolded r]]
    have "size (items q') \<le> k" using Suc.prems(2) p(1) by simp
    then show ?thesis using Suc.IH [OF p(2)] p(1) Some r by simp
  qed
qed simp

lemma drain_sub: "inv q \<Longrightarrow> set (drain k q) \<subseteq> set_mset (items q)"
proof (induction k arbitrary: q)
  case (Suc k)
  show ?case
  proof (cases "pop q")
    case (Some r)
    obtain x q' where r: "r = (x, q')" by (cases r)
    show ?thesis
      using Suc.IH [OF pop_inv [OF Suc.prems Some [unfolded r]]] pop_items [OF Suc.prems Some [unfolded r]] Some r by auto
  qed simp
qed simp

lemma drain_sorted: "inv q \<Longrightarrow> sorted_wrt (\<lambda>x y. \<not> less y x) (drain k q)"
proof (induction k arbitrary: q)
  case (Suc k)
  show ?case
  proof (cases "pop q")
    case (Some r)
    obtain x q' where r: "r = (x, q')" by (cases r)
    note p = pop_items [OF Suc.prems Some [unfolded r]] pop_inv [OF Suc.prems Some [unfolded r]]
    have "\<not> less y x" if "y \<in> set (drain k q')" for y
      using drain_sub [OF p(2)] that pop_least [OF Suc.prems Some [unfolded r]] p(1) by auto
    then show ?thesis using Some r Suc.IH [OF p(2)] by simp
  qed simp
qed simp

end

section \<open>Items\<close>

record 'e item =
  itAt :: int
  itSeq :: nat
  itKind :: string
  itRun :: 'e

definition item_less :: "'e item \<Rightarrow> 'e item \<Rightarrow> bool" where
  "item_less x y = (if itAt x = itAt y then itSeq x < itSeq y else itAt x < itAt y)"

definition Less :: "'e item list \<Rightarrow> nat \<Rightarrow> nat \<Rightarrow> bool" where
  "Less q i j = item_less (q ! i) (q ! j)"

definition Swap :: "'e item list \<Rightarrow> nat \<Rightarrow> nat \<Rightarrow> 'e item list" where
  "Swap q i j = q[i := q ! j, j := q ! i]"

section \<open>The heap\<close>

definition parent :: "nat \<Rightarrow> nat" where
  "parent j = (j - 1) div 2"

lemma parent_less: "0 < j \<Longrightarrow> parent j < j" by (auto simp: parent_def)

lemma parent_zero [simp]: "parent 0 = 0" by (simp add: parent_def)

lemma parent_same [simp]: "parent j = j \<longleftrightarrow> j = 0" using parent_less [of j] by (cases "j = 0") auto

lemma parent_child: "0 < j \<Longrightarrow> parent j = i \<longleftrightarrow> j = 2 * i + 1 \<or> j = 2 * i + 2" unfolding parent_def by presburger

text \<open>\<open>up\<close> of \<open>container/heap\<close>: the parent of 0 is 0.\<close>

function heap_up :: "'e item list \<Rightarrow> nat \<Rightarrow> 'e item list" where
  "heap_up q j =
     (let i = parent j in
      if i = j \<or> \<not> Less q j i then q else heap_up (Swap q i j) i)"
  by pat_completeness auto
termination by (relation "measure (\<lambda>(q, j). j)") (auto intro!: parent_less)

text \<open>The child that \<open>down\<close> compares with.\<close>

definition smaller_child :: "'e item list \<Rightarrow> nat \<Rightarrow> nat \<Rightarrow> nat" where
  "smaller_child q i n = (if 2 * i + 2 < n \<and> Less q (2 * i + 2) (2 * i + 1) then 2 * i + 2 else 2 * i + 1)"

function heap_down :: "'e item list \<Rightarrow> nat \<Rightarrow> nat \<Rightarrow> 'e item list" where
  "heap_down q i n =
     (if n \<le> 2 * i + 1 then q
      else
        (let j = smaller_child q i n in
         if \<not> Less q j i then q else heap_down (Swap q i j) j n))"
  by pat_completeness auto
termination by (relation "measure (\<lambda>(q, i, n). n - i)") (auto simp: smaller_child_def)

declare heap_up.simps [simp del] heap_down.simps [simp del]

definition heap_push :: "'e item \<Rightarrow> 'e item list \<Rightarrow> 'e item list" where
  "heap_push x q = heap_up (q @ [x]) (length q)"

text \<open>\<open>Pop\<close> of an empty queue panics; the event loop tests for it first.\<close>

definition heap_pop :: "'e item list \<Rightarrow> ('e item \<times> 'e item list) option" where
  "heap_pop q =
     (if q = [] then None
      else
        (let n = length q - 1; q' = heap_down (Swap q 0 n) 0 n
         in Some (last q', butlast q')))"

section \<open>Correctness of the heap\<close>

definition item_le :: "'e item \<Rightarrow> 'e item \<Rightarrow> bool" where
  "item_le x y \<longleftrightarrow> \<not> item_less y x"

lemma item_le_refl [simp]: "item_le x x" by (simp add: item_le_def item_less_def)

lemma item_less_irrefl: "\<not> item_less x x" by (simp add: item_less_def)

lemma item_le_trans: "item_le x y \<Longrightarrow> item_le y z \<Longrightarrow> item_le x z" by (auto simp: item_le_def item_less_def split: if_splits)

lemma item_le_total: "item_less x y \<Longrightarrow> item_le x y" "item_le x y \<or> item_le y x" by (auto simp: item_le_def item_less_def split: if_splits)

text \<open>A heap, a heap whose element \<open>k\<close> may be too small for its place, and one whose element \<open>i\<close> may be too large.\<close>

definition is_heap :: "'e item list \<Rightarrow> nat \<Rightarrow> bool" where
  "is_heap q n \<longleftrightarrow> (\<forall>j. 0 < j \<longrightarrow> j < n \<longrightarrow> item_le (q ! parent j) (q ! j))"

definition rising :: "'e item list \<Rightarrow> nat \<Rightarrow> nat \<Rightarrow> bool" where
  "rising q n k \<longleftrightarrow> (\<forall>j. 0 < j \<longrightarrow> j < n \<longrightarrow> j \<noteq> k \<longrightarrow> item_le (q ! parent j) (q ! j)) \<and>
     (\<forall>j. 0 < j \<longrightarrow> j < n \<longrightarrow> parent j = k \<longrightarrow> 0 < k \<longrightarrow> item_le (q ! parent k) (q ! j))"

definition sinking :: "'e item list \<Rightarrow> nat \<Rightarrow> nat \<Rightarrow> bool" where
  "sinking q n i \<longleftrightarrow> (\<forall>j. 0 < j \<longrightarrow> j < n \<longrightarrow> parent j \<noteq> i \<longrightarrow> item_le (q ! parent j) (q ! j)) \<and>
     (\<forall>j. 0 < j \<longrightarrow> j < n \<longrightarrow> parent j = i \<longrightarrow> 0 < i \<longrightarrow> item_le (q ! parent i) (q ! j))"

lemma length_Swap [simp]: "length (Swap q i j) = length q" by (simp add: Swap_def)

lemma nth_Swap: "i < length q \<Longrightarrow> j < length q \<Longrightarrow> k < length q \<Longrightarrow> Swap q i j ! k = (if k = j then q ! i else if k = i then q ! j else q ! k)"
  by (simp add: Swap_def nth_list_update)

lemma mset_Swap [simp]: "i < length q \<Longrightarrow> j < length q \<Longrightarrow> mset (Swap q i j) = mset q"
  unfolding Swap_def by (cases "i = j") (auto simp: mset_swap)

lemma heap_least: "is_heap q n \<Longrightarrow> j < n \<Longrightarrow> item_le (q ! 0) (q ! j)"
proof (induction j rule: less_induct)
  case (less j)
  show ?case
  proof (cases "j = 0")
    case False
    then have "parent j < j" using parent_less by simp
    then have "item_le (q ! 0) (q ! parent j)" using less by simp
    moreover have "item_le (q ! parent j) (q ! j)" using less.prems False by (simp add: is_heap_def)
    ultimately show ?thesis by (rule item_le_trans)
  qed simp
qed

lemma rising_Swap:
  assumes r: "rising q n k" and k: "0 < k" "k < n" "n \<le> length q" and lt: "item_less (q ! k) (q ! parent k)"
  shows "rising (Swap q (parent k) k) n (parent k)"
proof -
  let ?i = "parent k" let ?q = "Swap q ?i k"
  have i: "?i < k" using k(1) parent_less by simp
  have v: "?q ! k = q ! ?i" "?q ! ?i = q ! k" "\<And>j. j < n \<Longrightarrow> j \<noteq> k \<Longrightarrow> j \<noteq> ?i \<Longrightarrow> ?q ! j = q ! j"
    using i k by (auto simp: nth_Swap)
  have h: "item_le (q ! parent j) (q ! j)" if "0 < j" "j < n" "j \<noteq> k" for j using r that by (simp add: rising_def)
  have g: "item_le (q ! ?i) (q ! j)" if "0 < j" "j < n" "parent j = k" for j using r that k(1) by (simp add: rising_def)
  have below: "item_le (q ! k) (q ! ?i)" by (rule item_le_total(1) [OF lt])
  have "item_le (?q ! parent j) (?q ! j)" if j: "0 < j" "j < n" "j \<noteq> ?i" for j
  proof -
    have pj: "parent j < n" using j parent_less [OF j(1)] by simp
    consider "j = k" | "j \<noteq> k" "parent j = k" | "j \<noteq> k" "parent j = ?i" | "j \<noteq> k" "parent j \<noteq> k" "parent j \<noteq> ?i" by blast
    then show ?thesis
    proof cases
      case 1
      then show ?thesis using v(1,2) below by simp
    next
      case 2
      then show ?thesis using v(1) v(3) [OF j(2)] j g by simp
    next
      case 3
      then show ?thesis using v(2) v(3) [OF j(2)] j item_le_trans [OF below] h [OF j(1,2)] by simp
    next
      case 4
      then show ?thesis using v(3) [OF j(2)] v(3) [OF pj(1)] j h [OF j(1,2)] by simp
    qed
  qed
  moreover have "item_le (?q ! parent ?i) (?q ! j)" if j: "0 < j" "j < n" "parent j = ?i" "0 < ?i" for j
  proof -
    have p: "parent ?i < n" "parent ?i \<noteq> k" "parent ?i \<noteq> ?i" "?i < n" "?i \<noteq> k" using j(4) i k parent_less [OF j(4)] by auto
    have top: "item_le (q ! parent ?i) (q ! ?i)" using h [of ?i] j p by simp
    show ?thesis
    proof (cases "j = k")
      case True
      then show ?thesis using v(1) v(3) [OF p(1)] p top by simp
    next
      case False
      have "j \<noteq> ?i" using j(1,3) parent_same [of j] by auto
      then show ?thesis using False v(3) [OF p(1)] v(3) [OF j(2)] p item_le_trans [OF top] h [OF j(1,2) False] j(3) by simp
    qed
  qed
  ultimately show ?thesis unfolding rising_def by blast
qed

lemma heap_up_ok:
  "rising q n k \<Longrightarrow> k < n \<Longrightarrow> n \<le> length q \<Longrightarrow> is_heap (heap_up q k) n \<and> mset (heap_up q k) = mset q \<and> length (heap_up q k) = length q"
proof (induction q k rule: heap_up.induct)
  case (1 q j)
  show ?case
  proof (cases "parent j = j \<or> \<not> Less q j (parent j)")
    case True
    have "item_le (q ! parent j) (q ! j)" using True by (auto simp: Less_def item_le_def item_less_def)
    then have "is_heap q n" using 1(2) unfolding rising_def is_heap_def by (metis)
    then show ?thesis using True by (simp add: heap_up.simps [of q j] Let_def)
  next
    case False
    then have j: "0 < j" "item_less (q ! j) (q ! parent j)" by (auto simp: Less_def)
    have p: "parent j < n" "parent j < length q" "j < length q" using 1(3,4) parent_less [OF j(1)] by auto
    have "rising (Swap q (parent j) j) n (parent j)" by (rule rising_Swap [OF 1(2) j(1) 1(3,4) j(2)])
    from 1(1) [OF refl False this p(1)] show ?thesis
      using False 1(4) p by (simp add: heap_up.simps [of q j] Let_def)
  qed
qed

lemma heap_push_ok:
  assumes "is_heap q (length q)"
  shows "is_heap (heap_push x q) (length (heap_push x q))" "mset (heap_push x q) = add_mset x (mset q)"
proof -
  have p: "parent j < length q" if "0 < j" "j < length q" for j using parent_less [OF that(1)] that(2) by simp
  have c: "parent j \<noteq> length q" if "0 < j" "j < Suc (length q)" for j using parent_less [OF that(1)] that(2) by simp
  have "rising (q @ [x]) (Suc (length q)) (length q)"
    unfolding rising_def using assms p c by (simp add: is_heap_def nth_append less_Suc_eq)
  from heap_up_ok [OF this] show "is_heap (heap_push x q) (length (heap_push x q))" "mset (heap_push x q) = add_mset x (mset q)"
    by (simp_all add: heap_push_def)
qed

text \<open>The smaller child is a child, and no greater than the other one.\<close>

lemma smaller_childD:
  assumes "2 * i + 1 < n" "j = smaller_child q i n"
  shows "0 < j" "parent j = i" "i < j" "j < n" "\<And>l. 0 < l \<Longrightarrow> l < n \<Longrightarrow> parent l = i \<Longrightarrow> item_le (q ! j) (q ! l)"
proof -
  show "0 < j" "i < j" "j < n" using assms by (auto simp: smaller_child_def)
  then show "parent j = i" using assms(2) by (auto simp: parent_child smaller_child_def)
  show "item_le (q ! j) (q ! l)" if "0 < l" "l < n" "parent l = i" for l
    using assms that item_le_total [of "q ! (2 * i + 2)" "q ! (2 * i + 1)"]
    by (auto simp: parent_child smaller_child_def Less_def item_le_def item_less_irrefl split: if_splits)
qed

lemma sinking_Swap:
  assumes s: "sinking q n i" and n: "2 * i + 1 < n" "n \<le> length q" and j: "j = smaller_child q i n" and lt: "item_less (q ! j) (q ! i)"
  shows "sinking (Swap q i j) n j"
proof -
  let ?q = "Swap q i j"
  note c = smaller_childD [OF n(1) j]
  have v: "?q ! i = q ! j" "?q ! j = q ! i" "\<And>l. l < n \<Longrightarrow> l \<noteq> i \<Longrightarrow> l \<noteq> j \<Longrightarrow> ?q ! l = q ! l"
    using c n by (auto simp: nth_Swap)
  have h: "item_le (q ! parent l) (q ! l)" if "0 < l" "l < n" "parent l \<noteq> i" for l using s that by (simp add: sinking_def)
  have g: "item_le (q ! parent i) (q ! l)" if "0 < l" "l < n" "parent l = i" "0 < i" for l using s that by (simp add: sinking_def)
  have "item_le (?q ! parent l) (?q ! l)" if l: "0 < l" "l < n" "parent l \<noteq> j" for l
  proof -
    have pl: "parent l < n" "parent l \<noteq> l" using parent_less [OF l(1)] l(2) by auto
    show ?thesis
    proof (cases "parent l = i")
      case True
      then show ?thesis using v(1,2) v(3) [OF l(2)] c(5) [OF l(1,2)] item_le_total(1) [OF lt] pl by (cases "l = j") auto
    next
      case False
      then have lj: "l \<noteq> j" using c(2) by auto
      show ?thesis
      proof (cases "l = i")
        case True
        then show ?thesis using v(1) v(3) [OF pl(1)] g [OF c(1,4,2)] l False by auto
      next
        case False
        then show ?thesis using v(3) [OF l(2)] v(3) [OF pl(1)] lj \<open>parent l \<noteq> i\<close> l(3) h [OF l(1,2)] by simp
      qed
    qed
  qed
  moreover have "item_le (?q ! parent j) (?q ! l)" if l: "0 < l" "l < n" "parent l = j" for l
  proof -
    have "l \<noteq> j" "l \<noteq> i" using parent_less [OF l(1)] l(3) c(3) by auto
    then show ?thesis using v(1) v(3) [OF l(2)] c(2) h [OF l(1,2)] l(3) c(3) by simp
  qed
  ultimately show ?thesis unfolding sinking_def by blast
qed

lemma heap_down_ok:
  "sinking q n i \<Longrightarrow> n \<le> length q \<Longrightarrow> is_heap (heap_down q i n) n \<and> mset (heap_down q i n) = mset q \<and>
    length (heap_down q i n) = length q \<and> drop n (heap_down q i n) = drop n q"
proof (induction q i n rule: heap_down.induct)
  case (1 q i n)
  let ?j = "smaller_child q i n"
  show ?case
  proof (cases "n \<le> 2 * i + 1")
    case True
    have "parent l \<noteq> i" if "0 < l" "l < n" for l using True that by (auto simp: parent_child)
    then have "is_heap q n" using 1(2) by (simp add: sinking_def is_heap_def)
    then show ?thesis using True by (simp add: heap_down.simps [of q i n])
  next
    case more: False
    note c = smaller_childD [OF _ refl [of ?j]]
    show ?thesis
    proof (cases "Less q ?j i")
      case False
      then have "item_le (q ! i) (q ! ?j)" by (simp add: Less_def item_le_def)
      then have "item_le (q ! parent l) (q ! l)" if "0 < l" "l < n" for l
        using 1(2) that c(5) [of l] more item_le_trans unfolding sinking_def by (cases "parent l = i") auto
      then show ?thesis using more False by (simp add: is_heap_def heap_down.simps [of q i n])
    next
      case True
      have b: "i < length q" "?j < length q" "i < n" "?j < n" using c(3,4) more 1(3) by auto
      have s: "sinking (Swap q i ?j) n ?j" by (rule sinking_Swap [OF 1(2) _ 1(3) refl]) (use more True in \<open>auto simp: Less_def\<close>)
      have "drop n (Swap q i ?j) = drop n q" using b(3,4) by (simp add: Swap_def drop_update_cancel)
      then show ?thesis
        using 1(1) [OF more refl _ s] True more b 1(3) by (simp add: heap_down.simps [of q i n] Let_def)
    qed
  qed
qed

lemma heap_pop_ok:
  assumes h: "is_heap q (length q)" and p: "heap_pop q = Some (x, q')"
  shows "is_heap q' (length q')" "mset q = add_mset x (mset q')" "y \<in> set q \<Longrightarrow> \<not> item_less y x"
proof -
  let ?n = "length q - 1" let ?d = "heap_down (Swap q 0 ?n) 0 ?n"
  have ne: "q \<noteq> []" using p by (auto simp: heap_pop_def)
  have x: "x = last ?d" "q' = butlast ?d" using p ne by (auto simp: heap_pop_def Let_def)
  have "item_le (Swap q 0 ?n ! parent j) (Swap q 0 ?n ! j)" if "0 < j" "j < ?n" "parent j \<noteq> 0" for j
  proof -
    have "j < length q" "0 < length q" "parent j < length q" "j \<noteq> ?n" "parent j \<noteq> ?n" using that ne parent_less [OF that(1)] by auto
    then show ?thesis using h that by (simp add: is_heap_def nth_Swap)
  qed
  then have "sinking (Swap q 0 ?n) ?n 0" by (simp add: sinking_def)
  then have d: "is_heap ?d ?n" "mset ?d = mset q" "length ?d = length q" "drop ?n ?d = drop ?n (Swap q 0 ?n)"
    using heap_down_ok [of "Swap q 0 ?n" ?n 0] ne by auto
  have dn: "?d \<noteq> []" using d(3) ne by auto
  have "?d ! ?n = Swap q 0 ?n ! ?n"
    using d(3,4) ne by (metis Cons_nth_drop_Suc diff_less length_Swap length_greater_0_conv list.inject zero_less_one)
  then have x0: "x = q ! 0" using x(1) dn d(3) ne by (simp add: last_conv_nth nth_Swap)
  have "item_le (butlast ?d ! parent j) (butlast ?d ! j)" if j: "0 < j" "j < ?n" for j
    using d(1,3) j parent_less [OF j(1)] by (simp add: is_heap_def nth_butlast)
  then show "is_heap q' (length q')" using d(3) unfolding x(2) by (simp add: is_heap_def)
  have "mset ?d = add_mset (last ?d) (mset (butlast ?d))" using dn by (metis append_butlast_last_id mset.simps(2) mset_append union_mset_add_mset_right add.right_neutral mset.simps(1))
  then show "mset q = add_mset x (mset q')" using d(2) x by simp
  show "\<not> item_less y x" if "y \<in> set q" using heap_least [OF h] that x0 by (auto simp: in_set_conv_nth item_le_def)
qed

interpretation sim_heap: event_queue heap_push heap_pop mset "\<lambda>q. is_heap q (length q)" item_less "[]"
proof unfold_locales
  fix q :: "'e item list" and x q'
  assume h: "is_heap q (length q)"
  show "is_heap (heap_push x q) (length (heap_push x q))" "mset (heap_push x q) = add_mset x (mset q)" by (rule heap_push_ok [OF h])+
  show "(heap_pop q = None) = (mset q = {#})" by (simp add: heap_pop_def Let_def)
  assume p: "heap_pop q = Some (x, q')"
  show "is_heap q' (length q')" "mset q = add_mset x (mset q')" by (rule heap_pop_ok [OF h p])+
  show "\<And>y. y \<in># mset q \<Longrightarrow> \<not> item_less y x" using heap_pop_ok(3) [OF h p] by simp
qed (simp_all add: is_heap_def)

end
