(* ===== verification/Simulation.thy ===== *)
theory Simulation
  imports Sim_Queue Inspect
begin

text \<open>
  The deterministic simulator, \<^verbatim>\<open>internal/simulation/simulation.go\<close>: scenarios and their validation, the runner with its event
  queue, network, disks and faults, the checker, the event loop \<open>Run\<close> and the minimizer.

  The runner's nodes are objects that closures hold by reference, so they live in a store \<open>rHeap\<close> and are named by
  their address; a restart makes a new object.  The disk of a node is shared between the runner and the node: it lives in
  \<open>rDisks\<close>, and a call into a node loads it into the node's store and writes it back.  A closure is a value of the datatype \<open>ev\<close>
  with the variables it captures; the flag \<open>completed\<close> that the closures of one message share is in \<open>rCalls\<close>.

  What is outside the source is an argument, the record \<open>Oracle\<close>: the numbers drawn from \<open>math/rand\<close>, by position in one
  sequence, the end of the context by step, the SHA-256 functions, the URL test and the identity of a configuration.
\<close>

section \<open>Scenarios\<close>

record Fault =
  fAt :: int
  fKind :: string
  fNode :: int
  fOther :: int

record Scenario =
  scVersion :: int
  scSeed :: u64
  scNodes :: int
  scOperations :: int
  scMaxDelay :: int
  scDrop :: int
  scDuplicate :: int
  scFaults :: "Fault list"

record Trace =
  trAt :: int
  trType :: string
  trNode :: string
  trDetail :: string

record SimResult =
  srScenario :: Scenario
  srPassed :: bool
  srError :: "gerror option"
  srSteps :: nat
  srVirtual :: int
  srAcknowledged :: nat
  srPending :: int
  srConverged :: bool
  srTraceHash :: string
  srTrace :: "Trace list"

definition Default :: "u64 \<Rightarrow> int \<Rightarrow> int \<Rightarrow> Scenario" where
  "Default seed nodes operations =
     (let span = max (operations * 60) 2400;
          f = (\<lambda>t k n. \<lparr>fAt = t, fKind = k, fNode = n, fOther = 0\<rparr>)
      in \<lparr>scVersion = 1, scSeed = seed, scNodes = nodes, scOperations = operations, scMaxDelay = 80, scDrop = 8, scDuplicate = 5,
          scFaults =
            [f 1000 ''crash'' 0, f 1400 ''restart'' 0,
             f (1500 + span div 5) ''partition'' 1, f (2100 + span div 5) ''heal'' 0,
             f (2300 + span div 4) ''pause'' 2, f (2600 + span div 4) ''resume'' 2,
             f (2800 + span div 3) ''disk-after'' 0, f (3400 + span div 3) ''restart'' 0]\<rparr>)"

definition fault_kinds :: "string list" where
  "fault_kinds = [''crash'', ''restart'', ''pause'', ''resume'', ''partition'', ''heal'', ''disk-before'', ''disk-after'']"

definition fault_error :: "Scenario \<Rightarrow> Fault \<Rightarrow> gerror option" where
  "fault_error s f =
     (if fAt f < 0 \<or> 3600000 < fAt f \<or> fNode f < 0 \<or> scNodes s \<le> fNode f then Some (ErrText ''invalid fault position'')
      else if fKind f \<notin> set fault_kinds then Some (ErrText ''unknown fault'')
      else None)"

definition Validate_Scenario :: "Scenario \<Rightarrow> gerror option" where
  "Validate_Scenario s =
     (if scVersion s \<noteq> 1 \<or> scNodes s < 3 \<or> 5 < scNodes s \<or> scOperations s < 1 \<or> 10000 < scOperations s
         \<or> scMaxDelay s < 0 \<or> 2000 < scMaxDelay s \<or> scDrop s < 0 \<or> 100 < scDrop s \<or> scDuplicate s < 0 \<or> 100 < scDuplicate s
         \<or> 100 < length (scFaults s)
      then Some (ErrText ''invalid scenario bounds'')
      else
        (case List.map_filter (fault_error s) (scFaults s) of
           e # _ \<Rightarrow> Some e
         | [] \<Rightarrow> None))"

section \<open>The runner\<close>

datatype ev = FaultEv Fault | ClientEv nat | RecoverEv | TickEv | ClientTimeoutEv nat nat nat nat Ticket
  | RpcTimeoutEv nat | DeliverEv nat | ResponseEv nat VoteResponse AppendResponse "gerror option"

record operation =
  opCommand :: Command
  opTicket :: "(nat \<times> Ticket) option"
  opSource :: nat
  opDone :: bool
  opRetryAt :: int

text \<open>The variables of one \<open>send\<close>.\<close>

record exchange =
  xFrom :: nat
  xTo :: nat
  xSource :: nat
  xMessage :: Message
  xCompleted :: bool

record runner =
  rS :: Scenario
  rNow :: int
  rSeq :: nat
  rQ :: "ev item list"
  rDraws :: nat
  rHeap :: "Node list"
  rNodes :: "nat option list"
  rDisks :: "journalRecord memoryDisk list"
  rPeers :: "Peer list"
  rIsolated :: "nat set"
  rDrop :: int
  rDelay :: int
  rTraced :: "Trace list"
  rSteps :: nat
  rAcknowledged :: nat
  rErr :: "gerror option"
  rRecoverAt :: int
  rOps :: "operation list"
  rCalls :: "exchange list"
  rTickets :: nat
  rLeaders :: "(u64, string) fmap"
  rVotes :: "(string, string) fmap"
  rCommitted :: "(nat, string) fmap"
  rCommittedTerms :: "(nat, u64) fmap"
  rLogMatching :: "(string, string) fmap"
  rPrevCommit :: "nat list"
  rPrevApplied :: "nat list"
  rCursor :: "u64 list"

record Oracle =
  oInt :: "nat \<Rightarrow> int \<Rightarrow> int"
  oNode :: "nat \<Rightarrow> int \<Rightarrow> int"
  oCtx :: "nat \<Rightarrow> gerror option"
  oEntryHash :: "Entry \<Rightarrow> string"
  oSum :: "string \<Rightarrow> string"
  oDigest :: "Machine \<Rightarrow> string"
  oTraceHash :: "Trace list \<Rightarrow> string"
  oOrigin :: "string \<Rightarrow> bool"
  oIdentity :: "Config \<Rightarrow> string"

definition schedule :: "int \<Rightarrow> string \<Rightarrow> ev \<Rightarrow> runner \<Rightarrow> runner" where
  "schedule t kind fn r =
     (let s = rSeq r + 1 in r\<lparr>rSeq := s, rQ := heap_push \<lparr>itAt = t, itSeq = s, itKind = kind, itRun = fn\<rparr> (rQ r)\<rparr>)"

text \<open>The hash is taken over the whole list at the end; the report keeps the first 600.\<close>

definition record_trace :: "string \<Rightarrow> string \<Rightarrow> string \<Rightarrow> runner \<Rightarrow> runner" where
  "record_trace kind node detail r = r\<lparr>rTraced := rTraced r @ [\<lparr>trAt = rNow r, trType = kind, trNode = node, trDetail = detail\<rparr>]\<rparr>"

definition IntN :: "Oracle \<Rightarrow> int \<Rightarrow> runner \<Rightarrow> int \<times> runner" where
  "IntN w m r = (oInt w (rDraws r) m, r\<lparr>rDraws := rDraws r + 1\<rparr>)"

definition env :: "Oracle \<Rightarrow> runner \<Rightarrow> Env" where
  "env w r = \<lparr>Now = rNow r * 1000000, Int64N = oNode w (rDraws r)\<rparr>"

text \<open>The node at an address of index \<open>i\<close>, on its disk, and writing it back.\<close>

definition load :: "nat \<Rightarrow> nat \<Rightarrow> runner \<Rightarrow> Node" where
  "load i a r = (let n = rHeap r ! a in n\<lparr>store := (store n)\<lparr>sWal := Some (Memory (rDisks r ! i))\<rparr>\<rparr>)"

definition disk_of :: "Node \<Rightarrow> journalRecord memoryDisk \<Rightarrow> journalRecord memoryDisk" where
  "disk_of n d = (case sWal (store n) of Some (Memory d') \<Rightarrow> d' | _ \<Rightarrow> d)"

definition unload :: "nat \<Rightarrow> nat \<Rightarrow> Node \<Rightarrow> runner \<Rightarrow> runner" where
  "unload i a n r = r\<lparr>rHeap := (rHeap r)[a := n], rDisks := (rDisks r)[i := disk_of n (rDisks r ! i)], rDraws := rDraws r + 1\<rparr>"

definition peer_id :: "runner \<Rightarrow> nat \<Rightarrow> string" where
  "peer_id r i = pID (rPeers r ! i)"

definition sim_config :: "runner \<Rightarrow> nat \<Rightarrow> Config" where
  "sim_config r i =
     (let ms = 1000000 in
      \<lparr>cID = peer_id r i, ClusterID = ''simulation'', Peers = rPeers r, FixedLeader = [], ElectionMin = 400 * ms, ElectionMax = 800 * ms,
       Heartbeat = 50 * ms, RPCTimeout = 300 * ms, RequestTimeout = 0, SnapshotEvery = 0\<rparr>)"

definition clear_disk :: "nat \<Rightarrow> string \<Rightarrow> runner \<Rightarrow> runner" where
  "clear_disk i f r = r\<lparr>rDisks := (rDisks r)[i := (rDisks r ! i)\<lparr>mfailure := f\<rparr>]\<rparr>"

definition close_current :: "nat \<Rightarrow> runner \<Rightarrow> runner" where
  "close_current i r =
     (case rNodes r ! i of None \<Rightarrow> r | Some a \<Rightarrow> r\<lparr>rHeap := (rHeap r)[a := Close (rHeap r ! a)]\<rparr>)"

definition start_node_at :: "Oracle \<Rightarrow> nat \<Rightarrow> runner \<Rightarrow> runner option" where
  "start_node_at w i r =
     (let r1 = clear_disk i [] (close_current i r);
          r2 = r1\<lparr>rDraws := rDraws r1 + 1\<rparr>
      in do {
        opened \<leftarrow> OpenWithRuntime (oOrigin w) (oIdentity w) (env w r2) True True (sim_config r2 i) None (Memory (rDisks r2 ! i));
        (case opened of
           Inl e \<Rightarrow> Some (r2\<lparr>rErr := Some e\<rparr>)
         | Inr n \<Rightarrow>
             Some (record_trace ''RESTART'' (peer_id r2 i) []
               (r2\<lparr>rHeap := rHeap r2 @ [n], rNodes := (rNodes r2)[i := Some (length (rHeap r2))],
                   rDisks := (rDisks r2)[i := disk_of n (rDisks r2 ! i)], rCursor := (rCursor r2)[i := 0],
                   rDraws := rDraws r2 + 1\<rparr>)))
      })"

text \<open>A call of \<open>f\<close> on the current node of index \<open>i\<close>, if there is one.\<close>

definition with_node :: "nat \<Rightarrow> (Node \<Rightarrow> Node option) \<Rightarrow> runner \<Rightarrow> runner option" where
  "with_node i f r =
     (case rNodes r ! i of
        None \<Rightarrow> Some r
      | Some a \<Rightarrow> do { n \<leftarrow> f (load i a r); Some (unload i a n r) })"

definition apply_fault :: "Oracle \<Rightarrow> Fault \<Rightarrow> runner \<Rightarrow> runner option" where
  "apply_fault w f r =
     (let i = nat (fNode f); r1 = record_trace ''FAULT'' (peer_id r i) (fKind f) r; k = fKind f in
      if k = ''crash'' then Some ((close_current i r1)\<lparr>rNodes := (rNodes r1)[i := None]\<rparr>)
      else if k = ''restart'' then start_node_at w i r1
      else if k = ''pause'' then with_node i (SetPaused (env w r1) True) r1
      else if k = ''resume'' then with_node i (SetPaused (env w r1) False) r1
      else if k = ''partition'' then Some (r1\<lparr>rIsolated := insert i (rIsolated r1)\<rparr>)
      else if k = ''heal'' then Some (r1\<lparr>rIsolated := {}\<rparr>)
      else if k = ''disk-before'' then Some (clear_disk i ''before'' r1)
      else if k = ''disk-after'' then Some (clear_disk i ''after'' r1)
      else Some r1)"

section \<open>Clients\<close>

text \<open>The healthy leader of the highest term, the first of them.\<close>

definition best_leader :: "runner \<Rightarrow> (nat \<times> nat \<times> u64) option" where
  "best_leader r =
     fold (\<lambda>i best.
        case rNodes r ! i of
          None \<Rightarrow> best
        | Some a \<Rightarrow>
            (let n = rHeap r ! a; t = dTerm (state n) in
             if availableLocked n \<and> role n = Leader \<and> (case best of None \<Rightarrow> True | Some (_, _, t') \<Rightarrow> t' < t)
             then Some (i, a, t) else best))
       [0 ..< length (rNodes r)] None"

definition set_op :: "nat \<Rightarrow> operation \<Rightarrow> runner \<Rightarrow> runner" where
  "set_op k op r = r\<lparr>rOps := (rOps r)[k := op]\<rparr>"

definition try_op :: "Oracle \<Rightarrow> nat \<Rightarrow> runner \<Rightarrow> runner option" where
  "try_op w k r =
     (let op = rOps r ! k in
      if opDone op \<or> opTicket op \<noteq> None then Some r
      else
        (let op1 = op\<lparr>opRetryAt := rNow r + 150\<rparr>; r1 = set_op k op1 r in
         case best_leader r1 of
           None \<Rightarrow> Some r1
         | Some (i, a, _) \<Rightarrow>
             do {
               (res, n) \<leftarrow> Submit (env w r1) (Some (opCommand op1)) None (load i a r1);
               (let r2 = unload i a n r1 in
                case res of
                  Inl _ \<Rightarrow> Some r2
                | Inr ticket \<Rightarrow>
                    (let serial = rTickets r2;
                         r3 = set_op k (op1\<lparr>opTicket := Some (serial, ticket), opSource := a\<rparr>) (r2\<lparr>rTickets := serial + 1\<rparr>);
                         r4 = record_trace ''CLIENT_SUBMIT'' (peer_id r3 i) (ClientID (opCommand op1)) r3
                     in Some (schedule (rNow r4 + 1200) ''client-timeout'' (ClientTimeoutEv k serial i a ticket) r4)))
             }))"

definition client_timeout :: "nat \<Rightarrow> nat \<Rightarrow> nat \<Rightarrow> nat \<Rightarrow> Ticket \<Rightarrow> runner \<Rightarrow> runner" where
  "client_timeout k serial i a ticket r =
     (let op = rOps r ! k in
      case opTicket op of
        Some (serial', _) \<Rightarrow>
          if serial' = serial then
            record_trace ''CLIENT_TIMEOUT'' (peer_id r i) (ClientID (opCommand op))
              (set_op k (op\<lparr>opTicket := None, opRetryAt := rNow r + 50\<rparr>)
                (r\<lparr>rHeap := (rHeap r)[a := Cancel ticket (rHeap r ! a)]\<rparr>))
          else r
      | None \<Rightarrow> r)"

text \<open>One operation of \<open>collect\<close>; the flag tells to stop.\<close>

definition collect_one :: "nat \<Rightarrow> runner \<Rightarrow> bool \<times> runner" where
  "collect_one k r =
     (let op = rOps r ! k in
      case opTicket op of
        None \<Rightarrow> (False, r)
      | Some (_, ticket) \<Rightarrow>
          (case Poll ticket (rHeap r ! opSource op) of
             ((result, err, finished), n) \<Rightarrow>
               (let r1 = r\<lparr>rHeap := (rHeap r)[opSource op := n]\<rparr> in
                if \<not> finished then (False, r1)
                else if err = None then
                  (if dCommit (state n) < tIndex ticket \<or> \<not> rApplied result
                   then (True, r1\<lparr>rErr := Some (ErrText ''acknowledgement before commit or wrong SET result'')\<rparr>)
                   else
                     (False,
                      set_op k (op\<lparr>opDone := True, opTicket := None, opRetryAt := rNow r + 100\<rparr>)
                        (record_trace ''CLIENT_ACK'' (cID (cfg n)) (ClientID (opCommand op)) (r1\<lparr>rAcknowledged := rAcknowledged r1 + 1\<rparr>))))
                else (False, set_op k (op\<lparr>opTicket := None, opRetryAt := rNow r + 100\<rparr>) r1))))"

text \<open>A loop that a step can leave early.\<close>

primrec until_stop :: "('a \<Rightarrow> 's \<Rightarrow> bool \<times> 's) \<Rightarrow> 'a list \<Rightarrow> 's \<Rightarrow> bool \<times> 's" where
  "until_stop f [] r = (False, r)"
| "until_stop f (x # xs) r = (case f x r of (stop, r') \<Rightarrow> if stop then (True, r') else until_stop f xs r')"

definition collect :: "runner \<Rightarrow> runner" where
  "collect r = snd (until_stop collect_one [0 ..< length (rOps r)] r)"

section \<open>The network\<close>

definition blocked :: "runner \<Rightarrow> nat \<Rightarrow> nat \<Rightarrow> bool" where
  "blocked r from to \<longleftrightarrow> from \<noteq> to \<and> (from \<in> rIsolated r \<or> to \<in> rIsolated r)"

definition delayMS :: "Oracle \<Rightarrow> runner \<Rightarrow> int \<times> runner" where
  "delayMS w r = (case IntN w (rDelay r + 1) r of (d, r') \<Rightarrow> (1 + d, r'))"

definition finish :: "Oracle \<Rightarrow> nat \<Rightarrow> VoteResponse \<Rightarrow> AppendResponse \<Rightarrow> gerror option \<Rightarrow> runner \<Rightarrow> runner option" where
  "finish w x v a err r =
     (let c = rCalls r ! x in
      if xCompleted c \<or> rNodes r ! xFrom c \<noteq> Some (xSource c) then Some r
      else
        (let r1 = r\<lparr>rCalls := (rCalls r)[x := c\<lparr>xCompleted := True\<rparr>]\<rparr>; m = xMessage c in
         do {
           n \<leftarrow> (if mVote m \<noteq> None then DeliverVote (env w r1) m v err (load (xFrom c) (xSource c) r1)
                 else DeliverAppend (env w r1) m a err (load (xFrom c) (xSource c) r1));
           Some (unload (xFrom c) (xSource c) n r1)
         }))"

definition message_detail :: "Message \<Rightarrow> string" where
  "message_detail m = mTo m @ ''/'' @ decimal (mSequence m)"

definition zeroV :: VoteResponse where "zeroV = \<lparr>vrTerm = 0, Granted = False\<rparr>"

definition zeroA :: AppendResponse where "zeroA = \<lparr>arTerm = 0, Success = False, MatchIndex = 0, ConflictIndex = 0\<rparr>"

definition deliver :: "Oracle \<Rightarrow> nat \<Rightarrow> runner \<Rightarrow> runner option" where
  "deliver w x r =
     (let c = rCalls r ! x; m = xMessage c; to = xTo c in
      if blocked r (xFrom c) to then Some r
      else
        (case rNodes r ! to of
           None \<Rightarrow> Some r
         | Some a \<Rightarrow>
             (let r1 = record_trace ''MESSAGE_DELIVERED'' (mFrom m) (message_detail m) r in
              do {
                (v, ar, err, n) \<leftarrow>
                  (case mVote m of
                     Some req \<Rightarrow> do { ((v, err), n) \<leftarrow> RequestVote (env w r1) req (load to a r1); Some (v, zeroA, err, n) }
                   | None \<Rightarrow>
                       do { req \<leftarrow> mAppend m; ((ar, err), n) \<leftarrow> AppendEntries (env w r1) req (load to a r1); Some (zeroV, ar, err, n) });
                (case IntN w 100 (unload to a n r1) of
                   (d, r2) \<Rightarrow>
                     if d < rDrop r2 then Some r2
                     else
                       (case delayMS w r2 of
                          (t, r3) \<Rightarrow> Some (schedule (rNow r3 + t) ''response'' (ResponseEv x v ar err) r3)))
              })))"

definition send_msg :: "Oracle \<Rightarrow> nat \<Rightarrow> nat \<Rightarrow> nat \<Rightarrow> Message \<Rightarrow> runner \<Rightarrow> runner" where
  "send_msg w from to source m r =
     (let x = length (rCalls r);
          r1 = r\<lparr>rCalls := rCalls r @ [\<lparr>xFrom = from, xTo = to, xSource = source, xMessage = m, xCompleted = False\<rparr>]\<rparr>;
          r2 = schedule (rNow r1 + 300) ''rpc-timeout'' (RpcTimeoutEv x) r1;
          drop = record_trace ''MESSAGE_DROPPED'' (mFrom m) (message_detail m)
      in if blocked r2 from to then drop r2
         else
           (case IntN w 100 r2 of
              (d, r3) \<Rightarrow>
                if d < rDrop r3 then drop r3
                else
                  (case delayMS w r3 of
                     (t, r4) \<Rightarrow>
                       (case IntN w 100 (schedule (rNow r4 + t) ''message'' (DeliverEv x) r4) of
                          (d', r5) \<Rightarrow>
                            if d' < scDuplicate (rS r5) then
                              (case delayMS w r5 of (t', r6) \<Rightarrow> schedule (rNow r6 + t') ''duplicate-message'' (DeliverEv x) r6)
                            else r5))))"

text \<open>The last peer with the name wins, as in the loop of the source.\<close>

definition peer_index :: "runner \<Rightarrow> string \<Rightarrow> nat option" where
  "peer_index r name = fold (\<lambda>j found. if peer_id r j = name then Some j else found) [0 ..< length (rPeers r)] None"

definition drain_one :: "Oracle \<Rightarrow> nat \<Rightarrow> runner \<Rightarrow> runner" where
  "drain_one w i r =
     (case rNodes r ! i of
        None \<Rightarrow> r
      | Some a \<Rightarrow>
          (case DrainMessages (rHeap r ! a) of
             (ms, n) \<Rightarrow>
               fold (\<lambda>m r. case peer_index r (mTo m) of Some j \<Rightarrow> send_msg w i j a m r | None \<Rightarrow> r) ms (r\<lparr>rHeap := (rHeap r)[a := n]\<rparr>)))"

definition drain :: "Oracle \<Rightarrow> runner \<Rightarrow> runner" where
  "drain w r = fold (drain_one w) [0 ..< length (rNodes r)] r"

section \<open>The checker\<close>

definition lookup_text :: "('k, string) fmap \<Rightarrow> 'k \<Rightarrow> string" where
  "lookup_text m k = (case fmlookup m k of Some v \<Rightarrow> v | None \<Rightarrow> [])"

definition fail :: "string \<Rightarrow> runner \<Rightarrow> bool \<times> runner" where
  "fail message r = (True, r\<lparr>rErr := Some (ErrText message)\<rparr>)"

definition check_events :: "nat \<Rightarrow> Node \<Rightarrow> runner \<Rightarrow> runner" where
  "check_events i n r =
     fold (\<lambda>e r. record_trace (evType e) (evNodeID e)
             (decimal (unat (evTerm e)) @ ''/'' @ decimal (evIndex e) @ ''/'' @ evPeer e @ ''/'' @ evMessageID e)
             (r\<lparr>rCursor := (rCursor r)[i := evID e]\<rparr>))
       (After (events n) (rCursor r ! i)) r"

definition check_progress :: "nat \<Rightarrow> Node \<Rightarrow> runner \<Rightarrow> bool \<times> runner" where
  "check_progress i n r =
     (if dCommit (state n) < rPrevCommit r ! i \<or> applied n < rPrevApplied r ! i \<or> dCommit (state n) < applied n
      then fail ''commit/apply monotonicity violated'' r
      else (False, r\<lparr>rPrevCommit := (rPrevCommit r)[i := dCommit (state n)], rPrevApplied := (rPrevApplied r)[i := applied n]\<rparr>))"

definition vote_key :: "Node \<Rightarrow> string" where
  "vote_key n = cID (cfg n) @ ''/'' @ decimal (unat (dTerm (state n)))"

definition check_vote :: "Node \<Rightarrow> runner \<Rightarrow> bool \<times> runner" where
  "check_vote n r =
     (let vote = dVote (state n); v = lookup_text (rVotes r) (vote_key n) in
      if vote = [] then (False, r)
      else if v \<noteq> [] \<and> v \<noteq> vote then fail ''two votes in one term'' r
      else (False, r\<lparr>rVotes := fmupd (vote_key n) vote (rVotes r)\<rparr>))"

definition check_leader :: "Node \<Rightarrow> runner \<Rightarrow> bool \<times> runner" where
  "check_leader n r =
     (let T = dTerm (state n); name = lookup_text (rLeaders r) T in
      if role n \<noteq> Leader then (False, r)
      else if name \<noteq> [] \<and> name \<noteq> cID (cfg n) then fail ''two leaders in one term'' r
      else (False, r\<lparr>rLeaders := fmupd T (cID (cfg n)) (rLeaders r)\<rparr>))"

definition entry_key :: "Entry \<Rightarrow> string" where
  "entry_key e = decimal (eIndex e) @ ''/'' @ decimal (unat (eTerm e))"

text \<open>One entry of the log, with the hash chain up to it.\<close>

definition check_entry :: "Oracle \<Rightarrow> Node \<Rightarrow> Entry \<Rightarrow> string \<times> runner \<Rightarrow> bool \<times> string \<times> runner" where
  "check_entry w n e = (\<lambda>(prefix, r).
     let h = oEntryHash w e;
         prefix' = oSum w (prefix @ h);
         old = lookup_text (rLogMatching r) (entry_key e)
     in if old \<noteq> [] \<and> old \<noteq> prefix' then (True, prefix', r\<lparr>rErr := Some (ErrText ''log matching violated'')\<rparr>)
        else
          (let r1 = r\<lparr>rLogMatching := fmupd (entry_key e) prefix' (rLogMatching r)\<rparr> in
           if dCommit (state n) < eIndex e then (False, prefix', r1)
           else
             (let known = lookup_text (rCommitted r1) (eIndex e) in
              if known \<noteq> [] \<and> known \<noteq> h then (True, prefix', r1\<lparr>rErr := Some (ErrText ''committed prefix changed'')\<rparr>)
              else
                (False, prefix',
                 r1\<lparr>rCommitted := fmupd (eIndex e) h (rCommitted r1),
                    rCommittedTerms := (if fmlookup (rCommittedTerms r1) (eIndex e) = None
                                        then fmupd (eIndex e) (dTerm (state n)) (rCommittedTerms r1) else rCommittedTerms r1)\<rparr>))))"

definition check_log :: "Oracle \<Rightarrow> Node \<Rightarrow> runner \<Rightarrow> (bool \<times> runner) option" where
  "check_log w n r =
     (if dLog (state n) = [] then None
      else (case until_stop (check_entry w n) (tl (dLog (state n))) ([], r) of (stop, _, r') \<Rightarrow> Some (stop, r')))"

text \<open>
  Leader completeness.  The loop ranges over a map in an order that Go leaves open, and the message names the index it met
  first; the model keeps the message without the index.
\<close>

definition lost_index :: "Oracle \<Rightarrow> Node \<Rightarrow> runner \<Rightarrow> nat \<Rightarrow> bool" where
  "lost_index w n r index \<longleftrightarrow>
     (case fmlookup (rCommittedTerms r) index of Some t \<Rightarrow> t | None \<Rightarrow> 0) \<le> dTerm (state n) \<and>
     (length (dLog (state n)) \<le> index \<or> oEntryHash w (dLog (state n) ! index) \<noteq> lookup_text (rCommitted r) index)"

definition check_complete :: "Oracle \<Rightarrow> Node \<Rightarrow> runner \<Rightarrow> bool \<times> runner" where
  "check_complete w n r =
     (if role n = Leader \<and> \<not> fBall (fmdom (rCommitted r)) (\<lambda>index. \<not> lost_index w n r index)
      then fail ''future leader lost committed prefix'' r else (False, r))"

text \<open>Sequencing of checks that can stop.\<close>

definition and_then :: "bool \<times> runner \<Rightarrow> (runner \<Rightarrow> (bool \<times> runner) option) \<Rightarrow> (bool \<times> runner) option" where
  "and_then p f = (case p of (stop, r) \<Rightarrow> if stop then Some (True, r) else f r)"

definition check_node :: "Oracle \<Rightarrow> nat \<Rightarrow> runner \<Rightarrow> (bool \<times> runner) option" where
  "check_node w i r =
     (case rNodes r ! i of
        None \<Rightarrow> Some (False, r)
      | Some a \<Rightarrow>
          (let n = rHeap r ! a in
           and_then (check_progress i n (check_events i n r)) (\<lambda>r.
             and_then (check_vote n r) (\<lambda>r.
               and_then (check_leader n r) (\<lambda>r.
                 do { p \<leftarrow> check_log w n r; and_then p (\<lambda>r. Some (check_complete w n r)) })))))"

primrec check_nodes :: "Oracle \<Rightarrow> nat list \<Rightarrow> runner \<Rightarrow> runner option" where
  "check_nodes w [] r = Some r"
| "check_nodes w (i # js) r = do { (stop, r') \<leftarrow> check_node w i r; if stop then Some r' else check_nodes w js r' }"

definition check_all :: "Oracle \<Rightarrow> runner \<Rightarrow> runner option" where
  "check_all w r = check_nodes w [0 ..< length (rNodes r)] r"

definition converged :: "Oracle \<Rightarrow> runner \<Rightarrow> bool" where
  "converged w r \<longleftrightarrow>
     (\<forall>i \<in> set [0 ..< length (rNodes r)].
        (case rNodes r ! i of
           None \<Rightarrow> False
         | Some a \<Rightarrow>
             (let n = rHeap r ! a in
              availableLocked n \<and> dCommit (state n) = lastLocked n \<and>
              (case rNodes r ! 0 of
                 None \<Rightarrow> False
               | Some b \<Rightarrow> oDigest w (machine (rHeap r ! b)) = oDigest w (machine n) \<and> applied (rHeap r ! b) = applied n))))"

section \<open>The event loop\<close>

primrec each :: "('a \<Rightarrow> 's \<Rightarrow> 's option) \<Rightarrow> 'a list \<Rightarrow> 's \<Rightarrow> 's option" where
  "each f [] s = Some s"
| "each f (x # xs) s = do { s' \<leftarrow> f x s; each f xs s' }"

text \<open>One node of \<open>recover-all\<close>.\<close>

definition recover_one :: "Oracle \<Rightarrow> nat \<Rightarrow> runner \<Rightarrow> runner option" where
  "recover_one w i r =
     (let r1 = clear_disk i [] r in
      case rNodes r1 ! i of
        None \<Rightarrow> start_node_at w i r1
      | Some a \<Rightarrow>
          (let was = paused (rHeap r1 ! a) in
           do {
             r2 \<leftarrow> (if was then with_node i (SetPaused (env w r1) False) r1 else Some r1);
             (if \<not> availableLocked (rHeap r2 ! a) then start_node_at w i r2
              else if \<not> was then with_node i (SetPaused (env w r2) False) r2
              else Some r2)
           }))"

definition recover_all :: "Oracle \<Rightarrow> runner \<Rightarrow> runner option" where
  "recover_all w r =
     do {
       r' \<leftarrow> each (recover_one w) [0 ..< length (rNodes r)] (r\<lparr>rIsolated := {}, rDrop := 0, rDelay := 5\<rparr>);
       Some (record_trace ''HEAL_ALL'' [] [] r')
     }"

definition retry_op :: "Oracle \<Rightarrow> nat \<Rightarrow> runner \<Rightarrow> runner option" where
  "retry_op w k r =
     (let op = rOps r ! k in
      if \<not> opDone op \<and> opTicket op = None \<and> opRetryAt op \<le> rNow r \<and> 800 \<le> rNow r then try_op w k r else Some r)"

definition tick_all :: "Oracle \<Rightarrow> runner \<Rightarrow> runner option" where
  "tick_all w r =
     do {
       r1 \<leftarrow> each (\<lambda>i r. with_node i (Tick (env w r)) r) [0 ..< length (rNodes r)] r;
       r2 \<leftarrow> each (retry_op w) [0 ..< length (rOps r1)] r1;
       Some (schedule (rNow r2 + 50) ''tick'' TickEv r2)
     }"

definition run_event :: "Oracle \<Rightarrow> ev \<Rightarrow> runner \<Rightarrow> runner option" where
  "run_event w e r =
     (case e of
        FaultEv f \<Rightarrow> apply_fault w f r
      | ClientEv k \<Rightarrow> try_op w k (set_op k ((rOps r ! k)\<lparr>opRetryAt := rNow r\<rparr>) r)
      | RecoverEv \<Rightarrow> recover_all w r
      | TickEv \<Rightarrow> tick_all w r
      | ClientTimeoutEv k serial i a ticket \<Rightarrow> Some (client_timeout k serial i a ticket r)
      | RpcTimeoutEv x \<Rightarrow> finish w x zeroV zeroA (Some (ErrText ''virtual RPC timeout'')) r
      | DeliverEv x \<Rightarrow> deliver w x r
      | ResponseEv x v a err \<Rightarrow> (if blocked r (xTo (rCalls r ! x)) (xFrom (rCalls r ! x)) then Some r else finish w x v a err r))"

text \<open>One iteration after the item \<open>e\<close> was taken.\<close>

definition sim_step :: "Oracle \<Rightarrow> ev item \<Rightarrow> runner \<Rightarrow> runner option" where
  "sim_step w e r =
     (let r1 = r\<lparr>rNow := itAt e, rSteps := rSteps r + 1\<rparr>;
          r2 = record_trace ''SCHEDULE'' [] (decimal (itSeq e) @ '':'' @ itKind e) r1
      in do { r3 \<leftarrow> run_event w (itRun e) r2; check_all w (drain w (collect r3)) })"

text \<open>The loop, with \<open>k\<close> steps left of 2000000; the flag is \<open>Converged\<close>.\<close>

primrec sim_loop :: "Oracle \<Rightarrow> int \<Rightarrow> nat \<Rightarrow> runner \<Rightarrow> (bool \<times> runner) option" where
  "sim_loop w limit 0 r = Some (False, r)"
| "sim_loop w limit (Suc k) r =
     (if rErr r \<noteq> None then Some (False, r)
      else
        (case heap_pop (rQ r) of
           None \<Rightarrow> Some (False, r)
         | Some (e, q) \<Rightarrow>
             (case oCtx w (rSteps r) of
                Some err \<Rightarrow> Some (False, r\<lparr>rErr := Some err\<rparr>)
              | None \<Rightarrow>
                  if limit < itAt e then Some (False, r\<lparr>rQ := q\<rparr>)
                  else
                    do {
                      r' \<leftarrow> sim_step w e (r\<lparr>rQ := q\<rparr>);
                      (if rRecoverAt r' + 1500 < rNow r' \<and> int (rAcknowledged r') = scOperations (rS r') \<and> converged w r'
                       then Some (True, r')
                       else sim_loop w limit k r')
                    })))"

definition sim_peer :: "nat \<Rightarrow> Peer" where
  "sim_peer i = \<lparr>pID = ''node-'' @ decimal (i + 1), PeerURL = ''http://peer:'' @ decimal (8000 + i), ClientURL = ''http://client:'' @ decimal (7000 + i)\<rparr>"

definition first_runner :: "Scenario \<Rightarrow> runner" where
  "first_runner s =
     (let k = nat (scNodes s) in
      \<lparr>rS = s, rNow = 0, rSeq = 0, rQ = [], rDraws = 0, rHeap = [], rNodes = replicate k None,
       rDisks = replicate k \<lparr>mrecords = [], mfailure = []\<rparr>, rPeers = map sim_peer [0 ..< k], rIsolated = {}, rDrop = scDrop s,
       rDelay = scMaxDelay s, rTraced = [], rSteps = 0, rAcknowledged = 0, rErr = None, rRecoverAt = 0, rOps = [], rCalls = [],
       rTickets = 0, rLeaders = fmempty, rVotes = fmempty, rCommitted = fmempty, rCommittedTerms = fmempty, rLogMatching = fmempty,
       rPrevCommit = replicate k 0, rPrevApplied = replicate k 0, rCursor = replicate k 0\<rparr>)"

definition plan_fault :: "Fault \<Rightarrow> runner \<Rightarrow> runner" where
  "plan_fault f r = schedule (fAt f) ''fault'' (FaultEv f) (r\<lparr>rRecoverAt := max (rRecoverAt r) (fAt f + 1000)\<rparr>)"

definition sim_command :: "nat \<Rightarrow> Command" where
  "sim_command i =
     \<lparr>ClientID = ''client-'' @ decimal i, RequestID = 1, Operation = ''SET'', Key = ''key-'' @ decimal (i mod 7),
      Value = ''value-'' @ decimal i, Expected = []\<rparr>"

definition plan_op :: "nat \<Rightarrow> runner \<Rightarrow> runner" where
  "plan_op i r =
     schedule (800 + int (i * 60)) ''client'' (ClientEv i)
       (r\<lparr>rOps := rOps r @ [\<lparr>opCommand = sim_command i, opTicket = None, opSource = 0, opDone = False, opRetryAt = 800 + int (i * 60)\<rparr>]\<rparr>)"

definition prepare_run :: "Oracle \<Rightarrow> Scenario \<Rightarrow> runner option" where
  "prepare_run w s =
     do {
       r1 \<leftarrow> each (start_node_at w) [0 ..< nat (scNodes s)] (first_runner s);
       (let r2 = fold plan_fault (scFaults s) (r1\<lparr>rRecoverAt := scOperations s * 60 + 1800\<rparr>);
            r3 = fold plan_op [0 ..< nat (scOperations s)] r2;
            r4 = schedule (rRecoverAt r3) ''recover-all'' RecoverEv r3
        in Some (schedule 50 ''tick'' TickEv r4))
     }"

definition report :: "Oracle \<Rightarrow> bool \<Rightarrow> runner \<Rightarrow> SimResult" where
  "report w conv r =
     (let pending = scOperations (rS r) - int (rAcknowledged r);
          passed = (rErr r = None \<and> conv \<and> pending = 0)
      in \<lparr>srScenario = rS r, srPassed = passed,
          srError = (if rErr r \<noteq> None then rErr r
                     else if \<not> passed then Some (ErrText ''cluster did not finish and converge after healing'') else None),
          srSteps = rSteps r, srVirtual = rNow r, srAcknowledged = rAcknowledged r, srPending = pending, srConverged = conv,
          srTraceHash = oTraceHash w (rTraced r), srTrace = take 600 (rTraced r)\<rparr>)"

definition refused_report :: "Scenario \<Rightarrow> gerror \<Rightarrow> SimResult" where
  "refused_report s e =
     \<lparr>srScenario = s, srPassed = False, srError = Some e, srSteps = 0, srVirtual = 0, srAcknowledged = 0, srPending = 0, srConverged = False,
      srTraceHash = [], srTrace = []\<rparr>"

definition Run :: "Oracle \<Rightarrow> Scenario \<Rightarrow> SimResult option" where
  "Run w s =
     (case Validate_Scenario s of
        Some e \<Rightarrow> Some (refused_report s e)
      | None \<Rightarrow>
          do {
            r \<leftarrow> prepare_run w s;
            (conv, r') \<leftarrow> sim_loop w (rRecoverAt r + max 12000 (scOperations s * 10)) 2000000 r;
            Some (report w conv r')
          })"

section \<open>The minimizer\<close>

text \<open>
  \<open>k\<close> attempts are left of 100, \<open>alive\<close> tells by attempt whether the context goes on.  The sort by time is stable, as \<open>sort_key\<close> is.
\<close>

primrec min_loop :: "(Scenario \<Rightarrow> bool) \<Rightarrow> (nat \<Rightarrow> bool) \<Rightarrow> nat \<Rightarrow> nat \<Rightarrow> Scenario \<Rightarrow> Scenario" where
  "min_loop fails alive 0 i s = s"
| "min_loop fails alive (Suc k) i s =
     (if i < length (scFaults s) \<and> alive (99 - k) then
        (let candidate = s\<lparr>scFaults := take i (scFaults s) @ drop (i + 1) (scFaults s)\<rparr>
         in if fails candidate then min_loop fails alive k 0 candidate else min_loop fails alive k (i + 1) s)
      else s)"

definition Minimize :: "(nat \<Rightarrow> bool) \<Rightarrow> Scenario \<Rightarrow> (Scenario \<Rightarrow> bool) \<Rightarrow> Scenario" where
  "Minimize alive s fails =
     (if \<not> fails s then s else min_loop fails alive 100 0 (s\<lparr>scFaults := sort_key fAt (scFaults s)\<rparr>))"

end
