(* ===== verification/Minimizer.thy ===== *)
theory Minimizer
  imports Simulation "HOL-Library.Sublist"
begin

text \<open>
  What the minimizer of the simulator achieves: it sorts the faults by time and then only removes some, what it keeps instead fails, and for
  schedules of up to thirteen faults its budget of 100 runs always suffices for a result from which no single fault can be removed.
\<close>

definition without :: "nat \<Rightarrow> Scenario \<Rightarrow> Scenario" where
  "without i s = s\<lparr>scFaults := take i (scFaults s) @ drop (i + 1) (scFaults s)\<rparr>"

lemma without_sel [simp]: "scFaults (without i s) = take i (scFaults s) @ drop (i + 1) (scFaults s)"
  by (simp add: without_def)

lemma without_smaller: "i < length (scFaults s) \<Longrightarrow> length (scFaults (without i s)) = length (scFaults s) - 1"
  by simp

lemma without_subseq: "subseq (scFaults (without i s)) (scFaults s)"
proof -
  have "subseq (take i (scFaults s) @ drop (i + 1) (scFaults s)) (take i (scFaults s) @ drop i (scFaults s))"
  proof (intro list_emb_append_mono subseq_order.refl)
    have "drop (i + 1) (scFaults s) = tl (drop i (scFaults s))" by (simp add: drop_Suc tl_drop)
    then show "subseq (drop (i + 1) (scFaults s)) (drop i (scFaults s))" by (cases "drop i (scFaults s)") auto
  qed
  then show ?thesis by simp
qed

lemma min_loop_Suc:
  "min_loop fails alive (Suc k) i s =
     (if i < length (scFaults s) \<and> alive (99 - k) then
        (if fails (without i s) then min_loop fails alive k 0 (without i s) else min_loop fails alive k (i + 1) s)
      else s)"
  by (simp add: without_def Let_def)

declare min_loop.simps(2) [simp del]

text \<open>Only faults are removed, and what is kept instead of the scenario the loop started from fails.\<close>

lemma min_loop_keeps:
  "(min_loop fails alive k i s = s \<or> fails (min_loop fails alive k i s)) \<and> subseq (scFaults (min_loop fails alive k i s)) (scFaults s) \<and>
     (min_loop fails alive k i s)\<lparr>scFaults := []\<rparr> = s\<lparr>scFaults := []\<rparr>"
proof (induction k arbitrary: i s)
  case (Suc k)
  show ?case
  proof (cases "i < length (scFaults s) \<and> alive (99 - k) \<and> fails (without i s)")
    case True
    then show ?thesis
      using Suc.IH [of 0 "without i s"] without_subseq [of i s] by (auto simp: min_loop_Suc without_def intro: subseq_order.trans)
  next
    case False
    then show ?thesis using Suc.IH [of "i + 1" s] by (simp add: min_loop_Suc)
  qed
qed simp

definition minimal :: "(Scenario \<Rightarrow> bool) \<Rightarrow> Scenario \<Rightarrow> bool" where
  "minimal fails s \<longleftrightarrow> (\<forall>i < length (scFaults s). \<not> fails (without i s))"

text \<open>The number of runs that are enough from position \<open>i\<close>.\<close>

definition runs_needed :: "nat \<Rightarrow> nat \<Rightarrow> nat" where
  "runs_needed n i = n - i + n * (n - 1) div 2"

lemma runs_needed_less: "i < n \<Longrightarrow> runs_needed (n - 1) 0 < runs_needed n i"
proof -
  assume "i < n"
  then obtain m where n: "n = Suc m" by (cases n) auto
  have "m + m * (m - 1) div 2 = Suc m * m div 2"
    by (cases m) (simp_all add: algebra_simps)
  then show ?thesis using \<open>i < n\<close> n by (simp add: runs_needed_def)
qed

lemma min_loop_minimal:
  assumes "\<forall>a. alive a"
  shows "runs_needed (length (scFaults s)) i \<le> k \<Longrightarrow> \<forall>j < i. j < length (scFaults s) \<longrightarrow> \<not> fails (without j s) \<Longrightarrow>
    minimal fails (min_loop fails alive k i s)"
proof (induction k arbitrary: i s)
  case 0
  then show ?case by (auto simp: runs_needed_def minimal_def)
next
  case (Suc k)
  let ?n = "length (scFaults s)"
  show ?case
  proof (cases "i < ?n")
    case False
    then show ?thesis using Suc.prems(2) by (auto simp: min_loop_Suc minimal_def)
  next
    case i: True
    have alive: "alive (99 - k)" using assms by simp
    show ?thesis
    proof (cases "fails (without i s)")
      case True
      have "runs_needed (length (scFaults (without i s))) 0 \<le> k"
        using runs_needed_less [OF i] Suc.prems(1) without_smaller [OF i] by simp
      then have "minimal fails (min_loop fails alive k 0 (without i s))" by (rule Suc.IH) simp
      then show ?thesis using i True alive by (simp add: min_loop_Suc)
    next
      case False
      have "runs_needed ?n (i + 1) \<le> k" using Suc.prems(1) i by (simp add: runs_needed_def)
      moreover have "\<forall>j < i + 1. j < ?n \<longrightarrow> \<not> fails (without j s)" using Suc.prems(2) False by (auto simp: less_Suc_eq)
      ultimately have "minimal fails (min_loop fails alive k (i + 1) s)" by (rule Suc.IH)
      then show ?thesis using i False alive by (simp add: min_loop_Suc)
    qed
  qed
qed

section \<open>Properties\<close>

text \<open>
  C38.  The minimizer, for any test of failure.  A scenario that does not fail comes back unchanged.  Otherwise its faults are put in the order of their times
  and then only removed: the faults of the result are a subsequence of the sorted ones, nothing else changes, and the result fails, unless it is
  the scenario with the sorted faults itself, which is never tested; so it fails whenever the sorted scenario does.  If the context stays alive and there
  are at most thirteen faults, removing any single fault from the result makes it pass.
\<close>

theorem minimize_keeps_failure:
  "(\<not> fails s \<longrightarrow> Minimize alive s fails = s) \<and>
   (fails s \<longrightarrow>
     subseq (scFaults (Minimize alive s fails)) (sort_key fAt (scFaults s)) \<and>
     (Minimize alive s fails)\<lparr>scFaults := []\<rparr> = s\<lparr>scFaults := []\<rparr> \<and>
     (fails (Minimize alive s fails) \<or> Minimize alive s fails = s\<lparr>scFaults := sort_key fAt (scFaults s)\<rparr>) \<and>
     (fails (s\<lparr>scFaults := sort_key fAt (scFaults s)\<rparr>) \<longrightarrow> fails (Minimize alive s fails)) \<and>
     ((\<forall>a. alive a) \<and> length (scFaults s) \<le> 13 \<longrightarrow> minimal fails (Minimize alive s fails)))"
proof (cases "fails s")
  case True
  let ?s = "s\<lparr>scFaults := sort_key fAt (scFaults s)\<rparr>"
  have m: "Minimize alive s fails = min_loop fails alive 100 0 ?s" using True by (simp add: Minimize_def)
  have "runs_needed n 0 \<le> 100" if "n \<le> 13" for n
  proof -
    have "n * (n - 1) \<le> 13 * 12" using that by (intro mult_le_mono) auto
    then have "n * (n - 1) div 2 \<le> 13 * 12 div 2" by (rule div_le_mono)
    then show ?thesis using that by (simp add: runs_needed_def)
  qed
  then have "minimal fails (min_loop fails alive 100 0 ?s)" if "\<forall>a. alive a" "length (scFaults s) \<le> 13"
    using min_loop_minimal [OF that(1), of ?s 0 100 fails] that(2) by simp
  then show ?thesis using min_loop_keeps [of fails alive 100 0 ?s] True unfolding m by auto
qed (simp add: Minimize_def)

definition needs_crash :: "Scenario \<Rightarrow> bool" where
  "needs_crash s \<longleftrightarrow> ''crash'' \<in> fKind ` set (scFaults s)"

theorem minimize_keeps_failure_witness:
  "needs_crash (Minimize (\<lambda>_. True) (Default 7 3 10) needs_crash) \<and> minimal needs_crash (Minimize (\<lambda>_. True) (Default 7 3 10) needs_crash)"
proof -
  have "needs_crash (Default 7 3 10)" "length (scFaults (Default 7 3 10)) \<le> 13" by (simp_all add: needs_crash_def Default_def Let_def)
  moreover have "needs_crash ((Default 7 3 10)\<lparr>scFaults := sort_key fAt (scFaults (Default 7 3 10))\<rparr>)"
    using calculation(1) by (simp add: needs_crash_def)
  ultimately show ?thesis using minimize_keeps_failure [of needs_crash "Default 7 3 10" "\<lambda>_. True"] by blast
qed

end
