(* ===== verification/Lab.thy ===== *)
theory Lab
  imports Api Client
begin

text \<open>
  The chaos lab's control plane, \<^verbatim>\<open>internal/lab/manager.go\<close>, \<^verbatim>\<open>proxy.go\<close> and the pure parts of \<^verbatim>\<open>http.go\<close>: the manager of
  the node processes, the faults it injects, the views it polls, the metrics it keeps, the fault proxies between the nodes, the
  translation of dashboard commands into requests of the client API, and the guard in front of the dashboard.

  What the operating system and the network answer is an argument of each operation.  Processes are named by the serial number
  of their start.  A latency is kept in microseconds and a rate as the number of requests in ten seconds; the code divides them by 1000 and by
  10 for display.
\<close>

section \<open>State\<close>

record LabConfig =
  lcNodes :: int
  lcBasePort :: int
  lcDataDir :: string
  lcNodeBinary :: string
  lcAssets :: string

record Member =
  mbID :: string
  mbClientURL :: string
  mbPeerAddress :: string
  mbAdminURL :: string
  mbProxyAddress :: string
  mbCmd :: nat
  mbRunning :: bool

record NodeView =
  nvInspection :: Inspection
  nvID :: string
  nvOnline :: bool
  nvRunning :: bool
  nvSeenAt :: int

record Metrics =
  mtRequests :: nat
  mtSucceeded :: nat
  mtConflicts :: nat
  mtFailed :: nat
  mtP50 :: nat
  mtP95 :: nat
  mtRate :: nat
  mtWorkload :: bool

record ReplicaObservation =
  roID :: string
  roOnline :: bool
  roHealthy :: bool
  roApplied :: nat
  roHash :: string

record Observation =
  obTime :: int
  obMatched :: bool
  obReplicas :: "ReplicaObservation list"

record Manager =
  mCfg :: LabConfig
  mMembers :: "Member list"
  mViews :: "(string, NodeView) fmap"
  mClosing :: bool
  mToken :: string
  mClient :: Client
  mEvents :: Buffer
  mTimeline :: Buffer
  mIsolated :: "string fset"
  mDelay :: int
  mDrop :: int
  mPacket :: u64
  mMetrics :: Metrics
  mSamples :: "(int \<times> nat) list"
  mWork :: bool
  mBefore :: "Observation option"
  mGaps :: nat
  mSerial :: nat

record LabSnapshot =
  lsTime :: int
  lsNodes :: "NodeView list"
  lsIsolated :: "string list"
  lsDelay :: int
  lsDrop :: int
  lsEvents :: "Event list"
  lsTimeline :: "Event list"
  lsMetrics :: Metrics
  lsConverged :: bool
  lsConsistency :: string
  lsGaps :: nat
  lsBefore :: "Observation option"
  lsObserved :: Observation

definition zeroStatus :: Status where
  "zeroStatus = \<lparr>stNodeID = [], stMode = [], stRole = Follower, stTerm = 0, stLeaderID = [], stLeaderURL = [], stLastLogIndex = 0,
     stCommitIndex = 0, stLastApplied = 0, stKeys = 0, stAppliedOperations = 0, stSnapshotIndex = 0, stHealthy = False, stPaused = False,
     stPeers = []\<rparr>"

definition zeroView :: NodeView where
  "zeroView = \<lparr>nvInspection = \<lparr>iStatus = zeroStatus, iBootID = [], iStateHash = [], iLog = [], iEvents = []\<rparr>, nvID = [], nvOnline = False,
     nvRunning = False, nvSeenAt = 0\<rparr>"

definition view :: "Manager \<Rightarrow> string \<Rightarrow> NodeView" where
  "view m i = (case fmlookup (mViews m) i of Some v \<Rightarrow> v | None \<Rightarrow> zeroView)"

definition lab_find :: "string \<Rightarrow> Manager \<Rightarrow> Member option" where
  "lab_find i m = find (\<lambda>b. mbID b = i) (mMembers m)"

definition update_member :: "string \<Rightarrow> (Member \<Rightarrow> Member) \<Rightarrow> Manager \<Rightarrow> Manager" where
  "update_member i f m = m\<lparr>mMembers := map (\<lambda>b. if mbID b = i then f b else b) (mMembers m)\<rparr>"

section \<open>Events and observations\<close>

definition timeline_types :: "string list" where
  "timeline_types = [''PROCESS_STARTED'', ''PROCESS_EXITED'', ''NETWORK_CHANGED'', ''PAUSED'', ''RESUMED'', ''DISK_ERROR'', ''ELECTION_STARTED'',
     ''LEADER_ELECTED'', ''STEPPED_DOWN'', ''VOTE_GRANTED'', ''LOG_REPAIRED'']"

definition lab_publish :: "Event \<Rightarrow> Manager \<Rightarrow> Manager" where
  "lab_publish e m =
     (let m1 = m\<lparr>mEvents := Publish e (mEvents m)\<rparr>
      in if evType e \<in> set timeline_types then m1\<lparr>mTimeline := Publish e (mTimeline m1)\<rparr> else m1)"

definition lab_event :: "int \<Rightarrow> string \<Rightarrow> string \<Rightarrow> string \<Rightarrow> Event" where
  "lab_event now node kind detail =
     \<lparr>evID = 0, evTime = now, evNodeID = node, evType = kind, evTerm = 0, evIndex = 0, evPeer = [], evMessageID = [], evDetail = detail\<rparr>"

definition replica :: "Manager \<Rightarrow> Member \<Rightarrow> ReplicaObservation" where
  "replica m b =
     (let v = view m (mbID b); s = iStatus (nvInspection v) in
      \<lparr>roID = mbID b, roOnline = nvOnline v, roHealthy = stHealthy s, roApplied = stLastApplied s, roHash = iStateHash (nvInspection v)\<rparr>)"

definition observationLocked :: "int \<Rightarrow> Manager \<Rightarrow> Observation" where
  "observationLocked now m =
     (let rs = map (replica m) (mMembers m) in
      \<lparr>obTime = now,
       obMatched = list_all (\<lambda>r. roOnline r \<and> roHealthy r \<and> roApplied r = roApplied (hd rs) \<and> roHash r = roHash (hd rs)) rs,
       obReplicas = rs\<rparr>)"

section \<open>Processes\<close>

text \<open>What opening the log file and starting the process give.\<close>

record StartEnv =
  seLogErr :: "gerror option"
  seStartErr :: "gerror option"
  sePid :: nat
  seNow :: int

definition Start :: "StartEnv \<Rightarrow> string \<Rightarrow> Manager \<Rightarrow> gerror option \<times> Manager" where
  "Start se i m =
     (if mClosing m then (Some (ErrText ''lab closed''), m)
      else
        (case lab_find i m of
           None \<Rightarrow> (Some (ErrText ''unknown node''), m)
         | Some b \<Rightarrow>
             if mbRunning b then (None, m)
             else if seLogErr se \<noteq> None then (seLogErr se, m)
             else if seStartErr se \<noteq> None then (seStartErr se, m)
             else
               (let serial = mSerial m + 1;
                    m1 = update_member i (\<lambda>b. b\<lparr>mbCmd := serial, mbRunning := True\<rparr>) (m\<lparr>mSerial := serial\<rparr>)
                in (None, lab_publish (lab_event (seNow se) i ''PROCESS_STARTED'' (''PID '' @ decimal (sePid se))) m1))))"

text \<open>The goroutine that waits for the process: \<open>detail\<close> is the exit error or \<open>stopped\<close>.\<close>

definition process_exited :: "int \<Rightarrow> string \<Rightarrow> string \<Rightarrow> nat \<Rightarrow> Manager \<Rightarrow> Manager" where
  "process_exited now detail i serial m =
     lab_publish (lab_event now i ''PROCESS_EXITED'' detail)
       (update_member i (\<lambda>b. if mbCmd b = serial then b\<lparr>mbRunning := False\<rparr> else b) m)"

definition Crash :: "int \<Rightarrow> gerror option \<Rightarrow> string \<Rightarrow> Manager \<Rightarrow> gerror option \<times> Manager" where
  "Crash now killErr i m =
     (case lab_find i m of
        None \<Rightarrow> (Some (ErrText ''unknown node''), m)
      | Some b \<Rightarrow> if \<not> mbRunning b then (None, m) else (killErr, m\<lparr>mBefore := Some (observationLocked now m)\<rparr>))"

text \<open>The request to the node's administration listener gives an error or a status.\<close>

definition Pause :: "int \<Rightarrow> gerror + nat \<Rightarrow> string \<Rightarrow> bool \<Rightarrow> Manager \<Rightarrow> gerror option \<times> Manager" where
  "Pause now answer i p m =
     (case lab_find i m of
        None \<Rightarrow> (Some (ErrText ''unknown node''), m)
      | Some b \<Rightarrow>
          (let m1 = (if p then m\<lparr>mBefore := Some (observationLocked now m)\<rparr> else m) in
           case answer of
             Inl e \<Rightarrow> (Some e, m1)
           | Inr status \<Rightarrow> (if status \<noteq> 200 then Some (ErrText ''admin returned'') else None, m1)))"

definition show_list :: "string list \<Rightarrow> string" where
  "show_list xs = ''['' @ (case xs of [] \<Rightarrow> [] | x # ys \<Rightarrow> x @ concat (map (\<lambda>y. '' '' @ y) ys)) @ '']''"

definition SetFaults :: "int \<Rightarrow> string list \<Rightarrow> int \<Rightarrow> int \<Rightarrow> Manager \<Rightarrow> gerror option \<times> Manager" where
  "SetFaults now isolated delay loss m =
     (if delay < 0 \<or> 2000 < delay \<or> loss < 0 \<or> 100 < loss then (Some (ErrText ''invalid delay/loss range''), m)
      else if \<not> list_all (\<lambda>i. lab_find i m \<noteq> None) isolated then (Some (ErrText ''unknown node''), m)
      else
        (let m1 = (if isolated \<noteq> [] \<or> 0 < delay \<or> 0 < loss then m\<lparr>mBefore := Some (observationLocked now m)\<rparr> else m)
         in (None,
             lab_publish (lab_event now [] ''NETWORK_CHANGED''
                 (''isolated='' @ show_list isolated @ '' delay='' @ decimal (nat delay) @ ''ms drop='' @ decimal (nat loss) @ ''%''))
               (m1\<lparr>mIsolated := fset_of_list isolated, mDelay := delay, mDrop := loss\<rparr>))))"

text \<open>Closing kills the running processes; their exits are reported by \<open>process_exited\<close>.\<close>

definition Close_Manager :: "Manager \<Rightarrow> Manager" where
  "Close_Manager m = (if mClosing m then m else m\<lparr>mClosing := True\<rparr>)"

section \<open>Opening\<close>

record LabEnv =
  probeErr :: "string \<Rightarrow> gerror option"
  mkdirErr :: "gerror option"
  randomErr :: "gerror + string"
  writeErr :: "gerror option"
  listenErr :: "string \<Rightarrow> gerror option"
  startOf :: "string \<Rightarrow> StartEnv"

definition show_int :: "int \<Rightarrow> string" where
  "show_int i = (if i < 0 then CHR ''-'' # decimal (nat (- i)) else decimal (nat i))"

definition loopback :: "int \<Rightarrow> string" where
  "loopback port = ''127.0.0.1:'' @ show_int port"

definition lab_member :: "LabConfig \<Rightarrow> int \<Rightarrow> Member" where
  "lab_member c i =
     \<lparr>mbID = ''node-'' @ show_int i, mbClientURL = ''http://'' @ loopback (lcBasePort c + 100 + i), mbPeerAddress = loopback (lcBasePort c + 200 + i),
      mbAdminURL = ''http://'' @ loopback (lcBasePort c + 300 + i), mbProxyAddress = loopback (lcBasePort c + 400 + i), mbCmd = 0,
      mbRunning = False\<rparr>"

definition membership_peers :: "LabConfig \<Rightarrow> Peer list" where
  "membership_peers c =
     map (\<lambda>i. let b = lab_member c i in \<lparr>pID = mbID b, PeerURL = ''http://'' @ mbProxyAddress b, ClientURL = mbClientURL b\<rparr>) [1 .. lcNodes c]"

primrec start_members :: "(string \<Rightarrow> StartEnv) \<Rightarrow> string list \<Rightarrow> Manager \<Rightarrow> gerror option \<times> Manager" where
  "start_members se [] m = (None, m)"
| "start_members se (i # js) m =
     (case Start (se i) i m of (Some e, m1) \<Rightarrow> (Some e, m1) | (None, m1) \<Rightarrow> start_members se js m1)"

definition zeroMetrics :: Metrics where
  "zeroMetrics = \<lparr>mtRequests = 0, mtSucceeded = 0, mtConflicts = 0, mtFailed = 0, mtP50 = 0, mtP95 = 0, mtRate = 0, mtWorkload = False\<rparr>"

definition first_error :: "('a \<Rightarrow> gerror option) \<Rightarrow> 'a list \<Rightarrow> gerror option" where
  "first_error f xs = (case List.map_filter f xs of e # _ \<Rightarrow> Some e | [] \<Rightarrow> None)"

definition New_Manager :: "(string \<Rightarrow> bool) \<Rightarrow> LabEnv \<Rightarrow> LabConfig \<Rightarrow> gerror + Manager" where
  "New_Manager valid le c =
     (if lcNodes c \<noteq> 3 \<and> lcNodes c \<noteq> 5 then Inl (ErrText ''lab requires 3 or 5 nodes'')
      else if lcBasePort c < 1024 \<or> 64000 < lcBasePort c then Inl (ErrText ''invalid base port'')
      else
        (case first_error (probeErr le) (map loopback (concat (map (\<lambda>g. map (\<lambda>i. lcBasePort c + 100 * g + i) [1 .. lcNodes c]) [1 .. 3]))) of
           Some e \<Rightarrow> Inl (ErrWrap ''lab port unavailable'' e)
         | None \<Rightarrow>
             (case mkdirErr le of
                Some e \<Rightarrow> Inl e
              | None \<Rightarrow>
                  (case randomErr le of
                     Inl e \<Rightarrow> Inl e
                   | Inr token \<Rightarrow>
                       (case writeErr le of
                          Some e \<Rightarrow> Inl e
                        | None \<Rightarrow>
                            (let members = map (lab_member c) [1 .. lcNodes c];
                                 client = (case New_Client valid (map mbClientURL members) of
                                             Inr cl \<Rightarrow> cl | Inl _ \<Rightarrow> \<lparr>servers = [], preferred = [], discovered = {||}\<rparr>);
                                 m = \<lparr>mCfg = c, mMembers = members, mViews = fmempty, mClosing = False, mToken = token, mClient = client,
                                      mEvents = New_Buffer 400, mTimeline = New_Buffer 200, mIsolated = {||}, mDelay = 0, mDrop = 0, mPacket = 0,
                                      mMetrics = zeroMetrics, mSamples = [], mWork = False, mBefore = None, mGaps = 0, mSerial = 0\<rparr>
                             in case first_error (listenErr le) (map mbProxyAddress members) of
                                  Some e \<Rightarrow> Inl e
                                | None \<Rightarrow>
                                    (case start_members (startOf le) (map mbID members) m of
                                       (Some e, _) \<Rightarrow> Inl e
                                     | (None, m') \<Rightarrow> Inr m')))))))"

section \<open>Polling and reporting\<close>

text \<open>The critical section of one poll: \<open>answer\<close> is the decoded inspection, if the node gave one.\<close>

definition poll_member :: "int \<Rightarrow> Inspection option \<Rightarrow> Member \<Rightarrow> Manager \<Rightarrow> Manager" where
  "poll_member now answer b m =
     (let prior = view m (mbID b);
          base = prior\<lparr>nvID := mbID b, nvOnline := (answer \<noteq> None), nvRunning := mbRunning b\<rparr>
      in case answer of
           None \<Rightarrow> m\<lparr>mViews := fmupd (mbID b) base (mViews m)\<rparr>
         | Some inspect \<Rightarrow>
             (let before = iEvents (nvInspection prior);
                  lastID = (if iBootID (nvInspection prior) = iBootID inspect \<and> before \<noteq> [] then evID (last before) else 0);
                  m1 = (if iEvents inspect \<noteq> [] \<and> 0 < lastID \<and> lastID + 1 < evID (hd (iEvents inspect)) then m\<lparr>mGaps := mGaps m + 1\<rparr> else m);
                  m2 = fold (\<lambda>e m. if lastID < evID e then lab_publish e m else m) (iEvents inspect) m1
              in m2\<lparr>mViews := fmupd (mbID b) (base\<lparr>nvInspection := inspect, nvSeenAt := now\<rparr>) (mViews m2)\<rparr>))"

definition snapshot_view :: "Manager \<Rightarrow> Member \<Rightarrow> NodeView" where
  "snapshot_view m b =
     (let v = view m (mbID b) in v\<lparr>nvID := mbID b, nvRunning := mbRunning b, nvInspection := (nvInspection v)\<lparr>iEvents := []\<rparr>\<rparr>)"

definition views_agree :: "NodeView list \<Rightarrow> bool" where
  "views_agree vs \<longleftrightarrow>
     list_all (\<lambda>v. nvOnline v \<and> stHealthy (iStatus (nvInspection v)) \<and>
        iStateHash (nvInspection v) = iStateHash (nvInspection (hd vs)) \<and>
        stLastApplied (iStatus (nvInspection v)) = stLastApplied (iStatus (nvInspection (hd vs)))) vs"

text \<open>The isolated members in alphabetical order (\<open>sort.Strings\<close>): \<open>sort_ids\<close> lists a set in the order of strings.\<close>

definition lab_snapshot :: "(string fset \<Rightarrow> string list) \<Rightarrow> int \<Rightarrow> Manager \<Rightarrow> LabSnapshot" where
  "lab_snapshot sort_ids now m =
     (let vs = map (snapshot_view m) (mMembers m);
          conv = views_agree vs;
          lat = sort (map snd (mSamples m));
          count = length (filter (\<lambda>(t, _). now - t < 10000000000) (mSamples m));
          metrics = (mMetrics m)\<lparr>mtRate := count\<rparr>;
          metrics' = (if lat = [] then metrics
                      else metrics\<lparr>mtP50 := lat ! ((length lat - 1) div 2), mtP95 := lat ! ((length lat - 1) * 95 div 100)\<rparr>)
      in \<lparr>lsTime = now, lsNodes = vs, lsIsolated = sort_ids (mIsolated m), lsDelay = mDelay m, lsDrop = mDrop m, lsEvents = After (mEvents m) 0,
          lsTimeline = After (mTimeline m) 0, lsMetrics = metrics', lsConverged = conv,
          lsConsistency = (if conv then ''All observed replicas have the same applied index and state hash''
                           else ''Waiting for all replicas to reach the same applied state''),
          lsGaps = mGaps m, lsBefore = mBefore m, lsObserved = observationLocked now m\<rparr>)"

section \<open>Commands\<close>

record CommandRequest =
  crOperation :: string
  crKey :: string
  crValue :: string
  crExpected :: string
  crClientID :: string
  crRequestID :: u64

text \<open>The method, the path and the body; a body stands for the fields it has.\<close>

definition commandHTTP :: "CommandRequest \<Rightarrow> gerror + (string \<times> string list \<times> writeRequest option)" where
  "commandHTTP c =
     (let operation = ToUpper (crOperation c) in
      if crKey c = [] \<or> 1024 < length (crKey c) then Inl (ErrText ''key must contain 1-1024 bytes'')
      else if operation = ''GET'' then Inr (''GET'', kv_path (crKey c), None)
      else
        (case Validate \<lparr>ClientID = crClientID c, RequestID = crRequestID c, Operation = operation, Key = crKey c, Value = crValue c,
                         Expected = crExpected c\<rparr> of
           Some e \<Rightarrow> Inl e
         | None \<Rightarrow>
             (let body = \<lparr>wClientID = crClientID c, wRequestID = crRequestID c, wValue = None, wExpected = None\<rparr> in
              if operation = ''SET'' then Inr (''PUT'', kv_path (crKey c), Some (body\<lparr>wValue := Some (crValue c)\<rparr>))
              else if operation = ''DELETE'' then Inr (''DELETE'', kv_path (crKey c), Some body)
              else if operation = ''CAS''
                then Inr (''POST'', kv_path (crKey c) @ [''cas''], Some (body\<lparr>wValue := Some (crValue c), wExpected := Some (crExpected c)\<rparr>))
              else Inr ([], kv_path (crKey c), Some body))))"

definition count_request :: "Response \<Rightarrow> gerror option \<Rightarrow> int \<Rightarrow> nat \<Rightarrow> Manager \<Rightarrow> Manager" where
  "count_request resp err now us m =
     (let mt = mMetrics m;
          mt1 = mt\<lparr>mtRequests := mtRequests mt + 1\<rparr>;
          mt2 = (if err \<noteq> None \<or> 500 \<le> StatusCode resp then mt1\<lparr>mtFailed := mtFailed mt1 + 1\<rparr>
                 else if StatusCode resp = 409 then mt1\<lparr>mtConflicts := mtConflicts mt1 + 1\<rparr>
                 else if StatusCode resp < 300 then mt1\<lparr>mtSucceeded := mtSucceeded mt1 + 1\<rparr>
                 else mt1);
          ss = mSamples m @ [(now, us)]
      in m\<lparr>mMetrics := mt2, mSamples := (if 300 < length ss then drop (length ss - 300) ss else ss)\<rparr>)"

record CommandResponse =
  cpStatus :: nat
  cpBody :: "gerror + string"
  cpLatency :: nat
  cpServer :: string

text \<open>\<open>encode\<close> is \<open>json.Marshal\<close> of the body and \<open>valid\<close> is \<open>json.Valid\<close>; \<open>us\<close> is the time the request took.  An error body stands for its error.\<close>

definition Command_lab ::
  "Origins \<Rightarrow> World \<Rightarrow> (writeRequest option \<Rightarrow> string) \<Rightarrow> (string \<Rightarrow> bool) \<Rightarrow> int \<Rightarrow> nat \<Rightarrow> CommandRequest \<Rightarrow> Manager \<Rightarrow>
     ((gerror + CommandResponse) \<times> Manager) option" where
  "Command_lab og w encode valid now us request m =
     (case commandHTTP request of
        Inl e \<Rightarrow> Some (Inl e, m)
      | Inr (verb, path, body) \<Rightarrow>
          do {
            ((resp, err), client, _) \<leftarrow> Do og w verb (path_text path) (encode body) (mClient m);
            (let m1 = count_request resp err now us (m\<lparr>mClient := client\<rparr>);
                 content = (if valid (Body resp) then Body resp else ''{}'')
             in Some (Inr (case err of
                             Some e \<Rightarrow> \<lparr>cpStatus = 503, cpBody = Inl e, cpLatency = us, cpServer = Server resp\<rparr>
                           | None \<Rightarrow> \<lparr>cpStatus = StatusCode resp, cpBody = Inr content, cpLatency = us, cpServer = Server resp\<rparr>), m1))
          })"

definition Workload :: "bool \<Rightarrow> Manager \<Rightarrow> Manager" where
  "Workload enabled m =
     (if mClosing m then m
      else (let m1 = m\<lparr>mMetrics := (mMetrics m)\<lparr>mtWorkload := enabled\<rparr>\<rparr> in m1\<lparr>mWork := enabled\<rparr>))"

text \<open>One tick of the workload: the request with number \<open>i\<close> and the number of the next one.\<close>

definition workload_request :: "string \<Rightarrow> u64 \<Rightarrow> CommandRequest" where
  "workload_request client i =
     \<lparr>crOperation = ''SET'', crKey = ''lab:counter'', crValue = decimal (unat i), crExpected = [], crClientID = client, crRequestID = i\<rparr>"

definition workload_next :: "gerror + CommandResponse \<Rightarrow> u64 \<Rightarrow> u64" where
  "workload_next r i = (case r of Inr c \<Rightarrow> if cpStatus c = 200 then i + 1 else i | Inl _ \<Rightarrow> i)"

section \<open>The fault proxy\<close>

text \<open>
  A proxied request: the headers decide at arrival, the partition is tested again after the delay and after the answer.  \<open>gone\<close> tells that the
  caller left during the delay; \<open>during\<close> and \<open>after\<close> are what happens to the manager meanwhile; \<open>bad\<close> is the error of
  \<open>http.NewRequestWithContext\<close> on a URL, if any; \<open>forward\<close> is the exchange with the target, on the URL and on what can be read of the body.
  An answer is a bare status, a status with a text of the proxy's own, or what the target answered.
\<close>

datatype proxied = ProxyStatus nat | ProxyError nat string | ProxyGone | ProxyReply nat string

definition proxy_blocked :: "Manager \<Rightarrow> string \<Rightarrow> string \<Rightarrow> bool" where
  "proxy_blocked m from target \<longleftrightarrow> from |\<in>| mIsolated m \<or> target |\<in>| mIsolated m"

definition dropped :: "Manager \<Rightarrow> bool" where
  "dropped m \<longleftrightarrow> mPacket m mod 100 < of_int (mDrop m)"

definition net_event :: "int \<Rightarrow> string \<Rightarrow> string \<Rightarrow> string \<Rightarrow> string \<Rightarrow> Event" where
  "net_event now from target kind message =
     \<lparr>evID = 0, evTime = now, evNodeID = from, evType = kind, evTerm = 0, evIndex = 0, evPeer = target, evMessageID = message, evDetail = []\<rparr>"

definition proxy ::
  "(string \<Rightarrow> gerror option) \<Rightarrow> int \<Rightarrow> bool \<Rightarrow> (Manager \<Rightarrow> Manager) \<Rightarrow> (Manager \<Rightarrow> Manager) \<Rightarrow> (string \<Rightarrow> string \<times> bool \<Rightarrow> (nat \<times> string) option) \<Rightarrow>
     Member \<Rightarrow> string Request \<Rightarrow> Manager \<Rightarrow> proxied \<times> Manager" where
  "proxy bad now gone during after forward target r m =
     (let p = path_text (map PathUnescape (qPath r)) in
      if qMethod r \<noteq> ''POST'' \<or> p \<noteq> ''/raft/vote'' \<and> p \<noteq> ''/raft/append'' then (ProxyStatus 404, m)
      else
        (let from = qHeader r ''X-ShardZero-From''; message = qHeader r ''X-ShardZero-Message'';
             m1 = m\<lparr>mPacket := mPacket m + 1\<rparr>
         in if lab_find from m = None then (ProxyStatus 403, m1)
            else if proxy_blocked m1 from (mbID target) \<or> dropped m1
              then (ProxyError 503 ''injected network loss'',
                    m1\<lparr>mEvents := Publish (net_event now from (mbID target) ''MESSAGE_DROPPED'' message) (mEvents m1)\<rparr>)
            else
              (let m2 = (if 0 < mDelay m1
                         then during (m1\<lparr>mEvents := Publish (net_event now from (mbID target) ''MESSAGE_DELAYED'' message) (mEvents m1)\<rparr>)
                         else m1)
               in if 0 < mDelay m1 \<and> gone then (ProxyGone, m2)
                  else if proxy_blocked m2 from (mbID target) then (ProxyStatus 503, m2)
                  else
                    (let url = ''http://'' @ mbPeerAddress target @ p in
                     if bad url \<noteq> None then (ProxyStatus 502, m2)
                     else
                       (case forward url (MaxBytesReader (16 * 2 ^ 20) (qBody r)) of
                          None \<Rightarrow> (ProxyStatus 503, m2)
                        | Some (status, body) \<Rightarrow>
                            (let m3 = after m2 in
                             if proxy_blocked m3 from (mbID target) then (ProxyStatus 503, m3)
                             else (ProxyReply status (take (2 ^ 20) body), m3)))))))"

end
