(* ===== verification/Dashboard.thy ===== *)
theory Dashboard
  imports Lab Simulation
begin

text \<open>
  The dashboard's HTTP handler, \<^verbatim>\<open>Manager.Handler\<close> and \<^verbatim>\<open>readJSON\<close> of \<^verbatim>\<open>internal/lab/http.go\<close>: the guard (loopback host,
  same origin, control token), the routes, and the dispatch of chaos actions, workload, commands and simulations.  A request carries what
  decoding its body into each of the four request structures gives.
\<close>

section \<open>Host names\<close>

text \<open>\<open>net.SplitHostPort\<close>: the host, or nothing for an error.\<close>

definition before_last :: "char \<Rightarrow> string \<Rightarrow> (string \<times> string) option" where
  "before_last c s =
     (if c \<in> set s then
        (let port = rev (takeWhile (\<lambda>x. x \<noteq> c) (rev s)) in Some (take (length s - length port - 1) s, port))
      else None)"

definition SplitHostPort :: "string \<Rightarrow> string option" where
  "SplitHostPort s =
     (case before_last CHR '':'' s of
        None \<Rightarrow> None
      | Some (front, port) \<Rightarrow>
          if CHR ''['' \<in> set port \<or> CHR '']'' \<in> set port then None
          else
            (case s of
               [] \<Rightarrow> None
             | c # _ \<Rightarrow>
                 if c = CHR ''['' then
                   (let inner = takeWhile (\<lambda>x. x \<noteq> CHR '']'') (tl s) in
                    if front = CHR ''['' # inner @ '']'' \<and> CHR ''['' \<notin> set inner then Some inner else None)
                 else if CHR '':'' \<in> set front \<or> CHR ''['' \<in> set front \<or> CHR '']'' \<in> set front then None
                 else Some front))"

section \<open>Requests\<close>

record ChaosRequest =
  chAction :: string
  chNode :: string
  chIsolated :: "string list"
  chDelay :: int
  chDrop :: int

record SimulateRequest =
  smSeed :: u64
  smNodes :: int
  smOperations :: int
  smScenario :: "Scenario option"

record LabRequest = "unit body Request" +
  qHost :: string
  asCommand :: "CommandRequest body"
  asChaos :: "ChaosRequest body"
  asWorkload :: "bool body"
  asSimulate :: "SimulateRequest body"

datatype lab_payload = PlainLab string | SessionLab string | StateLab LabSnapshot | StreamLab "LabSnapshot list" | CommandLab CommandResponse
  | ErrorLab gerror | OkLab | EnabledLab bool | SimulationLab SimResult

datatype lab_answer = LabReply nat lab_payload | LabMoved "string list" | LabFile string "string list"

definition readJSON :: "'a body \<Rightarrow> lab_answer + 'a" where
  "readJSON b =
     (case b of
        Malformed \<Rightarrow> Inl (LabReply 400 (ErrorLab (ErrText ''invalid request JSON'')))
      | Trailing _ \<Rightarrow> Inl (LabReply 400 (ErrorLab (ErrText ''trailing request data'')))
      | Document v \<Rightarrow> Inr v)"

section \<open>The actions\<close>

text \<open>What the world answers while a request is served.\<close>

record LabWorld =
  lwNow :: int
  lwKill :: "gerror option"
  lwPause :: "string \<Rightarrow> gerror + nat"
  lwStart :: "string \<Rightarrow> StartEnv"
  lwOrigins :: Origins
  lwNet :: World
  lwEncode :: "writeRequest option \<Rightarrow> string"
  lwValid :: "string \<Rightarrow> bool"
  lwMicros :: nat
  lwSort :: "string fset \<Rightarrow> string list"
  lwTicks :: "(int \<times> Manager) list"
  lwFlusher :: bool
  lwSimBusy :: bool
  lwOracle :: Oracle

definition join_error :: "gerror option \<Rightarrow> gerror option \<Rightarrow> gerror option" where
  "join_error a b = (case (a, b) of (None, _) \<Rightarrow> b | (_, None) \<Rightarrow> a | (Some x, Some y) \<Rightarrow> Some (ErrJoin x y))"

definition reset_member :: "LabWorld \<Rightarrow> string \<Rightarrow> gerror option \<times> Manager \<Rightarrow> gerror option \<times> Manager" where
  "reset_member w i = (\<lambda>(err, m).
     case Start (lwStart w i) i m of
       (e, m1) \<Rightarrow> (join_error err e, snd (Pause (lwNow w) (lwPause w i) i False m1)))"

definition chaos :: "LabWorld \<Rightarrow> ChaosRequest \<Rightarrow> Manager \<Rightarrow> gerror option \<times> Manager" where
  "chaos w q m =
     (if chAction q = ''crash'' then Crash (lwNow w) (lwKill w) (chNode q) m
      else if chAction q = ''restart'' then Start (lwStart w (chNode q)) (chNode q) m
      else if chAction q = ''pause'' then Pause (lwNow w) (lwPause w (chNode q)) (chNode q) True m
      else if chAction q = ''resume'' then Pause (lwNow w) (lwPause w (chNode q)) (chNode q) False m
      else if chAction q = ''network'' then SetFaults (lwNow w) (chIsolated q) (chDelay q) (chDrop q) m
      else if chAction q = ''heal'' then SetFaults (lwNow w) [] 0 0 m
      else if chAction q = ''reset'' then fold (reset_member w) (map mbID (mMembers m)) (SetFaults (lwNow w) [] 0 0 m)
      else (Some (ErrText ''unknown action''), m))"

definition simulate :: "LabWorld \<Rightarrow> SimulateRequest body \<Rightarrow> lab_answer option" where
  "simulate w b =
     (if lwSimBusy w then Some (LabReply 409 (ErrorLab (ErrText ''a simulation is already running'')))
      else
        (case readJSON b of
           Inl a \<Rightarrow> Some a
         | Inr q \<Rightarrow>
             (let s = (case smScenario q of Some s \<Rightarrow> s | None \<Rightarrow> Default (smSeed q) (smNodes q) (smOperations q)) in
              if 500 < scOperations s
              then Some (LabReply 400 (ErrorLab (ErrText ''dashboard simulation limit is 500 operations; use the CLI for larger runs'')))
              else
                (case Validate_Scenario s of
                   Some e \<Rightarrow> Some (LabReply 400 (ErrorLab e))
                 | None \<Rightarrow> map_option (\<lambda>res. LabReply 200 (SimulationLab res)) (Run (lwOracle w) s)))))"

definition answer_error :: "gerror option \<Rightarrow> lab_payload \<Rightarrow> lab_answer" where
  "answer_error err ok = (case err of Some e \<Rightarrow> LabReply 400 (ErrorLab e) | None \<Rightarrow> LabReply 200 ok)"

section \<open>The handler\<close>

datatype lab_endpoint = SessionRoute | LabStateRoute | EventsRoute | CommandRoute | ChaosRoute | WorkloadRoute | SimulateRoute

definition lab_routes :: "(string \<times> pattern_segment list \<times> lab_endpoint) list" where
  "lab_routes =
     [(''GET'', [Literal ''api'', Literal ''session''], SessionRoute),
      (''GET'', [Literal ''api'', Literal ''state''], LabStateRoute),
      (''GET'', [Literal ''api'', Literal ''events''], EventsRoute),
      (''POST'', [Literal ''api'', Literal ''command''], CommandRoute),
      (''POST'', [Literal ''api'', Literal ''chaos''], ChaosRoute),
      (''POST'', [Literal ''api'', Literal ''workload''], WorkloadRoute),
      (''POST'', [Literal ''api'', Literal ''simulate''], SimulateRoute)]"

definition serve_lab :: "LabWorld \<Rightarrow> lab_endpoint \<Rightarrow> LabRequest \<Rightarrow> Manager \<Rightarrow> (lab_answer \<times> Manager) option" where
  "serve_lab w e r m =
     (case e of
        SessionRoute \<Rightarrow> Some (LabReply 200 (SessionLab (mToken m)), m)
      | LabStateRoute \<Rightarrow> Some (LabReply 200 (StateLab (lab_snapshot (lwSort w) (lwNow w) m)), m)
      | EventsRoute \<Rightarrow>
          Some (if \<not> lwFlusher w then LabReply 500 (PlainLab ''streaming unavailable'')
                else LabReply 200 (StreamLab (map (\<lambda>(t, m). lab_snapshot (lwSort w) t m) ((lwNow w, m) # lwTicks w))), m)
      | CommandRoute \<Rightarrow>
          (case readJSON (asCommand r) of
             Inl a \<Rightarrow> Some (a, m)
           | Inr c \<Rightarrow>
               do {
                 (out, m') \<leftarrow> Command_lab (lwOrigins w) (lwNet w) (lwEncode w) (lwValid w) (lwNow w) (lwMicros w) c m;
                 Some (case out of Inl e \<Rightarrow> LabReply 400 (ErrorLab e) | Inr x \<Rightarrow> LabReply 200 (CommandLab x), m')
               })
      | ChaosRoute \<Rightarrow>
          Some (case readJSON (asChaos r) of
                  Inl a \<Rightarrow> (a, m)
                | Inr q \<Rightarrow> (case chaos w q m of (err, m') \<Rightarrow> (answer_error err OkLab, m')))
      | WorkloadRoute \<Rightarrow>
          Some (case readJSON (asWorkload r) of
                  Inl a \<Rightarrow> (a, m)
                | Inr enabled \<Rightarrow> (LabReply 200 (EnabledLab enabled), Workload enabled m))
      | SimulateRoute \<Rightarrow> map_option (\<lambda>a. (a, m)) (simulate w (asSimulate r)))"

text \<open>Whatever no other pattern matches goes to the file server of the assets.\<close>

definition lab_mux :: "LabWorld \<Rightarrow> LabRequest \<Rightarrow> Manager \<Rightarrow> (lab_answer \<times> Manager) option" where
  "lab_mux w r m =
     (case route lab_routes (qMethod r) (qPath r) of
        Moved p \<Rightarrow> Some (LabMoved p, m)
      | MuxError _ \<Rightarrow> Some (LabFile (lcAssets (mCfg m)) (qPath r), m)
      | Found e _ \<Rightarrow> serve_lab w e r m)"

definition loopback_host :: "string \<Rightarrow> bool" where
  "loopback_host h \<longleftrightarrow> SplitHostPort h \<in> {Some ''127.0.0.1'', Some ''localhost'', Some ''::1''}"

definition Handler_lab :: "LabWorld \<Rightarrow> LabRequest \<Rightarrow> Manager \<Rightarrow> (lab_answer \<times> Manager) option" where
  "Handler_lab w r m =
     (if \<not> loopback_host (qHost r) then Some (LabReply 403 (PlainLab ''loopback host required''), m)
      else if qHeader r ''Origin'' \<noteq> [] \<and> qHeader r ''Origin'' \<noteq> ''http://'' @ qHost r
        then Some (LabReply 403 (PlainLab ''same origin required''), m)
      else if qMethod r \<noteq> ''GET'' \<and> qMethod r \<noteq> ''HEAD'' \<and> qHeader r ''X-ShardZero-Control'' \<noteq> mToken m
        then Some (LabReply 403 (PlainLab ''control token required''), m)
      else lab_mux w r m)"

lemma split_examples:
  "SplitHostPort ''127.0.0.1:9100'' = Some ''127.0.0.1''" "SplitHostPort ''[::1]:80'' = Some ''::1''" "SplitHostPort ''::1'' = None"
  "SplitHostPort ''localhost'' = None" "SplitHostPort ''[a]b:1'' = None" "SplitHostPort '':1'' = Some []"
  by code_simp+

end
