(* ===== verification/Lab_Inv.thy ===== *)
theory Lab_Inv
  imports Dashboard Transport
begin

text \<open>
  The chaos lab as a state machine: its manager together with the node processes that are alive, changed by dashboard requests, polls,
  proxied messages, ticks of the workload, exits of processes and closing.  The invariant bounds every part of the manager's state and shows that a
  node never has two processes.
\<close>

section \<open>The invariant\<close>

definition node_names :: "int \<Rightarrow> string list" where
  "node_names k = map (\<lambda>i. ''node-'' @ show_int i) [1 .. k]"

definition buffer_ok :: "nat \<Rightarrow> Buffer \<Rightarrow> bool" where
  "buffer_ok cap b \<longleftrightarrow> capacity b = cap \<and> (\<exists>n. buffer_inv n b)"

definition metrics_ok :: "Metrics \<Rightarrow> bool" where
  "metrics_ok x \<longleftrightarrow> mtSucceeded x + mtConflicts x + mtFailed x \<le> mtRequests x"

definition lab_ok :: "Manager \<Rightarrow> bool" where
  "lab_ok m \<longleftrightarrow> lcNodes (mCfg m) \<in> {3, 5} \<and> map mbID (mMembers m) = node_names (lcNodes (mCfg m)) \<and>
     fset (mIsolated m) \<subseteq> mbID ` set (mMembers m) \<and> mDelay m \<in> {0 .. 2000} \<and> mDrop m \<in> {0 .. 100} \<and>
     length (mSamples m) = min 300 (mtRequests (mMetrics m)) \<and> metrics_ok (mMetrics m) \<and>
     buffer_ok 400 (mEvents m) \<and> buffer_ok 200 (mTimeline m) \<and>
     (\<forall>i v. fmlookup (mViews m) i = Some v \<longrightarrow> i \<in> mbID ` set (mMembers m) \<and> nvID v = i) \<and>
     (\<forall>b \<in> set (mMembers m). mbCmd b \<le> mSerial m)"

text \<open>The processes the manager believes to run.\<close>

definition live_of :: "Manager \<Rightarrow> (string \<times> nat) set" where
  "live_of m = {(mbID b, mbCmd b) |b. b \<in> set (mMembers m) \<and> mbRunning b}"

text \<open>The processes started since \<open>m\<close>.\<close>

definition spawned :: "Manager \<Rightarrow> Manager \<Rightarrow> (string \<times> nat) set" where
  "spawned m m' = {(mbID b, mbCmd b) |b. b \<in> set (mMembers m') \<and> mSerial m < mbCmd b}"

lemma node_names_distinct: "k \<in> {3, 5} \<Longrightarrow> distinct (node_names k)"
proof -
  have "distinct (node_names 3)" "distinct (node_names 5)" by code_simp+
  then show "k \<in> {3, 5} \<Longrightarrow> distinct (node_names k)" by auto
qed

lemma lab_ok_distinct: "lab_ok m \<Longrightarrow> distinct (map mbID (mMembers m))"
  using node_names_distinct by (auto simp: lab_ok_def)

lemma lab_find_iff: "lab_find i m \<noteq> None \<longleftrightarrow> i \<in> mbID ` set (mMembers m)"
  by (auto simp: lab_find_def find_None_iff image_iff)

lemma lab_find_Some: "lab_find i m = Some b \<Longrightarrow> b \<in> set (mMembers m) \<and> mbID b = i"
  by (auto simp: lab_find_def find_Some_iff)

lemma members_unique: "lab_ok m \<Longrightarrow> b \<in> set (mMembers m) \<Longrightarrow> b' \<in> set (mMembers m) \<Longrightarrow> mbID b = mbID b' \<Longrightarrow> b = b'"
  using lab_ok_distinct [of m] by (auto simp: distinct_map inj_on_def)

section \<open>Operations that leave the processes alone\<close>

lemma lab_publish_sel [simp]:
  "mCfg (lab_publish e m) = mCfg m" "mMembers (lab_publish e m) = mMembers m" "mViews (lab_publish e m) = mViews m"
  "mIsolated (lab_publish e m) = mIsolated m" "mDelay (lab_publish e m) = mDelay m" "mDrop (lab_publish e m) = mDrop m"
  "mMetrics (lab_publish e m) = mMetrics m" "mSamples (lab_publish e m) = mSamples m" "mSerial (lab_publish e m) = mSerial m"
  "mToken (lab_publish e m) = mToken m" "mClient (lab_publish e m) = mClient m" "mClosing (lab_publish e m) = mClosing m"
  by (simp_all add: lab_publish_def Let_def)

lemma buffer_ok_Publish [simp]: "buffer_ok cap b \<Longrightarrow> buffer_ok cap (Publish e b)"
  using buffer_inv_Publish by (auto simp: buffer_ok_def)

lemma publish_buffers [simp]:
  "buffer_ok k (mEvents m) \<Longrightarrow> buffer_ok k (mEvents (lab_publish e m))"
  "buffer_ok k (mTimeline m) \<Longrightarrow> buffer_ok k (mTimeline (lab_publish e m))"
  by (simp_all add: lab_publish_def Let_def)

lemma lab_ok_publish [simp]: "lab_ok m \<Longrightarrow> lab_ok (lab_publish e m)"
  by (simp add: lab_ok_def)

text \<open>\<open>calm_move m m'\<close>: the processes, the configuration and the token are as before, and the invariant is kept.\<close>

definition calm_move :: "Manager \<Rightarrow> Manager \<Rightarrow> bool" where
  "calm_move m m' \<longleftrightarrow> (lab_ok m \<longrightarrow> lab_ok m') \<and> mMembers m' = mMembers m \<and> mSerial m' = mSerial m \<and> mCfg m' = mCfg m \<and> mToken m' = mToken m"

lemma calm_move_refl [simp]: "calm_move m m"
  by (simp add: calm_move_def)

lemma calm_move_trans: "calm_move a b \<Longrightarrow> calm_move b c \<Longrightarrow> calm_move a c"
  by (auto simp: calm_move_def)

lemma calm_publish [simp]: "calm_move m (lab_publish e m)"
  by (simp add: calm_move_def)

lemma calm_before [simp]: "calm_move m (m\<lparr>mBefore := x\<rparr>)"
  by (simp add: calm_move_def lab_ok_def)

lemma calm_Crash: "calm_move m (snd (Crash now e i m))"
  by (simp add: Crash_def split: option.split)

lemma calm_Pause: "calm_move m (snd (Pause now a i p m))"
  by (simp add: Pause_def Let_def split: option.split sum.split)

lemma calm_faults:
  assumes "set isolated \<subseteq> mbID ` set (mMembers m)" "0 \<le> delay" "delay \<le> 2000" "0 \<le> loss" "loss \<le> 100"
  shows "calm_move m (m\<lparr>mIsolated := fset_of_list isolated, mDelay := delay, mDrop := loss\<rparr>)"
  using assms by (auto simp: calm_move_def lab_ok_def fset_of_list.rep_eq)

lemma calm_SetFaults: "calm_move m (snd (SetFaults now isolated delay loss m))"
proof -
  let ?m1 = "if isolated \<noteq> [] \<or> 0 < delay \<or> 0 < loss then m\<lparr>mBefore := Some (observationLocked now m)\<rparr> else m"
  show ?thesis
  proof (cases "delay < 0 \<or> 2000 < delay \<or> loss < 0 \<or> 100 < loss \<or> \<not> list_all (\<lambda>i. lab_find i m \<noteq> None) isolated")
    case True
    then show ?thesis by (auto simp: SetFaults_def)
  next
    case False
    then have "set isolated \<subseteq> mbID ` set (mMembers ?m1)" "0 \<le> delay" "delay \<le> 2000" "0 \<le> loss" "loss \<le> 100"
      by (auto simp: list_all_iff lab_find_iff simp del: not_None_eq)
    from calm_faults [OF this]
    have "calm_move m (?m1\<lparr>mIsolated := fset_of_list isolated, mDelay := delay, mDrop := loss\<rparr>)"
      by (rule calm_move_trans [rotated]) simp
    then show ?thesis using False by (auto simp: SetFaults_def Let_def intro: calm_move_trans [OF _ calm_publish])
  qed
qed

lemma calm_Close: "calm_move m (Close_Manager m)"
  by (simp add: calm_move_def lab_ok_def Close_Manager_def)

lemma calm_Workload: "calm_move m (Workload enabled m)"
  by (simp add: calm_move_def lab_ok_def Workload_def metrics_ok_def Let_def)

lemma calm_count: "calm_move m (count_request resp err now us (m\<lparr>mClient := c\<rparr>))"
  by (auto simp: calm_move_def lab_ok_def count_request_def metrics_ok_def Let_def)

lemma calm_Command:
  "Command_lab og w encode valid now us q m = Some (out, m') \<Longrightarrow> calm_move m m'"
  using calm_count by (auto simp: Command_lab_def Let_def split: sum.splits bind_splits prod.splits)

lemma calm_fold: "(\<And>x m. calm_move m (f x m)) \<Longrightarrow> calm_move m (fold f xs m)"
  by (induction xs arbitrary: m) (auto intro: calm_move_trans)

lemma calm_view:
  assumes "b \<in> set (mMembers m)" "nvID v = mbID b"
  shows "calm_move m (m\<lparr>mViews := fmupd (mbID b) v (mViews m)\<rparr>)"
  using assms by (auto simp: calm_move_def lab_ok_def)

lemma calm_poll:
  assumes "b \<in> set (mMembers m)"
  shows "calm_move m (poll_member now answer b m)"
proof (cases answer)
  case None
  then show ?thesis using calm_view [OF assms] by (simp add: poll_member_def Let_def)
next
  case (Some inspect)
  let ?f = "\<lambda>i e m. if i < evID e then lab_publish e m else m"
  have g: "calm_move m (m\<lparr>mGaps := k\<rparr>)" for k by (simp add: calm_move_def lab_ok_def)
  have p: "calm_move m (fold (?f i) es (if c then m\<lparr>mGaps := k\<rparr> else m))" for i es c k
    by (rule calm_move_trans [OF _ calm_fold]) (simp_all add: g)
  then have "b \<in> set (mMembers (fold (?f i) es (if c then m\<lparr>mGaps := k\<rparr> else m)))" for i es c k
    using assms by (simp add: calm_move_def)
  from calm_move_trans [OF p calm_view [OF this]] show ?thesis using Some by (simp add: poll_member_def Let_def)
qed

lemma calm_proxy: "calm_move m (snd (proxy bad now gone (\<lambda>m. m) (\<lambda>m. m) forward target r m))"
  by (simp add: proxy_def Let_def calm_move_def lab_ok_def split: option.split)

section \<open>Starting and ending processes\<close>

text \<open>A member between two states: unchanged, or not running before and running a new process after.\<close>

definition restarted :: "nat \<Rightarrow> nat \<Rightarrow> Member \<Rightarrow> Member \<Rightarrow> bool" where
  "restarted s s' b b' \<longleftrightarrow> b' = b \<or> mbID b' = mbID b \<and> \<not> mbRunning b \<and> mbRunning b' \<and> s < mbCmd b' \<and> mbCmd b' \<le> s'"

definition lab_move :: "Manager \<Rightarrow> Manager \<Rightarrow> bool" where
  "lab_move m m' \<longleftrightarrow> (lab_ok m \<longrightarrow> lab_ok m' \<and> mSerial m \<le> mSerial m' \<and> mCfg m' = mCfg m \<and> mToken m' = mToken m \<and>
     list_all2 (restarted (mSerial m) (mSerial m')) (mMembers m) (mMembers m'))"

lemma calm_lab_move: "calm_move m m' \<Longrightarrow> lab_move m m'"
  by (auto simp: calm_move_def lab_move_def restarted_def intro!: list_all2_refl)

lemma lab_move_refl [simp]: "lab_move m m"
  by (rule calm_lab_move) simp

lemma restarted_trans: "restarted s s1 a b \<Longrightarrow> restarted s1 s2 b c \<Longrightarrow> s \<le> s1 \<Longrightarrow> s1 \<le> s2 \<Longrightarrow> restarted s s2 a c"
  by (auto simp: restarted_def)

lemma lab_move_trans: "lab_move a b \<Longrightarrow> lab_move b c \<Longrightarrow> lab_move a c"
  unfolding lab_move_def
  by (auto elim!: list_all2_trans [where ?P1.0 = "restarted (mSerial a) (mSerial b)" and ?P2.0 = "restarted (mSerial b) (mSerial c)", rotated]
      intro: restarted_trans)

lemma lab_move_live:
  assumes "lab_move m m'" "lab_ok m"
  shows "live_of m' = live_of m \<union> spawned m m'"
proof -
  have l: "list_all2 (restarted (mSerial m) (mSerial m')) (mMembers m) (mMembers m')" using assms by (simp add: lab_move_def)
  have c: "mbCmd b \<le> mSerial m" if "b \<in> set (mMembers m)" for b using assms(2) that by (simp add: lab_ok_def)
  have f: "\<exists>b' \<in> set (mMembers m'). restarted (mSerial m) (mSerial m') b b'" if "b \<in> set (mMembers m)" for b
    using l that by (fastforce simp: list_all2_conv_all_nth in_set_conv_nth)
  have g: "\<exists>b \<in> set (mMembers m). restarted (mSerial m) (mSerial m') b b'" if "b' \<in> set (mMembers m')" for b'
    using l that by (fastforce simp: list_all2_conv_all_nth in_set_conv_nth)
  have "live_of m \<union> spawned m m' \<subseteq> live_of m'"
    using f g c by (fastforce simp: live_of_def spawned_def restarted_def)
  moreover have "live_of m' \<subseteq> live_of m \<union> spawned m m'"
    using g by (fastforce simp: live_of_def spawned_def restarted_def)
  ultimately show ?thesis by blast
qed

lemma update_member_sel [simp]:
  "mCfg (update_member i f m) = mCfg m" "mSerial (update_member i f m) = mSerial m" "mToken (update_member i f m) = mToken m"
  "mClosing (update_member i f m) = mClosing m" "mMembers (update_member i f m) = map (\<lambda>b. if mbID b = i then f b else b) (mMembers m)"
  by (simp_all add: update_member_def)

lemma lab_ok_update:
  assumes "lab_ok m" "\<And>b. mbID (f b) = mbID b" "\<And>b. b \<in> set (mMembers m) \<Longrightarrow> mbCmd (f b) \<le> s" "mSerial m \<le> s"
  shows "lab_ok (update_member i f (m\<lparr>mSerial := s\<rparr>))"
proof -
  have "map mbID (map (\<lambda>b. if mbID b = i then f b else b) (mMembers m)) = map mbID (mMembers m)" by (simp add: assms(2))
  moreover from this have "mbID ` set (map (\<lambda>b. if mbID b = i then f b else b) (mMembers m)) = mbID ` set (mMembers m)"
    by (metis list.set_map)
  ultimately show ?thesis using assms(1,3,4) unfolding lab_ok_def update_member_def by (auto intro: order.trans)
qed

lemma lab_move_Start: "lab_move m (snd (Start se i m))"
proof (cases "\<exists>b. \<not> mClosing m \<and> lab_find i m = Some b \<and> \<not> mbRunning b \<and> seLogErr se = None \<and> seStartErr se = None")
  case False
  then show ?thesis by (auto simp: Start_def split: option.splits)
next
  case True
  then obtain b where b: "\<not> mClosing m" "lab_find i m = Some b" "\<not> mbRunning b" "seLogErr se = None" "seStartErr se = None" by blast
  let ?s = "mSerial m + 1"
  let ?f = "\<lambda>b. b\<lparr>mbCmd := ?s, mbRunning := True\<rparr>"
  let ?m1 = "update_member i ?f (m\<lparr>mSerial := ?s\<rparr>)"
  have "lab_move m ?m1"
  proof (cases "lab_ok m")
    case ok: True
    have n: "\<not> mbRunning b'" if "b' \<in> set (mMembers m)" "mbID b' = i" for b'
      using members_unique [OF ok] lab_find_Some [OF b(2)] b(3) that by blast
    have "lab_ok ?m1" using ok by (intro lab_ok_update) auto
    then show ?thesis using n by (auto simp: lab_move_def restarted_def list_all2_conv_all_nth)
  qed (simp add: lab_move_def)
  from lab_move_trans [OF this calm_lab_move [OF calm_publish]] show ?thesis using b by (simp add: Start_def Let_def)
qed

lemma exited_ok:
  assumes "lab_ok m"
  shows "lab_ok (process_exited now detail i s m)" "live_of (process_exited now detail i s m) = live_of m - {(i, s)}"
proof -
  have "lab_ok (update_member i (\<lambda>b. if mbCmd b = s then b\<lparr>mbRunning := False\<rparr> else b) (m\<lparr>mSerial := mSerial m\<rparr>))"
    using assms by (intro lab_ok_update) (auto simp: lab_ok_def)
  then show "lab_ok (process_exited now detail i s m)" by (simp add: process_exited_def)
  show "live_of (process_exited now detail i s m) = live_of m - {(i, s)}"
  proof -
    let ?g = "\<lambda>b. if mbID b = i then if mbCmd b = s then b\<lparr>mbRunning := False\<rparr> else b else b"
    have g: "mbID (?g b) = mbID b" "mbCmd (?g b) = mbCmd b" "mbRunning (?g b) \<longleftrightarrow> mbRunning b \<and> (mbID b, mbCmd b) \<noteq> (i, s)" for b
      by simp_all
    have "live_of (process_exited now detail i s m) = {(mbID (?g b), mbCmd (?g b)) |b. b \<in> set (mMembers m) \<and> mbRunning (?g b)}"
      unfolding live_of_def process_exited_def lab_publish_sel update_member_sel set_map by blast
    then show ?thesis unfolding g by (auto simp: live_of_def)
  qed
qed

section \<open>Requests\<close>

lemma lab_move_reset: "lab_move m (snd (reset_member w i (err, m)))"
  using lab_move_trans [OF lab_move_Start calm_lab_move [OF calm_Pause]] by (simp add: reset_member_def case_prod_beta)

lemma lab_move_resets: "lab_move (snd p) (snd (fold (reset_member w) is p))"
proof (induction "is" arbitrary: p)
  case (Cons i "is")
  have "lab_move (snd p) (snd (reset_member w i p))" using lab_move_reset [of "snd p" w i "fst p"] by simp
  from lab_move_trans [OF this Cons] show ?case by simp
qed simp

lemma lab_move_chaos: "lab_move m (snd (chaos w q m))"
  using lab_move_trans [OF calm_lab_move [OF calm_SetFaults] lab_move_resets]
  by (simp add: chaos_def calm_lab_move calm_Crash calm_Pause calm_SetFaults lab_move_Start)

lemma lab_move_endpoint: "serve_lab w e r m = Some (a, m') \<Longrightarrow> lab_move m m'"
  using lab_move_chaos [of m w] calm_lab_move [OF calm_Command] calm_lab_move [OF calm_Workload [of m]]
  by (cases e) (auto simp: serve_lab_def split: sum.splits prod.splits bind_splits option.splits, (metis snd_conv)+)

text \<open>A request that changes the manager passed the guard and was no \<open>GET\<close>.\<close>

lemma serve_lab_get: "e \<in> {SessionRoute, LabStateRoute, EventsRoute} \<Longrightarrow> serve_lab w e r m = Some (a, m') \<Longrightarrow> m' = m"
  by (auto simp: serve_lab_def)

lemma route_Found:
  assumes "route routes verb p = Found e vs"
  obtains pm ps where "(pm, ps, e) \<in> set routes" "method_matches pm verb" "match_segments ps p = Some vs"
proof -
  let ?ms = "filter (\<lambda>(pm, _). method_matches pm verb) (path_matches routes p)"
  obtain pm rest where f: "?ms = (pm, e, vs) # rest" using assms by (auto simp: route_def split: if_splits list.splits)
  then have "(pm, e, vs) \<in> set ?ms" by simp
  then have "(pm, e, vs) \<in> set (path_matches routes p)" "method_matches pm verb" by simp_all
  then show thesis using that by (auto simp: path_matches_def List.map_filter_def)
qed

lemma lab_route_get:
  assumes "route lab_routes verb p = Found e vs" "verb \<noteq> ''POST''"
  shows "e \<in> {SessionRoute, LabStateRoute, EventsRoute}"
  using assms(2) by (rule_tac route_Found [OF assms(1)]) (auto simp: lab_routes_def method_matches_def)

lemma Handler_lab_changed:
  assumes "Handler_lab w r m = Some (a, m')" "m' \<noteq> m"
  shows "loopback_host (qHost r)" "qHeader r ''Origin'' \<in> {[], ''http://'' @ qHost r}" "qMethod r = ''POST''"
    "qHeader r ''X-ShardZero-Control'' = mToken m" "\<exists>e. serve_lab w e r m = Some (a, m')"
proof -
  have g: "loopback_host (qHost r) \<and> qHeader r ''Origin'' \<in> {[], ''http://'' @ qHost r} \<and>
      (qMethod r \<in> {''GET'', ''HEAD''} \<or> qHeader r ''X-ShardZero-Control'' = mToken m) \<and> lab_mux w r m = Some (a, m')"
    using assms by (auto simp: Handler_lab_def split: if_splits)
  obtain e vs where e: "route lab_routes (qMethod r) (qPath r) = Found e vs" "serve_lab w e r m = Some (a, m')"
    using g assms(2) by (auto simp: lab_mux_def split: routed.splits)
  have "qMethod r = ''POST''" using lab_route_get [OF e(1)] serve_lab_get [OF _ e(2)] assms(2) by blast
  then show "loopback_host (qHost r)" "qHeader r ''Origin'' \<in> {[], ''http://'' @ qHost r}" "qMethod r = ''POST''"
    "qHeader r ''X-ShardZero-Control'' = mToken m" "\<exists>e. serve_lab w e r m = Some (a, m')" using g e(2) by auto
qed

lemma lab_move_Handler: "Handler_lab w r m = Some (a, m') \<Longrightarrow> lab_move m m'"
  using Handler_lab_changed(5) [of w r m a m'] lab_move_endpoint by (cases "m' = m") auto

section \<open>The lab as a state machine\<close>

text \<open>
  The manager and the processes that are alive.  While a proxied message is delayed or forwarded the other steps go on: the proxy only
  reads the manager from then on.
\<close>

inductive lab_step :: "Manager \<times> (string \<times> nat) set \<Rightarrow> Manager \<times> (string \<times> nat) set \<Rightarrow> bool" where
  served: "Handler_lab w r m = Some (a, m') \<Longrightarrow> lab_step (m, L) (m', L \<union> spawned m m')"
| polled: "b \<in> set (mMembers m) \<Longrightarrow> lab_step (m, L) (poll_member now answer b m, L)"
| proxied: "lab_step (m, L) (snd (proxy bad now gone (\<lambda>m. m) (\<lambda>m. m) forward target r m), L)"
| ticked: "Command_lab og w encode valid now us (workload_request client i) m = Some (out, m') \<Longrightarrow> lab_step (m, L) (m', L)"
| exited: "(i, s) \<in> L \<Longrightarrow> lab_step (m, L) (process_exited now detail i s m, L - {(i, s)})"
| closed: "lab_step (m, L) (Close_Manager m, L)"

inductive lab_reach :: "Manager \<times> (string \<times> nat) set \<Rightarrow> bool" where
  opened: "New_Manager valid le c = Inr m \<Longrightarrow> lab_reach (m, live_of m)"
| stepped: "lab_reach p \<Longrightarrow> lab_step p q \<Longrightarrow> lab_reach q"

inductive_cases lab_step_cases: "lab_step (m, L) (m', L')"

definition lab_state_ok :: "Manager \<times> (string \<times> nat) set \<Rightarrow> bool" where
  "lab_state_ok p \<longleftrightarrow> lab_ok (fst p) \<and> snd p = live_of (fst p)"

lemma calm_live: "calm_move m m' \<Longrightarrow> live_of m' = live_of m"
  by (simp add: calm_move_def live_of_def)

lemma calm_state: "calm_move m m' \<Longrightarrow> lab_state_ok (m, L) \<Longrightarrow> lab_state_ok (m', L)"
  by (simp add: lab_state_ok_def calm_live) (simp add: calm_move_def)

lemma lab_step_ok: "lab_step p q \<Longrightarrow> lab_state_ok p \<Longrightarrow> lab_state_ok q"
proof (induction rule: lab_step.induct)
  case (served w r m a m' L)
  then show ?case using lab_move_live [OF lab_move_Handler [OF served(1)]] lab_move_Handler [OF served(1)]
    by (simp add: lab_state_ok_def lab_move_def)
next
  case (exited i s L m now detail)
  then show ?case by (simp add: lab_state_ok_def exited_ok)
qed (blast intro: calm_state calm_poll calm_proxy calm_Command calm_Close)+

lemma start_members_move: "lab_move m (snd (start_members se is m))"
proof (induction "is" arbitrary: m)
  case (Cons i "is")
  show ?case
  proof (cases "fst (Start (se i) i m)")
    case None
    then show ?thesis using lab_move_trans [OF lab_move_Start [of m "se i" i] Cons] by (simp add: case_prod_beta)
  next
    case (Some e)
    then show ?thesis using lab_move_Start [of m "se i" i] by (simp add: case_prod_beta)
  qed
qed simp

lemma New_Manager_ok: "New_Manager valid le c = Inr m \<Longrightarrow> lab_ok m"
proof -
  assume n: "New_Manager valid le c = Inr m"
  then have k: "lcNodes c \<in> {3, 5}" by (auto simp: New_Manager_def split: if_splits)
  obtain client token where s: "start_members (startOf le) (map mbID (map (lab_member c) [1 .. lcNodes c]))
      \<lparr>mCfg = c, mMembers = map (lab_member c) [1 .. lcNodes c], mViews = fmempty, mClosing = False, mToken = token, mClient = client,
       mEvents = New_Buffer 400, mTimeline = New_Buffer 200, mIsolated = {||}, mDelay = 0, mDrop = 0, mPacket = 0,
       mMetrics = zeroMetrics, mSamples = [], mWork = False, mBefore = None, mGaps = 0, mSerial = 0\<rparr> = (None, m)"
    (is "start_members _ _ ?m0 = _")
    using n by (auto simp: New_Manager_def Let_def split: if_splits option.splits sum.splits prod.splits)
  have "buffer_ok 400 (New_Buffer 400)" "buffer_ok 200 (New_Buffer 200)"
    using buffer_inv_New [of 400] buffer_inv_New [of 200] by (auto simp: buffer_ok_def New_Buffer_def)
  then have "lab_ok ?m0" using k by (auto simp: lab_ok_def node_names_def lab_member_def metrics_ok_def zeroMetrics_def)
  then show "lab_ok m"
    using start_members_move [of ?m0 "startOf le" "map mbID (map (lab_member c) [1 .. lcNodes c])", unfolded s snd_conv lab_move_def] by blast
qed

lemma lab_reach_ok: "lab_reach p \<Longrightarrow> lab_state_ok p"
  by (induction rule: lab_reach.induct) (simp add: lab_state_ok_def New_Manager_ok, erule (1) lab_step_ok)

section \<open>Properties\<close>

text \<open>
  C39.  The lab's state stays within its type in every reachable state, whatever requests, polls, messages, exits and ticks occur: three or five members
  with the names of the configuration, faults within their ranges and only of members, at most 300 samples (one per request), counters that add up,
  bounded event buffers, views of members only.  The processes that are alive are exactly those marked as running, and no node ever has two.
\<close>

theorem lab_state_bounded:
  assumes "lab_reach (m, L)"
  shows "map mbID (mMembers m) = node_names (lcNodes (mCfg m)) \<and> length (mMembers m) \<in> {3, 5} \<and>
    fset (mIsolated m) \<subseteq> mbID ` set (mMembers m) \<and> mDelay m \<in> {0 .. 2000} \<and> mDrop m \<in> {0 .. 100} \<and>
    length (mSamples m) = min 300 (mtRequests (mMetrics m)) \<and>
    mtSucceeded (mMetrics m) + mtConflicts (mMetrics m) + mtFailed (mMetrics m) \<le> mtRequests (mMetrics m) \<and>
    length (items (mEvents m)) \<le> 400 \<and> length (items (mTimeline m)) \<le> 200 \<and> fset (fmdom (mViews m)) \<subseteq> mbID ` set (mMembers m) \<and>
    L = {(mbID b, mbCmd b) |b. b \<in> set (mMembers m) \<and> mbRunning b} \<and> (\<forall>i s s'. (i, s) \<in> L \<and> (i, s') \<in> L \<longrightarrow> s = s')"
proof -
  have ok: "lab_ok m" "L = live_of m" using lab_reach_ok [OF assms] by (simp_all add: lab_state_ok_def)
  have "length (map mbID (mMembers m)) = length (node_names (lcNodes (mCfg m)))" "lcNodes (mCfg m) \<in> {3, 5}" using ok(1) unfolding lab_ok_def by metis+
  then have "length (mMembers m) \<in> {3, 5}" by (auto simp: node_names_def)
  moreover have "s = s'" if "(i, s) \<in> L" "(i, s') \<in> L" for i s s'
    using that members_unique [OF ok(1)] by (auto simp: ok(2) live_of_def)
  moreover have "fset (fmdom (mViews m)) \<subseteq> mbID ` set (mMembers m)"
  proof
    fix i assume "i \<in> fset (fmdom (mViews m))"
    then obtain v where "fmlookup (mViews m) i = Some v" by (metis fmlookup_dom_iff)
    then show "i \<in> mbID ` set (mMembers m)" using ok(1) unfolding lab_ok_def by blast
  qed
  moreover have "length (items (mEvents m)) \<le> 400" "length (items (mTimeline m)) \<le> 200"
    using ok(1) by (auto simp: lab_ok_def buffer_ok_def buffer_inv_def)
  ultimately show ?thesis using ok(1) [unfolded lab_ok_def metrics_ok_def] ok(2) [unfolded live_of_def] by (simp only: simp_thms) blast
qed

definition wLabConfig :: LabConfig where
  "wLabConfig = \<lparr>lcNodes = 3, lcBasePort = 17000, lcDataDir = ''d'', lcNodeBinary = ''n'', lcAssets = ''a''\<rparr>"

definition wLabEnv :: LabEnv where
  "wLabEnv = \<lparr>probeErr = (\<lambda>_. None), mkdirErr = None, randomErr = Inr ''t'', writeErr = None, listenErr = (\<lambda>_. None),
     startOf = (\<lambda>_. \<lparr>seLogErr = None, seStartErr = None, sePid = 1, seNow = 0\<rparr>)\<rparr>"

definition wLab :: Manager where
  "wLab = projr (New_Manager (\<lambda>_. True) wLabEnv wLabConfig)"

lemma wLab_opened: "New_Manager (\<lambda>_. True) wLabEnv wLabConfig = Inr wLab"
proof -
  have "isl (New_Manager (\<lambda>_. True) wLabEnv wLabConfig) = False" by code_simp
  then show ?thesis by (simp add: wLab_def)
qed

definition wLabWorld :: LabWorld where
  "wLabWorld = \<lparr>lwNow = 5, lwKill = None, lwPause = (\<lambda>_. Inr 200), lwStart = startOf wLabEnv, lwOrigins = wOrigins, lwNet = wWorld (\<lambda>_ _. ConnError (ErrText [])),
     lwEncode = (\<lambda>_. []), lwValid = (\<lambda>_. True), lwMicros = 1, lwSort = (\<lambda>_. []), lwTicks = [], lwFlusher = True, lwSimBusy = False,
     lwOracle = \<lparr>oInt = (\<lambda>_ _. 0), oNode = (\<lambda>_ _. 0), oCtx = (\<lambda>_. None), oEntryHash = (\<lambda>_. []), oSum = (\<lambda>_. []), oDigest = (\<lambda>_. []),
       oTraceHash = (\<lambda>_. []), oOrigin = (\<lambda>_. True), oIdentity = (\<lambda>_. [])\<rparr>\<rparr>"

definition wChaos :: LabRequest where
  "wChaos = \<lparr>qMethod = ''POST'', qPath = [''api'', ''chaos''], qRawQuery = [], qQuery = (\<lambda>_. []),
     qHeader = (\<lambda>h. if h = ''X-ShardZero-Control'' then ''t'' else []), qBody = Malformed, qHost = ''127.0.0.1:9100'', asCommand = Malformed,
     asChaos = Document \<lparr>chAction = ''network'', chNode = [], chIsolated = [''node-2''], chDelay = 50, chDrop = 10\<rparr>, asWorkload = Malformed,
     asSimulate = Malformed\<rparr>"

definition wLabAfter :: Manager where
  "wLabAfter = snd (the (Handler_lab wLabWorld wChaos wLab))"

lemma wLab_served: "Handler_lab wLabWorld wChaos wLab = Some (LabReply 200 OkLab, wLabAfter)" "mDrop wLabAfter = 10"
proof -
  have "map_option fst (Handler_lab wLabWorld wChaos wLab) = Some (LabReply 200 OkLab)" by code_simp
  then show "Handler_lab wLabWorld wChaos wLab = Some (LabReply 200 OkLab, wLabAfter)" by (auto simp: wLabAfter_def)
  show "mDrop wLabAfter = 10" by code_simp
qed

theorem lab_state_bounded_witness:
  "mDrop wLabAfter = 10 \<and> length (mMembers wLabAfter) \<in> {3, 5} \<and> fset (mIsolated wLabAfter) \<subseteq> mbID ` set (mMembers wLabAfter) \<and>
   inj_on fst (live_of wLab \<union> spawned wLab wLabAfter)"
proof -
  have r: "lab_reach (wLabAfter, live_of wLab \<union> spawned wLab wLabAfter)" (is "lab_reach (_, ?L)")
    by (rule stepped [OF opened [OF wLab_opened] served [OF wLab_served(1)]])
  note b = lab_state_bounded [OF r]
  have u: "\<forall>i s s'. (i, s) \<in> ?L \<and> (i, s') \<in> ?L \<longrightarrow> s = s'" using b by (elim conjE)
  have "inj_on fst ?L"
  proof (rule inj_onI)
    fix p q assume "p \<in> ?L" "q \<in> ?L" "fst p = fst q"
    moreover obtain i s j t where "p = (i, s)" "q = (j, t)" by (metis prod.exhaust)
    ultimately show "p = q" using u by (simp only: fst_conv) blast
  qed
  then show ?thesis using b wLab_served(2) by blast
qed

text \<open>
  The dashboard's guard: a request with a host that is not the loopback interface, with a foreign origin, or one that is no \<open>GET\<close> or \<open>HEAD\<close> and lacks the
  control token is answered with 403 and changes nothing; whatever request changes the manager is a \<open>POST\<close> with the token, and the token itself and the
  configuration never change.
\<close>

lemma dashboard_guarded:
  assumes "lab_reach (m, L)" "Handler_lab w r m = Some (a, m')"
  shows "(\<not> loopback_host (qHost r) \<or> qHeader r ''Origin'' \<notin> {[], ''http://'' @ qHost r} \<or>
      qMethod r \<notin> {''GET'', ''HEAD''} \<and> qHeader r ''X-ShardZero-Control'' \<noteq> mToken m \<longrightarrow> m' = m \<and> (\<exists>t. a = LabReply 403 (PlainLab t))) \<and>
    (m' \<noteq> m \<longrightarrow> qMethod r = ''POST'' \<and> qHeader r ''X-ShardZero-Control'' = mToken m) \<and> mToken m' = mToken m \<and> mCfg m' = mCfg m"
proof -
  have "lab_ok m" using lab_reach_ok [OF assms(1)] by (simp add: lab_state_ok_def)
  then have "mToken m' = mToken m" "mCfg m' = mCfg m" using lab_move_Handler [OF assms(2)] by (simp_all add: lab_move_def)
  moreover have "m' = m \<and> (\<exists>t. a = LabReply 403 (PlainLab t))"
    if "\<not> loopback_host (qHost r) \<or> qHeader r ''Origin'' \<notin> {[], ''http://'' @ qHost r} \<or>
      qMethod r \<notin> {''GET'', ''HEAD''} \<and> qHeader r ''X-ShardZero-Control'' \<noteq> mToken m"
    using that assms(2) unfolding Handler_lab_def insert_iff empty_iff by (simp split: if_split_asm del: append.simps) blast+
  ultimately show ?thesis using Handler_lab_changed(3,4) [OF assms(2)] by blast
qed

end
