(* ===== verification/Lab_Loss.thy ===== *)
theory Lab_Loss
  imports Lab Transport
begin

text \<open>
  The loss the fault proxies inject.  They share one packet counter: of any hundred consecutive messages between members that are not isolated,
  through whichever proxies they go, exactly \<open>mDrop\<close> are dropped.
\<close>

section \<open>The fault proxy's loss\<close>

lemma window_shift:
  fixes P :: "nat \<Rightarrow> bool"
  assumes "P (p + n + 1) = P (p + 1)"
  shows "card {k \<in> {Suc p + 1 .. Suc p + n}. P k} = card {k \<in> {p + 1 .. p + n}. P k}"
proof -
  have u: "insert (p + 1) {Suc p + 1 .. Suc p + n} = insert (p + n + 1) {p + 1 .. p + n}" by auto
  have c: "insert a {k \<in> A. P k} = {k \<in> insert a A. P k}" if "P a" for a A using that by auto
  have e: "{k \<in> insert a A. P k} = {k \<in> A. P k}" if "\<not> P a" for a A using that by auto
  show ?thesis
  proof (cases "P (p + 1)")
    case True
    have "card (insert (p + 1) {k \<in> {Suc p + 1 .. Suc p + n}. P k}) = card (insert (p + n + 1) {k \<in> {p + 1 .. p + n}. P k})"
      unfolding c [of "p + 1", OF True] c [of "p + n + 1", OF True [folded assms]] u ..
    then show ?thesis by simp
  next
    case False
    then have "\<not> P (p + n + 1)" using assms by simp
    from e [OF False, of "{Suc p + 1 .. Suc p + n}"] e [OF this, of "{p + 1 .. p + n}"] show ?thesis unfolding u by (simp only:)
  qed
qed

lemma window_count:
  fixes p d :: nat
  assumes "d \<le> 100"
  shows "card {k \<in> {p + 1 .. p + 100}. k mod 100 < d} = d"
proof (induction p)
  case 0
  have "{k \<in> {0 + 1 .. 0 + 100}. k mod 100 < d} = (if d = 0 then {} else insert 100 {1 ..< d})"
  proof -
    have "k mod 100 = (if k = 100 then 0 else k)" if "k \<le> 100" for k :: nat using that by auto
    then show ?thesis using assms by (auto split: if_splits)
  qed
  moreover have "card (insert 100 {1 ..< d}) = Suc (card {1 ..< d})" using assms by (intro card_insert_disjoint) auto
  ultimately show ?case by (cases d) simp_all
next
  case (Suc p)
  have "(p + 100 + 1) mod 100 = (p + 1) mod 100" using mod_add_self2 [of "p + 1" 100] by (simp only: ac_simps)
  then have "card {k \<in> {Suc p + 1 .. Suc p + 100}. k mod 100 < d} = card {k \<in> {p + 1 .. p + 100}. k mod 100 < d}"
    by (intro window_shift [of "\<lambda>k. k mod 100 < d"]) (simp only:)
  then show ?case using Suc by (rule trans)
qed

text \<open>
  A message on its way through the proxy of its target: the request, what the outside world does to it, what happens to the manager while it is delayed
  and forwarded, and what happens to the manager between its arrival and the arrival of the next message at any proxy.
\<close>

record lab_message =
  lmTarget :: Member
  lmRequest :: "string Request"
  lmNow :: int
  lmGone :: bool
  lmBad :: "string \<Rightarrow> gerror option"
  lmForward :: "string \<Rightarrow> string \<times> bool \<Rightarrow> (nat \<times> string) option"
  lmDuring :: "Manager \<Rightarrow> Manager"
  lmAfter :: "Manager \<Rightarrow> Manager"
  lmBetween :: "Manager \<Rightarrow> Manager"

definition answered :: "lab_message \<Rightarrow> Manager \<Rightarrow> proxied" where
  "answered x m = fst (proxy (lmBad x) (lmNow x) (lmGone x) (lmDuring x) (lmAfter x) (lmForward x) (lmTarget x) (lmRequest x) m)"

text \<open>The manager once a message has arrived: from then on its proxy only reads the manager.\<close>

definition arrived :: "lab_message \<Rightarrow> Manager \<Rightarrow> Manager" where
  "arrived x m = snd (proxy (lmBad x) (lmNow x) (lmGone x) (\<lambda>m. m) (\<lambda>m. m) (lmForward x) (lmTarget x) (lmRequest x) m)"

text \<open>The answers to messages that arrive one after the other at the proxies of the lab; their deliveries may overlap.\<close>

primrec answers :: "lab_message list \<Rightarrow> Manager \<Rightarrow> proxied list" where
  "answers [] m = []"
| "answers (x # xs) m = answered x m # answers xs (lmBetween x (arrived x m))"

text \<open>The answer to a dropped message; no other branch of the proxy gives it, whatever a target answers.\<close>

abbreviation injected_loss :: proxied where
  "injected_loss \<equiv> ProxyError 503 ''injected network loss''"

text \<open>A remote procedure call of a member to a member, neither of them isolated.\<close>

definition peer_message :: "Manager \<Rightarrow> lab_message \<Rightarrow> bool" where
  "peer_message m x \<longleftrightarrow> qMethod (lmRequest x) = ''POST'' \<and> path_text (map PathUnescape (qPath (lmRequest x))) \<in> {''/raft/vote'', ''/raft/append''} \<and>
     qHeader (lmRequest x) ''X-ShardZero-From'' \<in> mbID ` set (mMembers m) \<and>
     \<not> proxy_blocked m (qHeader (lmRequest x) ''X-ShardZero-From'') (mbID (lmTarget x))"

text \<open>What happens meanwhile changes neither the faults nor the names of the members, and no message arrives in it.\<close>

definition faults_kept :: "(Manager \<Rightarrow> Manager) \<Rightarrow> bool" where
  "faults_kept f \<longleftrightarrow> (\<forall>m. mPacket (f m) = mPacket m \<and> mDrop (f m) = mDrop m \<and> mIsolated (f m) = mIsolated m \<and> map mbID (mMembers (f m)) = map mbID (mMembers m))"

definition same_faults :: "Manager \<Rightarrow> Manager \<Rightarrow> bool" where
  "same_faults m m' \<longleftrightarrow> mDrop m' = mDrop m \<and> mIsolated m' = mIsolated m \<and> map mbID (mMembers m') = map mbID (mMembers m)"

lemma peer_message_same: "same_faults m m' \<Longrightarrow> peer_message m' x \<longleftrightarrow> peer_message m x"
proof -
  assume s: "same_faults m m'"
  then have "mbID ` set (mMembers m') = mbID ` set (mMembers m)" unfolding same_faults_def by (metis list.set_map)
  then show ?thesis using s by (simp add: peer_message_def proxy_blocked_def same_faults_def)
qed

lemma lab_find_member: "i \<in> mbID ` set (mMembers m) \<Longrightarrow> lab_find i m \<noteq> None"
  by (auto simp: lab_find_def find_None_iff)

lemma answered_lost: "peer_message m x \<Longrightarrow> answered x m = injected_loss \<longleftrightarrow> dropped (m\<lparr>mPacket := mPacket m + 1\<rparr>)"
  using lab_find_member [of "qHeader (lmRequest x) ''X-ShardZero-From''" m]
  by (auto simp: answered_def proxy_def peer_message_def proxy_blocked_def Let_def split: option.splits)

lemma arrived_counted:
  assumes "peer_message m x"
  shows "mPacket (arrived x m) = mPacket m + 1" "same_faults m (arrived x m)"
  using assms lab_find_member [of "qHeader (lmRequest x) ''X-ShardZero-From''" m]
  by (auto simp: arrived_def proxy_def peer_message_def proxy_blocked_def same_faults_def Let_def split: option.splits)

lemma dropped_mod:
  assumes "k < 2 ^ 64" "0 \<le> mDrop m" "mDrop m \<le> 100"
  shows "dropped (m\<lparr>mPacket := of_nat k\<rparr>) \<longleftrightarrow> k mod 100 < nat (mDrop m)"
proof -
  have d: "unat (word_of_int (mDrop m) :: u64) = nat (mDrop m)" using assms(2,3) by (simp add: unat_eq_nat_uint uint_word_of_int)
  have k: "unat (of_nat k :: u64) = k" using assms(1) by (simp add: unat_of_nat)
  show ?thesis by (simp add: dropped_def word_less_nat_alt unat_mod d k)
qed

lemma loss_count:
  assumes "\<forall>x \<in> set xs. peer_message m x \<and> faults_kept (lmBetween x)" "mPacket m = of_nat p" "p + length xs < 2 ^ 64" "0 \<le> mDrop m" "mDrop m \<le> 100"
  shows "length (filter (\<lambda>a. a = injected_loss) (answers xs m)) = card {k \<in> {p + 1 .. p + length xs}. k mod 100 < nat (mDrop m)}"
  using assms
proof (induction xs arbitrary: m p)
  case (Cons x xs)
  let ?m1 = "lmBetween x (arrived x m)"
  let ?B = "{k \<in> {Suc p + 1 .. Suc p + length xs}. k mod 100 < nat (mDrop m)}"
  have x: "peer_message m x" "faults_kept (lmBetween x)" using Cons.prems(1) by simp_all
  have s: "same_faults m ?m1" "mPacket ?m1 = of_nat (Suc p)"
    using arrived_counted [OF x(1)] x(2) Cons.prems(2) by (simp_all add: faults_kept_def same_faults_def)
  have "length (filter (\<lambda>a. a = injected_loss) (answers xs ?m1)) = card ?B"
    using Cons.IH [of ?m1 "Suc p"] Cons.prems(1,3-) s peer_message_same [OF s(1)] by (simp add: same_faults_def)
  moreover have "answered x m = injected_loss \<longleftrightarrow> (p + 1) mod 100 < nat (mDrop m)"
    using answered_lost [OF x(1)] Cons.prems dropped_mod [of "p + 1" m] by (simp add: add.commute)
  moreover have "{k \<in> {p + 1 .. p + length (x # xs)}. k mod 100 < nat (mDrop m)} = (if (p + 1) mod 100 < nat (mDrop m) then insert (p + 1) ?B else ?B)"
  proof -
    have "{p + 1 .. p + length (x # xs)} = insert (p + 1) {Suc p + 1 .. Suc p + length xs}" by auto
    then show ?thesis by auto
  qed
  ultimately show ?case by simp
qed simp

section \<open>Properties\<close>

text \<open>
  C40.  The injected loss is exact: of any hundred messages that arrive one after the other at the proxies of the lab, whichever members they go
  to and however their deliveries overlap, exactly as many as the configured percentage get the answer that tells of injected loss; that answer is
  never confused with a target's own 503.  The messages are calls of known members, neither end is isolated, the faults stay as they are meanwhile and the
  packet counter, which may have any value before, does not overflow.
\<close>

theorem injected_loss_exact:
  assumes "length xs = 100" "\<forall>x \<in> set xs. peer_message m x \<and> faults_kept (lmBetween x)" "unat (mPacket m) + 100 < 2 ^ 64" "0 \<le> mDrop m" "mDrop m \<le> 100"
  shows "length (filter (\<lambda>a. a = injected_loss) (answers xs m)) = nat (mDrop m)"
  using loss_count [OF assms(2), of "unat (mPacket m)"] window_count [of "nat (mDrop m)" "unat (mPacket m)"] assms by simp

text \<open>Calls of the first member to the other two in turn, with a delay; the targets refuse every one of them with a 503 of their own.\<close>

definition wVote :: "Member \<Rightarrow> lab_message" where
  "wVote t =
     \<lparr>lmTarget = t,
      lmRequest = rpc_request [''raft'', ''vote'']
        (VoteJSON \<lparr>vqMessageID = [], vqClusterID = ''c'', vqTerm = 1, CandidateID = ''node-1'', LastLogIndex = 0, LastLogTerm = 0\<rparr>) ''{}'',
      lmNow = 0, lmGone = False, lmBad = (\<lambda>_. None), lmForward = (\<lambda>_ _. Some (503, ''{}'')), lmDuring = (\<lambda>m. m), lmAfter = (\<lambda>m. m), lmBetween = (\<lambda>m. m)\<rparr>"

definition wLoss :: Manager where
  "wLoss = (let c = \<lparr>lcNodes = 3, lcBasePort = 17000, lcDataDir = [], lcNodeBinary = [], lcAssets = []\<rparr> in
    \<lparr>mCfg = c, mMembers = map (lab_member c) [1, 2, 3], mViews = fmempty, mClosing = False,
     mToken = [], mClient = \<lparr>servers = [], preferred = [], discovered = {||}\<rparr>, mEvents = New_Buffer 400, mTimeline = New_Buffer 200, mIsolated = {||},
     mDelay = 20, mDrop = 30, mPacket = 250, mMetrics = zeroMetrics, mSamples = [], mWork = False, mBefore = None, mGaps = 0, mSerial = 0\<rparr>)"

definition wVotes :: "lab_message list" where
  "wVotes = concat (replicate 50 [wVote (mMembers wLoss ! 1), wVote (mMembers wLoss ! 2)])"

theorem injected_loss_exact_witness:
  "length (filter (\<lambda>a. a = injected_loss) (answers wVotes wLoss)) = 30"
proof -
  have "peer_message wLoss (wVote (mMembers wLoss ! 1))" "peer_message wLoss (wVote (mMembers wLoss ! 2))" by code_simp+
  moreover have "faults_kept (lmBetween (wVote t))" for t by (simp add: wVote_def faults_kept_def)
  ultimately have "\<forall>x \<in> set wVotes. peer_message wLoss x \<and> faults_kept (lmBetween x)" by (simp add: wVotes_def)
  moreover have "length wVotes = 100" by (simp add: wVotes_def length_concat sum_list_replicate)
  moreover have "unat (mPacket wLoss) + 100 < 2 ^ 64" "mDrop wLoss = 30" by (simp_all add: wLoss_def Let_def)
  ultimately show ?thesis using injected_loss_exact [of wVotes wLoss] by simp
qed

end
