(* ===== verification/Commands.thy ===== *)
theory Commands
  imports Dashboard
begin

text \<open>
  The command-line client \<^verbatim>\<open>cmd/client/main.go\<close> and the start-up decisions of the other commands: the membership file
  (\<^verbatim>\<open>internal/raft/config.go\<close>), the checks and arguments of the local launcher (\<^verbatim>\<open>cmd/cluster/main.go\<close>) and the runs of
  the simulator (\<^verbatim>\<open>cmd/simulator/main.go\<close>).  The main theorem composes the two clients with the API: what the user typed is what is executed.
\<close>

section \<open>The membership file\<close>

record Membership =
  msClusterID :: string
  msPeers :: "Peer list"

text \<open>Opening the file gives an error or its decoding.\<close>

definition LoadMembership :: "gerror + Membership body \<Rightarrow> gerror + Membership" where
  "LoadMembership f =
     (case f of
        Inl e \<Rightarrow> Inl e
      | Inr Malformed \<Rightarrow> Inl (ErrText ''json'')
      | Inr (Trailing _) \<Rightarrow> Inl (ErrText ''invalid trailing membership data'')
      | Inr (Document m) \<Rightarrow> Inr m)"

section \<open>The command-line client\<close>

record ClientFlags =
  fServer :: string
  fServers :: string
  fClient :: string
  fRequest :: u64

text \<open>\<open>strings.Split(s, \",\")\<close>.\<close>

fun split_commas :: "string \<Rightarrow> string list" where
  "split_commas [] = [[]]"
| "split_commas (c # s) =
     (if c = CHR '','' then [] # split_commas s
      else (case split_commas s of x # xs \<Rightarrow> (c # x) # xs | [] \<Rightarrow> [[c]]))"

definition arity :: "string \<Rightarrow> nat" where
  "arity operation =
     (if operation = ''GET'' then 2 else if operation = ''SET'' then 3 else if operation = ''DELETE'' then 2
      else if operation = ''CAS'' then 4 else 0)"

text \<open>The method, the path and the body for the arguments; \<open>random\<close> is what drawing a client identifier gives.\<close>

definition client_request :: "gerror + string \<Rightarrow> ClientFlags \<Rightarrow> string list \<Rightarrow> gerror + (string \<times> string list \<times> writeRequest option)" where
  "client_request random fl args =
     (if args = [] then Inl (ErrText ''usage'')
      else
        (let operation = ToUpper (args ! 0) in
         if operation = ''STATUS''
         then (if length args \<noteq> 1 then Inl (ErrText ''STATUS takes no arguments'') else Inr (''GET'', [''v1'', ''status''], None))
         else if arity operation = 0 \<or> length args \<noteq> arity operation then Inl (ErrText ''invalid command or argument count'')
         else if operation = ''GET'' then Inr (''GET'', kv_path (args ! 1), None)
         else
           (case (if fClient fl = [] then random else Inr (fClient fl)) of
              Inl e \<Rightarrow> Inl e
            | Inr cid \<Rightarrow>
                (let body = \<lparr>wClientID = cid, wRequestID = fRequest fl, wValue = None, wExpected = None\<rparr> in
                 Inr (if operation = ''SET'' then (''PUT'', kv_path (args ! 1), Some (body\<lparr>wValue := Some (args ! 2)\<rparr>))
                      else if operation = ''DELETE'' then (''DELETE'', kv_path (args ! 1), Some body)
                      else (''POST'', kv_path (args ! 1) @ [''cas''], Some (body\<lparr>wExpected := Some (args ! 2), wValue := Some (args ! 3)\<rparr>)))))))"

text \<open>The run: what it prints, or its error.  \<open>stdout\<close> is the outcome of writing the output.\<close>

definition client_run ::
  "Origins \<Rightarrow> World \<Rightarrow> (writeRequest option \<Rightarrow> string) \<Rightarrow> gerror option \<Rightarrow> gerror + string \<Rightarrow> ClientFlags \<Rightarrow> string list \<Rightarrow> (gerror option \<times> string) option" where
  "client_run og w encode stdout random fl args =
     (case client_request random fl args of
        Inl e \<Rightarrow> Some (Some e, [])
      | Inr (verb, path, body) \<Rightarrow>
          (case New_Client (validOrigin og) (if fServers fl \<noteq> [] then split_commas (fServers fl) else [fServer fl]) of
             Inl e \<Rightarrow> Some (Some e, [])
           | Inr c \<Rightarrow>
               do {
                 ((resp, err), _) \<leftarrow> Do og w verb (path_text path) (encode body) c;
                 Some (case err of
                         Some e \<Rightarrow> (Some (ErrWrap ''request failed; write outcome may be unknown'' e), [])
                       | None \<Rightarrow>
                           if stdout \<noteq> None then (stdout, [])
                           else (if 300 \<le> StatusCode resp then Some (ErrText ''HTTP'') else None, Body resp))
               }))"

section \<open>The local launcher\<close>

text \<open>\<open>local_url\<close> tells whether a text is an HTTP loopback URL with an explicit port (\<open>url.Parse\<close>), \<open>host\<close> is its host and port.\<close>

definition simple_name :: "string \<Rightarrow> bool" where
  "simple_name s \<longleftrightarrow> s \<noteq> [] \<and> s \<noteq> ''.'' \<and> s \<noteq> ''..'' \<and> list_all (\<lambda>c. c \<notin> {CHR ''/'', CHR 0x5C, CHR '':''}) s"

definition launch_error :: "(string \<Rightarrow> bool) \<Rightarrow> Membership \<Rightarrow> gerror option" where
  "launch_error local_url m =
     (if msPeers m = [] then Some (ErrText ''empty cluster'')
      else first_error (\<lambda>p. if \<not> simple_name (pID p) then Some (ErrText ''node IDs must be simple directory names'')
                           else if \<not> local_url (PeerURL p) \<or> \<not> local_url (ClientURL p)
                             then Some (ErrText ''local launcher requires HTTP loopback addresses with explicit ports'')
                           else None) (msPeers m))"

definition node_args :: "(string \<Rightarrow> string) \<Rightarrow> (string \<Rightarrow> string \<Rightarrow> string) \<Rightarrow> string \<Rightarrow> string \<Rightarrow> string \<Rightarrow> u64 \<Rightarrow> Peer \<Rightarrow> string list" where
  "node_args host join config data fixed every p =
     [''--id='' @ pID p, ''--cluster='' @ config, ''--listen='' @ host (ClientURL p), ''--peer-listen='' @ host (PeerURL p),
      ''--data='' @ join data (pID p)] @ (if fixed \<noteq> [] then [''--fixed-leader='' @ fixed] else []) @ [''--snapshot-every='' @ decimal (unat every)]"

section \<open>The simulator's command\<close>

text \<open>
  \<open>n\<close> runs are left of \<open>runs\<close>; \<open>run\<close> is \<open>simulation.Run\<close> and \<open>saved\<close> tells whether a file was written.  The result is the error and the
  scenarios and reports written, the minimized scenario last.
\<close>

datatype artifact = ScenarioFile Scenario | ReportFile SimResult | MinimalFile Scenario

primrec sim_runs ::
  "(Scenario \<Rightarrow> SimResult) \<Rightarrow> (artifact \<Rightarrow> gerror option) \<Rightarrow> bool \<Rightarrow> nat \<Rightarrow> Scenario \<Rightarrow> artifact list \<Rightarrow> gerror option \<times> artifact list" where
  "sim_runs run saved minimize 0 s out = (None, out)"
| "sim_runs run saved minimize (Suc n) s out =
     (let r = run s; out1 = out @ [ScenarioFile s]; out2 = out1 @ [ReportFile r];
          small = Minimize (\<lambda>_. True) s (\<lambda>x. srError (run x) = srError r) in
      if saved (ScenarioFile s) \<noteq> None then (saved (ScenarioFile s), out)
      else if saved (ReportFile r) \<noteq> None then (saved (ReportFile r), out1)
      else if srPassed r then sim_runs run saved minimize n (s\<lparr>scSeed := scSeed s + 1\<rparr>) out2
      else if minimize \<and> saved (MinimalFile small) \<noteq> None then (saved (MinimalFile small), out2)
      else (Some (ErrText ''scenario failed''), if minimize then out2 @ [MinimalFile small] else out2))"

definition simulator_run ::
  "(Scenario \<Rightarrow> SimResult) \<Rightarrow> (artifact \<Rightarrow> gerror option) \<Rightarrow> gerror option \<Rightarrow> bool \<Rightarrow> int \<Rightarrow> Scenario \<Rightarrow> gerror option \<times> artifact list" where
  "simulator_run run saved mkdir minimize runs s =
     (if runs < 1 \<or> 10000 < runs then (Some (ErrText ''runs must be 1-10000''), [])
      else if mkdir \<noteq> None then (mkdir, [])
      else sim_runs run saved minimize (nat runs) s [])"

section \<open>Commands arrive as they were given\<close>

lemma kv_request:
  assumes "Validate \<lparr>ClientID = cid, RequestID = rid, Operation = operation, Key = k, Value = v, Expected = x\<rparr> = None"
  shows "operation \<in> operations" "operation = ''SET'' \<Longrightarrow> x = []" "operation = ''DELETE'' \<Longrightarrow> v = [] \<and> x = []"
  using assms by (auto simp: Validate_def operations_def split: if_splits)

text \<open>The body the clients send for an operation.\<close>

definition write_body :: "string \<Rightarrow> string \<Rightarrow> u64 \<Rightarrow> string \<Rightarrow> string \<Rightarrow> writeRequest" where
  "write_body operation cid rid v x =
     \<lparr>wClientID = cid, wRequestID = rid, wValue = (if operation = ''DELETE'' then None else Some v), wExpected = (if operation = ''CAS'' then Some x else None)\<rparr>"

lemma write_body_op:
  assumes "operation \<in> operations" "operation = ''SET'' \<Longrightarrow> x = []" "operation = ''DELETE'' \<Longrightarrow> v = [] \<and> x = []" "qBody r = Document (write_body operation cid rid v x)"
  shows "write_op exec operation k r s =
    do { ((result, err), s') \<leftarrow> exec \<lparr>ClientID = cid, RequestID = rid, Operation = operation, Key = k, Value = v, Expected = x\<rparr> s;
         Some (case err of Some e \<Rightarrow> (handleRequestError r e, s')
                         | None \<Rightarrow> (respond [] (if rConflict result then 409 else 200) (ResultBody result), s')) }"
proof -
  have "body_command operation k (write_body operation cid rid v x) =
      \<lparr>ClientID = cid, RequestID = rid, Operation = operation, Key = k, Value = v, Expected = x\<rparr>"
    using assms(1-3) by (auto simp: body_command_def write_body_def operations_def)
  moreover have "\<not> fields_missing operation (write_body operation cid rid v x)" "\<not> fields_unexpected operation (write_body operation cid rid v x)"
    by (simp_all add: fields_missing_def fields_unexpected_def write_body_def)
  ultimately show ?thesis using assms(4) by (simp add: write_op_def)
qed

lemma commandHTTP_write:
  assumes "commandHTTP c = Inr (verb, path, Some body)"
  shows "verb = write_method (ToUpper (crOperation c))" "path = write_path (ToUpper (crOperation c)) (crKey c)"
    "body = write_body (ToUpper (crOperation c)) (crClientID c) (crRequestID c) (crValue c) (crExpected c)"
    "Validate \<lparr>ClientID = crClientID c, RequestID = crRequestID c, Operation = ToUpper (crOperation c), Key = crKey c, Value = crValue c,
       Expected = crExpected c\<rparr> = None"
proof -
  show v: "Validate \<lparr>ClientID = crClientID c, RequestID = crRequestID c, Operation = ToUpper (crOperation c), Key = crKey c, Value = crValue c,
       Expected = crExpected c\<rparr> = None"
    using assms by (auto simp: commandHTTP_def Let_def split: if_splits option.splits)
  consider "ToUpper (crOperation c) = ''SET''" | "ToUpper (crOperation c) = ''DELETE''" | "ToUpper (crOperation c) = ''CAS''"
    using kv_request(1) [OF v] by (auto simp: operations_def)
  then show "verb = write_method (ToUpper (crOperation c))" "path = write_path (ToUpper (crOperation c)) (crKey c)"
    "body = write_body (ToUpper (crOperation c)) (crClientID c) (crRequestID c) (crValue c) (crExpected c)"
    using assms v by (cases; auto simp: commandHTTP_def Let_def write_method_def write_path_def write_body_def split: if_splits)+
qed

lemma commandHTTP_get: "commandHTTP c = Inr (verb, path, None) \<Longrightarrow> verb = ''GET'' \<and> path = kv_path (crKey c)"
  by (auto simp: commandHTTP_def Let_def split: if_splits option.splits)

text \<open>The arguments and flags of the command line for the same command.\<close>

definition typed_args :: "CommandRequest \<Rightarrow> string list" where
  "typed_args c =
     (let operation = ToUpper (crOperation c) in
      if operation = ''SET'' then [crOperation c, crKey c, crValue c]
      else if operation = ''CAS'' then [crOperation c, crKey c, crExpected c, crValue c]
      else [crOperation c, crKey c])"

definition typed_flags :: "CommandRequest \<Rightarrow> ClientFlags" where
  "typed_flags c = \<lparr>fServer = [], fServers = [], fClient = crClientID c, fRequest = crRequestID c\<rparr>"

lemma client_request_same:
  assumes "commandHTTP c = Inr out"
  shows "client_request random (typed_flags c) (typed_args c) = Inr out"
proof (cases "ToUpper (crOperation c) = ''GET''")
  case True
  then show ?thesis using assms by (auto simp: commandHTTP_def client_request_def typed_args_def arity_def Let_def split: if_splits)
next
  case False
  obtain verb path b where out: "out = (verb, path, b)" by (metis prod.exhaust)
  with assms False obtain body where b: "b = Some body" by (auto simp: commandHTTP_def Let_def split: if_splits option.splits)
  note w = commandHTTP_write [OF assms [unfolded out b]]
  consider "ToUpper (crOperation c) = ''SET''" | "ToUpper (crOperation c) = ''DELETE''" | "ToUpper (crOperation c) = ''CAS''"
    using kv_request(1) [OF w(4)] by (auto simp: operations_def)
  moreover have "crClientID c \<noteq> []" using w(4) by (auto simp: Validate_def split: if_splits)
  ultimately show ?thesis unfolding out b w(1-3)
    by cases (simp_all add: client_request_def typed_args_def typed_flags_def arity_def write_method_def write_path_def write_body_def Let_def)
qed

text \<open>
  The keys \<open>.\<close>, \<open>..\<close> and \<open>/\<close> are accepted by the clients and by validation, but they do not survive as a path segment: the multiplexer answers
  with a redirect to another path, or with 404, and no handler runs.
\<close>

lemma route_special:
  assumes "k \<in> {''.'', ''..'', ''/''}" "m \<noteq> ''CONNECT''" "path = kv_path k \<or> path = kv_path k @ [''cas'']"
  shows "if k = ''/'' then route api_routes m path = MuxError 404 else \<exists>p. route api_routes m path = Moved p"
proof -
  have "PathEscape ''/'' = ''%2F''" "PathUnescape ''%2F'' = ''/''" by code_simp+
  then show ?thesis using assms
    by (auto simp: route_def kv_path_def cleanPath_def path_matches_def api_routes_def List.map_filter_simps Let_def)
qed

lemma commandHTTP_shape:
  assumes "commandHTTP c = Inr (verb, path, body)"
  shows "crKey c \<noteq> []" "verb \<in> {''GET'', ''PUT'', ''DELETE'', ''POST''}" "path = kv_path (crKey c) \<or> path = kv_path (crKey c) @ [''cas'']"
proof -
  show "crKey c \<noteq> []" using assms by (auto simp: commandHTTP_def Let_def split: if_splits)
  have "verb \<in> {''GET'', ''PUT'', ''DELETE'', ''POST''} \<and> (path = kv_path (crKey c) \<or> path = kv_path (crKey c) @ [''cas''])"
  proof (cases body)
    case None
    then show ?thesis using commandHTTP_get assms by auto
  next
    case (Some b)
    then show ?thesis using commandHTTP_write(1,2) [OF assms [unfolded Some]] by (simp add: write_method_def write_path_def)
  qed
  then show "verb \<in> {''GET'', ''PUT'', ''DELETE'', ''POST''}" "path = kv_path (crKey c) \<or> path = kv_path (crKey c) @ [''cas'']" by blast+
qed

lemma special_key_unreachable:
  assumes "commandHTTP c = Inr (verb, path, body)" "\<not> plain_key (crKey c)" "qMethod r = verb" "qPath r = path"
  shows "crKey c \<in> {''.'', ''..'', ''/''}"
    "\<exists>a. handler exec get status r s = Some (a, s) \<and> (if crKey c = ''/'' then a = MuxStatus 404 else \<exists>p. a = MovedTo p)"
proof -
  note p = commandHTTP_shape [OF assms(1)]
  show k: "crKey c \<in> {''.'', ''..'', ''/''}" using assms(2) p(1) by (simp add: plain_key_def)
  have m: "verb \<noteq> ''CONNECT''" using p(2) by auto
  show "\<exists>a. handler exec get status r s = Some (a, s) \<and> (if crKey c = ''/'' then a = MuxStatus 404 else \<exists>p. a = MovedTo p)"
    using route_special [OF k m p(3)] assms(3,4) by (auto simp: handler_def split: if_splits)
qed

section \<open>Properties\<close>

text \<open>
  C20.  What the user gave is what is executed, for every key but three.  If the lab accepts a command and its key is none of \<open>.\<close>, \<open>..\<close> and \<open>/\<close>, then the
  request it makes, served by the client API, executes exactly the command with the given client, request number, operation, key, value and
  expected value; a read looks up exactly the given key.  For the three keys it accepts as well, the API's multiplexer answers with a redirect (\<open>.\<close> and
  \<open>..\<close>) or with 404 (\<open>/\<close>), and nothing is executed or read.  The command-line client makes the same request from the same words.
\<close>

theorem command_roundtrip:
  assumes "commandHTTP c = Inr (verb, path, body)" "qMethod r = verb" "qPath r = path" "\<forall>b. body = Some b \<longrightarrow> qBody r = Document b"
  shows "(plain_key (crKey c) \<longrightarrow> handler exec get status r s = map_option (\<lambda>(rep, s'). (Answer rep, s'))
      (if body = None then get_key get (crKey c) r s
       else do { ((result, err), s') \<leftarrow> exec \<lparr>ClientID = crClientID c, RequestID = crRequestID c, Operation = ToUpper (crOperation c), Key = crKey c,
                                         Value = crValue c, Expected = crExpected c\<rparr> s;
                 Some (case err of Some e \<Rightarrow> (handleRequestError r e, s')
                                 | None \<Rightarrow> (respond [] (if rConflict result then 409 else 200) (ResultBody result), s')) })) \<and>
    (\<not> plain_key (crKey c) \<longrightarrow> crKey c \<in> {''.'', ''..'', ''/''} \<and>
      (\<exists>a. handler exec get status r s = Some (a, s) \<and> (if crKey c = ''/'' then a = MuxStatus 404 else \<exists>p. a = MovedTo p))) \<and>
    client_request random (typed_flags c) (typed_args c) = Inr (verb, path, body)"
proof -
  have "handler exec get status r s = map_option (\<lambda>(rep, s'). (Answer rep, s')) (get_key get (crKey c) r s)" if "plain_key (crKey c)" "body = None"
    using that(1) assms(2,3) commandHTTP_get [OF assms(1) [unfolded that(2)]] by (intro handler_get) simp_all
  moreover have "handler exec get status r s = map_option (\<lambda>(rep, s'). (Answer rep, s'))
      (do { ((result, err), s') \<leftarrow> exec \<lparr>ClientID = crClientID c, RequestID = crRequestID c, Operation = ToUpper (crOperation c), Key = crKey c,
                                         Value = crValue c, Expected = crExpected c\<rparr> s;
            Some (case err of Some e \<Rightarrow> (handleRequestError r e, s')
                            | None \<Rightarrow> (respond [] (if rConflict result then 409 else 200) (ResultBody result), s')) })"
    if "plain_key (crKey c)" "body = Some b" for b
  proof -
    note w = commandHTTP_write [OF assms(1) [unfolded that(2)]]
    note k = kv_request [OF w(4)]
    have d: "qBody r = Document (write_body (ToUpper (crOperation c)) (crClientID c) (crRequestID c) (crValue c) (crExpected c))"
      using assms(4) that(2) w(3) by simp
    have "handler exec get status r s = map_option (\<lambda>(rep, s'). (Answer rep, s')) (write_op exec (ToUpper (crOperation c)) (crKey c) r s)"
      using that(1) assms(2,3) w(1,2) k(1) by (intro handler_write) simp_all
    then show ?thesis by (simp only: write_body_op [OF k d])
  qed
  moreover have "\<not> plain_key (crKey c) \<longrightarrow> crKey c \<in> {''.'', ''..'', ''/''} \<and>
      (\<exists>a. handler exec get status r s = Some (a, s) \<and> (if crKey c = ''/'' then a = MuxStatus 404 else \<exists>p. a = MovedTo p))"
    using special_key_unreachable(1) [OF assms(1) _ assms(2,3)] special_key_unreachable(2) [OF assms(1) _ assms(2,3), of exec get status s] by simp
  ultimately show ?thesis using client_request_same [OF assms(1)] by (cases body) simp_all
qed

definition wCasCommand :: CommandRequest where
  "wCasCommand = \<lparr>crOperation = ''cas'', crKey = ''a/b'', crValue = ''2'', crExpected = ''1'', crClientID = ''c'', crRequestID = 7\<rparr>"

definition wCas :: "writeRequest body Request" where
  "wCas = \<lparr>qMethod = ''POST'', qPath = [''v1'', ''kv'', ''a%2Fb'', ''cas''], qRawQuery = [], qQuery = (\<lambda>_. []), qHeader = (\<lambda>_. []),
     qBody = Document \<lparr>wClientID = ''c'', wRequestID = 7, wValue = Some ''2'', wExpected = Some ''1''\<rparr>\<rparr>"

theorem command_roundtrip_witness:
  "handler (\<lambda>c s. Some ((zeroResult, None), s @ [c])) (\<lambda>k s. None) (\<lambda>s. StandaloneStatus [] [] \<lparr>sKeys = 0, sAppliedOperations = 0, sHealthy = True\<rparr>) wCas [] =
    Some (Answer (respond [] 200 (ResultBody zeroResult)),
      [\<lparr>ClientID = ''c'', RequestID = 7, Operation = ''CAS'', Key = ''a/b'', Value = ''2'', Expected = ''1''\<rparr>])"
proof -
  have c: "commandHTTP wCasCommand =
      Inr (''POST'', [''v1'', ''kv'', ''a%2Fb'', ''cas''], Some \<lparr>wClientID = ''c'', wRequestID = 7, wValue = Some ''2'', wExpected = Some ''1''\<rparr>)"
    "ToUpper (crOperation wCasCommand) = ''CAS''"
    by code_simp+
  have "plain_key (crKey wCasCommand)" by (simp add: plain_key_def wCasCommand_def)
  from this command_roundtrip [OF c(1), of wCas "\<lambda>c s. Some ((zeroResult, None), s @ [c])" "\<lambda>k s. None"
      "\<lambda>s. StandaloneStatus [] [] \<lparr>sKeys = 0, sAppliedOperations = 0, sHealthy = True\<rparr>" "[]" "Inr []"] c(2)
  show ?thesis by (simp add: wCas_def wCasCommand_def zeroResult_def)
qed

end
