(* ===== verification/Protocol.thy ===== *)
theory Protocol
  imports Quorums "HOL-Library.Sublist"
begin

text \<open>
  The Raft protocol itself, without disks, messages and snapshots: the durable term, vote, complete
  log and commit index of every process, and the history of the run.  The history holds the log with
  which a process campaigned in a term (\<open>elog\<close>), whom a process voted for in a term and its log at
  that moment (\<open>vlog\<close>), the leader of a term and its log (\<open>llog\<close>), which process has held which part
  of a leader's log (\<open>acks\<close>), and what leaders have committed (\<open>cmts\<close>).  The theory proves log
  matching, leader completeness and agreement on committed entries; theory \<open>Refinement\<close> shows that
  the nodes of the program take only these steps.
\<close>

section \<open>Logs\<close>

text \<open>Entries are counted from 1, as in the code.\<close>

definition term_at :: "Entry list \<Rightarrow> nat \<Rightarrow> u64" where
  "term_at L k = (if k = 0 then 0 else eTerm (L ! (k - 1)))"

definition lastTerm :: "Entry list \<Rightarrow> u64" where
  "lastTerm L = term_at L (length L)"

definition newer :: "Entry list \<Rightarrow> Entry list \<Rightarrow> bool" where
  "newer E M \<longleftrightarrow> lastTerm M < lastTerm E \<or> lastTerm E = lastTerm M \<and> length M \<le> length E"

definition bounded :: "Entry list \<Rightarrow> u64 \<Rightarrow> bool" where
  "bounded X T \<longleftrightarrow> sorted (map eTerm X) \<and> (\<forall>x \<in> set X. eTerm x \<le> T)"

lemma term_at_take: "k \<le> m \<Longrightarrow> term_at (take m L) k = term_at L k"
  by (cases k) (simp_all add: term_at_def)

lemma term_at_prefix: "prefix X Y \<Longrightarrow> k \<le> length X \<Longrightarrow> term_at Y k = term_at X k"
  by (auto simp: term_at_def prefix_def nth_append)

lemma bounded_term: "bounded X T \<Longrightarrow> k \<le> length X \<Longrightarrow> term_at X k \<le> T"
  by (auto simp: bounded_def term_at_def)

lemma bounded_mono: "bounded X T \<Longrightarrow> T \<le> T' \<Longrightarrow> bounded X T'"
  by (auto simp: bounded_def intro: order_trans)

lemma bounded_prefix: "bounded X T \<Longrightarrow> prefix Y X \<Longrightarrow> bounded Y T"
  by (auto simp: bounded_def prefix_def sorted_append)

lemma term_at_mono:
  assumes "bounded X T" "j \<le> k" "k \<le> length X"
  shows "term_at X j \<le> term_at X k"
proof (cases j)
  case (Suc i)
  then show ?thesis
    using assms sorted_nth_mono [of "map eTerm X" i "k - 1"] by (auto simp: bounded_def term_at_def)
qed (simp add: term_at_def)

lemma term_at_append: "k \<le> length X \<Longrightarrow> term_at (X @ Y) k = term_at X k"
  by (auto simp: term_at_def nth_append)

lemma term_at_snoc: "term_at (X @ [e]) (Suc (length X)) = eTerm e"
  by (simp add: term_at_def)

lemma bounded_snoc: "bounded X T \<Longrightarrow> eTerm e = T \<Longrightarrow> bounded (X @ [e]) T"
  by (auto simp: bounded_def sorted_append)

lemma prefix_take: "prefix (take k X) X"
  by (metis append_take_drop_id prefixI)

lemma prefix_take_mono: "j \<le> k \<Longrightarrow> prefix (take j X) (take k X)"
  by (metis min.absorb1 prefix_take take_take)

lemma prefix_takeD: "prefix (take k X) Y \<Longrightarrow> k \<le> length X \<Longrightarrow> k \<le> length Y \<and> take k Y = take k X"
  by (auto simp: prefix_def)

lemma prefix_take_iff: "k \<le> length X \<Longrightarrow> prefix (take k X) Y \<longleftrightarrow> k \<le> length Y \<and> take k Y = take k X"
  using prefix_takeD [of k X Y] prefix_take [of k Y] by auto

section \<open>States and steps\<close>

record Proto =
  pterm :: "string \<Rightarrow> u64"
  pvote :: "string \<Rightarrow> string"
  plog :: "string \<Rightarrow> Entry list"
  pcommit :: "string \<Rightarrow> nat"
  elog :: "string \<Rightarrow> u64 \<Rightarrow> Entry list option"
  vlog :: "string \<Rightarrow> u64 \<Rightarrow> (string \<times> Entry list) option"
  llog :: "u64 \<Rightarrow> (string \<times> Entry list) option"
  acks :: "(string \<times> u64 \<times> nat) set"
  cmts :: "(u64 \<times> nat) set"

definition acked :: "Proto \<Rightarrow> string \<Rightarrow> u64 \<Rightarrow> nat \<Rightarrow> bool" where
  "acked p v T k \<longleftrightarrow> (\<exists>m \<ge> k. (v, T, m) \<in> acks p)"

text \<open>A commit index that the leader of term \<open>T\<close> may announce.\<close>

definition known :: "Proto \<Rightarrow> u64 \<Rightarrow> nat \<Rightarrow> bool" where
  "known p T c \<longleftrightarrow> c = 0 \<or> (\<exists>(T', k) \<in> cmts p. T' \<le> T \<and> c \<le> k)"

text \<open>A follower's log after the first \<open>m\<close> entries of the leader's log \<open>L\<close> have reached it.\<close>

definition follow :: "Entry list \<Rightarrow> nat \<Rightarrow> Entry list \<Rightarrow> Entry list" where
  "follow L m X = (if take m X = take m L then X else take m L)"

inductive pstep :: "(string, Peer) fmap \<Rightarrow> string \<Rightarrow> Proto \<Rightarrow> Proto \<Rightarrow> bool" for ps i where
  adopt: "pterm p i < T \<Longrightarrow> pstep ps i p (p\<lparr>pterm := (pterm p)(i := T), pvote := (pvote p)(i := [])\<rparr>)"
| campaign: "pterm p i < T \<Longrightarrow> i \<noteq> [] \<Longrightarrow>
    pstep ps i p (p\<lparr>pterm := (pterm p)(i := T), pvote := (pvote p)(i := i),
      elog := (elog p)(i := (elog p i)(T \<mapsto> plog p i)), vlog := (vlog p)(i := (vlog p i)(T \<mapsto> (i, plog p i)))\<rparr>)"
| vote: "pterm p i = T \<Longrightarrow> pvote p i = [] \<Longrightarrow> v \<noteq> [] \<Longrightarrow> elog p v T = Some E \<Longrightarrow> newer E (plog p i) \<Longrightarrow>
    pstep ps i p (p\<lparr>pvote := (pvote p)(i := v), vlog := (vlog p)(i := (vlog p i)(T \<mapsto> (v, plog p i)))\<rparr>)"
| lead: "pterm p i = T \<Longrightarrow> elog p i T = Some (plog p i) \<Longrightarrow> llog p T = None \<Longrightarrow> majority ps Q \<Longrightarrow>
    \<forall>v \<in> Q. \<exists>M. vlog p v T = Some (i, M) \<Longrightarrow> pstep ps i p (p\<lparr>llog := (llog p)(T \<mapsto> (i, plog p i))\<rparr>)"
| append: "pterm p i = T \<Longrightarrow> llog p T = Some (i, plog p i) \<Longrightarrow> eTerm e = T \<Longrightarrow>
    pstep ps i p (p\<lparr>plog := (plog p)(i := plog p i @ [e]), llog := (llog p)(T \<mapsto> (i, plog p i @ [e])),
      acks := insert (i, T, Suc (length (plog p i))) (acks p)\<rparr>)"
| receive: "pterm p i = T \<Longrightarrow> llog p T = Some (l, L) \<Longrightarrow> l \<noteq> i \<Longrightarrow> m \<le> length L \<Longrightarrow> known p T c \<Longrightarrow>
    pstep ps i p (p\<lparr>plog := (plog p)(i := follow L m (plog p i)),
      pcommit := (pcommit p)(i := max (pcommit p i) (min c m)), acks := insert (i, T, m) (acks p)\<rparr>)"
| decide: "pterm p i = T \<Longrightarrow> llog p T = Some (i, L) \<Longrightarrow> 0 < k \<Longrightarrow> k \<le> length L \<Longrightarrow> term_at L k = T \<Longrightarrow> majority ps Q \<Longrightarrow>
    \<forall>v \<in> Q. acked p v T k \<Longrightarrow>
    pstep ps i p (p\<lparr>pcommit := (pcommit p)(i := max (pcommit p i) k), cmts := insert (T, k) (cmts p)\<rparr>)"

section \<open>The invariant\<close>

text \<open>Every entry of a log sits there under the same prefix as in the log of its term's leader.\<close>

definition rooted :: "Proto \<Rightarrow> Entry list \<Rightarrow> bool" where
  "rooted p X \<longleftrightarrow> (\<forall>k. 0 < k \<longrightarrow> k \<le> length X \<longrightarrow>
     (\<exists>l L. llog p (term_at X k) = Some (l, L) \<and> prefix (take k X) L))"

definition log_ok :: "Proto \<Rightarrow> Entry list \<Rightarrow> u64 \<Rightarrow> bool" where
  "log_ok p X T \<longleftrightarrow> bounded X T \<and> rooted p X"

text \<open>The first \<open>k\<close> entries of the log of term \<open>S\<close>'s leader, and the later leaders elected without them.\<close>

definition has :: "Proto \<Rightarrow> u64 \<Rightarrow> nat \<Rightarrow> bool" where
  "has p S k \<longleftrightarrow> (\<exists>l L. llog p S = Some (l, L) \<and> k \<le> length L)"

definition head :: "Proto \<Rightarrow> u64 \<Rightarrow> nat \<Rightarrow> Entry list" where
  "head p S k = take k (snd (the (llog p S)))"

definition missed :: "Proto \<Rightarrow> u64 \<Rightarrow> nat \<Rightarrow> u64 \<Rightarrow> bool" where
  "missed p S k T \<longleftrightarrow> S < T \<and> (\<exists>l L E. llog p T = Some (l, L) \<and> elog p l T = Some E \<and> \<not> prefix (head p S k) E)"

text \<open>The conjuncts, one per part of the state.\<close>

definition ack_inv :: "Proto \<Rightarrow> string \<Rightarrow> u64 \<Rightarrow> nat \<Rightarrow> bool" where
  "ack_inv p v S k \<longleftrightarrow> S \<le> pterm p v \<and> has p S k \<and> (prefix (head p S k) (plog p v) \<or> (\<exists>T \<le> pterm p v. missed p S k T))"

definition elog_inv :: "Proto \<Rightarrow> string \<Rightarrow> u64 \<Rightarrow> Entry list \<Rightarrow> bool" where
  "elog_inv p i T E \<longleftrightarrow> T \<le> pterm p i \<and> log_ok p E T \<and> (\<forall>x \<in> set E. eTerm x < T)"

definition vlog_inv :: "Proto \<Rightarrow> string \<Rightarrow> u64 \<Rightarrow> string \<Rightarrow> Entry list \<Rightarrow> bool" where
  "vlog_inv p v T i M \<longleftrightarrow> T \<le> pterm p v \<and> (T = pterm p v \<longrightarrow> pvote p v = i) \<and> i \<noteq> [] \<and> log_ok p M T \<and>
     (\<exists>E. elog p i T = Some E \<and> newer E M) \<and>
     (\<forall>S k. S < T \<longrightarrow> acked p v S k \<longrightarrow> prefix (head p S k) M \<or> (\<exists>T' < T. missed p S k T') \<or> llog p T \<noteq> None)"

definition won :: "(string, Peer) fmap \<Rightarrow> Proto \<Rightarrow> u64 \<Rightarrow> string \<Rightarrow> bool" where
  "won ps p T l \<longleftrightarrow> (\<exists>Q. majority ps Q \<and> (\<forall>v \<in> Q. \<exists>M. vlog p v T = Some (l, M) \<and>
     (\<forall>S k. S < T \<longrightarrow> acked p v S k \<longrightarrow> prefix (head p S k) M \<or> (\<exists>T' < T. missed p S k T'))))"

definition llog_inv :: "(string, Peer) fmap \<Rightarrow> Proto \<Rightarrow> u64 \<Rightarrow> string \<Rightarrow> Entry list \<Rightarrow> bool" where
  "llog_inv ps p T l L \<longleftrightarrow> T \<le> pterm p l \<and> (pterm p l = T \<longrightarrow> plog p l = L) \<and> log_ok p L T \<and>
     (\<exists>E. elog p l T = Some E \<and> prefix E L \<and> (\<forall>k. length E < k \<longrightarrow> k \<le> length L \<longrightarrow> term_at L k = T) \<and>
       (L = E \<or> (l, T, length L) \<in> acks p)) \<and> won ps p T l"

definition cmt_inv :: "(string, Peer) fmap \<Rightarrow> Proto \<Rightarrow> u64 \<Rightarrow> nat \<Rightarrow> bool" where
  "cmt_inv ps p T k \<longleftrightarrow> 0 < k \<and> has p T k \<and> term_at (head p T k) k = T \<and>
     (\<exists>Q. majority ps Q \<and> (\<forall>v \<in> Q. acked p v T k))"

definition commit_inv :: "Proto \<Rightarrow> string \<Rightarrow> bool" where
  "commit_inv p i \<longleftrightarrow> pcommit p i = 0 \<or>
     (\<exists>(T, k) \<in> cmts p. T \<le> pterm p i \<and> pcommit p i \<le> k \<and> prefix (head p T (pcommit p i)) (plog p i))"

definition raft_inv :: "(string, Peer) fmap \<Rightarrow> Proto \<Rightarrow> bool" where
  "raft_inv ps p \<longleftrightarrow> (\<forall>i. log_ok p (plog p i) (pterm p i)) \<and>
     (\<forall>v S k. acked p v S k \<longrightarrow> ack_inv p v S k) \<and>
     (\<forall>i T E. elog p i T = Some E \<longrightarrow> elog_inv p i T E) \<and>
     (\<forall>v T i M. vlog p v T = Some (i, M) \<longrightarrow> vlog_inv p v T i M) \<and>
     (\<forall>T l L. llog p T = Some (l, L) \<longrightarrow> llog_inv ps p T l L) \<and>
     (\<forall>T k. (T, k) \<in> cmts p \<longrightarrow> cmt_inv ps p T k) \<and>
     (\<forall>i. commit_inv p i)"

lemma raft_invD:
  assumes "raft_inv ps p"
  shows "log_ok p (plog p i) (pterm p i)" "acked p v S k \<Longrightarrow> ack_inv p v S k" "elog p i T = Some E \<Longrightarrow> elog_inv p i T E"
    "vlog p v T = Some (i, M) \<Longrightarrow> vlog_inv p v T i M" "llog p T = Some (l, L) \<Longrightarrow> llog_inv ps p T l L"
    "(T, k) \<in> cmts p \<Longrightarrow> cmt_inv ps p T k" "commit_inv p i"
  using assms by (auto simp: raft_inv_def)

section \<open>Log matching\<close>

lemma rootedE:
  assumes "rooted p X" "0 < k" "k \<le> length X"
  obtains l L where "llog p (term_at X k) = Some (l, L)" "prefix (take k X) L"
  using assms unfolding rooted_def by blast

lemma rooted_prefix:
  assumes "rooted p X" "prefix Y X"
  shows "rooted p Y"
  unfolding rooted_def
proof (intro allI impI)
  fix k assume k: "0 < k" "k \<le> length Y"
  have "take k Y = take k X" "term_at X k = term_at Y k"
    using assms(2) k(2) by (auto simp: prefix_def term_at_append)
  moreover have "k \<le> length X" using k(2) prefix_length_le [OF assms(2)] by simp
  ultimately show "\<exists>l L. llog p (term_at Y k) = Some (l, L) \<and> prefix (take k Y) L"
    using rootedE [OF assms(1) k(1)] by metis
qed

lemma log_ok_prefix: "log_ok p X T \<Longrightarrow> prefix Y X \<Longrightarrow> log_ok p Y T"
  by (auto simp: log_ok_def intro: bounded_prefix rooted_prefix)

lemma rooted_matching:
  assumes "rooted p X" "rooted p Y" "k \<le> length X" "k \<le> length Y" "term_at X k = term_at Y k"
  shows "take k X = take k Y"
proof (cases "k = 0")
  case False
  obtain l L where l: "llog p (term_at X k) = Some (l, L)" "prefix (take k X) L"
    using rootedE [OF assms(1) _ assms(3)] False by blast
  obtain l' L' where l': "llog p (term_at Y k) = Some (l', L')" "prefix (take k Y) L'"
    using rootedE [OF assms(2) _ assms(4)] False by blast
  have "prefix (take k X) L" "prefix (take k Y) L" using l l' assms(5) by auto
  then show ?thesis using assms(3,4) prefix_takeD by metis
qed simp

text \<open>If the candidate's log ends in the voter's last term and is at least as long, it holds the voter's log.\<close>

lemma longer_log:
  assumes "rooted p E" "rooted p M" "lastTerm E = lastTerm M" "length M \<le> length E" "M \<noteq> []"
  shows "prefix M E"
proof -
  have m: "0 < length M" "0 < length E" using assms(4,5) by auto
  then obtain l L where l: "llog p (lastTerm M) = Some (l, L)" "prefix M L"
    using assms(2) by (auto simp: rooted_def lastTerm_def)
  from m obtain l' L' where l': "llog p (lastTerm E) = Some (l', L')" "prefix E L'"
    using assms(1) by (auto simp: rooted_def lastTerm_def)
  then have "prefix E L" using l assms(3) by simp
  then show ?thesis using l(2) assms(4) prefix_length_prefix by blast
qed

section \<open>Leader completeness\<close>

lemma head_has: "has p S k \<Longrightarrow> length (head p S k) = k"
  by (auto simp: has_def head_def)

lemma head_prefix: "llog p S = Some (l, L) \<Longrightarrow> prefix (head p S k) L"
  by (simp add: head_def prefix_take)

lemma llog_parts:
  assumes "raft_inv ps p" "llog p T = Some (l, L)"
  obtains E where "elog p l T = Some E" "prefix E L" "elog_inv p l T E" "log_ok p L T"
    "\<And>k. length E < k \<Longrightarrow> k \<le> length L \<Longrightarrow> term_at L k = T" "L = E \<or> (l, T, length L) \<in> acks p" "won ps p T l"
  using raft_invD(5) [OF assms] raft_invD(3) [OF assms(1)] by (auto simp: llog_inv_def)

text \<open>A vote for a leader comes from a log that holds what the voter acknowledged, so the leader's does.\<close>

lemma voter_passes_on:
  assumes inv: "raft_inv ps p" and k: "0 < k" "has p S k" "term_at (head p S k) k = S"
    and E: "elog p l T = Some E" and M: "vlog p v T = Some (l, M)" "prefix (head p S k) M"
    and earlier: "\<And>T'. S < T' \<Longrightarrow> T' < T \<Longrightarrow> \<not> missed p S k T'"
  shows "prefix (head p S k) E"
proof -
  let ?P = "head p S k"
  have lk: "length ?P = k" by (rule head_has [OF k(2)])
  have vi: "log_ok p M T" "newer E M" using raft_invD(4) [OF inv M(1)] E by (auto simp: vlog_inv_def)
  have ei: "log_ok p E T" "\<forall>x \<in> set E. eTerm x < T" using raft_invD(3) [OF inv E] by (auto simp: elog_inv_def)
  have kM: "k \<le> length M" using prefix_length_le [OF M(2)] lk by simp
  have "term_at M k = S" using term_at_prefix [OF M(2), of k] lk k(3) by simp
  then have SM: "S \<le> lastTerm M"
    using term_at_mono [of M T k "length M"] vi(1) kM by (simp add: log_ok_def lastTerm_def)
  from vi(2) consider (eq) "lastTerm E = lastTerm M" "length M \<le> length E" | (gt) "lastTerm M < lastTerm E"
    by (auto simp: newer_def)
  then show ?thesis
  proof cases
    case eq
    have "M \<noteq> []" using kM k(1) by auto
    then have "prefix M E" using longer_log [OF _ _ eq, of p] ei(1) vi(1) by (simp add: log_ok_def)
    then show ?thesis using M(2) prefix_order.trans by blast
  next
    case gt
    let ?S = "lastTerm E"
    have ne: "E \<noteq> []" using gt by (auto simp: lastTerm_def term_at_def)
    then have ST: "?S < T" "S < ?S" using ei(2) gt SM by (auto simp: lastTerm_def term_at_def)
    have "rooted p E" "0 < length E" using ei(1) ne by (auto simp: log_ok_def)
    then obtain l' L' where l': "llog p ?S = Some (l', L')" "prefix E L'"
      using rootedE [of p E "length E"] by (auto simp: lastTerm_def)
    obtain E' where E': "elog p l' ?S = Some E'" "prefix E' L'" by (rule llog_parts [OF inv l'(1)])
    have "prefix ?P E'" using earlier [OF ST(2,1)] l'(1) E'(1) ST(2) by (auto simp: missed_def)
    then have PL: "prefix ?P L'" using E'(2) prefix_order.trans by blast
    show ?thesis
    proof (cases "k \<le> length E")
      case True
      then show ?thesis using prefix_length_prefix [OF PL l'(2)] lk by simp
    next
      case False
      then have "prefix E ?P" using prefix_length_prefix [OF l'(2) PL] lk by simp
      then have "?S = term_at ?P (length E)" by (simp add: term_at_prefix lastTerm_def)
      also have "\<dots> \<le> S"
      proof -
        obtain lS LS where LS: "llog p S = Some (lS, LS)" using k(2) by (auto simp: has_def)
        have "log_ok p LS S" using raft_invD(5) [OF inv LS] by (simp add: llog_inv_def)
        then have "bounded ?P S" using head_prefix [OF LS] by (auto simp: log_ok_def intro: bounded_prefix)
        then show ?thesis using False lk by (intro bounded_term) simp_all
      qed
      finally show ?thesis using ST(2) by simp
    qed
  qed
qed

lemma elected_with:
  assumes inv: "raft_inv ps p" and k: "0 < k" "has p S k" "term_at (head p S k) k = S"
    and Q: "majority ps Q" "\<forall>v \<in> Q. acked p v S k"
  shows "S < T \<Longrightarrow> \<not> missed p S k T"
proof (induction T rule: less_induct)
  case (less T)
  show ?case
  proof
    assume "missed p S k T"
    then obtain l L E where l: "llog p T = Some (l, L)" "elog p l T = Some E" "\<not> prefix (head p S k) E"
      by (auto simp: missed_def)
    have "won ps p T l" by (rule llog_parts [OF inv l(1)])
    then obtain R where R: "majority ps R" "\<And>v. v \<in> R \<Longrightarrow> \<exists>M. vlog p v T = Some (l, M) \<and>
       (\<forall>S k. S < T \<longrightarrow> acked p v S k \<longrightarrow> prefix (head p S k) M \<or> (\<exists>T' < T. missed p S k T'))"
      unfolding won_def by blast
    obtain v where v: "v \<in> Q" "v \<in> R" using quorum.intersect [OF Q(1) R(1)] by blast
    then obtain M where M: "vlog p v T = Some (l, M)" "prefix (head p S k) M \<or> (\<exists>T' < T. missed p S k T')"
      using R(2) Q(2) less.prems by blast
    have none: "\<not> missed p S k T'" if "S < T'" "T' < T" for T' using less.IH that by blast
    then have "prefix (head p S k) M" using M(2) by (auto simp: missed_def)
    then show False using voter_passes_on [OF inv k l(2) M(1) _ none] l(3) by blast
  qed
qed

lemma committed_in_leader:
  assumes inv: "raft_inv ps p" and c: "(S, k) \<in> cmts p" and l: "llog p T = Some (l, L)" and le: "S \<le> T"
  shows "prefix (head p S k) L"
proof (cases "S = T")
  case True
  then show ?thesis using head_prefix [OF l] by simp
next
  case False
  note ci = raft_invD(6) [OF inv c, unfolded cmt_inv_def]
  then obtain Q where "0 < k" "has p S k" "term_at (head p S k) k = S" "majority ps Q" "\<forall>v \<in> Q. acked p v S k" by blast
  then have "\<not> missed p S k T" using elected_with [OF inv] False le by fastforce
  moreover obtain E where E: "elog p l T = Some E" "prefix E L" by (rule llog_parts [OF inv l])
  ultimately have "prefix (head p S k) E" using l False le by (auto simp: missed_def)
  then show ?thesis using E(2) prefix_order.trans by blast
qed

lemma head_mono: "j \<le> k \<Longrightarrow> prefix (head p S j) (head p S k)"
  by (simp add: head_def prefix_take_mono)

text \<open>What two processes have committed is comparable.\<close>

lemma commits_agree:
  assumes inv: "raft_inv ps p" and "k \<le> pcommit p i" "k \<le> pcommit p j"
  shows "take k (plog p i) = take k (plog p j) \<and> k \<le> length (plog p i)"
proof (cases "k = 0")
  case False
  have *: "\<exists>S m l L. (S, m) \<in> cmts p \<and> k \<le> m \<and> llog p S = Some (l, L) \<and> m \<le> length L \<and>
      take k (plog p i) = take k L \<and> k \<le> length (plog p i)" if le: "k \<le> pcommit p i" for i
  proof -
    obtain S m where s: "(S, m) \<in> cmts p" "pcommit p i \<le> m" "prefix (head p S (pcommit p i)) (plog p i)"
      using raft_invD(7) [OF inv, of i, unfolded commit_inv_def] le False by fastforce
    obtain l L where l: "llog p S = Some (l, L)" "m \<le> length L"
      using raft_invD(6) [OF inv s(1)] by (auto simp: cmt_inv_def has_def)
    have "prefix (take k L) (plog p i)"
      using s(3) l(1) prefix_take_mono [OF le, of L] prefix_order.trans by (auto simp: head_def)
    then show ?thesis using s l le prefix_takeD [of k L "plog p i"] by fastforce
  qed
  obtain S m l L where a: "(S, m) \<in> cmts p" "k \<le> m" "llog p S = Some (l, L)" "m \<le> length L"
    "take k (plog p i) = take k L" "k \<le> length (plog p i)" using * [OF assms(2)] by blast
  obtain S' m' l' L' where b: "(S', m') \<in> cmts p" "k \<le> m'" "llog p S' = Some (l', L')" "m' \<le> length L'"
    "take k (plog p j) = take k L'" "k \<le> length (plog p j)" using * [OF assms(3)] by blast
  have "take k L = take k L'"
  proof (cases "S \<le> S'")
    case True
    have "prefix (take m L) L'" using committed_in_leader [OF inv a(1) b(3) True] a(3) by (simp add: head_def)
    then show ?thesis using a(2,4) prefix_takeD [of m L L'] by (metis min.absorb1 take_take)
  next
    case False
    then have "prefix (take m' L') L" using committed_in_leader [OF inv b(1) a(3)] b(3) by (simp add: head_def)
    then show ?thesis using b(2,4) prefix_takeD [of m' L' L] by (metis min.absorb1 take_take)
  qed
  then show ?thesis using a b by simp
qed simp

section \<open>History only grows\<close>

definition extends :: "Proto \<Rightarrow> Proto \<Rightarrow> bool" where
  "extends p p' \<longleftrightarrow>
     (\<forall>T l L. llog p T = Some (l, L) \<longrightarrow> (\<exists>L'. llog p' T = Some (l, L') \<and> prefix L L')) \<and>
     (\<forall>i T E. elog p i T = Some E \<longrightarrow> elog p' i T = Some E) \<and>
     (\<forall>v T x. vlog p v T = Some x \<longrightarrow> vlog p' v T = Some x) \<and>
     acks p \<subseteq> acks p' \<and> cmts p \<subseteq> cmts p' \<and>
     (\<forall>v S k. acked p' v S k \<longrightarrow> acked p v S k \<or> pterm p v \<le> S) \<and>
     (\<forall>i. pterm p i \<le> pterm p' i \<and> (pterm p' i = pterm p i \<longrightarrow> pvote p i \<noteq> [] \<longrightarrow> pvote p' i = pvote p i))"

lemma extendsD:
  assumes "extends p p'"
  shows "llog p T = Some (l, L) \<Longrightarrow> \<exists>L'. llog p' T = Some (l, L') \<and> prefix L L'" "elog p i T = Some E \<Longrightarrow> elog p' i T = Some E"
    "vlog p v T = Some x \<Longrightarrow> vlog p' v T = Some x" "acked p v S k \<Longrightarrow> acked p' v S k"
    "acked p' v S k \<Longrightarrow> acked p v S k \<or> pterm p v \<le> S" "pterm p i \<le> pterm p' i"
    "pterm p' i = pterm p i \<Longrightarrow> pvote p i \<noteq> [] \<Longrightarrow> pvote p' i = pvote p i" "(T, k) \<in> cmts p \<Longrightarrow> (T, k) \<in> cmts p'"
    "a \<in> acks p \<Longrightarrow> a \<in> acks p'"
proof -
  note e = assms [unfolded extends_def]
  have A: "acks p \<subseteq> acks p'" "cmts p \<subseteq> cmts p'" using e by blast+
  then show "acked p v S k \<Longrightarrow> acked p' v S k" unfolding acked_def by blast
  show "(T, k) \<in> cmts p \<Longrightarrow> (T, k) \<in> cmts p'" "a \<in> acks p \<Longrightarrow> a \<in> acks p'" using A by blast+
  show "llog p T = Some (l, L) \<Longrightarrow> \<exists>L'. llog p' T = Some (l, L') \<and> prefix L L'" using conjunct1 [OF e] by blast
  show "elog p i T = Some E \<Longrightarrow> elog p' i T = Some E" using e by simp
  show "vlog p v T = Some x \<Longrightarrow> vlog p' v T = Some x" using conjunct1 [OF conjunct2 [OF conjunct2 [OF e]]] by blast
  show "acked p' v S k \<Longrightarrow> acked p v S k \<or> pterm p v \<le> S" using e by simp
  show "pterm p i \<le> pterm p' i" using e by simp
  show "pterm p' i = pterm p i \<Longrightarrow> pvote p i \<noteq> [] \<Longrightarrow> pvote p' i = pvote p i" using e by simp
qed

lemma rooted_ext: "extends p p' \<Longrightarrow> rooted p X \<Longrightarrow> rooted p' X"
  unfolding rooted_def using extendsD(1) prefix_order.trans by meson

lemma log_ok_ext: "extends p p' \<Longrightarrow> log_ok p X T \<Longrightarrow> T \<le> T' \<Longrightarrow> log_ok p' X T'"
  by (auto simp: log_ok_def intro: rooted_ext bounded_mono)

lemma head_ext:
  assumes "extends p p'" "has p S k"
  shows "has p' S k" "head p' S k = head p S k"
proof -
  obtain l L where l: "llog p S = Some (l, L)" "k \<le> length L" using assms(2) by (auto simp: has_def)
  then obtain L' where "llog p' S = Some (l, L')" "prefix L L'" using extendsD(1) [OF assms(1)] by blast
  then show "has p' S k" "head p' S k = head p S k"
    using l by (auto simp: has_def head_def prefix_def)
qed

lemma missed_ext:
  assumes "extends p p'" "has p S k" "missed p S k T"
  shows "missed p' S k T"
proof -
  obtain l L E where l: "llog p T = Some (l, L)" "elog p l T = Some E" "\<not> prefix (head p S k) E" "S < T"
    using assms(3) by (auto simp: missed_def)
  then obtain L' where "llog p' T = Some (l, L')" using extendsD(1) [OF assms(1)] by blast
  then show ?thesis using l extendsD(2) [OF assms(1)] head_ext(2) [OF assms(1,2)] by (auto simp: missed_def)
qed

lemma elog_inv_ext: "extends p p' \<Longrightarrow> elog_inv p i T E \<Longrightarrow> elog_inv p' i T E"
  by (auto simp: elog_inv_def intro: log_ok_ext order_trans [OF _ extendsD(6)])

lemma ack_inv_ext:
  assumes x: "extends p p'" and a: "ack_inv p v S k" and g: "prefix (head p S k) (plog p v) \<Longrightarrow> prefix (head p S k) (plog p' v)"
  shows "ack_inv p' v S k"
proof -
  have h: "has p S k" using a by (simp add: ack_inv_def)
  note he = head_ext [OF x h]
  have t: "S \<le> pterm p v" "pterm p v \<le> pterm p' v" using a extendsD(6) [OF x] by (auto simp: ack_inv_def)
  from a consider "prefix (head p S k) (plog p v)" | T where "T \<le> pterm p v" "missed p S k T" by (auto simp: ack_inv_def)
  then show ?thesis
  proof cases
    case 1
    then show ?thesis using g he t by (auto simp: ack_inv_def)
  next
    case 2
    then have "T \<le> pterm p' v" "missed p' S k T" using t(2) missed_ext [OF x h] by auto
    then show ?thesis using he t by (auto simp: ack_inv_def)
  qed
qed

text \<open>What the votes of a term are worth does not change: their voters acknowledge nothing older any more.\<close>

lemma vote_ext:
  assumes inv: "raft_inv ps p" and x: "extends p p'" and v: "T \<le> pterm p v" and S: "S < T" "acked p' v S k"
  shows "acked p v S k" "has p S k" "head p' S k = head p S k" "missed p S k T' \<Longrightarrow> missed p' S k T'"
proof -
  show a: "acked p v S k" using extendsD(5) [OF x S(2)] v S(1) by auto
  show h: "has p S k" using raft_invD(2) [OF inv a] by (simp add: ack_inv_def)
  show "head p' S k = head p S k" "missed p S k T' \<Longrightarrow> missed p' S k T'"
    using head_ext [OF x h] missed_ext [OF x h] by auto
qed

lemma vlog_inv_ext:
  assumes inv: "raft_inv ps p" and x: "extends p p'" and v: "vlog p v T = Some (i, M)"
  shows "vlog_inv p' v T i M"
proof -
  note vi = raft_invD(4) [OF inv v, unfolded vlog_inv_def]
  have T: "T \<le> pterm p v" using vi by simp
  have t: "T \<le> pterm p' v" using T extendsD(6) [OF x, of v] by (rule order_trans)
  have pv: "T = pterm p' v \<longrightarrow> pvote p' v = i" using vi extendsD(6,7) [OF x, of v] t by auto
  have e: "\<exists>E. elog p' i T = Some E \<and> newer E M" using vi extendsD(2) [OF x] by blast
  have "prefix (head p' S k) M \<or> (\<exists>T' < T. missed p' S k T') \<or> llog p' T \<noteq> None" if "S < T" "acked p' v S k" for S k
  proof -
    note w = vote_ext [OF inv x T that]
    have "prefix (head p S k) M \<or> (\<exists>T' < T. missed p S k T') \<or> llog p T \<noteq> None" using vi that(1) w(1) by blast
    moreover have "llog p T \<noteq> None \<Longrightarrow> llog p' T \<noteq> None" using extendsD(1) [OF x] by fastforce
    ultimately show ?thesis using w(3,4) by auto
  qed
  then show ?thesis using t pv e vi log_ok_ext [OF x] unfolding vlog_inv_def by auto
qed

lemma won_ext:
  assumes inv: "raft_inv ps p" and x: "extends p p'" and w: "won ps p T l"
  shows "won ps p' T l"
proof -
  obtain Q where Q: "majority ps Q" and V: "\<And>v. v \<in> Q \<Longrightarrow> \<exists>M. vlog p v T = Some (l, M) \<and>
     (\<forall>S k. S < T \<longrightarrow> acked p v S k \<longrightarrow> prefix (head p S k) M \<or> (\<exists>T' < T. missed p S k T'))"
    using w unfolding won_def by blast
  have "\<exists>M. vlog p' v T = Some (l, M) \<and>
     (\<forall>S k. S < T \<longrightarrow> acked p' v S k \<longrightarrow> prefix (head p' S k) M \<or> (\<exists>T' < T. missed p' S k T'))" if q: "v \<in> Q" for v
  proof -
    obtain M where M: "vlog p v T = Some (l, M)" "\<And>S k. S < T \<Longrightarrow> acked p v S k \<Longrightarrow> prefix (head p S k) M \<or> (\<exists>T' < T. missed p S k T')"
      using V [OF q] by blast
    have T: "T \<le> pterm p v" using raft_invD(4) [OF inv M(1)] by (simp add: vlog_inv_def)
    have "prefix (head p' S k) M \<or> (\<exists>T' < T. missed p' S k T')" if "S < T" "acked p' v S k" for S k
      using M(2) [OF that(1)] vote_ext [OF inv x T that] by auto
    then show ?thesis using extendsD(3) [OF x M(1)] by blast
  qed
  then show ?thesis using Q unfolding won_def by blast
qed

lemma llog_inv_ext:
  assumes inv: "raft_inv ps p" and x: "extends p p'" and l: "llog p T = Some (l, L)"
    and g: "pterm p' l = T \<Longrightarrow> pterm p l = T \<Longrightarrow> plog p' l = plog p l"
  shows "llog_inv ps p' T l L"
proof -
  note li = raft_invD(5) [OF inv l, unfolded llog_inv_def]
  have t: "T \<le> pterm p' l" using li extendsD(6) [OF x, of l] by (blast intro: order_trans)
  have pl: "pterm p' l = T \<longrightarrow> plog p' l = L"
  proof
    assume T: "pterm p' l = T"
    then have "pterm p l = T" using li extendsD(6) [OF x, of l] by simp
    then show "plog p' l = L" using g T li by simp
  qed
  show ?thesis
    using li t pl won_ext [OF inv x] log_ok_ext [OF x, of L T T] extendsD(2,9) [OF x] unfolding llog_inv_def by blast
qed

lemma cmt_inv_ext: "extends p p' \<Longrightarrow> cmt_inv ps p T k \<Longrightarrow> cmt_inv ps p' T k"
  using head_ext [of p p' T k] extendsD(4) [of p p'] unfolding cmt_inv_def by auto

lemma commit_inv_ext:
  assumes inv: "raft_inv ps p" and x: "extends p p'" and c: "pcommit p' i = pcommit p i"
    and g: "\<And>T k. (T, k) \<in> cmts p \<Longrightarrow> T \<le> pterm p i \<Longrightarrow> pcommit p i \<le> k \<Longrightarrow>
      prefix (head p T (pcommit p i)) (plog p i) \<Longrightarrow> prefix (head p T (pcommit p i)) (plog p' i)"
  shows "commit_inv p' i"
proof (cases "pcommit p i = 0")
  case False
  then obtain T k where t: "(T, k) \<in> cmts p" "T \<le> pterm p i" "pcommit p i \<le> k" "prefix (head p T (pcommit p i)) (plog p i)"
    using raft_invD(7) [OF inv, of i, unfolded commit_inv_def] by auto
  have "has p T (pcommit p i)" using raft_invD(6) [OF inv t(1)] t(3) by (auto simp: cmt_inv_def has_def)
  from head_ext(2) [OF x this] show ?thesis
    using g [OF t] t c extendsD(6) [OF x, of i] extendsD(8) [OF x t(1)] unfolding commit_inv_def by (auto intro!: bexI [of _ "(T, k)"])
qed (simp add: commit_inv_def c)

text \<open>It is enough to look at what a step changes.\<close>

lemma raft_inv_extends:
  assumes inv: "raft_inv ps p" and x: "extends p p'"
    and 1: "\<And>i. plog p' i \<noteq> plog p i \<Longrightarrow> log_ok p' (plog p' i) (pterm p' i)"
    and 2: "\<And>v S k. acked p' v S k \<Longrightarrow> \<not> acked p v S k \<or> plog p' v \<noteq> plog p v \<Longrightarrow> ack_inv p' v S k"
    and 3: "\<And>i T E. elog p' i T = Some E \<Longrightarrow> elog p i T = None \<Longrightarrow> elog_inv p' i T E"
    and 4: "\<And>v T i M. vlog p' v T = Some (i, M) \<Longrightarrow> vlog p v T = None \<Longrightarrow> vlog_inv p' v T i M"
    and 5: "\<And>T l L. llog p' T = Some (l, L) \<Longrightarrow> llog p T \<noteq> Some (l, L) \<or> plog p' l \<noteq> plog p l \<and> pterm p l = T \<Longrightarrow>
      llog_inv ps p' T l L"
    and 6: "\<And>T k. (T, k) \<in> cmts p' \<Longrightarrow> (T, k) \<notin> cmts p \<Longrightarrow> cmt_inv ps p' T k"
    and 7: "\<And>i. pcommit p' i \<noteq> pcommit p i \<or> plog p' i \<noteq> plog p i \<Longrightarrow> commit_inv p' i"
  shows "raft_inv ps p'"
  unfolding raft_inv_def
proof (intro conjI allI impI)
  fix i show "log_ok p' (plog p' i) (pterm p' i)"
    using 1 log_ok_ext [OF x raft_invD(1) [OF inv, of i] extendsD(6) [OF x]] by (cases "plog p' i = plog p i") auto
  show "commit_inv p' i" using 7 commit_inv_ext [OF inv x] by (cases "pcommit p' i = pcommit p i \<and> plog p' i = plog p i") auto
next
  fix v S k assume a: "acked p' v S k"
  show "ack_inv p' v S k"
  proof (cases "acked p v S k \<and> plog p' v = plog p v")
    case True
    then show ?thesis using ack_inv_ext [OF x raft_invD(2) [OF inv]] by simp
  qed (use 2 a in blast)
next
  fix i T E assume e: "elog p' i T = Some E"
  show "elog_inv p' i T E"
  proof (cases "elog p i T")
    case (Some F)
    then have "F = E" using e extendsD(2) [OF x Some] by simp
    then show ?thesis using elog_inv_ext [OF x raft_invD(3) [OF inv Some]] by simp
  qed (use 3 e in blast)
next
  fix v T i M assume e: "vlog p' v T = Some (i, M)"
  show "vlog_inv p' v T i M"
  proof (cases "vlog p v T")
    case (Some y)
    then have "y = (i, M)" using e extendsD(3) [OF x Some] by simp
    then show ?thesis using vlog_inv_ext [OF inv x] Some by simp
  qed (use 4 e in blast)
next
  fix T l L assume e: "llog p' T = Some (l, L)"
  show "llog_inv ps p' T l L"
  proof (cases "llog p T = Some (l, L) \<and> (plog p' l = plog p l \<or> pterm p l \<noteq> T)")
    case True
    then show ?thesis by (intro llog_inv_ext [OF inv x]) auto
  qed (use 5 e in blast)
next
  fix T k assume e: "(T, k) \<in> cmts p'"
  show "cmt_inv ps p' T k"
    using 6 [OF e] cmt_inv_ext [OF x raft_invD(6) [OF inv]] by (cases "(T, k) \<in> cmts p") auto
qed

section \<open>Every step keeps the invariant\<close>

lemma adopt_inv:
  assumes inv: "raft_inv ps p" and T: "pterm p i < T"
  shows "raft_inv ps (p\<lparr>pterm := (pterm p)(i := T), pvote := (pvote p)(i := [])\<rparr>)" (is "raft_inv ps ?p")
    "extends p (p\<lparr>pterm := (pterm p)(i := T), pvote := (pvote p)(i := [])\<rparr>)"
proof -
  show x: "extends p ?p" using T by (auto simp: extends_def acked_def)
  show "raft_inv ps ?p" by (rule raft_inv_extends [OF inv x]) (auto simp: acked_def)
qed

lemma campaign_inv:
  assumes inv: "raft_inv ps p" and T: "pterm p i < T" "i \<noteq> []"
  defines "p' \<equiv> p\<lparr>pterm := (pterm p)(i := T), pvote := (pvote p)(i := i),
      elog := (elog p)(i := (elog p i)(T \<mapsto> plog p i)), vlog := (vlog p)(i := (vlog p i)(T \<mapsto> (i, plog p i)))\<rparr>"
  shows "raft_inv ps p'" "extends p p'"
proof -
  have e: "elog p i T = None" using raft_invD(3) [OF inv, of i T] T(1) by (cases "elog p i T") (auto simp: elog_inv_def)
  have v: "vlog p i T = None" using raft_invD(4) [OF inv, of i T] T(1) by (cases "vlog p i T") (auto simp: vlog_inv_def)
  have ak: "acked p' = acked p" by (simp add: acked_def p'_def fun_eq_iff)
  show x: "extends p p'" using T e v ak by (auto simp: extends_def p'_def)
  have X: "log_ok p (plog p i) (pterm p i)" by (rule raft_invD(1) [OF inv])
  then have X': "log_ok p' (plog p i) T" using log_ok_ext [OF x] T(1) by simp
  have old: "prefix (head p' S k) (plog p i) \<or> (\<exists>T' < T. missed p' S k T')" if a: "acked p i S k" for S k
  proof -
    note ai = raft_invD(2) [OF inv a, unfolded ack_inv_def]
    then have h: "has p S k" by blast
    from ai consider "prefix (head p S k) (plog p i)" | T' where "T' \<le> pterm p i" "missed p S k T'" by blast
    then show ?thesis
    proof cases
      case 2
      then have "T' < T" "missed p' S k T'" using T(1) missed_ext [OF x h] by auto
      then show ?thesis by blast
    qed (simp add: head_ext [OF x h])
  qed
  show "raft_inv ps p'"
  proof (rule raft_inv_extends [OF inv x])
    fix j S E assume "elog p' j S = Some E" "elog p j S = None"
    then have "j = i" "S = T" "E = plog p i" by (auto simp: p'_def split: if_splits)
    then show "elog_inv p' j S E" using X X' T(1) by (auto simp: elog_inv_def p'_def log_ok_def bounded_def)
  next
    fix w S j M assume "vlog p' w S = Some (j, M)" "vlog p w S = None"
    then have "w = i" "S = T" "j = i" "M = plog p i" by (auto simp: p'_def split: if_splits)
    then show "vlog_inv p' w S j M"
      using X' T(2) old ak by (auto simp: vlog_inv_def newer_def p'_def)
  qed (auto simp: p'_def ak acked_def)
qed

lemma vote_inv:
  assumes inv: "raft_inv ps p" and T: "pterm p i = T" "pvote p i = []" "v \<noteq> []" "elog p v T = Some E" "newer E (plog p i)"
  defines "p' \<equiv> p\<lparr>pvote := (pvote p)(i := v), vlog := (vlog p)(i := (vlog p i)(T \<mapsto> (v, plog p i)))\<rparr>"
  shows "raft_inv ps p'" "extends p p'"
proof -
  have n: "vlog p i T = None" using raft_invD(4) [OF inv, of i T] T(1,2) by (cases "vlog p i T") (auto simp: vlog_inv_def)
  have ak: "acked p' = acked p" by (simp add: acked_def p'_def fun_eq_iff)
  show x: "extends p p'" using T n ak by (auto simp: extends_def p'_def)
  have X': "log_ok p' (plog p i) T" using log_ok_ext [OF x raft_invD(1) [OF inv, of i]] T(1) by simp
  have old: "prefix (head p' S k) (plog p i) \<or> (\<exists>T' < T. missed p' S k T') \<or> llog p' T \<noteq> None" if a: "acked p i S k" for S k
  proof -
    note ai = raft_invD(2) [OF inv a, unfolded ack_inv_def]
    then have h: "has p S k" by blast
    from ai consider "prefix (head p S k) (plog p i)" | T' where "T' \<le> T" "missed p S k T'" using T(1) by blast
    then show ?thesis
    proof cases
      case 2
      then have "T' < T \<or> llog p' T \<noteq> None" "missed p' S k T'"
        using missed_ext [OF x h] by (auto simp: missed_def p'_def)
      then show ?thesis by blast
    qed (simp add: head_ext [OF x h])
  qed
  show "raft_inv ps p'"
  proof (rule raft_inv_extends [OF inv x])
    fix w S j M assume "vlog p' w S = Some (j, M)" "vlog p w S = None"
    then have "w = i" "S = T" "j = v" "M = plog p i" by (auto simp: p'_def split: if_splits)
    then show "vlog_inv p' w S j M" using X' T old ak by (auto simp: vlog_inv_def p'_def)
  qed (auto simp: p'_def ak acked_def)
qed

lemma lead_inv:
  assumes inv: "raft_inv ps p" and T: "pterm p i = T" "elog p i T = Some (plog p i)" "llog p T = None"
    and Q: "majority ps Q" "\<forall>v \<in> Q. \<exists>M. vlog p v T = Some (i, M)"
  defines "p' \<equiv> p\<lparr>llog := (llog p)(T \<mapsto> (i, plog p i))\<rparr>"
  shows "raft_inv ps p'" "extends p p'"
proof -
  have ak: "acked p' = acked p" by (simp add: acked_def p'_def fun_eq_iff)
  show x: "extends p p'" using T ak by (auto simp: extends_def p'_def)
  have X': "log_ok p' (plog p i) T" using log_ok_ext [OF x raft_invD(1) [OF inv, of i]] T(1) by simp
  have "\<exists>M. vlog p' v T = Some (i, M) \<and>
     (\<forall>S k. S < T \<longrightarrow> acked p' v S k \<longrightarrow> prefix (head p' S k) M \<or> (\<exists>T' < T. missed p' S k T'))" if q: "v \<in> Q" for v
  proof -
    obtain M where M: "vlog p v T = Some (i, M)" using Q(2) q by blast
    note vi = raft_invD(4) [OF inv M, unfolded vlog_inv_def]
    have t: "T \<le> pterm p v" using vi by blast
    have "prefix (head p' S k) M \<or> (\<exists>T' < T. missed p' S k T')" if "S < T" "acked p' v S k" for S k
    proof -
      note w = vote_ext [OF inv x t that]
      then have "prefix (head p S k) M \<or> (\<exists>T' < T. missed p S k T')" using vi that(1) T(3) by blast
      then show ?thesis using w(3,4) by auto
    qed
    then show ?thesis using M by (auto simp: p'_def)
  qed
  then have won: "won ps p' T i" using Q(1) unfolding won_def by blast
  show "raft_inv ps p'"
  proof (rule raft_inv_extends [OF inv x])
    fix S l L assume "llog p' S = Some (l, L)" "llog p S \<noteq> Some (l, L) \<or> plog p' l \<noteq> plog p l \<and> pterm p l = S"
    then have "S = T" "l = i" "L = plog p i" by (auto simp: p'_def split: if_splits)
    then show "llog_inv ps p' S l L" using X' T won by (simp add: llog_inv_def p'_def)
  qed (auto simp: p'_def ak acked_def)
qed

lemma append_inv:
  assumes inv: "raft_inv ps p" and T: "pterm p i = T" "llog p T = Some (i, plog p i)" "eTerm e = T"
  defines "p' \<equiv> p\<lparr>plog := (plog p)(i := plog p i @ [e]), llog := (llog p)(T \<mapsto> (i, plog p i @ [e])),
      acks := insert (i, T, Suc (length (plog p i))) (acks p)\<rparr>"
  shows "raft_inv ps p'" "extends p p'"
proof -
  let ?X = "plog p i" let ?Y = "?X @ [e]"
  have ak: "acked p' v S k \<longleftrightarrow> acked p v S k \<or> v = i \<and> S = T \<and> k \<le> Suc (length ?X)" for v S k
    by (auto simp: acked_def p'_def)
  show x: "extends p p'" using T ak by (auto simp: extends_def p'_def)
  have "log_ok p ?X T" using raft_invD(1) [OF inv, of i] T(1) by simp
  then have b: "bounded ?Y T" "rooted p' ?X" using bounded_snoc T(3) rooted_ext [OF x] by (auto simp: log_ok_def)
  have "rooted p' ?Y"
    unfolding rooted_def
  proof (intro allI impI)
    fix k assume k: "0 < k" "k \<le> length ?Y"
    show "\<exists>l L. llog p' (term_at ?Y k) = Some (l, L) \<and> prefix (take k ?Y) L"
    proof (cases "k \<le> length ?X")
      case True
      then show ?thesis using b(2) k(1) by (simp add: rooted_def term_at_append)
    next
      case False
      then have "k = Suc (length ?X)" using k(2) by simp
      then show ?thesis using T(3) by (simp add: term_at_snoc p'_def)
    qed
  qed
  then have Y: "log_ok p' ?Y T" using b(1) by (simp add: log_ok_def)
  note li = raft_invD(5) [OF inv T(2), unfolded llog_inv_def]
  then obtain E where E: "elog p i T = Some E" "prefix E ?X" "\<forall>k. length E < k \<longrightarrow> k \<le> length ?X \<longrightarrow> term_at ?X k = T" by blast
  have E': "term_at ?Y k = T" if "length E < k" "k \<le> length ?Y" for k
    using E(3) that T(3) by (cases "k \<le> length ?X") (auto simp: term_at_append le_Suc_eq term_at_snoc)
  show "raft_inv ps p'"
  proof (rule raft_inv_extends [OF inv x])
    fix j assume "plog p' j \<noteq> plog p j"
    then have "j = i" by (auto simp: p'_def split: if_splits)
    then show "log_ok p' (plog p' j) (pterm p' j)" using Y T(1) by (simp add: p'_def)
  next
    fix v S k assume a: "acked p' v S k" "\<not> acked p v S k \<or> plog p' v \<noteq> plog p v"
    then have v: "v = i" using ak by (auto simp: p'_def split: if_splits)
    show "ack_inv p' v S k"
    proof (cases "acked p v S k")
      case True
      then show ?thesis using v by (intro ack_inv_ext [OF x raft_invD(2) [OF inv]]) (auto simp: p'_def)
    next
      case False
      then have s: "S = T" "k \<le> length ?Y" using a ak by auto
      have l: "llog p' T = Some (i, ?Y)" "plog p' i = ?Y" "pterm p' i = T" using T(1) by (simp_all add: p'_def)
      have "has p' T k" unfolding has_def using l(1) s(2) by blast
      then show ?thesis using head_prefix [OF l(1), of k] l(2,3) v s(1) by (simp add: ack_inv_def)
    qed
  next
    fix S l L assume "llog p' S = Some (l, L)" "llog p S \<noteq> Some (l, L) \<or> plog p' l \<noteq> plog p l \<and> pterm p l = S"
    then have "S = T" "l = i" "L = ?Y" using T(1) by (auto simp: p'_def split: if_splits)
    then show "llog_inv ps p' S l L"
      using Y T E(1,2) E' won_ext [OF inv x] li by (auto simp: llog_inv_def p'_def)
  next
    fix j assume "pcommit p' j \<noteq> pcommit p j \<or> plog p' j \<noteq> plog p j"
    then have "j = i" by (auto simp: p'_def split: if_splits)
    then show "commit_inv p' j" by (intro commit_inv_ext [OF inv x]) (auto simp: p'_def)
  qed (auto simp: p'_def)
qed

lemma follow_keeps:
  assumes "prefix P X" "prefix P L"
  shows "prefix P (follow L m X)"
proof (cases "take m X = take m L")
  case False
  have "length P \<le> m"
  proof (rule ccontr)
    assume "\<not> length P \<le> m"
    then have "take m X = take m P" "take m L = take m P" using assms by (auto simp: prefix_def)
    then show False using False by simp
  qed
  then have "prefix P (take m L)" using assms(2) by (auto simp: prefix_def)
  then show ?thesis using False by (simp add: follow_def)
qed (use assms in \<open>simp add: follow_def\<close>)

lemma follow_holds: "prefix (take m L) (follow L m X)"
proof (cases "take m X = take m L")
  case True
  have "prefix (take m X) X" by (rule prefix_take)
  then show ?thesis using True by (simp add: follow_def)
qed (simp add: follow_def)

lemma receive_inv:
  assumes inv: "raft_inv ps p" and T: "pterm p i = T" "llog p T = Some (l, L)" "l \<noteq> i" "m \<le> length L" "known p T c"
  defines "p' \<equiv> p\<lparr>plog := (plog p)(i := follow L m (plog p i)),
      pcommit := (pcommit p)(i := max (pcommit p i) (min c m)), acks := insert (i, T, m) (acks p)\<rparr>"
  shows "raft_inv ps p'" "extends p p'"
proof -
  let ?X = "plog p i" let ?Y = "follow L m ?X"
  have ak: "acked p' v S k \<longleftrightarrow> acked p v S k \<or> v = i \<and> S = T \<and> k \<le> m" for v S k
    by (auto simp: acked_def p'_def)
  show x: "extends p p'" using T ak by (auto simp: extends_def p'_def)
  obtain E where E: "elog p l T = Some E" "prefix E L" "log_ok p L T" by (rule llog_parts [OF inv T(2)])
  have "log_ok p ?X T" using raft_invD(1) [OF inv, of i] T(1) by simp
  then have Y: "log_ok p' ?Y T"
    using log_ok_prefix [OF E(3) prefix_take] log_ok_ext [OF x] by (auto simp: follow_def)
  have hp: "head p' S = head p S" for S by (simp add: head_def p'_def fun_eq_iff)
  have fm: "prefix P ?Y" if "prefix P L" "length P \<le> m" for P
    using follow_holds [of m L ?X] prefix_length_prefix [OF that(1) prefix_take [of m L]] that(2) T(4) prefix_order.trans
    by (metis length_take min.absorb2)
  show "raft_inv ps p'"
  proof (rule raft_inv_extends [OF inv x])
    fix j assume "plog p' j \<noteq> plog p j"
    then have "j = i" by (auto simp: p'_def split: if_splits)
    then show "log_ok p' (plog p' j) (pterm p' j)" using Y T(1) by (simp add: p'_def)
  next
    fix v S k assume a: "acked p' v S k" "\<not> acked p v S k \<or> plog p' v \<noteq> plog p v"
    then have v: "v = i" using ak by (auto simp: p'_def split: if_splits)
    show "ack_inv p' v S k"
    proof (cases "acked p v S k")
      case False
      then have s: "S = T" "k \<le> m" using a ak by auto
      have "prefix (head p T k) ?Y" using fm head_prefix [OF T(2), of k] s(2) T(2,4) by (simp add: head_def)
      then show ?thesis using v s T hp by (auto simp: ack_inv_def has_def p'_def)
    next
      case True
      note ai = raft_invD(2) [OF inv True]
      then have h: "has p S k" and S: "S \<le> T" using v T(1) by (auto simp: ack_inv_def)
      show ?thesis
      proof (cases "prefix (head p S k) L")
        case pl: True
        show ?thesis by (rule ack_inv_ext [OF x ai]) (use follow_keeps [OF _ pl] v in \<open>simp add: p'_def\<close>)
      next
        case False
        then have "S \<noteq> T" using head_prefix [OF T(2)] by auto
        moreover have "\<not> prefix (head p S k) E" using False E(2) prefix_order.trans by blast
        ultimately have "missed p S k T" using S T(2) E(1) by (auto simp: missed_def)
        then have "missed p' S k T" by (rule missed_ext [OF x h])
        then show ?thesis using v S T(1) head_ext(1) [OF x h] by (auto simp: ack_inv_def p'_def)
      qed
    qed
  next
    fix S l' L' assume "llog p' S = Some (l', L')" "llog p S \<noteq> Some (l', L') \<or> plog p' l' \<noteq> plog p l' \<and> pterm p l' = S"
    then show "llog_inv ps p' S l' L'" using T(1,2,3) by (auto simp: p'_def split: if_splits)
  next
    fix j assume "pcommit p' j \<noteq> pcommit p j \<or> plog p' j \<noteq> plog p j"
    then have j: "j = i" by (auto simp: p'_def split: if_splits)
    show "commit_inv p' j"
    proof (cases "min c m \<le> pcommit p i")
      case True
      have cl: "prefix (head p S (pcommit p i)) L" if "(S, k) \<in> cmts p" "S \<le> pterm p i" "pcommit p i \<le> k" for S k
        using committed_in_leader [OF inv that(1) T(2)] that(2,3) T(1) head_mono prefix_order.trans by blast
      show ?thesis unfolding j
        by (rule commit_inv_ext [OF inv x]) (use True follow_keeps cl in \<open>auto simp: p'_def\<close>)
    next
      case False
      then obtain S k where s: "(S, k) \<in> cmts p" "S \<le> T" "c \<le> k" using T(5) by (auto simp: known_def)
      have h: "has p S k" using raft_invD(6) [OF inv s(1)] by (simp add: cmt_inv_def)
      have "min c m \<le> k" using s(3) by simp
      then have "prefix (head p S (min c m)) L" "has p S (min c m)"
        using committed_in_leader [OF inv s(1) T(2) s(2)] head_mono prefix_order.trans h by (blast, auto simp: has_def)
      then have "prefix (head p S (min c m)) ?Y" using fm head_has by (metis min.cobounded2)
      then show ?thesis
        using False s T(1) j hp by (auto simp: commit_inv_def p'_def max_def intro!: bexI [of _ "(S, k)"])
    qed
  qed (auto simp: p'_def)
qed

lemma decide_inv:
  assumes inv: "raft_inv ps p" and T: "pterm p i = T" "llog p T = Some (i, L)" "0 < k" "k \<le> length L" "term_at L k = T"
    and Q: "majority ps Q" "\<forall>v \<in> Q. acked p v T k"
  defines "p' \<equiv> p\<lparr>pcommit := (pcommit p)(i := max (pcommit p i) k), cmts := insert (T, k) (cmts p)\<rparr>"
  shows "raft_inv ps p'" "extends p p'"
proof -
  have ak: "acked p' = acked p" by (simp add: acked_def p'_def fun_eq_iff)
  show x: "extends p p'" using T ak by (auto simp: extends_def p'_def)
  have X: "plog p i = L" using raft_invD(5) [OF inv T(2)] T(1) by (simp add: llog_inv_def)
  have hd: "head p' T k = take k L" by (simp add: head_def p'_def T(2))
  show "raft_inv ps p'"
  proof (rule raft_inv_extends [OF inv x])
    fix S j assume "(S, j) \<in> cmts p'" "(S, j) \<notin> cmts p"
    then have "S = T" "j = k" by (auto simp: p'_def)
    then show "cmt_inv ps p' S j"
      using T Q ak hd by (auto simp: cmt_inv_def has_def p'_def term_at_take)
  next
    fix j assume "pcommit p' j \<noteq> pcommit p j \<or> plog p' j \<noteq> plog p j"
    then have "j = i" "pcommit p' i = k" by (auto simp: p'_def split: if_splits)
    then show "commit_inv p' j"
      using T(1) hd X by (auto simp: commit_inv_def p'_def prefix_take intro!: bexI [of _ "(T, k)"])
  qed (auto simp: p'_def ak acked_def)
qed

lemma pstep_inv:
  assumes "pstep ps i p p'" "raft_inv ps p"
  shows "raft_inv ps p' \<and> extends p p'"
  using assms(1)
proof cases
  case (adopt T)
  then show ?thesis using adopt_inv [OF assms(2)] by simp
next
  case (campaign T)
  then show ?thesis using campaign_inv [OF assms(2)] by simp
next
  case (vote T v E)
  then show ?thesis using vote_inv [OF assms(2)] by simp
next
  case (lead T Q)
  then show ?thesis using lead_inv [OF assms(2)] by simp
next
  case (append T e)
  then show ?thesis using append_inv [OF assms(2)] by simp
next
  case (receive T l L m c)
  then show ?thesis using receive_inv [OF assms(2)] by simp
next
  case (decide T L k Q)
  then show ?thesis using decide_inv [OF assms(2)] by simp
qed

section \<open>Runs\<close>

lemma extends_refl [simp]: "extends p p"
  by (simp add: extends_def)

lemma extends_trans:
  assumes "extends p q" "extends q r"
  shows "extends p r"
  unfolding extends_def
proof (intro conjI allI impI)
  fix T l L assume "llog p T = Some (l, L)"
  from extendsD(1) [OF assms(1) this] obtain L' where q: "llog q T = Some (l, L')" "prefix L L'" by blast
  from extendsD(1) [OF assms(2) q(1)] show "\<exists>L'. llog r T = Some (l, L') \<and> prefix L L'"
    using q(2) prefix_order.trans by blast
next
  fix v S k assume "acked r v S k"
  then consider "acked q v S k" | "pterm q v \<le> S" using extendsD(5) [OF assms(2)] by blast
  then show "acked p v S k \<or> pterm p v \<le> S"
    by cases (use extendsD(5) [OF assms(1)] order_trans [OF extendsD(6) [OF assms(1), of v]] in auto)
next
  fix i assume *: "pterm r i = pterm p i" "pvote p i \<noteq> []"
  then have "pterm q i = pterm p i" using extendsD(6) [OF assms(1), of i] extendsD(6) [OF assms(2), of i] by simp
  then show "pvote r i = pvote p i" using * extendsD(7) [OF assms(1), of i] extendsD(7) [OF assms(2), of i] by simp
next
  fix i show "pterm p i \<le> pterm r i" using extendsD(6) [OF assms(1), of i] extendsD(6) [OF assms(2), of i] by (rule order_trans)
qed (use extendsD(2,3,8,9) [OF assms(1)] extendsD(2,3,8,9) [OF assms(2)] in auto)

text \<open>A step of process \<open>i\<close> leaves the other processes and the logs they lead with alone.\<close>

definition apart :: "string \<Rightarrow> Proto \<Rightarrow> Proto \<Rightarrow> bool" where
  "apart i p p' \<longleftrightarrow> (\<forall>j. j \<noteq> i \<longrightarrow> pterm p' j = pterm p j \<and> pvote p' j = pvote p j \<and> plog p' j = plog p j \<and>
     pcommit p' j = pcommit p j \<and> (\<forall>T L. llog p' T = Some (j, L) \<longleftrightarrow> llog p T = Some (j, L)))"

text \<open>Every vote is in the history.\<close>

definition ballots :: "Proto \<Rightarrow> bool" where
  "ballots p \<longleftrightarrow> (\<forall>i. pvote p i \<noteq> [] \<longrightarrow> (\<exists>M. vlog p i (pterm p i) = Some (pvote p i, M)))"

lemma pstep_apart: "pstep ps i p p' \<Longrightarrow> apart i p p'"
  by (erule pstep.cases) (auto simp: apart_def)

lemma pstep_ballots: "pstep ps i p p' \<Longrightarrow> ballots p \<Longrightarrow> ballots p'"
  by (erule pstep.cases) (auto simp: ballots_def)

lemma apart_trans: "apart i p q \<Longrightarrow> apart i q r \<Longrightarrow> apart i p r"
  by (simp add: apart_def)

definition protocol_ok :: "(string, Peer) fmap \<Rightarrow> Proto \<Rightarrow> bool" where
  "protocol_ok ps p \<longleftrightarrow> raft_inv ps p \<and> ballots p"

abbreviation psteps :: "(string, Peer) fmap \<Rightarrow> string \<Rightarrow> Proto \<Rightarrow> Proto \<Rightarrow> bool" where
  "psteps ps i \<equiv> (pstep ps i)\<^sup>*\<^sup>*"

lemma psteps_keep:
  assumes "psteps ps i p p'" "protocol_ok ps p"
  shows "protocol_ok ps p' \<and> extends p p' \<and> apart i p p'"
  using assms
proof (induction rule: rtranclp_induct)
  case base
  then show ?case by (simp add: apart_def)
next
  case (step q r)
  then show ?case
    using pstep_inv [OF step(2)] pstep_apart [OF step(2)] pstep_ballots [OF step(2)]
    by (auto simp: protocol_ok_def intro: extends_trans apart_trans)
qed

definition proto_init :: Proto where
  "proto_init = \<lparr>pterm = (\<lambda>_. 0), pvote = (\<lambda>_. []), plog = (\<lambda>_. []), pcommit = (\<lambda>_. 0), elog = (\<lambda>_ _. None),
     vlog = (\<lambda>_ _. None), llog = (\<lambda>_. None), acks = {}, cmts = {}\<rparr>"

lemma proto_init_ok: "protocol_ok ps proto_init"
  by (simp add: protocol_ok_def raft_inv_def ballots_def proto_init_def log_ok_def bounded_def rooted_def acked_def commit_inv_def)

inductive protocol_run :: "(string, Peer) fmap \<Rightarrow> Proto \<Rightarrow> bool" for ps where
  start: "protocol_run ps proto_init"
| go: "protocol_run ps p \<Longrightarrow> pstep ps i p p' \<Longrightarrow> protocol_run ps p'"

lemma protocol_run_ok: "protocol_run ps p \<Longrightarrow> protocol_ok ps p"
proof (induction rule: protocol_run.induct)
  case (go p i p')
  then show ?case using psteps_keep [of ps i p p'] by blast
qed (rule proto_init_ok)

lemma protocol_run_steps:
  assumes "psteps ps i p p'" "protocol_run ps p"
  shows "protocol_run ps p'"
  using assms by (induction rule: rtranclp_induct) (auto intro: protocol_run.go)

text \<open>Committed entries stay committed for ever.\<close>

lemma commits_last:
  assumes inv: "raft_inv ps p'" and x: "extends p p'" and i: "raft_inv ps p" "k \<le> pcommit p i" and j: "k \<le> pcommit p' j"
  shows "take k (plog p i) = take k (plog p' j)"
proof (cases "k = 0")
  case False
  obtain S m where s: "(S, m) \<in> cmts p" "pcommit p i \<le> m" "prefix (head p S (pcommit p i)) (plog p i)"
    using raft_invD(7) [OF i(1), of i, unfolded commit_inv_def] i(2) False by fastforce
  obtain S' m' where s': "(S', m') \<in> cmts p'" "pcommit p' j \<le> m'" "prefix (head p' S' (pcommit p' j)) (plog p' j)"
    using raft_invD(7) [OF inv, of j, unfolded commit_inv_def] j False by fastforce
  have h: "has p S m" "has p' S' m'" using raft_invD(6) [OF i(1) s(1)] raft_invD(6) [OF inv s'(1)] by (auto simp: cmt_inv_def)
  have c: "(S, m) \<in> cmts p'" using extendsD(8) [OF x s(1)] .
  have hm: "has p S k" using h(1) i(2) s(2) by (auto simp: has_def)
  have a: "take k (plog p i) = head p' S k" "has p' S k"
    using s(3) head_mono [OF i(2), of p S] head_ext [OF x hm] prefix_order.trans head_has [OF hm]
    by (metis prefix_def append_eq_conv_conj, simp)
  have h'k: "has p' S' k" using h(2) j s'(2) by (auto simp: has_def)
  have b: "take k (plog p' j) = head p' S' k"
    using s'(3) head_mono [OF j, of p' S'] prefix_order.trans head_has [OF h'k]
    by (metis prefix_def append_eq_conv_conj)
  obtain l L l' L' where l: "llog p' S = Some (l, L)" "llog p' S' = Some (l', L')" using a(2) h'k by (auto simp: has_def)
  have "head p' S k = head p' S' k"
  proof (cases "S \<le> S'")
    case True
    have "prefix (head p' S k) L'"
      using committed_in_leader [OF inv c l(2) True] head_mono [of k m p' S] i(2) s(2) prefix_order.trans by (metis le_trans)
    then show ?thesis using head_has [OF a(2)] l(2) by (auto simp: head_def prefix_def)
  next
    case False
    have "prefix (head p' S' k) L"
      using committed_in_leader [OF inv s'(1) l(1)] head_mono [of k m' p' S'] j s'(2) prefix_order.trans False by (metis le_trans linear)
    then show ?thesis using head_has [OF h'k] l(1) by (auto simp: head_def prefix_def)
  qed
  then show ?thesis using a(1) b by simp
qed simp

end
