(* ===== verification/Linking.thy ===== *)
theory Linking
  imports Node_Votes Node_Total Protocol
begin

text \<open>
  How a node stands for a process of the abstract protocol.  \<open>full X s\<close>: the store \<open>s\<close>, with its
  snapshot and its compacted log, holds the complete log \<open>X\<close>.  \<open>rel p i s\<close>: the store holds the
  durable state of process \<open>i\<close>.  \<open>good ps p i n\<close>: what the node's journal would give back is the
  state of process \<open>i\<close>, the node's role is backed by the history, and so are the messages it has sent.
  Every transition function of \<^verbatim>\<open>internal/raft\<close> is a sequence of protocol steps of its own process
  (\<open>sim\<close>), whatever the fate of its disk writes.  The theory covers the elected leader, not the
  fixed one.
\<close>

section \<open>Complete logs\<close>

definition full :: "Entry list \<Rightarrow> diskStore \<Rightarrow> bool" where
  "full X s \<longleftrightarrow> dLog (sState s) = drop (dBase (sState s)) (zeroEntry # X) \<and> dBase (sState s) \<le> length X \<and>
     base_machine s = apply_all New_Machine (commands (take (dBase (sState s)) X))"

definition rel :: "Proto \<Rightarrow> string \<Rightarrow> diskStore \<Rightarrow> bool" where
  "rel p i s \<longleftrightarrow> pterm p i = dTerm (sState s) \<and> pvote p i = dVote (sState s) \<and> pcommit p i = dCommit (sState s) \<and>
     full (plog p i) s"

lemma rel_cong: "sState t = sState s \<Longrightarrow> sSnapshot t = sSnapshot s \<Longrightarrow> rel p i t = rel p i s"
  by (simp add: rel_def full_def base_machine_def)

lemma full_cong: "sState t = sState s \<Longrightarrow> sSnapshot t = sSnapshot s \<Longrightarrow> full X t = full X s"
  by (simp add: full_def base_machine_def)

lemma rel_wal [simp]: "rel p i (s\<lparr>sWal := w\<rparr>) = rel p i s"
  by (rule rel_cong) simp_all

lemma full_last: "full X s \<Longrightarrow> store_last s = length X"
  by (auto simp: full_def store_last_def)

lemma full_entry:
  assumes "full X s"
  shows "store_entry s k = (if dBase (sState s) \<le> k \<and> k \<le> length X then Some ((zeroEntry # X) ! k) else None)"
  using assms by (auto simp: full_def store_entry_def Let_def)

lemma full_term:
  assumes "full X s" "store_entry s k = Some e"
  shows "term_at X k = eTerm e" "k \<le> length X" "0 < k \<Longrightarrow> X ! (k - 1) = e"
  using assms(2) full_entry [OF assms(1), of k] by (auto simp: term_at_def zeroEntry_def split: if_splits nat.splits)

lemma full_machine:
  assumes "full X s" "dBase (sState s) \<le> k"
  shows "machine_at s k = apply_all New_Machine (commands (take k X))"
proof -
  let ?b = "dBase (sState s)"
  have "tl (dLog (sState s)) = drop ?b X" using assms(1) by (simp add: full_def tl_drop)
  moreover have "take k X = take ?b X @ take (k - ?b) (drop ?b X)"
    using assms(2) by (metis le_add_diff_inverse take_add)
  ultimately show ?thesis
    using assms(1) by (simp add: machine_at_def full_def)
qed

lemma full_unique:
  assumes "full X s" "full Y s" "dBase (sState s) \<le> k" "k \<le> length X" "0 < k"
  shows "X ! (k - 1) = Y ! (k - 1)"
  using full_entry [OF assms(1), of k] full_entry [OF assms(2), of k] full_last [OF assms(1)] full_last [OF assms(2)] assms(3,4,5)
  by (cases k) auto

section \<open>Writes\<close>

text \<open>A record that passed validation, with what it does to the complete log.\<close>

lemma accept_full:
  assumes wf: "wf_store s" and r: "jCheckpoint r = None" "validate s r = Some None" and t: "accept s r = Some t"
    and X: "full X s"
  shows "full (if jFrom r = 0 then X else take (jFrom r - 1) X @ jEntries r) t"
    "dTerm (sState t) = jTerm r" "dVote (sState t) = jVote r" "dCommit (sState t) = jCommit r"
proof -
  have st: "wf_state (sState s)" using wf by (simp add: wf_store_def)
  have b: "dBase (sState s) \<le> dCommit (sState s)" using st by (simp add: wf_state_def)
  show "dTerm (sState t) = jTerm r" "dVote (sState t) = jVote r" "dCommit (sState t) = jCommit r"
    using t r(1) by (auto simp: accept_def Let_def split: if_splits)
  have sn: "base_machine t = base_machine s" "dBase (sState t) = dBase (sState s)"
    using t r(1) by (auto simp: accept_def Let_def base_machine_def split: if_splits)
  show "full (if jFrom r = 0 then X else take (jFrom r - 1) X @ jEntries r) t"
  proof (cases "jFrom r = 0")
    case True
    then have "dLog (sState t) = dLog (sState s)" using t r(1) by (auto simp: accept_def Let_def)
    then show ?thesis using X sn True by (simp add: full_def)
  next
    case False
    have f: "dBase (sState s) < jFrom r" "jFrom r \<le> Suc (length X)"
      using validate_plain(6) [OF st r False] b X st by (auto simp: full_def)
    obtain g where g: "jFrom r = Suc g" using False by (cases "jFrom r") auto
    have "dLog (sState t) = take (jFrom r - dBase (sState s)) (dLog (sState s)) @ jEntries r"
      using t r(1) False by (auto simp: accept_def Let_def split: if_splits)
    also have "take (jFrom r - dBase (sState s)) (dLog (sState s)) = drop (dBase (sState s)) (take (jFrom r) (zeroEntry # X))"
      using X by (simp add: full_def drop_take)
    finally have l: "dLog (sState t) = drop (dBase (sState s)) (zeroEntry # (take g X @ jEntries r))"
      using f g drop_append [of "dBase (sState s)" "zeroEntry # take g X" "jEntries r"] by simp
    have "take (dBase (sState s)) (take g X @ jEntries r) = take (dBase (sState s)) X"
      using f g by simp
    then show ?thesis using X sn f l g False by (simp add: full_def)
  qed
qed

text \<open>A failed save leaves on the disk what was there, or what the save would have written.\<close>

lemma save_failed:
  assumes wf: "wf_store s" and g: "journal_gives s s" and sv: "save s T v c f es = Some (Some e, s')"
  shows "journal_gives s' s \<or> (\<exists>u. validate s (plain_record s T v c f es) = Some None \<and>
    accept s (plain_record s T v c f es) = Some u \<and> journal_gives s' u)"
proof -
  obtain j where j: "sWal s = Some j" and ne: "journal_records j \<noteq> []"
    and rp: "replay_records (journal_records j) (initStore (sIdentity s)) = Some (None, s\<lparr>sWal := None\<rparr>)"
    using g by (auto simp: journal_gives_def)
  let ?r = "plain_record s T v c f es"
  from wf j show ?thesis
  proof (cases rule: save_cases [where T = T and v = v and c = c and f = f and es = es])
    case (rejected e)
    then show ?thesis using sv g by simp
  next
    case (failed e1 j' e')
    have st: "wf_state (sState s)" using wf by (simp add: wf_store_def)
    obtain u where u: "accept s ?r = Some u" using accept_total [OF st failed(1)] by auto
    have s': "s' = s\<lparr>sWal := Some j'\<rparr>" using failed(3) sv by auto
    from journal_append_err [OF failed(2)] show ?thesis
    proof
      assume "journal_records j' = journal_records j"
      then show ?thesis using s' rp ne by (simp add: journal_gives_def)
    next
      assume "journal_records j' = journal_records j @ [?r]"
      then have "journal_gives s' u"
        using s' replay_extend [OF rp failed(1) u] accept_wal [OF u] by (simp add: journal_gives_def)
      then show ?thesis using failed(1) u by blast
    qed
  qed (use sv in simp)
qed

lemma checkpoint_failed:
  assumes wf: "wf_store s" and g: "journal_gives s s"
    and i: "dBase (sState s) < index" "index \<le> dCommit (sState s)" and m: "fst (Restore New_Machine snap) = None"
    and tk: "take_checkpoint s snap index = Some (Some e, s')"
  shows "journal_gives s' s \<or> journal_gives s' (compacted s snap index)"
proof -
  obtain j where j: "sWal s = Some j" and ne: "journal_records j \<noteq> []"
    and rp: "replay_records (journal_records j) (initStore (sIdentity s)) = Some (None, s\<lparr>sWal := None\<rparr>)"
    using g by (auto simp: journal_gives_def)
  let ?c = "compacted s snap index" and ?r = "checkpoint_record s snap index"
  note v = checkpoint_record_valid [OF wf less_imp_le [OF i(1)] i(2) m]
  have one: "replay_records [?r] (initStore (sIdentity s)) = Some (None, ?c\<lparr>sWal := None\<rparr>)" using v(2,4) by simp
  have idc: "sIdentity ?c = sIdentity s" by (simp add: compacted_def)
  from wf j i m show ?thesis
  proof (cases rule: take_checkpoint_cases)
    case (unsupported e)
    then show ?thesis using tk g by simp
  next
    case (failed e1 e' j')
    have "s' = s\<lparr>sWal := Some j'\<rparr>" using failed tk by auto
    with journal_replace_err [OF failed(2)] show ?thesis using rp one ne by (auto simp: journal_gives_def idc)
  qed (use tk in simp)
qed

lemma compacted_rel:
  assumes wf: "wf_store s" and r: "rel p i s" and k: "0 < k" "dBase (sState s) \<le> k" "k \<le> dCommit (sState s)"
    and m: "m = machine_at s k"
  shows "rel p i (compacted s (Snapshot_of m) k)"
proof -
  let ?c = "compacted s (Snapshot_of m) k" and ?X = "plog p i"
  have X: "full ?X s" using r by (simp add: rel_def)
  have "wf_machine m" using machine_at_wf [OF wf] m by simp
  then have "base_machine ?c = m" using k(1) by (simp add: base_machine_def compacted_def Restore_Snapshot)
  then have "base_machine ?c = apply_all New_Machine (commands (take k ?X))" using full_machine [OF X k(2)] m by simp
  moreover have "k \<le> length ?X" using wf_state_last [of s] wf k(3) full_last [OF X] by (simp add: wf_store_def)
  moreover have "drop (k - dBase (sState s)) (drop (dBase (sState s)) (zeroEntry # ?X)) = drop k (zeroEntry # ?X)"
    using k(2) by simp
  ultimately show ?thesis using r X by (auto simp: rel_def full_def compacted_def)
qed

section \<open>Messages\<close>

definition sent :: "Node \<Rightarrow> Message set" where
  "sent n = set (outbox n) \<union> set (calls n)"

text \<open>A vote request names the log its candidate campaigned with; an append request is a piece of its leader's log.\<close>

definition ballot_ok :: "Proto \<Rightarrow> VoteRequest \<Rightarrow> bool" where
  "ballot_ok p req \<longleftrightarrow> (\<exists>E. elog p (CandidateID req) (vqTerm req) = Some E \<and> LastLogIndex req = length E \<and> LastLogTerm req = lastTerm E)"

definition request_ok :: "Proto \<Rightarrow> AppendRequest \<Rightarrow> bool" where
  "request_ok p req \<longleftrightarrow> (\<exists>L. llog p (aqTerm req) = Some (LeaderID req, L) \<and>
     PrevLogIndex req + length (aqEntries req) \<le> length L \<and>
     aqEntries req = take (length (aqEntries req)) (drop (PrevLogIndex req) L) \<and>
     PrevLogTerm req = term_at L (PrevLogIndex req) \<and> known p (aqTerm req) (LeaderCommit req))"

definition msg_ok :: "Proto \<Rightarrow> Message \<Rightarrow> bool" where
  "msg_ok p m \<longleftrightarrow> (\<forall>req. mVote m = Some req \<longrightarrow> CandidateID req = mFrom m \<and> ballot_ok p req) \<and>
     (\<forall>req. mAppend m = Some req \<longrightarrow> LeaderID req = mFrom m \<and> request_ok p req) \<and> (mVote m \<noteq> None \<or> mAppend m \<noteq> None)"

lemma known_ext: "extends p p' \<Longrightarrow> known p T c \<Longrightarrow> known p' T c"
  unfolding known_def using extendsD(8) by fastforce

lemma rel_known: "raft_inv ps p \<Longrightarrow> rel p i s \<Longrightarrow> known p (dTerm (sState s)) (dCommit (sState s))"
  using raft_invD(7) [of ps p i] by (auto simp: commit_inv_def known_def rel_def)

lemma request_ok_ext:
  assumes x: "extends p p'" and r: "request_ok p req"
  shows "request_ok p' req"
proof -
  let ?k = "PrevLogIndex req" and ?m = "length (aqEntries req)"
  obtain L where L: "llog p (aqTerm req) = Some (LeaderID req, L)" "?k + ?m \<le> length L" "aqEntries req = take ?m (drop ?k L)"
    "PrevLogTerm req = term_at L ?k" "known p (aqTerm req) (LeaderCommit req)"
    using r unfolding request_ok_def by blast
  from extendsD(1) [OF x L(1)] obtain L' where L': "llog p' (aqTerm req) = Some (LeaderID req, L')" "prefix L L'" by blast
  obtain Z where Z: "L' = L @ Z" using L'(2) by (auto simp: prefix_def)
  have "aqEntries req = take ?m (drop ?k L')" using L(2,3) Z by simp
  moreover have "PrevLogTerm req = term_at L' ?k" using L(2,4) Z by (simp add: term_at_append)
  ultimately show ?thesis using L' L(2) Z known_ext [OF x L(5)] unfolding request_ok_def by auto
qed

lemma msg_ok_ext: "extends p p' \<Longrightarrow> msg_ok p m \<Longrightarrow> msg_ok p' m"
proof -
  assume x: "extends p p'" and m: "msg_ok p m"
  have "ballot_ok p' req" if "ballot_ok p req" for req using that extendsD(2) [OF x] unfolding ballot_ok_def by blast
  then show "msg_ok p' m" using m request_ok_ext [OF x] by (simp add: msg_ok_def)
qed

section \<open>Nodes\<close>

definition durable :: "Proto \<Rightarrow> string \<Rightarrow> Node \<Rightarrow> bool" where
  "durable p i n \<longleftrightarrow> (\<exists>t. journal_gives (store n) t \<and> rel p i t) \<and> (failed n = None \<longrightarrow> rel p i (store n))"

text \<open>What a node has in memory: all of it is in order, and what is committed there is committed on the disk.\<close>

definition memory :: "Proto \<Rightarrow> string \<Rightarrow> Node \<Rightarrow> bool" where
  "memory p i n \<longleftrightarrow> known p (dTerm (state n)) (dCommit (state n)) \<and> (\<exists>X. full X (store n) \<and> log_ok p X (pterm p i) \<and> dCommit (state n) \<le> pcommit p i \<and>
     take (dCommit (state n)) X = take (dCommit (state n)) (plog p i))"

definition polled :: "(string, Peer) fmap \<Rightarrow> Proto \<Rightarrow> string \<Rightarrow> string fset \<Rightarrow> bool" where
  "polled ps p i vs \<longleftrightarrow> vs |\<subseteq>| fmdom ps \<and> (\<forall>v. v |\<in>| vs \<longrightarrow> (\<exists>M. vlog p v (pterm p i) = Some (i, M)))"

definition role_link :: "(string, Peer) fmap \<Rightarrow> Proto \<Rightarrow> string \<Rightarrow> Node \<Rightarrow> bool" where
  "role_link ps p i n \<longleftrightarrow> (case role n of
       Follower \<Rightarrow> True
     | Candidate \<Rightarrow> pvote p i = i \<and> elog p i (pterm p i) = Some (plog p i) \<and> (\<forall>L. llog p (pterm p i) \<noteq> Some (i, L)) \<and>
         (\<exists>vs. votes n = Some vs \<and> polled ps p i vs)
     | Leader \<Rightarrow> pvote p i = i \<and> llog p (pterm p i) = Some (i, plog p i) \<and>
         (\<forall>j. j |\<in>| fmdom ps \<longrightarrow> j \<noteq> i \<longrightarrow> 0 < matchIndex n j \<longrightarrow> acked p j (pterm p i) (matchIndex n j)))"

definition core :: "(string, Peer) fmap \<Rightarrow> Proto \<Rightarrow> string \<Rightarrow> Node \<Rightarrow> bool" where
  "core ps p i n \<longleftrightarrow> protocol_ok ps p \<and> node_inv n \<and> cID (cfg n) = i \<and> peers n = ps \<and> FixedLeader (cfg n) = [] \<and>
     i \<noteq> [] \<and> i |\<in>| fmdom ps \<and> [] |\<notin>| fmdom ps \<and>
     durable p i n \<and> memory p i n \<and> (\<forall>m \<in> sent n. msg_ok p m \<and> mFrom m = i)"

definition good :: "(string, Peer) fmap \<Rightarrow> Proto \<Rightarrow> string \<Rightarrow> Node \<Rightarrow> bool" where
  "good ps p i n \<longleftrightarrow> core ps p i n \<and> role_link ps p i n"

lemma coreD:
  assumes "core ps p i n"
  shows "protocol_ok ps p" "raft_inv ps p" "ballots p" "node_inv n" "cID (cfg n) = i" "peers n = ps" "FixedLeader (cfg n) = []"
    "i \<noteq> []" "i |\<in>| fmdom ps" "durable p i n" "memory p i n" "failed n = None \<Longrightarrow> rel p i (store n)"
    "m \<in> sent n \<Longrightarrow> msg_ok p m" "wf_store (store n)" "[] |\<notin>| fmdom ps" "m \<in> sent n \<Longrightarrow> mFrom m = i"
  using assms node_inv_wf(1) by (auto simp: core_def protocol_ok_def durable_def)

lemma goodD: "good ps p i n \<Longrightarrow> core ps p i n" "good ps p i n \<Longrightarrow> role_link ps p i n"
  by (simp_all add: good_def)

lemma core_frame:
  assumes c: "core ps p i n" and s: "step_ok n n'" and f: "store n' = store n" "failed n' = failed n" "sent n' \<subseteq> sent n"
  shows "core ps p i n'"
proof -
  have "node_inv n'" "node_le n n'" using s coreD(4) [OF c] by (auto simp: step_ok_def weak_ok_def)
  then show ?thesis using c f unfolding core_def durable_def memory_def node_le_def by auto
qed

lemma role_frame:
  assumes "role_link ps p i n" "role n' = Follower \<or> role n' = role n \<and> votes n' = votes n \<and> matchIndex n' = matchIndex n"
  shows "role_link ps p i n'"
  using assms by (auto simp: role_link_def split: Role.splits)

lemma role_follower: "role n = Follower \<Longrightarrow> role_link ps p i n"
  by (simp add: role_link_def)

lemma role_failed: "core ps p i n \<Longrightarrow> failed n \<noteq> None \<Longrightarrow> role_link ps p i n"
  using coreD(4) by (intro role_follower) (auto simp: node_inv_def role_ok_def)

definition reach :: "(string, Peer) fmap \<Rightarrow> string \<Rightarrow> Proto \<Rightarrow> Node \<Rightarrow> bool" where
  "reach ps i p n' \<longleftrightarrow> (\<exists>p'. psteps ps i p p' \<and> good ps p' i n')"

definition sim :: "(string, Peer) fmap \<Rightarrow> string \<Rightarrow> Node \<Rightarrow> Node \<Rightarrow> bool" where
  "sim ps i n n' \<longleftrightarrow> (\<forall>p. good ps p i n \<longrightarrow> reach ps i p n')"

lemma reachI: "psteps ps i p p' \<Longrightarrow> good ps p' i n' \<Longrightarrow> reach ps i p n'"
  unfolding reach_def by blast

lemma reach_good: "good ps p i n \<Longrightarrow> reach ps i p n"
  by (rule reachI) simp_all

lemma reach_sim: "reach ps i p n \<Longrightarrow> sim ps i n n' \<Longrightarrow> reach ps i p n'"
  unfolding reach_def sim_def by (metis rtranclp_trans)

lemma reach_after: "psteps ps i p q \<Longrightarrow> reach ps i q n \<Longrightarrow> reach ps i p n"
  unfolding reach_def by (metis rtranclp_trans)

lemma sim_refl [simp, intro]: "sim ps i n n"
  by (simp add: sim_def reach_good)

lemma sim_trans [trans]: "sim ps i a b \<Longrightarrow> sim ps i b c \<Longrightarrow> sim ps i a c"
  using reach_sim unfolding sim_def by blast

lemma sim_frame:
  assumes "step_ok n n'" "store n' = store n" "failed n' = failed n" "sent n' \<subseteq> sent n"
    "role n' = Follower \<or> role n' = role n \<and> votes n' = votes n \<and> matchIndex n' = matchIndex n"
  shows "sim ps i n n'"
  unfolding sim_def
proof (intro allI impI)
  fix p assume g: "good ps p i n"
  show "reach ps i p n'"
    by (rule reach_good) (use core_frame [OF goodD(1) [OF g] assms(1-4)] role_frame [OF goodD(2) [OF g] assms(5)] in \<open>simp add: good_def\<close>)
qed

lemma sim_emit [simp, intro]: "sim ps i n (emitLocked en k x p m d n)"
  by (rule sim_frame) (simp_all add: sent_def)

lemma sim_reset [simp, intro]: "sim ps i n (resetTimerLocked en n)"
  by (rule sim_frame) (simp_all add: sent_def)

lemma sim_failPending [simp, intro]: "sim ps i n (failPendingLocked e n)"
  by (rule sim_frame) (simp_all add: sent_def)

section \<open>Saving\<close>

lemma core_ext:
  assumes "core ps p i n" "psteps ps i p p'"
  shows "protocol_ok ps p'" "extends p p'" "m \<in> sent n \<Longrightarrow> msg_ok p' m"
  using psteps_keep [OF assms(2) coreD(1) [OF assms(1)]] msg_ok_ext coreD(13) [OF assms(1)] by auto

text \<open>
  A save whose record stands for protocol steps from \<open>p\<close> to \<open>p'\<close>: after it succeeded the node is at
  \<open>p'\<close>, after it failed the node is at \<open>p\<close> or at \<open>p'\<close>.
\<close>

lemma persist_core:
  assumes c: "core ps p i n" and h: "failed n = None" and pe: "persistLocked en T v cm f es n = Some (ok, n')"
    and st: "validate (store n) (plain_record (store n) T v cm f es) = Some None \<Longrightarrow> psteps ps i p p'"
    and p': "pterm p' i = T" "pvote p' i = v" "pcommit p' i = cm"
      "plog p' i = (if f = 0 then plog p i else take (f - 1) (plog p i) @ es)"
  shows "ok \<Longrightarrow> psteps ps i p p' \<and> core ps p' i n'" "\<not> ok \<Longrightarrow> reach ps i p n'"
proof -
  let ?r = "plain_record (store n) T v cm f es"
  note wf = coreD(14) [OF c] and r = coreD(12) [OF c h]
  have g: "journal_gives (store n) (store n)" using coreD(4) [OF c] h by (simp add: node_inv_def store_ok_def)
  obtain j where j: "sWal (store n) = Some j" using g by (auto simp: journal_gives_def)
  have X: "full (plog p i) (store n)" using r by (simp add: rel_def)
  have pl: "jCheckpoint ?r = None" by (simp add: plain_record_def)
  have st': "wf_state (state n)" using wf by (simp add: wf_store_def)
  have relp: "rel p' i u" if "validate (store n) ?r = Some None" "accept (store n) ?r = Some u" for u
    using accept_full [OF wf pl that X] p' by (cases "f = 0") (simp_all add: rel_def plain_record_def)
  have inv': "node_inv n'" "node_le n n'" using persist_weak [OF pe h] coreD(4) [OF c] by (auto simp: weak_ok_def)
  have sn: "sent n' = sent n" using persist_sel(11,12) [OF pe] by (simp add: sent_def)
  have build: "core ps q i n'" if "psteps ps i p q" "durable q i n'" "memory q i n'" for q
    using c inv' that core_ext [OF c that(1)] sn unfolding core_def node_le_def by auto
  have lok: "log_ok q (plog p i) (pterm q i)" if "psteps ps i p q" for q
    using log_ok_ext [OF core_ext(2) [OF c that] raft_invD(1) [OF coreD(2) [OF c], of i]] extendsD(6) [OF core_ext(2) [OF c that]] .
  show "psteps ps i p p' \<and> core ps p' i n'" if ok
    using pe
  proof (cases rule: persist_cases)
    case (saved u)
    from wf j have v: "validate (store n) ?r = Some None" and a: "\<exists>t w. accept (store n) ?r = Some t \<and> u = t\<lparr>sWal := w\<rparr>"
      by (cases rule: save_cases [where T = T and v = v and c = cm and f = f and es = es]; use saved(1) in auto)+
    have ru: "rel p' i u" using a relp [OF v] by auto
    note ps = st [OF v]
    have "journal_gives u u" using save_journal(1) [OF wf g saved(1)] by simp
    then have "durable p' i n'" using ru saved(3) by (auto simp: durable_def)
    moreover have "memory p' i n'"
      unfolding memory_def using ru saved(3) raft_invD(1) [of ps p' i] core_ext(1) [OF c ps] rel_known [OF _ ru, of ps]
      by (intro conjI exI [of _ "plog p' i"]) (auto simp: rel_def protocol_ok_def)
    ultimately show ?thesis using ps build [OF ps] by blast
  qed (use that in simp)
  show "reach ps i p n'" if "\<not> ok"
    using pe
  proof (cases rule: persist_cases)
    case (failed u e)
    have fn: "failed n' \<noteq> None" "store n' = u" using failed(3) by simp_all
    note ss = save_state(5) [OF wf j failed(1)]
    have su: "sState u = state n" "full (plog p i) u" using ss full_cong [of u "store n"] X by auto
    have cm0: "dCommit (state n) = pcommit p i" using r by (simp add: rel_def)
    have kn: "known p (dTerm (state n)) (dCommit (state n))" by (rule rel_known [OF coreD(2) [OF c] r])
    from save_failed [OF wf g failed(1)] show ?thesis
    proof
      assume "journal_gives u (store n)"
      then have "durable p i n'" using r fn by (auto simp: durable_def)
      moreover have "memory p i n'" unfolding memory_def using su fn lok [of p] cm0 kn by auto
      ultimately have "core ps p i n'" using build by blast
      then show ?thesis using role_failed fn(1) by (intro reach_good) (simp add: good_def)
    next
      assume "\<exists>w. validate (store n) ?r = Some None \<and> accept (store n) ?r = Some w \<and> journal_gives u w"
      then obtain w where w: "validate (store n) ?r = Some None" "accept (store n) ?r = Some w" "journal_gives u w" by blast
      note ps = st [OF w(1)] and vp = validate_plain [OF st' pl w(1)]
      have "durable p' i n'" using w(3) relp [OF w(1,2)] fn by (auto simp: durable_def)
      moreover have "memory p' i n'"
      proof -
        have "dCommit (state n) < f" if "f \<noteq> 0" using vp(6) that by (simp add: plain_record_def)
        then have "take (dCommit (state n)) (plog p i) = take (dCommit (state n)) (plog p' i)"
          using p'(4) wf_state_last [OF st'] full_last [OF X] by (auto simp: min_def)
        moreover have "dCommit (state n) \<le> pcommit p' i" using vp(3) p'(3) by (simp add: plain_record_def)
        ultimately show ?thesis unfolding memory_def using su fn lok [OF ps] known_ext [OF core_ext(2) [OF c ps] kn] by auto
      qed
      ultimately have "core ps p' i n'" using build [OF ps] by blast
      then show ?thesis using role_failed fn(1) ps by (intro reachI [of ps i p p']) (simp_all add: good_def)
    qed
  qed (use that in simp)
qed

end
