(* ===== verification/Node_Sim.thy ===== *)
theory Node_Sim
  imports Linking
begin

text \<open>
  Every transition function of a node is a sequence of protocol steps of its own process: stepping
  down adopts a term, an election campaigns, the winner leads and appends, committing decides, and
  snapshots are no step at all.
\<close>

section \<open>Stepping down\<close>

lemma stepDown_cases:
  assumes "stepDownLocked en T l n = Some (ok, n')"
  obtains (old) n3 where "\<not> dTerm (state n) < T" "ok" "n' = failPendingLocked (leaderErrorLocked n3) n3"
      "n3 = n\<lparr>role := Follower, leader := l\<rparr> \<or> n3 = emitLocked en ''STEPPED_DOWN'' 0 l [] [] (n\<lparr>role := Follower, leader := l\<rparr>)"
    | (failed) "dTerm (state n) < T" "\<not> ok" "persistLocked en T [] (dCommit (state n)) 0 [] n = Some (False, n')"
    | (newer) n1 where "dTerm (state n) < T" "ok" "persistLocked en T [] (dCommit (state n)) 0 [] n = Some (True, n1)"
        "n' = failPendingLocked (leaderErrorLocked (emitLocked en ''STEPPED_DOWN'' 0 l [] [] (n1\<lparr>role := Follower, leader := l\<rparr>)))
           (emitLocked en ''STEPPED_DOWN'' 0 l [] [] (n1\<lparr>role := Follower, leader := l\<rparr>))"
  using assms by (auto simp: stepDownLocked_def Let_def split: if_split_asm elim!: bind_SomeE)

lemma stepDown_sim:
  assumes h: "failed n = None" and sd: "stepDownLocked en T l n = Some (ok, n')"
  shows "sim ps i n n'"
  using sd
proof (cases rule: stepDown_cases)
  case (old n3)
  show ?thesis
    by (rule sim_frame [OF stepDown_step [OF sd h]])
      (use old in \<open>auto simp: sent_def\<close>)
next
  case failed
  show ?thesis unfolding sim_def
  proof (intro allI impI)
    fix p assume g: "good ps p i n"
    let ?p = "p\<lparr>pterm := (pterm p)(i := T), pvote := (pvote p)(i := [])\<rparr>"
    note r = coreD(12) [OF goodD(1) [OF g] h, unfolded rel_def]
    show "reach ps i p n'"
      by (rule persist_core(2) [OF goodD(1) [OF g] h failed(3), of ?p])
        (use r failed(1) in \<open>auto intro!: r_into_rtranclp pstep.adopt\<close>)
  qed
next
  case (newer n1)
  show ?thesis unfolding sim_def
  proof (intro allI impI)
    fix p assume g: "good ps p i n"
    let ?p = "p\<lparr>pterm := (pterm p)(i := T), pvote := (pvote p)(i := [])\<rparr>"
    note r = coreD(12) [OF goodD(1) [OF g] h, unfolded rel_def]
    have c: "psteps ps i p ?p \<and> core ps ?p i n1"
      by (rule persist_core(1) [OF goodD(1) [OF g] h newer(3)])
        (use r newer(1) in \<open>auto intro!: r_into_rtranclp pstep.adopt\<close>)
    have s: "step_ok n1 n'" unfolding newer(4)
      by (rule step_ok_trans [OF step_ok_trans [OF step_ok_trans [OF step_ok_upd(11) step_ok_upd(8)]] step_ok_failPending]) (rule step_ok_emit)
    have "core ps ?p i n'" by (rule core_frame [OF conjunct2 [OF c] s]) (use newer(4) in \<open>auto simp: sent_def\<close>)
    then show "reach ps i p n'"
      using conjunct1 [OF c] by (intro reachI) (simp_all add: good_def role_follower newer(4))
  qed
qed

section \<open>Snapshots and applying\<close>

lemma maybeSnapshot_sim:
  assumes sy: "synced n" and ms: "maybeSnapshotLocked en n = Some n'"
  shows "sim ps i n n'"
  unfolding sim_def
proof (intro allI impI)
  fix p assume g: "good ps p i n"
  note c = goodD(1) [OF g]
  have wf: "wf_store (store n)" and mo: "machine_ok n" using coreD(4) [OF c] by (auto simp: node_inv_def store_ok_def)
  have wm: "wf_machine (machine n)" using mo wf by (simp add: machine_ok_def machine_at_wf)
  have m: "fst (Restore New_Machine (Snapshot_of (machine n))) = None" by (simp add: Restore_Snapshot [OF wm])
  have inv': "node_inv n'" "node_le n n'" using maybeSnapshot_step [OF ms sy] coreD(4) [OF c] by (auto simp: step_ok_def weak_ok_def)
  have lead: "failed n = None \<and> journal_gives (store n) (store n) \<and> rel p i (store n)" if "role n = Leader"
    using coreD(4,12) [OF c] that by (auto simp: node_inv_def role_ok_def store_ok_def)
  let ?c = "compacted (store n) (Snapshot_of (machine n)) (dCommit (state n))"
  have relc: "rel p i ?c" if "role n = Leader" "dBase (state n) < dCommit (state n)"
    by (rule compacted_rel [OF wf]) (use lead that mo sy in \<open>auto simp: machine_ok_def synced_def\<close>)
  have build: "core ps p i n'" if "durable p i n'" "memory p i n'" "sent n' \<subseteq> sent n"
    using c inv' that unfolding core_def node_le_def by auto
  have ok: "log_ok p (plog p i) (pterm p i)" using raft_invD(1) [OF coreD(2) [OF c]] .
  show "reach ps i p n'"
    using ms
  proof (cases rule: maybeSnapshot_cases)
    case none
    then show ?thesis using reach_good [OF g] by simp
  next
    case (failed st e)
    note l = lead [OF failed(2)]
    then have gv: "journal_gives (store n) (store n)" by blast
    note ts = take_checkpoint_state [OF wf gv failed(3) order_refl m failed(1)]
    have st: "sState st = state n" "sSnapshot st = sSnapshot (store n)" using ts(5) by auto
    have fn: "failed n' \<noteq> None" "store n' = st" "sent n' \<subseteq> sent n" using failed(4) by (auto simp: sent_def)
    have "durable p i n'"
      using checkpoint_failed [OF wf gv failed(3) order_refl m failed(1)] l relc [OF failed(2,3)] fn by (auto simp: durable_def)
    moreover have "memory p i n'"
      unfolding memory_def using l st fn ok full_cong [OF st] rel_known [OF coreD(2) [OF c], of i "store n"]
      by (intro conjI exI [of _ "plog p i"]) (auto simp: rel_def)
    ultimately have "core ps p i n'" using build fn by blast
    then show ?thesis using role_failed fn(1) by (intro reach_good) (simp add: good_def)
  next
    case (taken st)
    note l = lead [OF taken(2)]
    then have gv: "journal_gives (store n) (store n)" by blast
    note ts = take_checkpoint_state [OF wf gv taken(3) order_refl m taken(1)]
    have st: "journal_gives st st" "sState st = sState ?c" "sSnapshot st = sSnapshot ?c" using ts(4) by (auto simp: compacted_def)
    have rs: "rel p i st" using relc [OF taken(2,3)] rel_cong [OF st(2,3)] by simp
    have "durable p i n'" using st(1) rs taken(4) by (auto simp: durable_def)
    moreover have "memory p i n'"
      unfolding memory_def using rs ok taken(4) rel_known [OF coreD(2) [OF c] rs] by (intro conjI exI [of _ "plog p i"]) (auto simp: rel_def)
    ultimately have "core ps p i n'" using build taken(4) by (simp add: sent_def)
    moreover have "role_link ps p i n'" by (rule role_frame [OF goodD(2) [OF g]]) (simp add: taken(4))
    ultimately show ?thesis by (intro reach_good) (simp add: good_def)
  qed
qed

lemma apply_sim:
  assumes inv: "node_inv n" and ap: "applyLocked en n = Some n'"
  shows "sim ps i n n'"
proof -
  obtain n1 where n1: "applyLocked en n = maybeSnapshotLocked en n1" "node_inv n1" "ran n n1" "synced n1" "node_le n n1"
    by (rule applyLocked_eq [OF inv])
  have "sim ps i n n1" unfolding sim_def
  proof (intro allI impI)
    fix p assume g: "good ps p i n"
    note r = ran_sel [OF n1(3)]
    have "core ps p i n1"
      using goodD(1) [OF g] n1(2) r unfolding core_def durable_def memory_def sent_def by auto
    moreover have "role_link ps p i n1" by (rule role_frame [OF goodD(2) [OF g]]) (simp add: r)
    ultimately show "reach ps i p n1" by (intro reach_good) (simp add: good_def)
  qed
  also have "sim ps i n1 n'" by (rule maybeSnapshot_sim [OF n1(4)]) (use n1(1) ap in simp)
  finally show ?thesis .
qed

section \<open>Sending\<close>

lemma entries_from_nth:
  "entries_from n k m = Some es \<Longrightarrow> length es = m \<and> (\<forall>j < m. entryLocked n (k + j) = Some (es ! j))"
proof (induction m arbitrary: k es)
  case (Suc m)
  then obtain e fs where e: "entryLocked n k = Some e" "entries_from n (Suc k) m = Some fs" "es = e # fs"
    by (auto elim!: bind_SomeE)
  have "entryLocked n (k + j) = Some (es ! j)" if "j < Suc m" for j
    using Suc.IH [OF e(2)] e that by (cases j) auto
  then show ?case using Suc.IH [OF e(2)] e(3) by simp
qed simp

lemma prepare_parts:
  assumes "prepareAppendLocked en peer n = Some (req, n')"
  obtains pe where "aqTerm req = dTerm (state n)" "LeaderID req = cID (cfg n)" "LeaderCommit req = dCommit (state n)"
    "entryLocked n (PrevLogIndex req) = Some pe" "PrevLogTerm req = eTerm pe"
    "entries_from n (PrevLogIndex req + 1) (length (aqEntries req)) = Some (aqEntries req)"
proof -
  define i where "i = min (max 1 (nextIndex n (pID peer))) (lastLocked n + 1)"
  have i: "0 < i" by (simp add: i_def)
  from assms obtain k es pe where k: "batch_end n 32 i 1024 = Some k"
    "entries_from n (if i - 1 < dBase (state n) then dBase (state n) + 1 else i)
       (k - (if i - 1 < dBase (state n) then dBase (state n) + 1 else i)) = Some es"
    "entryLocked n (if i - 1 < dBase (state n) then dBase (state n) else i - 1) = Some pe"
    and r: "aqTerm req = dTerm (state n)" "LeaderID req = cID (cfg n)" "LeaderCommit req = dCommit (state n)"
      "PrevLogIndex req = (if i - 1 < dBase (state n) then dBase (state n) else i - 1)" "PrevLogTerm req = eTerm pe"
      "aqEntries req = es"
    unfolding prepareAppendLocked_def Let_def i_def [symmetric]
    by (elim bind_SomeE) (auto elim!: bind_SomeE simp del: One_nat_def split: if_split_asm)
  have nx: "PrevLogIndex req + 1 = (if i - 1 < dBase (state n) then dBase (state n) + 1 else i)" using r(4) i by simp
  have "length es = k - (PrevLogIndex req + 1)" using entries_from_nth [OF k(2)] nx by simp
  then show ?thesis using that [OF r(1,2,3)] k(2,3) r nx by simp
qed

lemma leader_link:
  assumes g: "good ps p i n" and l: "role n = Leader"
  shows "failed n = None" "rel p i (store n)" "full (plog p i) (store n)" "llog p (dTerm (state n)) = Some (i, plog p i)"
    "pterm p i = dTerm (state n)" "pvote p i = dVote (state n)" "pcommit p i = dCommit (state n)" "dVote (state n) = i"
proof -
  show f: "failed n = None" using coreD(4) [OF goodD(1) [OF g]] l by (auto simp: node_inv_def role_ok_def)
  show r: "rel p i (store n)" by (rule coreD(12) [OF goodD(1) [OF g] f])
  then show "full (plog p i) (store n)" "pterm p i = dTerm (state n)" "pvote p i = dVote (state n)" "pcommit p i = dCommit (state n)"
    by (simp_all add: rel_def)
  then show "llog p (dTerm (state n)) = Some (i, plog p i)" "dVote (state n) = i"
    using goodD(2) [OF g] l by (simp_all add: role_link_def)
qed

lemma commit_known: "raft_inv ps p \<Longrightarrow> known p (pterm p i) (pcommit p i)"
  using raft_invD(7) [of ps p i] by (fastforce simp: commit_inv_def known_def)

lemma prepare_ok:
  assumes g: "good ps p i n" and l: "role n = Leader" and pr: "prepareAppendLocked en peer n = Some (req, n')"
  shows "request_ok p req" "LeaderID req = i"
proof -
  let ?X = "plog p i" and ?k = "PrevLogIndex req" and ?es = "aqEntries req"
  note ll = leader_link [OF g l]
  obtain pe where r: "aqTerm req = dTerm (state n)" "LeaderID req = cID (cfg n)" "LeaderCommit req = dCommit (state n)"
    "entryLocked n ?k = Some pe" "PrevLogTerm req = eTerm pe" "entries_from n (?k + 1) (length ?es) = Some ?es"
    by (rule prepare_parts [OF pr])
  show "LeaderID req = i" using r(2) coreD(5) [OF goodD(1) [OF g]] by simp
  note t = full_term [OF ll(3) r(4) [unfolded entryLocked_def]]
  have en: "store_entry (store n) (?k + 1 + j) = Some (?es ! j)" if "j < length ?es" for j
    using entries_from_nth [OF r(6)] that by (simp add: entryLocked_def)
  have len: "?k + length ?es \<le> length ?X"
  proof (cases "length ?es")
    case (Suc m)
    then show ?thesis using full_term(2) [OF ll(3) en [of m]] by simp
  qed (use t(2) in simp)
  have "?es = take (length ?es) (drop ?k ?X)"
  proof (rule nth_equalityI)
    show "length ?es = length (take (length ?es) (drop ?k ?X))" using len by simp
    fix j assume "j < length ?es"
    then show "?es ! j = take (length ?es) (drop ?k ?X) ! j" using full_term(3) [OF ll(3) en] len by simp
  qed
  then show "request_ok p req"
    unfolding request_ok_def using ll r t(1) len commit_known [OF coreD(2) [OF goodD(1) [OF g]], of i] \<open>LeaderID req = i\<close>
    by (intro exI [of _ ?X]) (simp add: r(5))
qed

lemma queue_sim:
  assumes q: "queueAppendLocked en peer n = Some n'"
  shows "sim ps i n n'"
proof (cases "busy n (pID peer) \<noteq> 0 \<or> \<not> availableLocked n \<or> role n \<noteq> Leader")
  case False
  then obtain req n1 where r: "prepareAppendLocked en peer n = Some (req, n1)"
    and n': "n' = n1\<lparr>busy := (busy n1)(pID peer := sequence n1),
        outbox := outbox n1 @ [\<lparr>mSequence = sequence n1, mFrom = cID (cfg n1), mTo = pID peer,
                     mVote = None, mAppend = Some req\<rparr>]\<rparr>"
    using q by (auto simp: queueAppendLocked_def)
  show ?thesis unfolding sim_def
  proof (intro allI impI)
    fix p assume g: "good ps p i n"
    note c = goodD(1) [OF g] and qs = quiet_sel [OF queue_quiet [OF q]]
    have "sent n' \<subseteq> insert \<lparr>mSequence = sequence n1, mFrom = i, mTo = pID peer, mVote = None, mAppend = Some req\<rparr> (sent n)"
      using n' prepare_eq [OF r] coreD(5) [OF c] by (auto simp: sent_def)
    moreover have "msg_ok p \<lparr>mSequence = sequence n1, mFrom = i, mTo = pID peer, mVote = None, mAppend = Some req\<rparr>"
      using prepare_ok [OF g _ r] False by (simp add: msg_ok_def)
    ultimately have "msg_ok p m \<and> mFrom m = i" if "m \<in> sent n'" for m using that coreD(13,16) [OF c] by fastforce
    moreover have "node_inv n'" using inv_step [OF coreD(4) [OF c] quiet_step [OF queue_quiet [OF q]]] .
    ultimately have "core ps p i n'" using c qs unfolding core_def durable_def memory_def by auto
    moreover have "role_link ps p i n'" by (rule role_frame [OF goodD(2) [OF g]]) (simp add: qs)
    ultimately show "reach ps i p n'" by (intro reach_good) (simp add: good_def)
  qed
qed (use q in \<open>simp add: queueAppendLocked_def\<close>)

lemma queue_all_sim: "queue_all en l n = Some n' \<Longrightarrow> sim ps i n n'"
  by (induction l arbitrary: n) (auto split: if_splits dest: queue_sim intro: sim_trans)

lemma kick_sim:
  assumes "kickLocked en n = Some n'"
  shows "sim ps i n n'"
proof (cases "manual n")
  case True
  then show ?thesis using assms queue_all_sim by (simp add: kickLocked_def)
next
  case False
  then have "n' = n\<lparr>wake := (\<lambda>i. map_option (\<lambda>_. True) (wake n i))\<rparr>" using assms by (simp add: kickLocked_def)
  then show ?thesis by (intro sim_frame [OF quiet_step [OF kick_quiet [OF assms]]]) (simp_all add: sent_def)
qed

section \<open>Committing\<close>

lemma scan_commit_found:
  "scan_commit n k = Some (Some x) \<Longrightarrow> dCommit (state n) < x \<and> x \<le> k \<and>
     (\<exists>e. entryLocked n x = Some e \<and> eTerm e = dTerm (state n)) \<and> fmsize (peers n) div 2 < commit_votes n x"
  by (induction k) (auto split: if_split_asm elim!: bind_SomeE)

lemma commit_quorum:
  assumes g: "good ps p i n" and l: "role n = Leader" and k: "0 < k" "term_at (plog p i) k = dTerm (state n)" "k \<le> length (plog p i)"
    and v: "fmsize (peers n) div 2 < commit_votes n k"
  shows "\<exists>Q. majority ps Q \<and> (\<forall>v \<in> Q. acked p v (dTerm (state n)) k)"
proof -
  note ll = leader_link [OF g l] and c = goodD(1) [OF g]
  let ?V = "ffilter (\<lambda>j. j \<noteq> i \<and> k \<le> matchIndex n j) (fmdom ps)"
  have pi: "peers n = ps" "cID (cfg n) = i" using coreD(5,6) [OF c] by auto
  have "acked p j (dTerm (state n)) k" if "j |\<in>| ?V" for j
  proof -
    have "acked p j (dTerm (state n)) (matchIndex n j)" "k \<le> matchIndex n j"
      using goodD(2) [OF g] l that k(1) ll(5) by (auto simp: role_link_def)
    then show ?thesis unfolding acked_def by (meson le_trans)
  qed
  moreover have "acked p i (dTerm (state n)) k"
  proof -
    obtain E where E: "elog_inv p i (dTerm (state n)) E" "plog p i = E \<or> (i, dTerm (state n), length (plog p i)) \<in> acks p"
      by (rule llog_parts [OF coreD(2) [OF c] ll(4)])
    have "plog p i \<noteq> E"
    proof
      assume "plog p i = E"
      then have "plog p i ! (k - 1) \<in> set E" "\<forall>x \<in> set E. eTerm x < dTerm (state n)" using E(1) k by (auto simp: elog_inv_def)
      then show False using k by (auto simp: term_at_def)
    qed
    then show ?thesis using E(2) k(3) unfolding acked_def by blast
  qed
  moreover have "majority ps (fset (finsert i ?V))"
  proof -
    have "fcard (finsert i ?V) = Suc (fcard ?V)" by (rule fcard_finsert_disjoint) simp
    then have "card (fset (finsert i ?V)) = commit_votes n k"
      unfolding commit_votes_def pi fcard.rep_eq [symmetric] by simp
    then show ?thesis using v coreD(9) [OF c] pi(1) by (auto simp: majority_def)
  qed
  ultimately show ?thesis by (intro exI [of _ "fset (finsert i ?V)"]) auto
qed

lemma advance_sim:
  assumes "advanceCommitLocked en n = Some n'"
  shows "sim ps i n n'"
proof -
  have decide: "(ok \<longrightarrow> reach ps i p n1) \<and> (\<not> ok \<longrightarrow> reach ps i p n1)"
    if g: "good ps p i n" and l: "role n = Leader" and sc: "scan_commit n (lastLocked n) = Some (Some k)"
      and pe: "persistLocked en (dTerm (state n)) (dVote (state n)) k 0 [] n = Some (ok, n1)" for p k ok n1
  proof -
    note ll = leader_link [OF g l] and c = goodD(1) [OF g]
    let ?T = "dTerm (state n)"
    let ?p = "p\<lparr>pcommit := (pcommit p)(i := max (pcommit p i) k), cmts := insert (?T, k) (cmts p)\<rparr>"
    obtain e where e: "dCommit (state n) < k" "entryLocked n k = Some e" "eTerm e = ?T" "fmsize (peers n) div 2 < commit_votes n k"
      using scan_commit_found [OF sc] by blast
    note t = full_term [OF ll(3) e(2) [unfolded entryLocked_def]]
    have k: "0 < k" "term_at (plog p i) k = ?T" using e(1,3) t(1) by auto
    obtain Q where Q: "majority ps Q" "\<forall>v \<in> Q. acked p v ?T k" using commit_quorum [OF g l k t(2) e(4)] by blast
    have st: "psteps ps i p ?p" by (rule r_into_rtranclp, rule pstep.decide [OF ll(5,4) k(1) t(2) k(2) Q])
    have f: "pterm ?p i = ?T" "pvote ?p i = dVote (state n)" "pcommit ?p i = k"
      "plog ?p i = (if (0::nat) = 0 then plog p i else take (0 - 1) (plog p i) @ [])"
      using ll(5,6,7) e(1) by simp_all
    note pc = persist_core [OF c ll(1) pe st f]
    have "role_link ps ?p i n1" if ok
    proof -
      have "role_link ps ?p i n" using goodD(2) [OF g] l by (auto simp: role_link_def acked_def)
      then show ?thesis by (rule role_frame) (use persist_sel [OF pe] that in auto)
    qed
    then show ?thesis using pc st by (auto simp: good_def intro: reachI)
  qed
  from assms show ?thesis
  proof (cases rule: advance_cases)
    case none
    then show ?thesis by simp
  next
    case (failed index)
    then show ?thesis using decide unfolding sim_def by blast
  next
    case (committed index n1 n2)
    have "sim ps i n n2" unfolding sim_def
    proof (intro allI impI)
      fix p assume g: "good ps p i n"
      let ?e = "emitLocked en ''COMMITTED'' index [] [] [] n1"
      have i1: "node_inv n1"
        by (rule inv_persist [OF coreD(4) [OF goodD(1) [OF g]] committed(4) available_failed [OF committed(2)]])
      have "reach ps i p n1" using decide [OF g committed(1,3,4)] by simp
      then show "reach ps i p n2"
        by (rule reach_sim) (rule sim_trans [OF sim_emit apply_sim [OF inv_step [OF i1 step_ok_emit] committed(5)]])
    qed
    then show ?thesis using kick_sim [OF committed(6)] by (rule sim_trans)
  qed
qed

section \<open>Elections\<close>

text \<open>A candidate with a majority of the votes is the first and only leader of its term.\<close>

lemma polled_majority:
  assumes "polled ps p i vs" "fmsize ps div 2 < fcard vs"
  shows "majority ps (fset vs)" "\<forall>v \<in> fset vs. \<exists>M. vlog p v (pterm p i) = Some (i, M)"
  using assms by (auto simp: polled_def majority_def fcard.rep_eq less_eq_fset.rep_eq)

lemma no_other_leader:
  assumes inv: "raft_inv ps p" and Q: "majority ps Q" "\<forall>v \<in> Q. \<exists>M. vlog p v T = Some (i, M)" and l: "llog p T = Some (l, L)"
  shows "l = i"
proof -
  obtain R where R: "majority ps R" "\<forall>v \<in> R. \<exists>M. vlog p v T = Some (l, M)"
    using raft_invD(5) [OF inv l] by (fastforce simp: llog_inv_def won_def)
  show ?thesis
    by (rule quorum.one_choice [OF R(1) Q(1), of "\<lambda>v. map_option fst (vlog p v T)"]) (use R(2) Q(2) in fastforce)+
qed

lemma crowned_sim:
  assumes g: "good ps p i n" and r: "role n = Candidate" and v: "votes n = Some vs" "fmsize ps div 2 < fcard vs"
  shows "reach ps i p (crowned en n)"
proof -
  note c = goodD(1) [OF g]
  have f: "failed n = None" using coreD(4) [OF c] r by (auto simp: node_inv_def role_ok_def)
  have rl: "pvote p i = i" "elog p i (pterm p i) = Some (plog p i)" "\<And>L. llog p (pterm p i) \<noteq> Some (i, L)" "polled ps p i vs"
    using goodD(2) [OF g] r v(1) by (auto simp: role_link_def)
  note m = polled_majority [OF rl(4) v(2)]
  have none: "llog p (pterm p i) = None"
    using no_other_leader [OF coreD(2) [OF c] m] rl(3) by (cases "llog p (pterm p i)") auto
  let ?p = "p\<lparr>llog := (llog p)(pterm p i \<mapsto> (i, plog p i))\<rparr>"
  have st: "psteps ps i p ?p" by (rule r_into_rtranclp, rule pstep.lead [OF refl rl(2) none m])
  have c1: "core ps p i (crowned en n)"
    by (rule core_frame [OF c crowned_step [OF f]]) (simp_all add: sent_def)
  have "core ps ?p i (crowned en n)"
  proof -
    have "durable ?p i (crowned en n)" using coreD(10) [OF c1] by (simp add: durable_def rel_def)
    moreover have "memory ?p i (crowned en n)"
      using coreD(11) [OF c1] log_ok_ext [OF core_ext(2) [OF c st]] known_ext [OF core_ext(2) [OF c st]] unfolding memory_def by fastforce
    ultimately show ?thesis using c1 core_ext(1,3) [OF c1 st] unfolding core_def by auto
  qed
  moreover have "role_link ps ?p i (crowned en n)"
    using rl(1) coreD(6) [OF c] by (simp add: role_link_def)
  ultimately show ?thesis using st by (intro reachI) (simp_all add: good_def)
qed

text \<open>The leader's writes: one more entry of its term at the end of its log.\<close>

lemma lead_append_sim:
  assumes g: "good ps p i n" and l: "role n = Leader"
    and pe: "persistLocked en (dTerm (state n)) (dVote (state n)) (dCommit (state n)) (lastLocked n + 1)
        [\<lparr>eIndex = lastLocked n + 1, eTerm = dTerm (state n), eCommand = cmd\<rparr>] n = Some (ok, n')"
  shows "reach ps i p n'"
proof -
  note ll = leader_link [OF g l] and c = goodD(1) [OF g]
  let ?T = "dTerm (state n)" let ?e = "\<lparr>eIndex = lastLocked n + 1, eTerm = ?T, eCommand = cmd\<rparr>"
  let ?p = "p\<lparr>plog := (plog p)(i := plog p i @ [?e]), llog := (llog p)(?T \<mapsto> (i, plog p i @ [?e])),
      acks := insert (i, ?T, Suc (length (plog p i))) (acks p)\<rparr>"
  have st: "psteps ps i p ?p" by (rule r_into_rtranclp, rule pstep.append [OF ll(5,4)]) simp
  have f: "pterm ?p i = ?T" "pvote ?p i = dVote (state n)" "pcommit ?p i = dCommit (state n)"
      "plog ?p i = (if lastLocked n + 1 = 0 then plog p i else take (lastLocked n + 1 - 1) (plog p i) @ [?e])"
    using ll(5,6,7) full_last [OF ll(3)] by (simp_all add: lastLocked_def)
  note pc = persist_core [OF c ll(1) pe st f]
  have "role_link ps ?p i n'" if ok
  proof -
    have "acked ?p j T k" if "acked p j T k" for j T k using that by (auto simp: acked_def)
    then have "role_link ps ?p i n" using goodD(2) [OF g] l ll(5) by (simp add: role_link_def)
    then show ?thesis by (rule role_frame) (use persist_sel [OF pe] that in auto)
  qed
  then show ?thesis using pc by (cases ok) (auto simp: good_def intro: reachI)
qed

lemma own_match_sim:
  assumes "cID (cfg n) = i"
  shows "sim ps i n (n\<lparr>matchIndex := (matchIndex n)(i := k)\<rparr>)"
  unfolding sim_def
proof (intro allI impI)
  fix p assume g: "good ps p i n"
  let ?n = "n\<lparr>matchIndex := (matchIndex n)(i := k)\<rparr>"
  have "core ps p i ?n" by (rule core_frame [OF goodD(1) [OF g] step_ok_upd(2)]) (simp_all add: sent_def)
  moreover have "role_link ps p i ?n" using goodD(2) [OF g] by (auto simp: role_link_def split: Role.splits)
  ultimately show "reach ps i p ?n" by (intro reach_good) (simp add: good_def)
qed

lemma becomeLeader_sim:
  assumes g: "good ps p i n" and r: "role n = Candidate" and v: "votes n = Some vs" "fmsize ps div 2 < fcard vs"
    and b: "becomeLeaderLocked en n = Some n'"
  shows "reach ps i p n'"
proof -
  obtain q where q: "psteps ps i p q" "good ps q i (crowned en n)" using crowned_sim [OF g r v] by (auto simp: reach_def)
  have eq: "state (crowned en n) = state n" "lastLocked (crowned en n) = lastLocked n" by (simp_all add: lastLocked_def)
  have la: "reach ps i q m"
    if "persistLocked en (dTerm (state n)) (dVote (state n)) (dCommit (state n)) (lastLocked n + 1)
        [\<lparr>eIndex = lastLocked n + 1, eTerm = dTerm (state n), eCommand = None\<rparr>] (crowned en n) = Some (ok, m)" for ok m
    using lead_append_sim [OF q(2), unfolded eq, OF _ that] by simp
  have "reach ps i q n'"
    using b
  proof (cases rule: becomeLeader_cases)
    case failed
    then show ?thesis by (rule la)
  next
    case (led n3 n4)
    have id: "cID (cfg n3) = i" using persist_sel(1) [OF led(1)] coreD(5) [OF goodD(1) [OF g]] by simp
    have "reach ps i q (n3\<lparr>matchIndex := (matchIndex n3)(cID (cfg n3) := lastLocked n + 1)\<rparr>)"
      using reach_sim [OF la [OF led(1)] own_match_sim [OF id]] id by simp
    then show ?thesis using reach_sim [OF reach_sim [OF _ advance_sim [OF led(2)]] kick_sim [OF led(3)]] by blast
  qed
  then show ?thesis by (rule reach_after [OF q(1)])
qed

lemma send_votes_sent:
  "sent (send_votes en req l n) \<subseteq> sent n \<union>
     {m. mFrom m = cID (cfg n) \<and> mAppend m = None \<and> (\<exists>k. mVote m = Some (req\<lparr>vqMessageID := k\<rparr>))}"
proof (induction l arbitrary: n)
  case (Cons x l)
  let ?n1 = "if pID x \<noteq> cID (cfg n) then
          (let n1 = n\<lparr>sequence := sequence n + 1\<rparr>;
               request = req\<lparr>vqMessageID := messageID n1\<rparr>;
               n2 = emitLocked en ''VOTE_SENT'' 0 (pID x) (vqMessageID request) [] n1;
               m = \<lparr>mSequence = sequence n2, mFrom = cID (cfg n2), mTo = pID x, mVote = Some request,
                    mAppend = None\<rparr>
           in if manual n2 then n2\<lparr>outbox := outbox n2 @ [m]\<rparr> else n2\<lparr>calls := calls n2 @ [m]\<rparr>)
        else n"
  have "cfg ?n1 = cfg n" by (simp add: Let_def)
  moreover have "sent ?n1 \<subseteq> sent n \<union>
     {m. mFrom m = cID (cfg n) \<and> mAppend m = None \<and> (\<exists>k. mVote m = Some (req\<lparr>vqMessageID := k\<rparr>))}"
    by (auto simp: Let_def sent_def split: if_splits)
  ultimately show ?case using Cons.IH [of ?n1] unfolding send_votes.simps by auto
qed simp

lemma campaign_core:
  assumes g: "good ps p i n" and h: "failed n = None"
    and pe: "persistLocked en (dTerm (state n) + 1) i (dCommit (state n)) 0 [] n = Some (ok, n1)"
  shows "ok \<Longrightarrow> \<exists>p'. psteps ps i p p' \<and> good ps p' i (candidate en n1) \<and> elog p' i (dTerm (state n) + 1) = Some (plog p' i)"
    "\<not> ok \<Longrightarrow> reach ps i p n1"
proof -
  note c = goodD(1) [OF g]
  note r = coreD(12) [OF c h, unfolded rel_def]
  let ?T = "dTerm (state n) + 1"
  let ?p = "p\<lparr>pterm := (pterm p)(i := ?T), pvote := (pvote p)(i := i),
      elog := (elog p)(i := (elog p i)(?T \<mapsto> plog p i)), vlog := (vlog p)(i := (vlog p i)(?T \<mapsto> (i, plog p i)))\<rparr>"
  have lt: "dTerm (state n) < ?T" if "validate (store n) (plain_record (store n) ?T i (dCommit (state n)) 0 []) = Some None"
    using validate_plain(2) [OF node_inv_wf(2) [OF coreD(4) [OF c]] _ that] by (simp add: plain_record_def order_less_le)
  have st: "psteps ps i p ?p" if "validate (store n) (plain_record (store n) ?T i (dCommit (state n)) 0 []) = Some None"
    by (rule r_into_rtranclp, rule pstep.campaign) (use lt [OF that] r coreD(8) [OF c] in auto)
  have f: "pterm ?p i = ?T" "pvote ?p i = i" "pcommit ?p i = dCommit (state n)"
      "plog ?p i = (if (0::nat) = 0 then plog p i else take (0 - 1) (plog p i) @ [])"
    using r by simp_all
  show "reach ps i p n1" if "\<not> ok"
    by (rule persist_core(2) [OF c h pe _ f that]) (rule st)
  assume ok: ok
  have pc: "psteps ps i p ?p \<and> core ps ?p i n1"
    by (rule persist_core(1) [OF c h pe _ f ok]) (rule st)
  have fn: "failed n1 = None" using persist_sel(17) [OF pe ok] h by simp
  have idn: "cID (cfg n1) = i" using persist_sel(1) [OF pe] coreD(5) [OF c] by simp
  have c1: "core ps ?p i (candidate en n1)"
    by (rule core_frame [OF conjunct2 [OF pc] candidate_step [OF fn]]) (simp_all add: sent_def)
  have "llog p ?T \<noteq> Some (i, L)" for L
  proof
    assume "llog p ?T = Some (i, L)"
    then have "?T \<le> pterm p i" using raft_invD(5) [OF coreD(2) [OF c]] by (simp add: llog_inv_def)
    moreover have "dTerm (state n) < ?T"
    proof -
      have j: "sWal (store n) \<noteq> None" by (rule node_inv_wal [OF coreD(4) [OF c]])
      then obtain j where j: "sWal (store n) = Some j" by blast
      from coreD(14) [OF c] j show ?thesis
        by (cases rule: save_cases [where T = ?T and v = i and c = "dCommit (state n)" and f = 0 and es = "[]"])
          (use pe ok lt in \<open>auto simp: persistLocked_def Let_def\<close>)
    qed
    ultimately show False using r by simp
  qed
  then have "role_link ps ?p i (candidate en n1)"
    using coreD(9) [OF c] idn by (simp add: role_link_def polled_def)
  then show "\<exists>p'. psteps ps i p p' \<and> good ps p' i (candidate en n1) \<and> elog p' i ?T = Some (plog p' i)"
    using c1 conjunct1 [OF pc] by (intro exI [of _ ?p]) (simp add: good_def)
qed

lemma startElection_sim:
  assumes h: "failed n = None" and s: "startElectionLocked en n = Some n'"
  shows "sim ps i n n'"
  unfolding sim_def
proof (intro allI impI)
  fix p assume g: "good ps p i n"
  note c = goodD(1) [OF g]
  have id: "cID (cfg n) = i" "peers n = ps" using coreD(5,6) [OF c] by auto
  show "reach ps i p n'"
    using s
  proof (cases rule: startElection_cases)
    case failed
    show ?thesis by (rule campaign_core(2) [OF g h failed [unfolded id]]) simp
  next
    case (alone n1)
    obtain q where q: "psteps ps i p q" "good ps q i (candidate en n1)"
      using campaign_core(1) [OF g h alone(1) [unfolded id] TrueI] by blast
    have v: "votes (candidate en n1) = Some {|cID (cfg n1)|}" "fmsize ps div 2 < fcard {|cID (cfg n1)|}"
      using alone(2) id by (simp, simp add: fcard_finsert_if)
    have "reach ps i q n'" by (rule becomeLeader_sim [OF q(2) _ v alone(3)]) simp
    then show ?thesis by (rule reach_after [OF q(1)])
  next
    case (asked n1 e)
    obtain q where q: "psteps ps i p q" "good ps q i (candidate en n1)" "elog q i (dTerm (state n) + 1) = Some (plog q i)"
      using campaign_core(1) [OF g h asked(1) [unfolded id] TrueI] by blast
    note c1 = goodD(1) [OF q(2)]
    have f1: "failed n1 = None" "cID (cfg n1) = i" using persist_sel(1,17) [OF asked(1)] h id by auto
    have X: "full (plog q i) (store n1)" using coreD(12) [OF c1] f1 by (simp add: rel_def)
    have lt: "lastTerm (plog q i) = eTerm e" "lastLocked n1 = length (plog q i)"
      using full_term(1) [OF X asked(3) [unfolded entryLocked_def]] full_last [OF X] by (simp_all add: lastTerm_def lastLocked_def)
    have cy: "chatty (candidate en n1) n'" unfolding asked(4) by (rule send_votes_chatty)
    note ch = chatty_sel [OF cy]
    have "msg_ok q m \<and> mFrom m = i" if ms: "m \<in> sent n'" for m
    proof (cases "m \<in> sent (candidate en n1)")
      case True
      then show ?thesis using coreD(13,16) [OF c1] by blast
    next
      case False
      then obtain k where "mFrom m = i" "mAppend m = None" "mVote m = Some ((vote_request (dTerm (state n) + 1) e n1)\<lparr>vqMessageID := k\<rparr>)"
        using ms send_votes_sent [of en "vote_request (dTerm (state n) + 1) e n1" "Peers (cfg n1)" "candidate en n1"] asked(4) f1(2)
        by auto
      then show ?thesis using q(3) lt f1(2) by (simp add: msg_ok_def ballot_ok_def vote_request_def)
    qed
    moreover have "node_inv n'" by (rule inv_step [OF coreD(4) [OF c1] chatty_step [OF cy]])
    ultimately have "core ps q i n'" using c1 ch unfolding core_def durable_def memory_def by auto
    moreover have "role_link ps q i n'" by (rule role_frame [OF goodD(2) [OF q(2)]]) (simp add: ch)
    ultimately show ?thesis using q(1) by (intro reachI) (simp_all add: good_def)
  qed
qed

lemma Tick_sim:
  assumes t: "Tick en n = Some n'"
  shows "sim ps i n n'"
proof (cases "availableLocked n \<and> role n \<noteq> Leader \<and> FixedLeader (cfg n) = [] \<and> deadline n \<le> Now en")
  case True
  then have "startElectionLocked en n = Some n'" using t by (simp add: Tick_def)
  then show ?thesis using startElection_sim available_failed True by blast
next
  case False
  then have "n' = n \<or> kickLocked en n = Some n'" using t by (auto simp: Tick_def split: if_splits)
  then show ?thesis using kick_sim by auto
qed

lemma voteResponse_sim:
  assumes g: "good ps p i n" and v: "voteResponseLocked en peer req resp err n = Some n'"
    and granted: "err = None \<Longrightarrow> Granted resp \<Longrightarrow> pID peer |\<in>| fmdom ps \<and> (\<exists>M. vlog p (pID peer) (vqTerm req) = Some (i, M))"
  shows "reach ps i p n'"
proof -
  let ?e = "emitLocked en ''VOTE_RESPONSE'' 0 (pID peer) (vqMessageID req) [] n"
  have count: "good ps p i (?e\<lparr>votes := Some (finsert (pID peer) vs)\<rparr>)" (is "good ps p i ?m")
    if "availableLocked n" "err = None" "role n = Candidate" "dTerm (state n) = vqTerm req" "Granted resp" "votes n = Some vs" for vs
  proof -
    have s: "step_ok n ?m" by (rule step_ok_trans [OF step_ok_emit]) (rule step_ok_upd(12))
    have "core ps p i ?m" by (rule core_frame [OF goodD(1) [OF g] s]) (simp_all add: sent_def)
    moreover have "pterm p i = vqTerm req"
      using coreD(12) [OF goodD(1) [OF g] available_failed [OF that(1)]] that(4) by (simp add: rel_def)
    then have "role_link ps p i ?m" using goodD(2) [OF g] that(3,6) granted [OF that(2,5)] by (auto simp: role_link_def polled_def)
    ultimately show ?thesis by (simp add: good_def)
  qed
  from v show ?thesis
  proof (cases rule: voteResponse_cases)
    case (down ok)
    have "sim ps i n n'" by (rule sim_trans [OF sim_emit stepDown_sim [OF _ down(3)]]) (simp add: available_failed [OF down(1)])
    then show ?thesis using reach_sim [OF reach_good [OF g]] by blast
  next
    case (counted vs)
    then show ?thesis using reach_good [OF count] by blast
  next
    case (won vs)
    show ?thesis
      by (rule becomeLeader_sim [OF count _ _ _ won(9)]) (use won coreD(6) [OF goodD(1) [OF g]] in simp_all)
  qed (use reach_good [OF g] reach_sim [OF reach_good [OF g] sim_emit] in simp_all)
qed

end
