(* ===== verification/Rpc_Sim.thy ===== *)
theory Rpc_Sim
  imports Node_Sim
begin

text \<open>
  The entry points of \<^verbatim>\<open>internal/raft/rpc.go\<close> and \<^verbatim>\<open>runtime.go\<close> as protocol steps: granting a
  vote, receiving entries, counting acknowledgements, proposing.
\<close>

section \<open>RequestVote\<close>

lemma ballot_ok_ext: "extends p p' \<Longrightarrow> ballot_ok p req \<Longrightarrow> ballot_ok p' req"
  using extendsD(2) unfolding ballot_ok_def by blast

lemma reach_keeps:
  assumes "core ps p i n" "psteps ps i p p'"
  shows "extends p p'" "apart i p p'" "protocol_ok ps p'"
  using psteps_keep [OF assms(2) coreD(1) [OF assms(1)]] by auto

lemma up_to_date_newer:
  assumes g: "good ps p i n" and h: "failed n = None" and b: "ballot_ok p req"
    and le: "entryLocked n (lastLocked n) = Some le" "up_to_date req le"
  shows "\<exists>E. elog p (CandidateID req) (vqTerm req) = Some E \<and> newer E (plog p i)"
proof -
  note c = goodD(1) [OF g]
  have X: "full (plog p i) (store n)" using coreD(12) [OF c h] by (simp add: rel_def)
  have "eTerm le = lastTerm (plog p i)" "eIndex le = length (plog p i)"
    using full_term(1) [OF X le(1) [unfolded entryLocked_def]] full_last [OF X]
      store_entry_props(1) [OF node_inv_wf(2) [OF coreD(4) [OF c]] le(1) [unfolded entryLocked_def]]
    by (simp_all add: lastTerm_def lastLocked_def)
  then show ?thesis using b le(2) by (auto simp: ballot_ok_def up_to_date_def newer_def)
qed

lemma vote_decide_sim:
  assumes g: "good ps p i n" and h: "failed n = None" and T: "dTerm (state n) = vqTerm req"
    and b: "ballot_ok p req" "CandidateID req \<noteq> []" and d: "vote_decide en req n = Some ((resp, err), n')"
  shows "reach ps i p n'" "Granted resp \<Longrightarrow> failed n' = None"
proof -
  note c = goodD(1) [OF g]
  note r = coreD(12) [OF c h, unfolded rel_def]
  let ?p = "p\<lparr>pvote := (pvote p)(i := CandidateID req), vlog := (vlog p)(i := (vlog p i)(vqTerm req \<mapsto> (CandidateID req, plog p i)))\<rparr>"
  have st: "psteps ps i p ?p" if v: "dVote (state n) = []" "entryLocked n (lastLocked n) = Some le" "up_to_date req le" for le
  proof -
    obtain E where "elog p (CandidateID req) (vqTerm req) = Some E" "newer E (plog p i)"
      using up_to_date_newer [OF g h b(1) v(2,3)] by blast
    then show ?thesis by (intro r_into_rtranclp pstep.vote) (use r T b(2) v(1) in auto)
  qed
  have f: "pterm ?p i = vqTerm req" "pvote ?p i = CandidateID req" "pcommit ?p i = dCommit (state n)"
      "plog ?p i = (if (0::nat) = 0 then plog p i else take (0 - 1) (plog p i) @ [])"
    using r T by simp_all
  have sg: "sim ps i m (granting en req m)" for m
    unfolding granting_def by (rule sim_trans [OF sim_reset sim_emit])
  have "reach ps i p n' \<and> (Granted resp \<longrightarrow> failed n' = None)"
    using d
  proof (cases rule: vote_decide_cases)
    case denied
    then show ?thesis using reach_good [OF g] by (simp add: vote_response_def)
  next
    case (failed le)
    then show ?thesis using persist_core(2) [OF c h failed(2) st [OF failed(1,4,5)] f] by (simp add: vote_response_def)
  next
    case (voted le n1)
    have pc: "psteps ps i p ?p" "core ps ?p i n1" using persist_core(1) [OF c h voted(4) st [OF voted(1,2,3)] f] by auto
    have "role n = Follower"
      using goodD(2) [OF g] r voted(1) coreD(8) [OF c] by (auto simp: role_link_def split: Role.splits)
    then have "good ps ?p i n1" using pc(2) persist_sel(17) [OF voted(4)] by (simp add: good_def role_follower)
    then have "reach ps i p n1" by (rule reachI [OF pc(1)])
    then show ?thesis using reach_sim [OF _ sg] voted(5) persist_sel(17) [OF voted(4)] h by simp
  next
    case (again le)
    then show ?thesis using reach_sim [OF reach_good [OF g] sg] h by simp
  qed
  then show "reach ps i p n'" "Granted resp \<Longrightarrow> failed n' = None" by auto
qed

lemma asked_sim: "sim ps i n (asked en req n)"
  unfolding asked_def by (rule sim_emit)

lemma RequestVote_sim:
  assumes g: "good ps p i n" and b: "ballot_ok p req" and rv: "RequestVote en req n = Some ((resp, err), n')"
  shows "\<exists>p'. psteps ps i p p' \<and> good ps p' i n' \<and> (Granted resp \<longrightarrow> (\<exists>M. vlog p' i (vqTerm req) = Some (CandidateID req, M)))"
proof -
  note c = goodD(1) [OF g]
  have cid: "CandidateID req \<noteq> []" if "member n (CandidateID req) (vqClusterID req)"
    using that coreD(6,15) [OF c] by (auto simp: member_def)
  have "reach ps i p n' \<and> (Granted resp \<longrightarrow> failed n' = None)"
    using rv
  proof (cases rule: RequestVote_cases)
    case (rejected e)
    then show ?thesis using reach_good [OF g] by (simp add: vote_response_def)
  next
    case refused
    then show ?thesis using reach_sim [OF reach_good [OF g] asked_sim] by (simp add: vote_response_def)
  next
    case downfail
    then show ?thesis
      using reach_sim [OF reach_sim [OF reach_good [OF g] asked_sim] stepDown_sim [OF _ downfail(3)]] available_failed
      by (simp add: vote_response_def)
  next
    case (newer n2)
    have fa: "failed (asked en req n) = None" using available_failed [OF newer(1)] by simp
    have "reach ps i p n2" by (rule reach_sim [OF reach_sim [OF reach_good [OF g] asked_sim] stepDown_sim [OF fa newer(5)]])
    then obtain q where q: "psteps ps i p q" "good ps q i n2" by (auto simp: reach_def)
    have bq: "ballot_ok q req" using ballot_ok_ext [OF reach_keeps(1) [OF c q(1)] b] .
    have ia: "node_inv (asked en req n)" by (rule inv_step [OF coreD(4) [OF c] asked_step])
    have t: "dTerm (state n2) = vqTerm req" using stepDown_state [OF ia newer(5)] newer(4) by simp
    have f2: "failed n2 = None" using stepDown_sel(15) [OF newer(5)] fa by simp
    note d = vote_decide_sim [OF q(2) f2 t bq cid [OF newer(2)] newer(6)]
    then show ?thesis using reach_after [OF q(1)] by blast
  next
    case same
    obtain q where q: "psteps ps i p q" "good ps q i (asked en req n)"
      using reach_sim [OF reach_good [OF g] asked_sim] by (auto simp: reach_def)
    have bq: "ballot_ok q req" using ballot_ok_ext [OF reach_keeps(1) [OF c q(1)] b] .
    have f: "failed (asked en req n) = None" "dTerm (state (asked en req n)) = vqTerm req"
      using available_failed [OF same(1)] same(4) by simp_all
    note d = vote_decide_sim [OF q(2) f bq cid [OF same(2)] same(5)]
    then show ?thesis using reach_after [OF q(1)] by blast
  qed
  then obtain q where q: "psteps ps i p q" "good ps q i n'" "Granted resp \<Longrightarrow> failed n' = None" by (auto simp: reach_def)
  have "\<exists>M. vlog q i (vqTerm req) = Some (CandidateID req, M)" if gr: "Granted resp"
  proof -
    note rg = RequestVote_granted [OF coreD(4) [OF c] rv gr]
    have "rel q i (store n')" by (rule coreD(12) [OF goodD(1) [OF q(2)] q(3) [OF gr]])
    then have "pvote q i = CandidateID req" "pterm q i = vqTerm req" using rg by (auto simp: rel_def)
    then show ?thesis using coreD(3) [OF goodD(1) [OF q(2)]] cid rg unfolding ballots_def by metis
  qed
  then show ?thesis using q by blast
qed

section \<open>AppendEntries\<close>

text \<open>The received entries, which follow the common prefix of the two logs, turn the log into the leader's.\<close>

lemma merge_follow:
  assumes "full X (store n)" "merge_entries n T (Suc k) es = Some (Inr (f, fs))"
    "es = take (length es) (drop k L)" "k + length es \<le> length L" "take k X = take k L" "k \<le> length X" "dBase (state n) \<le> k"
  shows "(f = 0 \<and> take (k + length es) X = take (k + length es) L) \<or>
    (0 < f \<and> take (f - 1) X @ fs = take (k + length es) L \<and> take (k + length es) X \<noteq> take (k + length es) L)"
  using assms(2-)
proof (induction es arbitrary: k)
  case Nil
  then show ?case by simp
next
  case (Cons e es)
  have kL: "k < length L" using Cons.prems(3) by simp
  have e: "e = L ! k" "es = take (length es) (drop (Suc k) L)"
    using Cons.prems(2) kL by (simp_all add: Cons_nth_drop_Suc [symmetric])
  have ix: "eIndex e = Suc k" using Cons.prems(1) by (auto split: if_split_asm)
  let ?m = "k + length (e # es)"
  have "take ?m L = take k L @ take (length (e # es)) (drop k L)" by (rule take_add)
  then have app: "take k X @ (e # es) = take ?m L" by (simp only: Cons.prems(2) [symmetric] Cons.prems(4))
  have lst: "lastLocked n = length X" using full_last [OF assms(1)] by (simp add: lastLocked_def)
  show ?case
  proof (cases "length X \<le> k")
    case True
    then have "f = Suc k" "fs = e # es" using Cons.prems(1,6) ix lst by (auto split: if_split_asm)
    moreover have "take ?m X \<noteq> take ?m L" using True Cons.prems(3) by (auto dest: arg_cong [of _ _ length])
    ultimately show ?thesis using app by simp
  next
    case False
    then have "entryLocked n (Suc k) = Some (X ! k)"
      using full_entry [OF assms(1), of "Suc k"] Cons.prems(6) by (simp add: entryLocked_def)
    note mine = this
    show ?thesis
    proof (cases "eTerm (X ! k) = eTerm e")
      case t: False
      then have "f = Suc k" "fs = e # es" using Cons.prems(1,6) ix lst mine False by (auto split: if_split_asm)
      moreover have "take ?m X \<noteq> take ?m L"
      proof
        assume "take ?m X = take ?m L"
        then have "take ?m X ! k = take ?m L ! k" by simp
        then show False using t e(1) by simp
      qed
      ultimately show ?thesis using app by simp
    next
      case t: True
      then have "e = X ! k" and m: "merge_entries n T (Suc (Suc k)) es = Some (Inr (f, fs))"
        using Cons.prems(1,6) ix lst mine False by (auto split: if_split_asm)
      then have "take (Suc k) X = take (Suc k) L"
        using Cons.prems(4) False kL e(1) by (simp add: take_Suc_conv_app_nth)
      from Cons.IH [OF m e(2) _ this] show ?thesis using Cons.prems(3,6) False by simp
    qed
  qed
qed

lemma requestE:
  assumes "request_ok p req"
  obtains L where "llog p (aqTerm req) = Some (LeaderID req, L)" "PrevLogIndex req + length (aqEntries req) \<le> length L"
    "aqEntries req = take (length (aqEntries req)) (drop (PrevLogIndex req) L)" "PrevLogTerm req = term_at L (PrevLogIndex req)"
    "known p (aqTerm req) (LeaderCommit req)"
  using assms unfolding request_ok_def by blast

lemma common_prefix:
  assumes c: "core ps p i n" and h: "failed n = None" and L: "llog p T = Some (l, L)"
    and pe: "entryLocked n k = Some pe" "eTerm pe = term_at L k" "k \<le> length L"
  shows "take k (plog p i) = take k L" "k \<le> length (plog p i)"
proof -
  have X: "full (plog p i) (store n)" using coreD(12) [OF c h] by (simp add: rel_def)
  note t = full_term [OF X pe(1) [unfolded entryLocked_def]]
  show "k \<le> length (plog p i)" by (rule t(2))
  have "log_ok p L T" by (rule llog_parts [OF coreD(2) [OF c] L])
  then show "take k (plog p i) = take k L"
    using raft_invD(1) [OF coreD(2) [OF c], of i] t pe by (intro rooted_matching [of p]) (simp_all add: log_ok_def)
qed

lemma append_accept_sim:
  assumes g: "good ps p i n" and h: "failed n = None" and r: "role n = Follower" and T: "dTerm (state n) = aqTerm req"
    and q: "request_ok p req" "LeaderID req \<noteq> i" and pe: "entryLocked n (PrevLogIndex req) = Some pe" "eTerm pe = PrevLogTerm req"
    and a: "append_accept en req n = Some ((resp, err), n')"
  shows "\<exists>p'. psteps ps i p p' \<and> good ps p' i n' \<and>
    (Success resp \<longrightarrow> acked p' i (aqTerm req) (PrevLogIndex req + length (aqEntries req)))"
proof -
  let ?k = "PrevLogIndex req" let ?m = "?k + length (aqEntries req)" let ?X = "plog p i" let ?T = "aqTerm req"
  note c = goodD(1) [OF g]
  note rl = coreD(12) [OF c h, unfolded rel_def]
  then have X: "full ?X (store n)" by blast
  obtain L where L: "llog p ?T = Some (LeaderID req, L)" "?m \<le> length L" "aqEntries req = take (length (aqEntries req)) (drop ?k L)"
    "PrevLogTerm req = term_at L ?k" "known p ?T (LeaderCommit req)"
    by (rule requestE [OF q(1)])
  have kL: "eTerm pe = term_at L ?k" "?k \<le> length L" using L(2,4) pe(2) by simp_all
  note cp = common_prefix [OF c h L(1) pe(1) kL]
  have bk: "dBase (state n) \<le> ?k" using pe(1) by (simp add: entryLocked_def store_entry_SomeD)
  let ?p = "p\<lparr>plog := (plog p)(i := follow L ?m ?X), pcommit := (pcommit p)(i := max (pcommit p i) (min (LeaderCommit req) ?m)),
      acks := insert (i, ?T, ?m) (acks p)\<rparr>"
  have st: "psteps ps i p ?p"
    by (rule r_into_rtranclp, rule pstep.receive [OF _ L(1) q(2) L(2,5)]) (use rl T in simp)
  have ack: "acked ?p i ?T ?m" by (auto simp: acked_def)
  have fol: "follow L ?m ?X = (if f = 0 then ?X else take (f - 1) ?X @ fs)"
    if "merge_entries n ?T (?k + 1) (aqEntries req) = Some (Inr (f, fs))" for f fs
    using merge_follow [OF X _ L(3,2) cp bk] that by (auto simp: follow_def)
  have cm: "max (pcommit p i) (min (LeaderCommit req) ?m) =
      (if dCommit (state n) < LeaderCommit req then max (min (LeaderCommit req) ?m) (dCommit (state n)) else dCommit (state n))"
    using rl by auto
  have rep: "core ps p i (note_repair en req f n)" "failed (note_repair en req f n) = None" "role (note_repair en req f n) = Follower" for f
    using core_frame [OF c repair_step] h r by (simp_all add: sent_def)
  from a show ?thesis
  proof (cases rule: append_accept_cases)
    case (refused e)
    then show ?thesis using g by (auto simp: append_response_def)
  next
    case (unchanged es)
    have "plog ?p i = ?X" using fol [OF unchanged(1)] by simp
    moreover have "pcommit ?p i = pcommit p i" using unchanged(4) rl by auto
    ultimately have "rel ?p i t = rel p i t" for t by (simp add: rel_def)
    then have "durable ?p i n'" using coreD(10) [OF c] unchanged(3) by (simp add: durable_def)
    moreover have "memory ?p i n'"
      using coreD(11) [OF c] unchanged(3) \<open>plog ?p i = ?X\<close> \<open>pcommit ?p i = pcommit p i\<close> log_ok_ext [OF core_ext(2) [OF c st]]
        known_ext [OF core_ext(2) [OF c st]]
      unfolding memory_def by fastforce
    ultimately have "core ps ?p i n'" using c core_ext(1,3) [OF c st] unchanged(3) unfolding core_def by auto
    then show ?thesis using st ack r unchanged(3) by (intro exI [of _ ?p]) (simp add: good_def role_follower)
  next
    case (failed cc f es)
    have f4: "pterm ?p i = dTerm (state n)" "pvote ?p i = dVote (state n)" "pcommit ?p i = cc"
      "plog ?p i = (if f = 0 then ?X else take (f - 1) ?X @ es)"
      using rl fol [OF failed(1)] cm failed(4) by simp_all
    show ?thesis using persist_core(2) [OF rep(1,2) failed(2) st f4] failed(3) by (simp add: reach_def append_response_def)
  next
    case (stored n2 f es)
    have f4: "pterm ?p i = dTerm (state n)" "pvote ?p i = dVote (state n)" "pcommit ?p i = (if dCommit (state n) < LeaderCommit req
            then max (min (LeaderCommit req) ?m) (dCommit (state n)) else dCommit (state n))"
      "plog ?p i = (if f = 0 then ?X else take (f - 1) ?X @ es)"
      using rl fol [OF stored(1)] cm by simp_all
    have c2: "core ps ?p i n2" using persist_core(1) [OF rep(1,2) stored(3) st f4] by simp
    have "role n2 = Follower" using persist_sel(17) [OF stored(3)] rep(3) by simp
    then have g2: "good ps ?p i n2" using c2 by (simp add: good_def role_follower)
    obtain p2 where p2: "psteps ps i ?p p2" "good ps p2 i n'"
      using reach_sim [OF reach_good [OF g2] apply_sim [OF coreD(4) [OF c2] stored(4)]] by (auto simp: reach_def)
    have "acked p2 i ?T ?m" using extendsD(4) [OF reach_keeps(1) [OF c2 p2(1)] ack] .
    then show ?thesis using st p2 by (intro exI [of _ p2]) (auto intro: rtranclp_trans)
  qed
qed

lemma AppendEntries_sim:
  assumes g: "good ps p i n" and q: "request_ok p req" and a: "AppendEntries en req n = Some ((resp, err), n')"
  shows "\<exists>p'. psteps ps i p p' \<and> good ps p' i n' \<and>
    (Success resp \<longrightarrow> acked p' i (aqTerm req) (PrevLogIndex req + length (aqEntries req)))"
proof -
  note c = goodD(1) [OF g]
  have sh: "sim ps i n (heard en req n)" unfolding heard_def by (rule sim_emit)
  note gh = reach_sim [OF reach_good [OF g] sh]
  from a show ?thesis
  proof (cases rule: AppendEntries_cases)
    case (rejected e)
    then show ?thesis using g by (auto simp: append_response_def)
  next
    case stale
    then show ?thesis using gh by (auto simp: append_response_def reach_def)
  next
    case downfail
    have "failed (heard en req n) = None" using available_failed [OF downfail(1)] by simp
    from reach_sim [OF gh stepDown_sim [OF this downfail(2)]] show ?thesis
      using downfail(3) by (auto simp: append_response_def reach_def)
  next
    case (checked n2)
    let ?t = "resetTimerLocked en n2"
    have fh: "failed (heard en req n) = None" using available_failed [OF checked(1)] by simp
    have "reach ps i p ?t" by (rule reach_sim [OF reach_sim [OF gh stepDown_sim [OF fh checked(4)]] sim_reset])
    then obtain p1 where p1: "psteps ps i p p1" "good ps p1 i ?t" by (auto simp: reach_def)
    have ih: "node_inv (heard en req n)" by (rule inv_step [OF coreD(4) [OF c] heard_step])
    have T: "dTerm (state ?t) = aqTerm req" using stepDown_state [OF ih checked(4)] checked(3) by auto
    have f: "failed ?t = None" "role ?t = Follower" using stepDown_sel(4,15) [OF checked(4)] fh by simp_all
    have q1: "request_ok p1 req" using request_ok_ext [OF reach_keeps(1) [OF c p1(1)] q] .
    have l: "LeaderID req \<noteq> i" using checked(2) coreD(5) [OF c] by (auto simp: member_def)
    from checked(5) show ?thesis
    proof (cases rule: append_check_cases)
      case (mismatch ci)
      then show ?thesis using p1 by (auto simp: append_response_def)
    next
      case (consistent pe)
      from append_accept_sim [OF p1(2) f T q1 l consistent] show ?thesis using p1(1) by (meson rtranclp_trans)
    qed
  qed
qed

section \<open>Responses and proposals\<close>

lemma peerOf_id: "core ps p i n \<Longrightarrow> (\<And>j x. fmlookup ps j = Some x \<Longrightarrow> pID x = j) \<Longrightarrow> pID (peerOf n j) = j \<or> pID (peerOf n j) = []"
  using coreD(6) by (auto simp: peerOf_def zeroPeer_def split: option.splits)

lemma acceptAppend_sim:
  assumes g: "good ps p i n" and sy: "synced n" and a: "acceptAppendLocked en peer req resp err n = Some (again, n')"
    and ak: "err = None \<Longrightarrow> Success resp \<Longrightarrow> pID peer |\<in>| fmdom ps \<Longrightarrow> acked p (pID peer) (aqTerm req) (PrevLogIndex req + length (aqEntries req))"
  shows "reach ps i p n'"
proof -
  note c = goodD(1) [OF g]
  let ?a = "answered en peer req resp err n"
  have sa: "sim ps i n ?a" unfolding answered_def by simp
  from a show ?thesis
  proof (cases rule: acceptAppend_cases)
    case (down ok)
    have "failed ?a = None" using available_failed [OF down(1)] by simp
    from reach_sim [OF reach_sim [OF reach_good [OF g] sa] stepDown_sim [OF this down(4)]] show ?thesis .
  next
    case (matched n3)
    let ?m = "matched_to peer req ?a"
    have s: "step_ok n ?m" by (rule step_ok_trans [OF answered_step matched_to_step])
    have "core ps p i ?m" by (rule core_frame [OF c s]) (simp_all add: sent_def matched_to_def Let_def)
    moreover have "role_link ps p i ?m"
      using goodD(2) [OF g] matched(3) ak [OF matched(2,6)] leader_link(5) [OF g matched(3)] matched(4)
      by (auto simp: role_link_def matched_to_def Let_def max_def)
    ultimately have gm: "good ps p i ?m" by (simp add: good_def)
    have "synced n3" using step_ok_trans [OF s advance_step [OF matched(7)]] sy coreD(4) [OF c] by (simp add: step_ok_def)
    then show ?thesis
      using reach_sim [OF reach_sim [OF reach_good [OF gm] advance_sim [OF matched(7)]] maybeSnapshot_sim [OF _ matched(8)]] by blast
  next
    case backed
    have "sim ps i ?a n'" unfolding backed(8) Let_def by (rule sim_frame) (simp_all add: sent_def)
    then show ?thesis using reach_sim [OF reach_sim [OF reach_good [OF g] sa]] by blast
  qed (use reach_good [OF g] reach_sim [OF reach_good [OF g] sa] in simp_all)
qed

lemma DeliverAppend_sim:
  assumes g: "good ps p i n" and sy: "synced n" and d: "DeliverAppend en m resp err n = Some n'"
    and ak: "\<And>req. mAppend m = Some req \<Longrightarrow> err = None \<Longrightarrow> Success resp \<Longrightarrow> pID (peerOf n (mTo m)) |\<in>| fmdom ps \<Longrightarrow>
      acked p (pID (peerOf n (mTo m))) (aqTerm req) (PrevLogIndex req + length (aqEntries req))"
  shows "reach ps i p n'"
  using d
proof (cases rule: DeliverAppend_cases)
  case ignored
  then show ?thesis using reach_good [OF g] by simp
next
  case (taken req again n1)
  let ?b = "n\<lparr>busy := (busy n)(mTo m := 0)\<rparr>"
  have "core ps p i ?b" by (rule core_frame [OF goodD(1) [OF g] step_ok_upd(6)]) (simp_all add: sent_def)
  then have gb: "good ps p i ?b" using role_frame [OF goodD(2) [OF g], of ?b] by (simp add: good_def)
  have "reach ps i p n1"
    by (rule acceptAppend_sim [OF gb _ taken(3)]) (use sy ak [OF taken(1)] in \<open>simp_all add: synced_def\<close>)
  then show ?thesis using taken(4) reach_sim queue_sim by blast
qed

lemma submit_sim:
  assumes s: "submitLocked en command key n = Some (r, n')"
  shows "sim ps i n n'"
  unfolding sim_def
proof (intro allI impI)
  fix p assume g: "good ps p i n"
  show "reach ps i p n'"
    using s
  proof (cases rule: submit_cases)
    case (refused err)
    then show ?thesis using reach_good [OF g] by simp
  next
    case failed
    then show ?thesis using lead_append_sim [OF g] by blast
  next
    case (proposed n1 n3)
    have r1: "reach ps i p n1" by (rule lead_append_sim [OF g proposed(2,5)])
    have id: "cID (cfg n1) = i" using persist_sel(1) [OF proposed(5)] coreD(5) [OF goodD(1) [OF g]] by simp
    let ?m = "n1\<lparr>matchIndex := (matchIndex n1)(i := lastLocked n + 1)\<rparr>" and ?r = "registered en (lastLocked n + 1) key n1"
    have "sim ps i n1 ?r" unfolding sim_def
    proof (intro allI impI)
      fix q assume h: "good ps q i n1"
      have "core ps q i ?r" by (rule core_frame [OF goodD(1) [OF h] registered_step]) (simp_all add: sent_def)
      moreover have "role_link ps q i ?r"
        using goodD(2) [OF h] id by (auto simp: role_link_def registered_def split: Role.splits)
      ultimately show "reach ps i q ?r" by (intro reach_good) (simp add: good_def)
    qed
    from reach_sim [OF reach_sim [OF reach_sim [OF r1 this] advance_sim [OF proposed(6)]] kick_sim [OF proposed(7)]] show ?thesis .
  qed
qed

lemma replicate_begin_sim:
  assumes g: "good ps p i n" and r: "replicate_begin en peer n = Some (Some req, n')"
  shows "good ps p i n'" "request_ok p req" "LeaderID req = i"
proof -
  have l: "role n = Leader" and pr: "prepareAppendLocked en peer n = Some (req, n')"
    using r by (auto simp: replicate_begin_def split: if_splits elim!: bind_SomeE)
  obtain ev where n': "n' = n\<lparr>sequence := sequence n + 1, events := ev\<rparr>" using prepare_eq [OF pr] by blast
  have "core ps p i n'" by (rule core_frame [OF goodD(1) [OF g] replicate_begin_step [OF r]]) (simp_all add: sent_def n')
  then show "good ps p i n'" using role_frame [OF goodD(2) [OF g], of n'] n' by (simp add: good_def)
  show "request_ok p req" "LeaderID req = i" using prepare_ok [OF g l pr] by auto
qed

section \<open>Control\<close>

lemma Drain_sim: "sim ps i n (snd (DrainMessages n))"
  by (rule sim_frame [OF Drain_step]) (auto simp: DrainMessages_def sent_def)

lemma Close_sim: "sim ps i n (Close n)"
  by (rule sim_frame [OF Close_step]) (auto simp: Close_def sent_def)

lemma Cancel_sim: "sim ps i n (Cancel t n)"
  by (rule sim_frame [OF Cancel_step]) (auto simp: Cancel_def sent_def split: option.splits)

lemma Poll_sim: "Poll t n = (r, n') \<Longrightarrow> sim ps i n n'"
  by (rule sim_frame [OF Poll_step]) (auto simp: Poll_def sent_def split: list.splits)

lemma propose_end_sim: "propose_end t timeout n = (r, n') \<Longrightarrow> sim ps i n n'"
  by (rule sim_frame [OF propose_end_step])
    (auto simp: propose_end_def Cancel_def sent_def split: list.splits if_splits option.splits)

lemma SetPaused_sim:
  assumes "SetPaused en b n = Some n'"
  shows "sim ps i n n'"
proof -
  have s1: "sim ps i n (n\<lparr>paused := b\<rparr>)" by (rule sim_frame [OF step_ok_upd(9)]) (simp_all add: sent_def)
  obtain n2 where n2: "(if b then Some (failPendingLocked ErrUnavailable (n\<lparr>paused := b\<rparr>))
      else kickLocked en (resetTimerLocked en (n\<lparr>paused := b\<rparr>))) = Some n2"
    and n': "n' = emitLocked en (if b then ''PAUSED'' else ''RESUMED'') 0 [] [] [] n2"
    using assms by (auto simp: SetPaused_def Let_def elim!: bind_SomeE)
  have "sim ps i (n\<lparr>paused := b\<rparr>) n2"
  proof (cases b)
    case True
    then show ?thesis using n2 sim_failPending by auto
  next
    case False
    then have k: "kickLocked en (resetTimerLocked en (n\<lparr>paused := b\<rparr>)) = Some n2" using n2 by simp
    show ?thesis by (rule sim_trans [OF sim_reset kick_sim [OF k]])
  qed
  then show ?thesis unfolding n' using sim_trans [OF s1 sim_trans [OF _ sim_emit]] by blast
qed

end
