(* ===== verification/Refinement.thy ===== *)
theory Refinement
  imports Cluster Rpc_Sim
begin

text \<open>
  A cluster of nodes refines the abstract protocol: there is a protocol state \<open>p\<close> that every
  process stands for, up or down, and every step of the cluster is a sequence of protocol steps of
  one process.  Requests and responses on the wires are backed by the history, so losing,
  duplicating, delaying and reordering them changes nothing.
\<close>

section \<open>The simulation relation\<close>

definition down_link :: "(Config \<Rightarrow> string) \<Rightarrow> (string \<Rightarrow> Config) \<Rightarrow> Proto \<Rightarrow> string \<Rightarrow> journalRecord journal \<Rightarrow> bool" where
  "down_link identity cfgs p i j \<longleftrightarrow>
     (\<forall>t. openStoreUsing (identity (default_config (cfgs i))) None j = Some (Inr t) \<longrightarrow> rel p i t)"

definition vreply_ok :: "Proto \<Rightarrow> Message \<Rightarrow> VoteResponse \<Rightarrow> bool" where
  "vreply_ok p m resp \<longleftrightarrow> (\<forall>req. mVote m = Some req \<longrightarrow> CandidateID req = mFrom m \<and>
     (Granted resp \<longrightarrow> (\<exists>M. vlog p (mTo m) (vqTerm req) = Some (mFrom m, M))))"

definition areply_ok :: "Proto \<Rightarrow> Message \<Rightarrow> AppendResponse \<Rightarrow> bool" where
  "areply_ok p m resp \<longleftrightarrow> (\<forall>req. mAppend m = Some req \<longrightarrow> Success resp \<longrightarrow>
     acked p (mTo m) (aqTerm req) (PrevLogIndex req + length (aqEntries req)))"

definition refines :: "(Config \<Rightarrow> string) \<Rightarrow> (string \<Rightarrow> Config) \<Rightarrow> (string, Peer) fmap \<Rightarrow> Proto \<Rightarrow> Cluster \<Rightarrow> bool" where
  "refines identity cfgs ps p c \<longleftrightarrow> protocol_ok ps p \<and> (\<forall>i n. procs c i = Up n \<longrightarrow> good ps p i n) \<and>
     (\<forall>i j. procs c i = Down j \<longrightarrow> down_link identity cfgs p i j) \<and> (\<forall>m \<in> wires c. msg_ok p m) \<and>
     (\<forall>m resp err. (m, resp, err) \<in> vreplies c \<longrightarrow> vreply_ok p m resp) \<and>
     (\<forall>m resp err. (m, resp, err) \<in> areplies c \<longrightarrow> areply_ok p m resp)"

lemma refinesD:
  assumes "refines identity cfgs ps p c"
  shows "protocol_ok ps p" "procs c i = Up n \<Longrightarrow> good ps p i n" "procs c i = Down j \<Longrightarrow> down_link identity cfgs p i j"
    "m \<in> wires c \<Longrightarrow> msg_ok p m" "(m, resp, err) \<in> vreplies c \<Longrightarrow> vreply_ok p m resp"
    "(m, aresp, err) \<in> areplies c \<Longrightarrow> areply_ok p m aresp"
  using assms unfolding refines_def by blast+

lemma vreply_ext: "extends p p' \<Longrightarrow> vreply_ok p m resp \<Longrightarrow> vreply_ok p' m resp"
  using extendsD(3) unfolding vreply_ok_def by blast

lemma areply_ext: "extends p p' \<Longrightarrow> areply_ok p m resp \<Longrightarrow> areply_ok p' m resp"
  using extendsD(4) unfolding areply_ok_def by blast

text \<open>The other processes do not notice.\<close>

lemma rel_apart: "apart i p p' \<Longrightarrow> j \<noteq> i \<Longrightarrow> rel p' j s = rel p j s"
  by (simp add: apart_def rel_def)

lemma good_apart:
  assumes g: "good ps p j n" and a: "apart i p p'" "j \<noteq> i" and x: "extends p p'" and ok: "protocol_ok ps p'"
  shows "good ps p' j n"
proof -
  have f: "pterm p' j = pterm p j" "pvote p' j = pvote p j" "plog p' j = plog p j" "pcommit p' j = pcommit p j"
    "\<And>T L. llog p' T = Some (j, L) \<longleftrightarrow> llog p T = Some (j, L)" using a by (auto simp: apart_def)
  have "memory p' j n"
    using coreD(11) [OF goodD(1) [OF g]] log_ok_ext [OF x] known_ext [OF x] f unfolding memory_def by fastforce
  then have "core ps p' j n"
    using goodD(1) [OF g] ok msg_ok_ext [OF x] rel_apart [OF a] unfolding core_def durable_def by auto
  moreover have po: "polled ps p' j vs" if "polled ps p j vs" for vs
    using that f(1) extendsD(3) [OF x] unfolding polled_def by metis
  have "role_link ps p' j n"
    using goodD(2) [OF g] po extendsD(2,4) [OF x] by (auto simp: role_link_def f split: Role.splits)
  ultimately show ?thesis by (simp add: good_def)
qed

lemma refines_put:
  assumes r: "refines identity cfgs ps p c" and st: "psteps ps i p p'" and g: "good ps p' i n'"
  shows "refines identity cfgs ps p' (put i n' c)"
proof -
  note k = psteps_keep [OF st refinesD(1) [OF r]]
  then have x: "extends p p'" and a: "apart i p p'" and ok: "protocol_ok ps p'" by auto
  show ?thesis unfolding refines_def
  proof (intro conjI allI impI ballI)
    fix j n assume "procs (put i n' c) j = Up n"
    then show "good ps p' j n"
      using g good_apart [OF refinesD(2) [OF r] a _ x ok] by (cases "j = i") (auto simp: put_def)
  next
    fix j l assume "procs (put i n' c) j = Down l"
    then have "j \<noteq> i" "down_link identity cfgs p j l" using refinesD(3) [OF r] by (auto simp: put_def split: if_splits)
    then show "down_link identity cfgs p' j l" using rel_apart [OF a] by (simp add: down_link_def)
  next
    fix m assume "m \<in> wires (put i n' c)"
    then show "msg_ok p' m"
      using msg_ok_ext [OF x refinesD(4) [OF r]] coreD(13) [OF goodD(1) [OF g]] by (auto simp: put_def sent_def)
  next
    fix m resp err assume "(m, resp, err) \<in> vreplies (put i n' c)"
    then show "vreply_ok p' m resp" using vreply_ext [OF x refinesD(5) [OF r]] by (auto simp: put_def)
  next
    fix m resp err assume "(m, resp, err) \<in> areplies (put i n' c)"
    then show "areply_ok p' m resp" using areply_ext [OF x refinesD(6) [OF r]] by (auto simp: put_def)
  qed (rule ok)
qed

section \<open>Every step\<close>

definition follows :: "(Config \<Rightarrow> string) \<Rightarrow> (string \<Rightarrow> Config) \<Rightarrow> (string, Peer) fmap \<Rightarrow> Proto \<Rightarrow> Cluster \<Rightarrow> bool" where
  "follows identity cfgs ps p c \<longleftrightarrow> (\<exists>i p'. psteps ps i p p' \<and> refines identity cfgs ps p' c)"

lemma reach_follows: "refines identity cfgs ps p c \<Longrightarrow> reach ps i p n' \<Longrightarrow> follows identity cfgs ps p (put i n' c)"
  unfolding reach_def follows_def using refines_put by blast

lemma sim_follows:
  "refines identity cfgs ps p c \<Longrightarrow> procs c i = Up n \<Longrightarrow> sim ps i n n' \<Longrightarrow> follows identity cfgs ps p (put i n' c)"
  using reach_follows reach_sim [OF reach_good] refinesD(2) by blast

lemma initial_refines:
  assumes "initial c"
  shows "refines identity cfgs ps proto_init c"
proof -
  have "down_link identity cfgs proto_init i j" if "procs c i = Down j" for i j
  proof -
    have e: "journal_records j = []" using assms that unfolding initial_def by (metis proc.inject(2))
    have "rel proto_init i t" if o: "openStoreUsing (identity (default_config (cfgs i))) None j = Some (Inr t)" for t
    proof -
      let ?s = "(initStore (identity (default_config (cfgs i))))\<lparr>sWal := Some (reopened j)\<rparr>"
      have sv: "save ?s 0 [] 0 0 [] = Some (None, t)"
        using o e by (auto simp: openStoreUsing_def Let_def split: option.splits)
      have w: "wf_store ?s" "sWal ?s = Some (reopened j)" using wf_store_init by (simp_all add: wf_store_def)
      have i0: "sState ?s = \<lparr>dTerm = 0, dVote = [], dCommit = 0, dBase = 0, dLog = [zeroEntry]\<rparr>" by (simp add: initStore_def)
      note s6 = save_state(6) [OF w sv refl, unfolded i0, simplified]
      then show ?thesis by (simp add: rel_def full_def proto_init_def base_machine_def)
    qed
    then show ?thesis by (simp add: down_link_def)
  qed
  moreover have "procs c i \<noteq> Up n" for i n using assms unfolding initial_def by (metis proc.distinct(1))
  ultimately show ?thesis using assms proto_init_ok by (simp add: refines_def initial_def)
qed

lemma refit_sim: "sim ps i n (refit f n)"
  unfolding sim_def
proof (intro allI impI)
  fix p assume g: "good ps p i n"
  have r: "rel p i (store (refit f n)) = rel p i (store n)" "full X (store (refit f n)) = full X (store n)" for X
    by (rule rel_cong full_cong, simp_all)+
  have "node_inv (refit f n)" using refit_step [of n f] coreD(4) [OF goodD(1) [OF g]] by (simp add: step_ok_def weak_ok_def)
  then have "core ps p i (refit f n)"
    using goodD(1) [OF g] r unfolding core_def durable_def memory_def by (simp add: sent_def)
  moreover have "role_link ps p i (refit f n)" by (rule role_frame [OF goodD(2) [OF g]]) simp
  ultimately show "reach ps i p (refit f n)" by (intro reach_good) (simp add: good_def)
qed

lemma crash_follows:
  assumes r: "refines identity cfgs ps p c" and e: "election_inv identity cfgs ps fl c"
    and up: "procs c i = Up n" and j: "sWal (store n) = Some j"
  shows "refines identity cfgs ps p (c\<lparr>procs := (procs c)(i := Down j)\<rparr>)"
proof -
  have g: "good ps p i n" by (rule refinesD(2) [OF r up])
  obtain t where t: "journal_gives (store n) t" "rel p i t" using coreD(10) [OF goodD(1) [OF g]] by (auto simp: durable_def)
  have id: "sIdentity (store n) = identity (default_config (cfgs i))" using up_okI [OF e up] by (simp add: up_ok_def)
  have "down_link identity cfgs p i j" using journal_gives_open [OF t(1) j] t(2) id by (auto simp: down_link_def)
  then show ?thesis using r by (auto simp: refines_def)
qed

lemma Open_follower:
  assumes o: "OpenWithRuntime origin identity en man nt c0 openErr j = Some (Inr n')" and fl: "FixedLeader c0 = []"
  obtains st where "openStoreUsing (identity (default_config c0)) openErr j = Some (Inr st)" "store n' = st"
    "role n' = Follower" "failed n' = None" "sent n' = {}"
proof -
  obtain ps st n where oc: "cID c0 \<noteq> []" "openStoreUsing (identity (default_config c0)) openErr j = Some (Inr st)"
    and rn: "restore_node (fresh_node en man (default_config c0) ps st) = Inr n" and sn: "start_node en n = Some (Inr n')"
    by (rule Open_cases [OF o])
  note r = restore_node_inv [OF openStoreUsing_ok(1,2) [OF oc(2)] rn]
  have d: "cID (default_config c0) = cID c0" "FixedLeader (default_config c0) = FixedLeader c0"
    by (simp_all add: default_config_def Let_def)
  from sn show ?thesis
  proof (cases rule: start_node_cases)
    case (follower n1)
    note ra = ran_sel [OF apply_follower [OF r(1,6) follower(1)]]
    show ?thesis by (rule that [OF oc(2)]) (use follower ra r in \<open>simp_all add: sent_def\<close>)
  next
    case (leader n1 n2 n3)
    note ra = ran_sel [OF apply_follower [OF r(1,6) leader(1)]]
    show ?thesis using leader(2) ra r(3) d oc(1) fl by simp
  qed
qed

lemma restart_follows:
  assumes ag: "agreed origin cfgs ps []" and r: "refines identity cfgs ps p c" and down: "procs c i = Down j"
    and id: "cID (cfgs i) = i" and op: "OpenWithRuntime origin identity en man nt (cfgs i) None j = Some (Inr n')"
  shows "refines identity cfgs ps p (put i n' c)"
proof (rule refines_put [OF r])
  have fl: "FixedLeader (cfgs i) = []" using agreed_peers(3) [OF ag] .
  obtain st where st: "openStoreUsing (identity (default_config (cfgs i))) None j = Some (Inr st)" "store n' = st"
    "role n' = Follower" "failed n' = None" "sent n' = {}" by (rule Open_follower [OF op fl])
  obtain ps' where o: "check_peers origin (Peers (cfgs i)) fmempty {||} = Inr ps'" "cID (cfgs i) |\<in>| fmdom ps'" "cID (cfgs i) \<noteq> []"
    "cfg n' = default_config (cfgs i)" "peers n' = ps'"
    by (rule Open_role [OF op])
  have ps: "ps' = ps" using ag o(1) by (simp add: agreed_def)
  have d: "cID (default_config (cfgs i)) = i" "FixedLeader (default_config (cfgs i)) = []"
    using id fl by (simp_all add: default_config_def Let_def)
  have rs: "rel p i st" using refinesD(3) [OF r down] st(1) by (simp add: down_link_def)
  have "durable p i n'" using openStoreUsing_ok(2) [OF st(1)] rs st(2) by (auto simp: durable_def)
  moreover have "memory p i n'"
    unfolding memory_def using rs st(2) raft_invD(1) [of ps p i] refinesD(1) [OF r] rel_known [OF _ rs, of ps]
    by (intro conjI exI [of _ "plog p i"]) (auto simp: rel_def protocol_ok_def)
  moreover have "[] |\<notin>| fmdom ps" using agreed_peers(4) [OF ag] by blast
  ultimately have "core ps p i n'"
    using refinesD(1) [OF r] Open_inv(1) [OF op] o ps d id st(5) unfolding core_def by auto
  then show "good ps p i n'" using st(3) by (simp add: good_def role_follower)
qed simp

lemma refines_frame:
  "refines identity cfgs ps p c \<Longrightarrow> vreply_ok p m resp \<Longrightarrow>
     refines identity cfgs ps p (c\<lparr>vreplies := insert (m, resp, err) (vreplies c)\<rparr>)"
  "refines identity cfgs ps p c \<Longrightarrow> areply_ok p m aresp \<Longrightarrow>
     refines identity cfgs ps p (c\<lparr>areplies := insert (m, aresp, err) (areplies c)\<rparr>)"
  "refines identity cfgs ps p c \<Longrightarrow> msg_ok p m \<Longrightarrow> refines identity cfgs ps p (c\<lparr>wires := insert m (wires c)\<rparr>)"
  by (auto simp: refines_def)

lemma peer_member:
  assumes "agreed origin cfgs ps fl" "peers n = ps" "pID (peerOf n j) |\<in>| fmdom ps"
  shows "pID (peerOf n j) = j"
  using assms agreed_peers(2,4) [OF assms(1)] by (auto simp: peerOf_def zeroPeer_def split: option.splits)

lemma member_peer:
  assumes "agreed origin cfgs ps fl" "peers n = ps" "j |\<in>| fmdom ps"
  shows "pID (peerOf n j) = j"
  using assms agreed_peers(2) [OF assms(1)] by (auto simp: peerOf_def fmlookup_dom_iff)

lemma put_sel: "vreplies (put i n c) = vreplies c" "areplies (put i n c) = areplies c"
  by (simp_all add: put_def)

lemma serve_vote_follows:
  assumes r: "refines identity cfgs ps p c" and m: "m \<in> wires c" "mVote m = Some req" and up: "procs c (mTo m) = Up n"
    and rv: "RequestVote en req n = Some ((resp, err), n')"
  shows "follows identity cfgs ps p ((put (mTo m) n' c)\<lparr>vreplies := insert (m, resp, err) (vreplies c)\<rparr>)"
proof -
  have b: "ballot_ok p req" "CandidateID req = mFrom m" using refinesD(4) [OF r m(1)] m(2) by (auto simp: msg_ok_def)
  obtain q where q: "psteps ps (mTo m) p q" "good ps q (mTo m) n'"
    "Granted resp \<longrightarrow> (\<exists>M. vlog q (mTo m) (vqTerm req) = Some (CandidateID req, M))"
    using RequestVote_sim [OF refinesD(2) [OF r up] b(1) rv] by blast
  have "vreply_ok q m resp" using q(3) m(2) b(2) by (simp add: vreply_ok_def)
  from refines_frame(1) [OF refines_put [OF r q(1,2)] this, of err] show ?thesis
    unfolding follows_def put_sel using q(1) by blast
qed

lemma serve_append_follows:
  assumes r: "refines identity cfgs ps p c" and m: "m \<in> wires c" "mAppend m = Some req" and up: "procs c (mTo m) = Up n"
    and ae: "AppendEntries en req n = Some ((resp, err), n')"
  shows "follows identity cfgs ps p ((put (mTo m) n' c)\<lparr>areplies := insert (m, resp, err) (areplies c)\<rparr>)"
proof -
  have b: "request_ok p req" using refinesD(4) [OF r m(1)] m(2) by (auto simp: msg_ok_def)
  obtain q where q: "psteps ps (mTo m) p q" "good ps q (mTo m) n'"
    "Success resp \<longrightarrow> acked q (mTo m) (aqTerm req) (PrevLogIndex req + length (aqEntries req))"
    using AppendEntries_sim [OF refinesD(2) [OF r up] b ae] by blast
  have "areply_ok q m resp" using q(3) m(2) by (simp add: areply_ok_def)
  from refines_frame(2) [OF refines_put [OF r q(1,2)] this, of err] show ?thesis
    unfolding follows_def put_sel using q(1) by blast
qed

lemma DeliverVote_follows:
  assumes ag: "agreed origin cfgs ps fl" and r: "refines identity cfgs ps p c" and up: "procs c (mFrom m) = Up n"
    and d: "DeliverVote en m resp err n = Some n'"
    and ok: "err = None \<Longrightarrow> vreply_ok p m resp" and w: "wire_ok ps m"
  shows "follows identity cfgs ps p (put (mFrom m) n' c)"
proof (cases "mVote m")
  case None
  then show ?thesis using sim_follows [OF r up sim_refl] d by (simp add: DeliverVote_def)
next
  case (Some req)
  have g: "good ps p (mFrom m) n" by (rule refinesD(2) [OF r up])
  have pm: "mTo m |\<in>| fmdom ps" using w Some by (simp add: wire_ok_def)
  note mp = member_peer [OF ag coreD(6) [OF goodD(1) [OF g]] pm]
  have "reach ps (mFrom m) p n'"
    by (rule voteResponse_sim [OF g, of en "peerOf n (mTo m)" req resp err])
      (use d Some mp pm ok in \<open>auto simp: DeliverVote_def vreply_ok_def\<close>)
  then show ?thesis by (rule reach_follows [OF r])
qed

lemma ack_reply:
  assumes "agreed origin cfgs ps fl" "peers n = ps" "areply_ok p m resp"
  shows "mAppend m = Some req \<Longrightarrow> Success resp \<Longrightarrow> pID (peerOf n (mTo m)) |\<in>| fmdom ps \<Longrightarrow>
    acked p (pID (peerOf n (mTo m))) (aqTerm req) (PrevLogIndex req + length (aqEntries req))"
  using peer_member [OF assms(1,2), of "mTo m"] assms(3) by (simp add: areply_ok_def)

lemma step_follows:
  assumes ag: "agreed origin cfgs ps []" and e: "election_inv identity cfgs ps [] c" and r: "refines identity cfgs ps p c"
    and st: "step origin identity cfgs c c'"
  shows "follows identity cfgs ps p c'"
  using st
proof cases
  case (tick i n en n')
  then show ?thesis using sim_follows [OF r] Tick_sim by blast
next
  case (serve_vote m req n en resp err n')
  then show ?thesis using serve_vote_follows [OF r] by blast
next
  case (serve_append m req n en resp err n')
  then show ?thesis using serve_append_follows [OF r] by blast
next
  case (vote_reply m resp err n en n')
  have "reply_ok ps c (m, resp, err)" using e vote_reply(2) by (simp add: election_inv_def)
  then have "wire_ok ps m" by (simp add: reply_ok_def)
  then show ?thesis unfolding vote_reply(1) using DeliverVote_follows [OF ag r vote_reply(3,4)] refinesD(5) [OF r vote_reply(2)] by blast
next
  case (vote_lost m n en resp x n')
  have "wire_ok ps m" using e vote_lost(2) by (simp add: election_inv_def)
  then show ?thesis unfolding vote_lost(1) using DeliverVote_follows [OF ag r vote_lost(3,4)] by blast
next
  case (append_reply m resp err n en n')
  note g = refinesD(2) [OF r append_reply(3)]
  have sy: "synced n" using up_okI [OF e append_reply(3)] by (simp add: up_ok_def)
  have "reach ps (mFrom m) p n'"
    by (rule DeliverAppend_sim [OF g sy append_reply(4) ack_reply [OF ag coreD(6) [OF goodD(1) [OF g]] refinesD(6) [OF r append_reply(2)]]])
  then show ?thesis unfolding append_reply(1) by (rule reach_follows [OF r])
next
  case (append_lost m n en resp x n')
  note g = refinesD(2) [OF r append_lost(3)]
  have sy: "synced n" using up_okI [OF e append_lost(3)] by (simp add: up_ok_def)
  have "reach ps (mFrom m) p n'" by (rule DeliverAppend_sim [OF g sy append_lost(4)]) simp
  then show ?thesis unfolding append_lost(1) by (rule reach_follows [OF r])
next
  case (replicate i n pr en req n')
  note b = replicate_begin_sim [OF refinesD(2) [OF r replicate(2)] replicate(4)]
  let ?m = "\<lparr>mSequence = sequence n', mFrom = i, mTo = pID pr, mVote = None, mAppend = Some req\<rparr>"
  have "msg_ok p ?m" using b(2,3) by (simp add: msg_ok_def)
  from refines_frame(3) [OF refines_put [OF r rtranclp.rtrancl_refl b(1)] this] show ?thesis
    unfolding replicate(1) follows_def by blast
next
  case (replicated m resp err n req en again n')
  note g = refinesD(2) [OF r replicated(3)]
  have sy: "synced n" using up_okI [OF e replicated(3)] by (simp add: up_ok_def)
  have "reach ps (mFrom m) p n'"
    by (rule acceptAppend_sim [OF g sy replicated(5) [unfolded replicate_finish_def]])
      (rule ack_reply [OF ag coreD(6) [OF goodD(1) [OF g]] refinesD(6) [OF r replicated(2)] replicated(4)])
  then show ?thesis unfolding replicated(1) by (rule reach_follows [OF r])
next
  case (replicate_lost m n req en resp x again n')
  note g = refinesD(2) [OF r replicate_lost(3)]
  have sy: "synced n" using up_okI [OF e replicate_lost(3)] by (simp add: up_ok_def)
  have "reach ps (mFrom m) p n'" by (rule acceptAppend_sim [OF g sy replicate_lost(5) [unfolded replicate_finish_def]]) simp
  then show ?thesis unfolding replicate_lost(1) by (rule reach_follows [OF r])
next
  case (submit i n en command key x n')
  then show ?thesis using sim_follows [OF r] submit_sim by (auto simp: Submit_def)
next
  case (wait i n t timeout out n')
  then show ?thesis using sim_follows [OF r] propose_end_sim by blast
next
  case (poll i n t x n')
  then show ?thesis using sim_follows [OF r] Poll_sim by blast
next
  case (cancel i n t)
  then show ?thesis using sim_follows [OF r] Cancel_sim by blast
next
  case (drain i n)
  then show ?thesis using sim_follows [OF r] Drain_sim by blast
next
  case (pause i n en b n')
  then show ?thesis using sim_follows [OF r] SetPaused_sim by blast
next
  case (close i n)
  then show ?thesis using sim_follows [OF r] Close_sim by blast
next
  case (refit i n f)
  then show ?thesis using sim_follows [OF r] refit_sim by blast
next
  case (crash i n j)
  then show ?thesis using crash_follows [OF r e] unfolding follows_def by blast
next
  case (restart i j en man nt n')
  then show ?thesis using restart_follows [OF ag r] unfolding follows_def by blast
qed

section \<open>Whole runs\<close>

lemma reachable_refines:
  assumes "reachable origin identity cfgs c" "agreed origin cfgs ps []"
  obtains p where "protocol_run ps p" "refines identity cfgs ps p c"
proof -
  have "\<exists>p. protocol_run ps p \<and> refines identity cfgs ps p c"
    using assms(1)
  proof induction
    case (start c)
    then show ?case using initial_refines protocol_run.start by blast
  next
    case (onward c c')
    then obtain p where p: "protocol_run ps p" "refines identity cfgs ps p c" by blast
    from step_follows [OF assms(2) reachable_inv [OF onward(1) assms(2)] p(2) onward(2)]
    obtain i q where "psteps ps i p q" "refines identity cfgs ps q c'" by (auto simp: follows_def)
    then show ?case using protocol_run_steps [OF _ p(1)] by blast
  qed
  then show ?thesis using that by blast
qed

lemma steps_refine:
  assumes "(step origin identity cfgs)\<^sup>*\<^sup>* c c'" "reachable origin identity cfgs c" "agreed origin cfgs ps []"
    "refines identity cfgs ps p c"
  obtains q where "refines identity cfgs ps q c'" "extends p q" "reachable origin identity cfgs c'"
proof -
  have "\<exists>q. refines identity cfgs ps q c' \<and> extends p q \<and> reachable origin identity cfgs c'"
    using assms(1)
  proof (induction rule: rtranclp_induct)
    case base
    then show ?case using assms(2,4) extends_refl by blast
  next
    case (step x y)
    then obtain q where q: "refines identity cfgs ps q x" "extends p q" "reachable origin identity cfgs x" by blast
    from step_follows [OF assms(3) reachable_inv [OF q(3) assms(3)] q(1) step(2)]
    obtain i r where r: "psteps ps i q r" "refines identity cfgs ps r y" by (auto simp: follows_def)
    have "extends q r" using psteps_keep [OF r(1) refinesD(1) [OF q(1)]] by simp
    then show ?case using r(2) extends_trans [OF q(2)] onward [OF q(3) step(2)] by blast
  qed
  then show ?thesis using that by blast
qed

section \<open>What nodes have in common\<close>

lemma up_memory:
  assumes "refines identity cfgs ps p c" "procs c i = Up n"
  obtains X where "full X (store n)" "log_ok p X (pterm p i)" "dCommit (state n) \<le> pcommit p i"
    "take (dCommit (state n)) X = take (dCommit (state n)) (plog p i)" "dCommit (state n) \<le> length X" "wf_state (state n)"
proof -
  note c = goodD(1) [OF refinesD(2) [OF assms]]
  have wf: "wf_state (state n)" using coreD(14) [OF c] by (simp add: wf_store_def)
  obtain X where X: "full X (store n)" "log_ok p X (pterm p i)" "dCommit (state n) \<le> pcommit p i"
    "take (dCommit (state n)) X = take (dCommit (state n)) (plog p i)" using coreD(11) [OF c] by (auto simp: memory_def)
  show ?thesis by (rule that [OF X _ wf]) (use wf_state_last [OF wf] full_last [OF X(1)] in simp)
qed

lemma entry_take:
  assumes "full X (store n)" "full Y (store m)" "entryLocked n l = Some x" "entryLocked m l = Some y"
    "take k X = take k Y" "l \<le> k"
  shows "x = y"
  using full_entry [OF assms(1), of l] full_entry [OF assms(2), of l] assms(3-) nth_take [of "l - 1" k X] nth_take [of "l - 1" k Y]
  by (cases l) (auto simp: entryLocked_def split: if_splits)

lemma logs_match:
  assumes r: "refines identity cfgs ps p c" and up: "procs c i = Up n" "procs c j = Up m"
    and k: "entryLocked n k = Some e" "entryLocked m k = Some e'" "eTerm e = eTerm e'"
    and l: "l \<le> k" "entryLocked n l = Some x" "entryLocked m l = Some y"
  shows "x = y"
proof -
  obtain X where X: "full X (store n)" "log_ok p X (pterm p i)" by (rule up_memory [OF r up(1)])
  obtain Y where Y: "full Y (store m)" "log_ok p Y (pterm p j)" by (rule up_memory [OF r up(2)])
  note a = full_term [OF X(1) k(1) [unfolded entryLocked_def]] and b = full_term [OF Y(1) k(2) [unfolded entryLocked_def]]
  have "take k X = take k Y"
    by (rule rooted_matching [of p]) (use X(2) Y(2) a b k(3) in \<open>simp_all add: log_ok_def\<close>)
  then show ?thesis using entry_take [OF X(1) Y(1) l(2,3)] l(1) by blast
qed

lemma commit_in_leader:
  assumes r: "refines identity cfgs ps p c" and up: "procs c i = Up n" "procs c j = Up m"
    and h: "failed n = None" and l: "role m = Leader" and t: "dTerm (state n) \<le> dTerm (state m)"
  shows "dCommit (state n) \<le> lastLocked m"
    and "k \<le> dCommit (state n) \<Longrightarrow> entryLocked n k = Some e \<Longrightarrow> dBase (state m) \<le> k \<Longrightarrow> entryLocked m k = Some e"
proof -
  note gn = refinesD(2) [OF r up(1)] and gm = refinesD(2) [OF r up(2)]
  note ll = leader_link [OF gm l]
  have inv: "raft_inv ps p" using refinesD(1) [OF r] by (simp add: protocol_ok_def)
  have rn: "rel p i (store n)" by (rule coreD(12) [OF goodD(1) [OF gn] h])
  then have X: "full (plog p i) (store n)" and cn: "pcommit p i = dCommit (state n)" "pterm p i = dTerm (state n)" by (auto simp: rel_def)
  have pre: "prefix (take (dCommit (state n)) (plog p i)) (plog p j)" and ln: "dCommit (state n) \<le> length (plog p i)"
  proof -
    show len: "dCommit (state n) \<le> length (plog p i)"
      using wf_state_last node_inv_wf(2) [OF coreD(4) [OF goodD(1) [OF gn]]] full_last [OF X] by metis
    show "prefix (take (dCommit (state n)) (plog p i)) (plog p j)"
    proof (cases "dCommit (state n) = 0")
      case False
      then obtain T m' where T: "(T, m') \<in> cmts p" "T \<le> pterm p i" "pcommit p i \<le> m'" "prefix (head p T (pcommit p i)) (plog p i)"
        using raft_invD(7) [OF inv, of i] cn by (auto simp: commit_inv_def)
      have hs: "has p T (pcommit p i)" using raft_invD(6) [OF inv T(1)] T(3) by (auto simp: cmt_inv_def has_def)
      have "take (dCommit (state n)) (plog p i) = head p T (pcommit p i)"
        using T(4) head_has [OF hs] cn(1) by (auto simp: prefix_def)
      moreover have "prefix (head p T (pcommit p i)) (plog p j)"
      proof (rule prefix_order.trans [OF head_mono [OF T(3)]])
        have "T \<le> dTerm (state m)" using T(2) cn(2) t by simp
        then show "prefix (head p T m') (plog p j)" by (rule committed_in_leader [OF inv T(1) ll(4)])
      qed
      ultimately show ?thesis by simp
    qed simp
  qed
  note pt = prefix_takeD [OF pre ln]
  show "dCommit (state n) \<le> lastLocked m" using pt full_last [OF ll(3)] by (simp add: lastLocked_def)
  assume k: "k \<le> dCommit (state n)" "entryLocked n k = Some e" "dBase (state m) \<le> k"
  then obtain y where y: "entryLocked m k = Some y"
    using full_entry [OF ll(3), of k] pt by (auto simp: entryLocked_def)
  then show "entryLocked m k = Some e"
    using entry_take [OF X ll(3) k(2) y pt [THEN conjunct2, symmetric] k(1)] by simp
qed

text \<open>
  \<open>history c H\<close>: the list \<open>H\<close> of entries explains every process that is up.  Its machine is the result of
  the first entries of \<open>H\<close>, as many as it has applied, and its log agrees with \<open>H\<close> there.
\<close>

definition history :: "Cluster \<Rightarrow> Entry list \<Rightarrow> bool" where
  "history c H \<longleftrightarrow> (\<forall>i n. procs c i = Up n \<longrightarrow> applied n \<le> length H \<and>
     machine n = apply_all New_Machine (commands (take (applied n) H)) \<and>
     (\<forall>k e. 0 < k \<longrightarrow> k \<le> applied n \<longrightarrow> entryLocked n k = Some e \<longrightarrow> H ! (k - 1) = e))"

lemma historyI:
  assumes r: "refines identity cfgs ps p c" and e: "election_inv identity cfgs ps fl c"
    and H: "\<And>i n. procs c i = Up n \<Longrightarrow> dCommit (state n) \<le> length H \<and> take (dCommit (state n)) (plog p i) = take (dCommit (state n)) H"
  shows "history c H"
  unfolding history_def
proof (intro allI impI)
  fix i n assume up: "procs c i = Up n"
  note h = H [OF up]
  have u: "applied n = dCommit (state n)" "machine_ok n"
    using up_okI [OF e up] by (auto simp: up_ok_def synced_def node_inv_def)
  obtain X where X: "full X (store n)" "take (dCommit (state n)) X = take (dCommit (state n)) (plog p i)"
    by (rule up_memory [OF r up])
  have t: "take (applied n) X = take (applied n) H" using X(2) h u(1) by simp
  have "machine n = apply_all New_Machine (commands (take (applied n) H))"
    using full_machine [OF X(1), of "applied n"] u(2) t by (simp add: machine_ok_def)
  moreover have "H ! (k - 1) = x" if "0 < k" "k \<le> applied n" "entryLocked n k = Some x" for k x
    using full_term(3) [OF X(1) that(3) [unfolded entryLocked_def] that(1)] t that nth_take [of "k - 1" "applied n" X]
      nth_take [of "k - 1" "applied n" H] by simp
  ultimately show "applied n \<le> length H \<and> machine n = apply_all New_Machine (commands (take (applied n) H)) \<and>
     (\<forall>k e. 0 < k \<longrightarrow> k \<le> applied n \<longrightarrow> entryLocked n k = Some e \<longrightarrow> H ! (k - 1) = e)"
    using h u(1) by simp
qed

text \<open>The longest committed prefix among the processes that are up.\<close>

lemma longest_commit:
  assumes r: "refines identity cfgs ps p c" and e: "election_inv identity cfgs ps fl c"
  obtains k where "\<forall>i n. procs c i = Up n \<longrightarrow> dCommit (state n) \<le> k" "k = 0 \<or> (\<exists>i. k \<le> pcommit p i)"
proof -
  let ?U = "{i. \<exists>n. procs c i = Up n}" let ?f = "\<lambda>i. case procs c i of Up n \<Rightarrow> dCommit (state n) | Down _ \<Rightarrow> 0"
  have fin: "finite ?U"
  proof (rule finite_subset)
    show "?U \<subseteq> fset (fmdom ps)" using up_okI [OF e] by (fastforce simp: up_ok_def)
  qed simp
  show ?thesis
  proof (cases "?U = {}")
    case True
    then show ?thesis by (intro that [of 0]) auto
  next
    case False
    have "Max (?f ` ?U) \<in> ?f ` ?U" using fin False by (intro Max_in) auto
    then obtain j n where j: "procs c j = Up n" "Max (?f ` ?U) = dCommit (state n)" by auto
    have mx: "dCommit (state m) \<le> dCommit (state n)" if "procs c i = Up m" for i m
      using Max_ge [of "?f ` ?U" "dCommit (state m)"] fin that j(2) by (force simp: image_iff)
    have "dCommit (state n) \<le> pcommit p j" by (rule up_memory [OF r j(1)])
    then show ?thesis using mx by (intro that [of "dCommit (state n)"]) auto
  qed
qed

lemma one_history:
  assumes "(step origin identity cfgs)\<^sup>*\<^sup>* c c'" "reachable origin identity cfgs c" "agreed origin cfgs ps []"
  obtains H where "history c H" "history c' H"
proof -
  obtain p where p: "refines identity cfgs ps p c" by (rule reachable_refines [OF assms(2,3)])
  obtain q where q: "refines identity cfgs ps q c'" "extends p q" "reachable origin identity cfgs c'"
    by (rule steps_refine [OF assms p])
  note e = reachable_inv [OF assms(2,3)] and e' = reachable_inv [OF q(3) assms(3)]
  have inv: "raft_inv ps p" "raft_inv ps q" using refinesD(1) [OF p] refinesD(1) [OF q(1)] by (auto simp: protocol_ok_def)
  obtain k where k: "\<forall>i n. procs c i = Up n \<longrightarrow> dCommit (state n) \<le> k" "k = 0 \<or> (\<exists>i. k \<le> pcommit p i)"
    by (rule longest_commit [OF p e])
  obtain l where l: "\<forall>i n. procs c' i = Up n \<longrightarrow> dCommit (state n) \<le> l" "l = 0 \<or> (\<exists>i. l \<le> pcommit q i)"
    by (rule longest_commit [OF q(1) e'])
  have cp: "dCommit (state n) \<le> pcommit p i" if "procs c i = Up n" for i n by (rule up_memory [OF p that])
  have cq: "dCommit (state n) \<le> pcommit q i" if "procs c' i = Up n" for i n by (rule up_memory [OF q(1) that])
  have step: "history c H \<and> history c' H"
    if a: "\<And>i d. d \<le> k \<Longrightarrow> d \<le> pcommit p i \<Longrightarrow> d \<le> length H \<and> take d (plog p i) = take d H"
      and b: "\<And>i d. d \<le> l \<Longrightarrow> d \<le> pcommit q i \<Longrightarrow> d \<le> length H \<and> take d (plog q i) = take d H" for H
    using historyI [OF p e] historyI [OF q(1) e'] a b k(1) l(1) cp cq by blast
  show ?thesis
  proof (cases "l \<le> k")
    case True
    show ?thesis
    proof (cases "k = 0")
      case z: True
      have "history c [] \<and> history c' []" by (rule step) (use z True in auto)
      then show ?thesis using that by blast
    next
      case False
      then obtain i where i: "k \<le> pcommit p i" using k(2) by blast
      have "history c (plog p i) \<and> history c' (plog p i)"
      proof (rule step)
        fix j d assume "d \<le> k" "d \<le> pcommit p j"
        then show "d \<le> length (plog p i) \<and> take d (plog p j) = take d (plog p i)"
          using commits_agree [OF inv(1), of d i j] i by simp
      next
        fix j d assume d: "d \<le> l" "d \<le> pcommit q j"
        then have "d \<le> pcommit p i" using True i by simp
        then show "d \<le> length (plog p i) \<and> take d (plog q j) = take d (plog p i)"
          using commits_last [OF inv(2) q(2) inv(1) _ d(2)] commits_agree [OF inv(1), of d i i] by simp
      qed
      then show ?thesis using that by blast
    qed
  next
    case False
    then obtain i where i: "l \<le> pcommit q i" using l(2) by auto
    have "history c (plog q i) \<and> history c' (plog q i)"
    proof (rule step)
      fix j d assume d: "d \<le> k" "d \<le> pcommit p j"
      then have d': "d \<le> pcommit q i" using False i by simp
      then show "d \<le> length (plog q i) \<and> take d (plog p j) = take d (plog q i)"
        using commits_last [OF inv(2) q(2) inv(1) d(2) d'] commits_agree [OF inv(2), of d i i] by simp
    next
      fix j d assume "d \<le> l" "d \<le> pcommit q j"
      then show "d \<le> length (plog q i) \<and> take d (plog q j) = take d (plog q i)"
        using commits_agree [OF inv(2), of d i j] i by simp
    qed
    then show ?thesis using that by blast
  qed
qed

end
