(* ===== verification/Memory_Runs.thy ===== *)
theory Memory_Runs
  imports Refinement Scenario
begin

text \<open>
  Runs of a cluster whose processes keep their journals on in-memory disks and never compact them, as the
  simulator's do.  A run from such a state only adds to what the protocol has decided: \<open>later\<close> collects what is kept.
\<close>

section \<open>What one step does to the processes\<close>

inductive changed :: "(string \<Rightarrow> bool) \<Rightarrow> (Config \<Rightarrow> string) \<Rightarrow> (string \<Rightarrow> Config) \<Rightarrow> string \<Rightarrow> proc \<Rightarrow> proc \<Rightarrow> bool"
  for origin identity cfgs i where
  called: "node_le n n' \<Longrightarrow> changed origin identity cfgs i (Up n) (Up n')"
| stopped: "sWal (store n) = Some j \<Longrightarrow> changed origin identity cfgs i (Up n) (Down j)"
| opened: "cID (cfgs i) = i \<Longrightarrow> OpenWithRuntime origin identity en man nt (cfgs i) None j = Some (Inr n) \<Longrightarrow>
    changed origin identity cfgs i (Down j) (Up n)"

inductive_cases changed_DownE: "changed origin identity cfgs i P (Down j)"
inductive_cases changed_UpE: "changed origin identity cfgs i P (Up n)"

definition one_changed :: "(string \<Rightarrow> bool) \<Rightarrow> (Config \<Rightarrow> string) \<Rightarrow> (string \<Rightarrow> Config) \<Rightarrow> Cluster \<Rightarrow> Cluster \<Rightarrow> bool" where
  "one_changed origin identity cfgs c c' \<longleftrightarrow>
     (\<exists>i P. procs c' = (procs c)(i := P) \<and> changed origin identity cfgs i (procs c i) P \<and>
        voted c' = (case P of Up n \<Rightarrow> voted (put i n c) | Down _ \<Rightarrow> voted c))"

lemma put_changed:
  assumes "procs c i = Up n" "step_ok n n'" "node_inv n" "procs c' = (procs c)(i := Up n')" "voted c' = voted (put i n' c)"
  shows "one_changed origin identity cfgs c c'"
  using assms unfolding one_changed_def by (intro exI [of _ i] exI [of _ "Up n'"]) (auto simp: step_ok_def weak_ok_def intro: called)

lemma step_changes:
  assumes inv: "election_inv identity cfgs ps fl c" and st: "step origin identity cfgs c c'"
  shows "one_changed origin identity cfgs c c'"
proof -
  have u: "node_inv n" "synced n" if "procs c i = Up n" for i n using up_okI [OF inv that] by (auto simp: up_ok_def)
  note pc = put_changed [where origin = origin and identity = identity and cfgs = cfgs and c = c and c' = c']
  from st show ?thesis
  proof cases
    case (tick i n en n')
    then show ?thesis using pc [OF tick(2) Tick_step [OF tick(3)] u(1) [OF tick(2)]] by simp
  next
    case (serve_vote m req n en resp err n')
    then show ?thesis using pc [OF serve_vote(4) RequestVote_step [OF serve_vote(5)] u(1) [OF serve_vote(4)]] by simp
  next
    case (serve_append m req n en resp err n')
    then show ?thesis using pc [OF serve_append(4) AppendEntries_step [OF serve_append(5)] u(1) [OF serve_append(4)]] by simp
  next
    case (vote_reply m resp err n en n')
    then show ?thesis using pc [OF vote_reply(3) DeliverVote_step [OF vote_reply(4)] u(1) [OF vote_reply(3)]] by simp
  next
    case (vote_lost m n en resp e n')
    then show ?thesis using pc [OF vote_lost(3) DeliverVote_step [OF vote_lost(4)] u(1) [OF vote_lost(3)]] by simp
  next
    case (append_reply m resp err n en n')
    then show ?thesis using pc [OF append_reply(3) DeliverAppend_step [OF append_reply(4)] u(1) [OF append_reply(3)]] u by simp
  next
    case (append_lost m n en resp e n')
    then show ?thesis using pc [OF append_lost(3) DeliverAppend_step [OF append_lost(4)] u(1) [OF append_lost(3)]] u by simp
  next
    case (replicate i n p en req n')
    then show ?thesis using pc [OF replicate(2) replicate_begin_step [OF replicate(4)] u(1) [OF replicate(2)]] by simp
  next
    case (replicated m resp err n req en again n')
    then show ?thesis
      using pc [OF replicated(3) acceptAppend_step [OF replicated(5) [unfolded replicate_finish_def]] u(1) [OF replicated(3)]] u by simp
  next
    case (replicate_lost m n req en resp e again n')
    then show ?thesis
      using pc [OF replicate_lost(3) acceptAppend_step [OF replicate_lost(5) [unfolded replicate_finish_def]] u(1) [OF replicate_lost(3)]] u by simp
  next
    case (submit i n en command key r n')
    then show ?thesis using pc [OF submit(2) submit_step [OF submit(3) [unfolded Submit_def]] u(1) [OF submit(2)]] by simp
  next
    case (wait i n t timeout out n')
    then show ?thesis using pc [OF wait(2) propose_end_step [OF wait(3)] u(1) [OF wait(2)]] by simp
  next
    case (poll i n t r n')
    then show ?thesis using pc [OF poll(2) Poll_step [OF poll(3)] u(1) [OF poll(2)]] by simp
  next
    case (cancel i n t)
    then show ?thesis using pc [OF cancel(2) Cancel_step u(1) [OF cancel(2)]] by simp
  next
    case (drain i n)
    then show ?thesis using pc [OF drain(2) Drain_step u(1) [OF drain(2)]] by simp
  next
    case (pause i n en p n')
    then show ?thesis using pc [OF pause(2) SetPaused_step [OF pause(3)] u(1) [OF pause(2)]] by simp
  next
    case (close i n)
    then show ?thesis using pc [OF close(2) Close_step u(1) [OF close(2)]] by simp
  next
    case (refit i n f)
    then show ?thesis using pc [OF refit(2) refit_step u(1) [OF refit(2)]] by simp
  next
    case (crash i n j)
    then show ?thesis unfolding one_changed_def by (intro exI [of _ i] exI [of _ "Down j"]) (auto intro: stopped)
  next
    case (restart i j en man nt n')
    then show ?thesis unfolding one_changed_def by (intro exI [of _ i] exI [of _ "Up n'"]) (auto intro: opened)
  qed
qed

section \<open>In-memory disks\<close>

text \<open>The journal opens, and nothing in it was compacted.\<close>

definition plain_disk :: "string \<Rightarrow> journalRecord journal \<Rightarrow> bool" where
  "plain_disk name j \<longleftrightarrow> (\<exists>d. j = Memory d \<and> (\<forall>r \<in> set (mrecords d). jCheckpoint r = None)) \<and>
     (\<exists>t. openStoreUsing name None j = Some (Inr t))"

definition flat :: "(Config \<Rightarrow> string) \<Rightarrow> (string \<Rightarrow> Config) \<Rightarrow> Cluster \<Rightarrow> bool" where
  "flat identity cfgs c \<longleftrightarrow> (\<forall>i. case procs c i of Up n \<Rightarrow> uncut (store n)
     | Down j \<Rightarrow> plain_disk (identity (default_config (cfgs i))) j)"

lemma flatD:
  assumes "flat identity cfgs c"
  shows "procs c i = Up n \<Longrightarrow> uncut (store n)" "procs c i = Down j \<Longrightarrow> plain_disk (identity (default_config (cfgs i))) j"
  using assms by (auto simp: flat_def split: proc.splits dest: spec [of _ i])

lemma accept_uncut: "accept s r = Some t \<Longrightarrow> jCheckpoint r = None \<Longrightarrow> dBase (sState t) = dBase (sState s)"
  by (auto simp: accept_def Let_def split: if_splits)

lemma replay_uncut:
  "replay_records rs s = Some (err, t) \<Longrightarrow> \<forall>r \<in> set rs. jCheckpoint r = None \<Longrightarrow> dBase (sState t) = dBase (sState s)"
proof (induction rs arbitrary: s)
  case (Cons r rs)
  from Cons.prems(1) consider "t = s" | u where "accept s r = Some u" "replay_records rs u = Some (err, t)"
    by (auto split: option.splits bind_splits)
  then show ?case using Cons.IH Cons.prems(2) accept_uncut by cases auto
qed simp

lemma open_uncut:
  assumes o: "openStoreUsing name None (Memory d) = Some (Inr s)" and d: "\<forall>r \<in> set (mrecords d). jCheckpoint r = None"
  shows "uncut s"
proof -
  obtain t where rp: "replay_records (mrecords d) (initStore name) = Some (None, t)"
    using o by (auto simp: openStoreUsing_def split: option.splits)
  have b: "dBase (sState t) = 0" using replay_uncut [OF rp d] by (simp add: initStore_def)
  let ?t = "t\<lparr>sWal := Some (reopened (Memory d))\<rparr>"
  have u: "uncut ?t" using b d by (simp add: uncut_def)
  show ?thesis
  proof (cases "mrecords d = []")
    case True
    then have "save ?t 0 [] 0 0 [] = Some (None, s)"
      using o rp by (auto simp: openStoreUsing_def Let_def split: option.splits)
    moreover have "wf_store ?t" using rp True wf_store_init [of name] by (auto simp: wf_store_def)
    ultimately show ?thesis using save_uncut [of ?t _ 0 "[]" 0 0 "[]" None s] u by simp
  next
    case False
    then show ?thesis using o rp u by (simp add: openStoreUsing_def Let_def)
  qed
qed

lemma flat_step:
  assumes ag: "agreed origin cfgs ps []" and inv: "election_inv identity cfgs ps [] c" and z: "\<And>i. SnapshotEvery (cfgs i) = 0"
    and f: "flat identity cfgs c" and ch: "one_changed origin identity cfgs c c'"
  shows "flat identity cfgs c'"
proof -
  obtain i P where P: "procs c' = (procs c)(i := P)" "changed origin identity cfgs i (procs c i) P"
    using ch by (auto simp: one_changed_def)
  let ?id = "identity (default_config (cfgs i))"
  have "case P of Up n \<Rightarrow> uncut (store n) | Down j \<Rightarrow> plain_disk ?id j"
    using P(2)
  proof cases
    case (called n n')
    note u = up_okI [OF inv called(1)]
    have "SnapshotEvery (cfg n) = 0" using u z by (simp add: up_ok_def default_config_def Let_def)
    then show ?thesis using called flatD(1) [OF f called(1)] by (simp add: node_le_def)
  next
    case (stopped n j)
    have u: "node_inv n" "sIdentity (store n) = ?id" using up_okI [OF inv stopped(1)] by (auto simp: up_ok_def)
    then obtain t where "journal_gives (store n) t" by (auto simp: node_inv_def store_ok_def)
    from journal_gives_open [OF this stopped(3)] show ?thesis
      using flatD(1) [OF f stopped(1)] stopped(2,3) u(2) by (auto simp: plain_disk_def uncut_def)
  next
    case (opened en man nt j n)
    have fl: "FixedLeader (cfgs i) = []" using agreed_peers(3) [OF ag] .
    obtain d where d: "j = Memory d" "\<forall>r \<in> set (mrecords d). jCheckpoint r = None"
      using flatD(2) [OF f opened(1)] by (auto simp: plain_disk_def)
    obtain st where "openStoreUsing ?id None j = Some (Inr st)" "store n = st" by (rule Open_follower [OF opened(4) fl])
    then show ?thesis using open_uncut [of ?id d st] d opened(2) by simp
  qed
  then show ?thesis using f P(1) by (auto simp: flat_def split: proc.splits)
qed

section \<open>What a run keeps\<close>

lemma pstep_commit: "pstep ps i p p' \<Longrightarrow> pcommit p j \<le> pcommit p' j"
  by (erule pstep.cases) auto

lemma psteps_commit: "psteps ps i p p' \<Longrightarrow> pcommit p j \<le> pcommit p' j"
  by (induction rule: rtranclp_induct) (auto intro: order_trans pstep_commit)

text \<open>A bound on the commit index of process \<open>i\<close>, on its disk and in its memory.\<close>

definition held :: "Proto \<Rightarrow> Cluster \<Rightarrow> string \<Rightarrow> nat \<Rightarrow> bool" where
  "held p c i b \<longleftrightarrow> b \<le> pcommit p i \<and> (\<forall>n. procs c i = Up n \<longrightarrow> b \<le> dCommit (state n))"

definition later :: "Proto \<Rightarrow> Cluster \<Rightarrow> Proto \<Rightarrow> Cluster \<Rightarrow> bool" where
  "later p c p' c' \<longleftrightarrow> extends p p' \<and> grows c c' \<and> (\<forall>i b. held p c i b \<longrightarrow> held p' c' i b)"

lemma later_refl [simp]: "later p c p c"
  by (simp add: later_def grows_def)

lemma later_trans: "later p c q d \<Longrightarrow> later q d r e \<Longrightarrow> later p c r e"
  unfolding later_def grows_def using extends_trans by blast

text \<open>A cluster that runs on in-memory disks, with the protocol state it stands for.\<close>

definition sound ::
  "(string \<Rightarrow> bool) \<Rightarrow> (Config \<Rightarrow> string) \<Rightarrow> (string \<Rightarrow> Config) \<Rightarrow> (string, Peer) fmap \<Rightarrow> Proto \<Rightarrow> Cluster \<Rightarrow> bool" where
  "sound origin identity cfgs ps p c \<longleftrightarrow> agreed origin cfgs ps [] \<and> (\<forall>i. SnapshotEvery (cfgs i) = 0) \<and>
     reachable origin identity cfgs c \<and> refines identity cfgs ps p c \<and> flat identity cfgs c"

lemma changed_grows:
  assumes inv: "election_inv identity cfgs ps fl c" and ch: "one_changed origin identity cfgs c c'"
  shows "grows c c'"
proof -
  obtain i P where P: "changed origin identity cfgs i (procs c i) P" "voted c' = (case P of Up n \<Rightarrow> voted (put i n c) | Down _ \<Rightarrow> voted c)"
    using ch by (auto simp: one_changed_def)
  have g: "grows c c'" if "votes_of (voted c i) (state n)" "P = Up n" for n
    using put_grows [OF that(1)] P(2) that(2) by (simp add: grows_def)
  from P(1) show ?thesis
  proof cases
    case (called n n')
    have "votes_of (voted c i) (state n)" using up_okI [OF inv called(1)] by (simp add: up_ok_def)
    then show ?thesis using g called(2,3) votes_of_le by (auto simp: node_le_def state_le_def)
  next
    case (stopped n j)
    then show ?thesis using P(2) by (simp add: grows_def)
  next
    case (opened en man nt j n)
    obtain st where st: "openStoreUsing (identity (default_config (cfgs i))) None j = Some (Inr st)" "state_le (sState st) (state n)"
      by (rule Open_role [OF opened(4)])
    have "proc_ok identity cfgs ps fl c i" using inv by (simp add: election_inv_def)
    then have "votes_of (voted c i) (sState st)" using opened(1) st(1) by (simp add: proc_ok_def down_ok_def)
    then show ?thesis using g [OF _ opened(2)] st(2) votes_of_le by (auto simp: state_le_def)
  qed
qed

lemma changed_held:
  assumes ag: "agreed origin cfgs ps []" and ch: "one_changed origin identity cfgs c c'"
    and m: "\<And>j. pcommit p j \<le> pcommit p' j" and r: "refines identity cfgs ps p' c'" and h: "held p c k b"
  shows "held p' c' k b"
proof -
  obtain i P where P: "procs c' = (procs c)(i := P)" "changed origin identity cfgs i (procs c i) P"
    using ch by (auto simp: one_changed_def)
  have b: "b \<le> pcommit p' k" using h m [of k] by (simp add: held_def)
  have "b \<le> dCommit (state n)" if up: "procs c' k = Up n" for n
  proof (cases "k = i")
    case True
    then have "P = Up n" using up P(1) by simp
    with P(2) show ?thesis
    proof (cases rule: changed.cases)
      case (called n0 n')
      then show ?thesis using h True \<open>P = Up n\<close> by (auto simp: held_def node_le_def state_le_def)
    next
      case (opened en man nt j n')
      have fl: "FixedLeader (cfgs i) = []" using agreed_peers(3) [OF ag] .
      have "failed n = None" by (rule Open_follower [OF opened(4) fl]) (use opened(2) \<open>P = Up n\<close> in simp)
      then have "rel p' k (store n)" using coreD(12) [OF goodD(1) [OF refinesD(2) [OF r up]]] by simp
      then show ?thesis using b by (simp add: rel_def)
    qed simp
  next
    case False
    then show ?thesis using up P(1) h by (simp add: held_def)
  qed
  then show ?thesis using b by (simp add: held_def)
qed

lemma sound_step:
  assumes s: "sound origin identity cfgs ps p c" and st: "step origin identity cfgs c c'"
  obtains p' where "sound origin identity cfgs ps p' c'" "later p c p' c'"
proof -
  note d = s [unfolded sound_def]
  have ag: "agreed origin cfgs ps []" and r: "reachable origin identity cfgs c" and f: "refines identity cfgs ps p c" using d by auto
  note inv = reachable_inv [OF r ag]
  obtain i p' where p': "psteps ps i p p'" "refines identity cfgs ps p' c'"
    using step_follows [OF ag inv f st] by (auto simp: follows_def)
  note ch = step_changes [OF inv st]
  have "sound origin identity cfgs ps p' c'"
    using d p'(2) onward [OF r st] flat_step [OF ag inv _ _ ch] by (simp add: sound_def)
  moreover have "later p c p' c'"
    using psteps_keep [OF p'(1) refinesD(1) [OF f]] changed_grows [OF inv ch]
      changed_held [OF ag ch psteps_commit [OF p'(1)] p'(2)] by (auto simp: later_def)
  ultimately show ?thesis by (rule that)
qed

lemma sound_steps:
  assumes "sound origin identity cfgs ps p c" "(step origin identity cfgs)\<^sup>*\<^sup>* c c'"
  obtains p' where "sound origin identity cfgs ps p' c'" "later p c p' c'"
proof -
  have "\<exists>p'. sound origin identity cfgs ps p' c' \<and> later p c p' c'"
    using assms(2)
  proof (induction rule: rtranclp_induct)
    case base
    then show ?case using assms(1) later_refl by blast
  next
    case (step y z)
    then show ?case using sound_step later_trans by metis
  qed
  then show ?thesis using that by blast
qed

end
