(* ===== verification/Sim_Cluster.thy ===== *)
theory Sim_Cluster
  imports Simulation Memory_Runs
begin

text \<open>
  The simulator is a scheduler of the cluster: whatever it does to its nodes, disks and messages is a sequence of steps of theory \<open>Cluster\<close>.
  \<open>tracks k r c\<close> relates a runner with \<open>k\<close> nodes to a cluster; \<open>advances\<close> says that an operation of the runner is such a sequence
  and leaves the checker's records alone.
\<close>

section \<open>Names\<close>

definition digits_value :: "string \<Rightarrow> nat" where
  "digits_value = foldl (\<lambda>v c. 10 * v + (of_char c - 48)) 0"

lemma digits_value_decimal: "digits_value (decimal n) = n"
proof (induction n rule: decimal.induct)
  case (1 n)
  have d: "of_char (digit_char m) - 48 = m" if "m < 10" for m :: nat using that by (simp add: digit_char_def)
  show ?case
  proof (cases "n < 10")
    case True
    then show ?thesis using d by (simp add: decimal.simps [of n] digits_value_def)
  next
    case False
    then show ?thesis using 1 d [of "n mod 10"] by (simp add: decimal.simps [of n] digits_value_def)
  qed
qed

lemma decimal_inj [simp]: "decimal m = decimal n \<longleftrightarrow> m = n"
  by (metis digits_value_decimal)

lemma decimal_digits: "c \<in> set (decimal n) \<Longrightarrow> 48 \<le> (of_char c :: nat) \<and> of_char c < (58 :: nat)"
proof (induction n rule: decimal.induct)
  case (1 n)
  have d: "48 \<le> (of_char (digit_char m) :: nat) \<and> of_char (digit_char m) < (58 :: nat)" if "m < 10" for m :: nat
    using that by (simp add: digit_char_def)
  show ?case using 1 d [of n] d [of "n mod 10"] by (cases "n < 10") (auto simp: decimal.simps [of n])
qed

lemma decimal_slash [simp]: "CHR ''/'' \<notin> set (decimal n)"
  using decimal_digits [of "CHR ''/''" n] by auto

lemma split_slash:
  assumes "CHR ''/'' \<notin> set a" "CHR ''/'' \<notin> set b"
  shows "a @ CHR ''/'' # x = b @ CHR ''/'' # y \<longleftrightarrow> a = b \<and> x = y"
proof -
  have "takeWhile (\<lambda>c. c \<noteq> CHR ''/'') (a @ CHR ''/'' # x) = a" "takeWhile (\<lambda>c. c \<noteq> CHR ''/'') (b @ CHR ''/'' # y) = b"
    using assms by (auto simp: takeWhile_append2 takeWhile_tail)
  then show ?thesis by (metis append_eq_append_conv list.inject)
qed

definition sim_id :: "nat \<Rightarrow> string" where
  "sim_id i = pID (sim_peer i)"

lemma sim_id_inj [simp]: "sim_id i = sim_id j \<longleftrightarrow> i = j"
  by (simp add: sim_id_def sim_peer_def)

lemma sim_id_slash [simp]: "CHR ''/'' \<notin> set (sim_id i)"
  by (simp add: sim_id_def sim_peer_def)

text \<open>The configuration of the node with a given name.\<close>

definition sim_cfg :: "nat \<Rightarrow> string \<Rightarrow> Config" where
  "sim_cfg k name =
     (let ms = 1000000 in
      \<lparr>cID = name, ClusterID = ''simulation'', Peers = map sim_peer [0 ..< k], FixedLeader = [], ElectionMin = 400 * ms, ElectionMax = 800 * ms,
       Heartbeat = 50 * ms, RPCTimeout = 300 * ms, RequestTimeout = 0, SnapshotEvery = 0\<rparr>)"

lemma sim_config_cfg: "rPeers r = map sim_peer [0 ..< k] \<Longrightarrow> i < k \<Longrightarrow> sim_config r i = sim_cfg k (sim_id i)"
  by (simp add: sim_config_def sim_cfg_def peer_id_def sim_id_def)

text \<open>The addresses of the simulated nodes pass the test on URLs, as \<open>http://peer:8000\<close> does.\<close>

definition accepts :: "Oracle \<Rightarrow> nat \<Rightarrow> bool" where
  "accepts w k \<longleftrightarrow> (\<forall>i \<in> set [0 ..< k]. oOrigin w (PeerURL (sim_peer i)) \<and> oOrigin w (ClientURL (sim_peer i)))"

lemma sim_peer_urls [simp]:
  "pID (sim_peer i) \<noteq> []" "PeerURL (sim_peer i) \<noteq> ClientURL (sim_peer j)" "ClientURL (sim_peer i) \<noteq> PeerURL (sim_peer j)"
  "PeerURL (sim_peer i) = PeerURL (sim_peer j) \<longleftrightarrow> i = j" "ClientURL (sim_peer i) = ClientURL (sim_peer j) \<longleftrightarrow> i = j"
  by (auto simp: sim_peer_def)

lemma check_sim_peers:
  assumes "\<forall>i \<in> set is. origin (PeerURL (sim_peer i)) \<and> origin (ClientURL (sim_peer i))" "distinct is"
    "\<forall>i \<in> set is. PeerURL (sim_peer i) |\<notin>| seen \<and> ClientURL (sim_peer i) |\<notin>| seen \<and> sim_id i |\<notin>| fmdom m"
  shows "\<exists>ps. check_peers origin (map sim_peer is) m seen = Inr ps"
  using assms
proof (induction "is" arbitrary: m seen)
  case (Cons i js)
  let ?p = "sim_peer i"
  have "\<exists>ps. check_peers origin (map sim_peer js) (fmupd (pID ?p) ?p m) (finsert (ClientURL ?p) (finsert (PeerURL ?p) seen)) = Inr ps"
    by (rule Cons.IH) (use Cons.prems in \<open>auto simp: sim_id_def [symmetric]\<close>)
  then show ?case using Cons.prems by (auto simp: sim_id_def)
qed simp

lemma sim_agreed:
  assumes "accepts w k"
  obtains ps where "agreed (oOrigin w) (sim_cfg k) ps []"
proof -
  obtain ps where "check_peers (oOrigin w) (map sim_peer [0 ..< k]) fmempty {||} = Inr ps"
    using check_sim_peers [of "[0 ..< k]" "oOrigin w" "{||}" fmempty] assms by (auto simp: accepts_def)
  then show ?thesis by (intro that [of ps]) (simp add: agreed_def sim_cfg_def)
qed

section \<open>The relation\<close>

text \<open>The nodes, up or down, and their disks.\<close>

definition node_tracks :: "runner \<Rightarrow> Cluster \<Rightarrow> nat \<Rightarrow> bool" where
  "node_tracks r c i \<longleftrightarrow>
     (case rNodes r ! i of
        Some a \<Rightarrow> a < length (rHeap r) \<and> procs c (sim_id i) = Up (load i a r)
      | None \<Rightarrow> procs c (sim_id i) = Down (Memory ((rDisks r ! i)\<lparr>mfailure := []\<rparr>)))"

definition mirrors :: "nat \<Rightarrow> runner \<Rightarrow> Cluster \<Rightarrow> bool" where
  "mirrors k r c \<longleftrightarrow> length (rNodes r) = k \<and> length (rDisks r) = k \<and> rPeers r = map sim_peer [0 ..< k] \<and>
     (\<forall>i < k. node_tracks r c i) \<and> (\<forall>i < k. \<forall>j < k. \<forall>a. rNodes r ! i = Some a \<longrightarrow> rNodes r ! j = Some a \<longrightarrow> i = j)"

text \<open>The messages under way and the events that wait.\<close>

definition call_ok :: "nat \<Rightarrow> Cluster \<Rightarrow> exchange \<Rightarrow> bool" where
  "call_ok k c x \<longleftrightarrow> xFrom x < k \<and> xTo x < k \<and> mFrom (xMessage x) = sim_id (xFrom x) \<and> mTo (xMessage x) = sim_id (xTo x) \<and>
     xMessage x \<in> wires c"

fun event_ok :: "nat \<Rightarrow> Message list \<Rightarrow> Cluster \<Rightarrow> ev \<Rightarrow> bool" where
  "event_ok k ms c (FaultEv f) \<longleftrightarrow> 0 \<le> fNode f \<and> fNode f < int k"
| "event_ok k ms c (RpcTimeoutEv x) \<longleftrightarrow> x < length ms"
| "event_ok k ms c (DeliverEv x) \<longleftrightarrow> x < length ms"
| "event_ok k ms c (ResponseEv x v a err) \<longleftrightarrow> x < length ms \<and>
     (if mVote (ms ! x) \<noteq> None then (ms ! x, v, err) \<in> vreplies c else (ms ! x, a, err) \<in> areplies c)"
| "event_ok k ms c _ \<longleftrightarrow> True"

definition mail_ok :: "nat \<Rightarrow> runner \<Rightarrow> Cluster \<Rightarrow> bool" where
  "mail_ok k r c \<longleftrightarrow> (\<forall>x \<in> set (rCalls r). call_ok k c x) \<and> is_heap (rQ r) (length (rQ r)) \<and>
     (\<forall>e \<in> set (rQ r). event_ok k (map xMessage (rCalls r)) c (itRun e))"

definition tracks :: "nat \<Rightarrow> runner \<Rightarrow> Cluster \<Rightarrow> bool" where
  "tracks k r c \<longleftrightarrow> mirrors k r c \<and> mail_ok k r c"

definition more_mail :: "Cluster \<Rightarrow> Cluster \<Rightarrow> bool" where
  "more_mail c c' \<longleftrightarrow> wires c \<subseteq> wires c' \<and> vreplies c \<subseteq> vreplies c' \<and> areplies c \<subseteq> areplies c'"

lemma step_more: "step origin identity cfgs c c' \<Longrightarrow> more_mail c c'"
  by (erule step.cases) (auto simp: more_mail_def put_def)

lemma event_ok_mono: "event_ok k ms c e \<Longrightarrow> more_mail c c' \<Longrightarrow> event_ok k (ms @ ms') c' e"
  by (cases e) (auto simp: more_mail_def nth_append)

lemma mail_more: "mail_ok k r c \<Longrightarrow> more_mail c c' \<Longrightarrow> mail_ok k r c'"
  using event_ok_mono [where ms' = "[]"] by (fastforce simp: mail_ok_def call_ok_def more_mail_def)

section \<open>Operations as sequences of steps\<close>

abbreviation sim_sound :: "Oracle \<Rightarrow> nat \<Rightarrow> (string, Peer) fmap \<Rightarrow> Proto \<Rightarrow> Cluster \<Rightarrow> bool" where
  "sim_sound w k \<equiv> sound (oOrigin w) (oIdentity w) (sim_cfg k)"

abbreviation sim_moves :: "Oracle \<Rightarrow> nat \<Rightarrow> Cluster \<Rightarrow> Cluster \<Rightarrow> bool" where
  "sim_moves w k \<equiv> (step (oOrigin w) (oIdentity w) (sim_cfg k))\<^sup>*\<^sup>*"

text \<open>What the checker has written down.\<close>

definition same_ledger :: "runner \<Rightarrow> runner \<Rightarrow> bool" where
  "same_ledger r r' \<longleftrightarrow> rLeaders r' = rLeaders r \<and> rVotes r' = rVotes r \<and> rCommitted r' = rCommitted r \<and>
     rCommittedTerms r' = rCommittedTerms r \<and> rLogMatching r' = rLogMatching r \<and> rPrevCommit r' = rPrevCommit r \<and>
     rPrevApplied r' = rPrevApplied r"

definition moved :: "Oracle \<Rightarrow> nat \<Rightarrow> Cluster \<Rightarrow> runner \<Rightarrow> runner \<Rightarrow> bool" where
  "moved w k c r r' \<longleftrightarrow> same_ledger r r' \<and> rErr r' = rErr r \<and>
     (\<exists>c'. sim_moves w k c c' \<and> tracks k r' c')"

definition advances :: "Oracle \<Rightarrow> nat \<Rightarrow> runner \<Rightarrow> runner \<Rightarrow> bool" where
  "advances w k r r' \<longleftrightarrow> (\<forall>ps p c. sim_sound w k ps p c \<longrightarrow> tracks k r c \<longrightarrow> moved w k c r r')"

lemma advancesE:
  assumes "advances w k r r'" "sim_sound w k ps p c" "tracks k r c"
  obtains c' p' where "sim_moves w k c c'" "tracks k r' c'" "sim_sound w k ps p' c'" "later p c p' c'"
proof -
  have "moved w k c r r'" using assms unfolding advances_def by blast
  then obtain c' where "sim_moves w k c c'" "tracks k r' c'" by (auto simp: moved_def)
  then show ?thesis using that sound_steps [OF assms(2)] by metis
qed

lemma advancesI:
  assumes "\<And>ps p c. sim_sound w k ps p c \<Longrightarrow> tracks k r c \<Longrightarrow> advances w k r r'"
  shows "advances w k r r'"
  using assms unfolding advances_def by blast

lemma advances_trans [trans]:
  assumes "advances w k a b" "advances w k b c"
  shows "advances w k a c"
  unfolding advances_def
proof (intro allI impI)
  fix ps p x assume s: "sim_sound w k ps p x" and t: "tracks k a x"
  then have ab: "moved w k x a b" using assms(1) by (simp add: advances_def)
  then obtain y where y: "sim_moves w k x y" "tracks k b y" by (auto simp: moved_def)
  obtain q where "sim_sound w k ps q y" by (rule sound_steps [OF s y(1)])
  then have "moved w k y b c" using assms(2) y(2) by (simp add: advances_def)
  then show "moved w k x a c" using ab y(1) unfolding moved_def same_ledger_def by (auto dest: rtranclp_trans)
qed

text \<open>Fields that the relation does not look at.\<close>

definition resting :: "runner \<Rightarrow> runner \<Rightarrow> bool" where
  "resting r r' \<longleftrightarrow> same_ledger r r' \<and> rErr r' = rErr r \<and> rNodes r' = rNodes r \<and> rHeap r' = rHeap r \<and> rDisks r' = rDisks r \<and>
     rPeers r' = rPeers r \<and> rCalls r' = rCalls r \<and> rQ r' = rQ r"

lemma mirrors_frame:
  assumes "rNodes r' = rNodes r" "rHeap r' = rHeap r" "rDisks r' = rDisks r" "rPeers r' = rPeers r"
  shows "mirrors k r' c = mirrors k r c"
  using assms by (simp add: mirrors_def node_tracks_def load_def cong: option.case_cong)

lemma tracks_frame:
  assumes "rNodes r' = rNodes r" "rHeap r' = rHeap r" "rDisks r' = rDisks r" "rPeers r' = rPeers r" "rCalls r' = rCalls r" "rQ r' = rQ r"
  shows "tracks k r' c = tracks k r c"
  using assms mirrors_frame [of r' r] by (simp add: tracks_def mail_ok_def)

lemma moved_here: "tracks k r' c \<Longrightarrow> same_ledger r r' \<Longrightarrow> rErr r' = rErr r \<Longrightarrow> moved w k c r r'"
  unfolding moved_def by blast

lemma resting_advances: "resting r r' \<Longrightarrow> advances w k r r'"
  unfolding advances_def resting_def by (metis moved_here tracks_frame)

lemma advances_refl [simp]: "advances w k r r"
  by (rule resting_advances) (simp add: resting_def same_ledger_def)

section \<open>Calls into a node\<close>

definition on_disk :: "journalRecord memoryDisk \<Rightarrow> Node \<Rightarrow> Node" where
  "on_disk d n = n\<lparr>store := (store n)\<lparr>sWal := Some (Memory d)\<rparr>\<rparr>"

lemma load_on_disk: "load i a r = on_disk (rDisks r ! i) (rHeap r ! a)"
  by (simp add: load_def on_disk_def Let_def)

lemma on_disk_own: "sWal (store n) = Some (Memory d) \<Longrightarrow> on_disk (disk_of n e) n = n"
  by (simp add: on_disk_def disk_of_def)

lemma tracksD:
  assumes "tracks k r c" "i < k"
  shows "rNodes r ! i = Some a \<Longrightarrow> procs c (sim_id i) = Up (load i a r)" "rNodes r ! i = Some a \<Longrightarrow> a < length (rHeap r)"
    "rNodes r ! i = None \<Longrightarrow> procs c (sim_id i) = Down (Memory ((rDisks r ! i)\<lparr>mfailure := []\<rparr>))"
    "length (rNodes r) = k" "length (rDisks r) = k" "rPeers r = map sim_peer [0 ..< k]"
    "rNodes r ! i = Some a \<Longrightarrow> j < k \<Longrightarrow> rNodes r ! j = Some a \<Longrightarrow> j = i" "mail_ok k r c"
  using assms by (auto simp: tracks_def mirrors_def node_tracks_def split: option.splits)

lemma flat_disk:
  assumes "sim_sound w k ps p c" "procs c i = Up n"
  obtains d where "sWal (store n) = Some (Memory d)"
  using assms flatD(1) unfolding sound_def uncut_def by blast

lemma mirrors_one:
  assumes t: "mirrors k r c" and i: "i < k" and P: "procs c' = (procs c)(sim_id i := P)"
    and f: "length (rNodes r') = k" "length (rDisks r') = k" "rPeers r' = rPeers r"
    and own: "node_tracks r' c' i"
    and others: "\<And>j. j < k \<Longrightarrow> j \<noteq> i \<Longrightarrow> rNodes r' ! j = rNodes r ! j \<and> rDisks r' ! j = rDisks r ! j \<and>
      (\<forall>b. rNodes r ! j = Some b \<longrightarrow> b < length (rHeap r') \<and> rHeap r' ! b = rHeap r ! b \<and> rNodes r' ! i \<noteq> Some b)"
  shows "mirrors k r' c'"
proof -
  have nt: "node_tracks r' c' j" if "j < k" for j
  proof (cases "j = i")
    case False
    then show ?thesis
      using t that others [OF that False] P by (auto simp: mirrors_def node_tracks_def load_def Let_def split: option.splits)
  qed (use own in simp)
  have ds: "a = b" if "a < k" "b < k" "rNodes r' ! a = Some x" "rNodes r' ! b = Some x" for a b x
  proof -
    consider "a = i" "b = i" | "a = i" "b \<noteq> i" | "a \<noteq> i" "b = i" | "a \<noteq> i" "b \<noteq> i" by blast
    then show ?thesis
    proof cases
      case 2
      then show ?thesis using others [of b] that by auto
    next
      case 3
      then show ?thesis using others [of a] that by auto
    next
      case 4
      then show ?thesis using others [of a] others [of b] that t unfolding mirrors_def by metis
    qed simp
  qed
  then show ?thesis using nt f t unfolding mirrors_def by auto
qed

lemma call_tracks:
  assumes s: "sim_sound w k ps p c" and t: "tracks k r c" and i: "i < k" and a: "rNodes r ! i = Some a"
    and st: "step (oOrigin w) (oIdentity w) (sim_cfg k) c c'" and P: "procs c' = (procs c)(sim_id i := Up n)"
  shows "tracks k (unload i a n r) c'"
proof -
  note d = tracksD [OF t i]
  obtain p' where "sim_sound w k ps p' c'" by (rule sound_step [OF s st])
  then obtain e where "sWal (store n) = Some (Memory e)" using flat_disk [of w k ps p' c' "sim_id i" n] P by auto
  then have own: "on_disk (disk_of n x) n = n" for x by (rule on_disk_own)
  have "mirrors k (unload i a n r) c'"
  proof (rule mirrors_one [where r = r and i = i and P = "Up n" and c = c])
    show "mirrors k r c" using t by (simp add: tracks_def)
    show "node_tracks (unload i a n r) c' i"
      using a d(2) [OF a] d(5) i P own by (simp add: node_tracks_def unload_def load_on_disk)
    show "rNodes (unload i a n r) ! j = rNodes r ! j \<and> rDisks (unload i a n r) ! j = rDisks r ! j \<and>
      (\<forall>b. rNodes r ! j = Some b \<longrightarrow> b < length (rHeap (unload i a n r)) \<and> rHeap (unload i a n r) ! b = rHeap r ! b \<and>
        rNodes (unload i a n r) ! i \<noteq> Some b)" if "j < k" "j \<noteq> i" for j
      using that d(7) [OF a that(1)] a tracksD(2) [OF t that(1)] by (auto simp: unload_def nth_list_update) (metis nth_list_update_neq)
  qed (use i P d(4-6) in \<open>simp_all add: unload_def\<close>)
  moreover have "mail_ok k (unload i a n r) c'"
    using mail_more [OF d(8) step_more [OF st]] by (simp add: mail_ok_def unload_def)
  ultimately show ?thesis by (simp add: tracks_def)
qed

lemma unload_ledger [simp]: "same_ledger r (unload i a n r)" "rErr (unload i a n r) = rErr r"
  by (simp_all add: same_ledger_def unload_def)

lemma call_moved:
  assumes "sim_sound w k ps p c" "tracks k r c" "i < k" "rNodes r ! i = Some a"
    "step (oOrigin w) (oIdentity w) (sim_cfg k) c c'" "procs c' = (procs c)(sim_id i := Up n)"
  shows "moved w k c r (unload i a n r)"
  unfolding moved_def using call_tracks [OF assms] assms(5) by auto

text \<open>A function on nodes that is an entry point of theory \<open>Cluster\<close>.\<close>

definition entry_point :: "Oracle \<Rightarrow> nat \<Rightarrow> (Node \<Rightarrow> Node option) \<Rightarrow> bool" where
  "entry_point w k f \<longleftrightarrow> (\<forall>c i n n'. procs c i = Up n \<longrightarrow> f n = Some n' \<longrightarrow> step (oOrigin w) (oIdentity w) (sim_cfg k) c (put i n' c))"

lemma with_node_advances:
  assumes e: "entry_point w k f" and i: "i < k" and r: "with_node i f r = Some r'"
  shows "advances w k r r'"
  unfolding advances_def
proof (intro allI impI)
  fix ps p c assume s: "sim_sound w k ps p c" and t: "tracks k r c"
  show "moved w k c r r'"
  proof (cases "rNodes r ! i")
    case None
    then show ?thesis using r t by (auto simp: with_node_def same_ledger_def intro: moved_here)
  next
    case (Some a)
    then obtain n where n: "f (load i a r) = Some n" "r' = unload i a n r" using r by (auto simp: with_node_def)
    have "step (oOrigin w) (oIdentity w) (sim_cfg k) c (put (sim_id i) n c)"
      using e tracksD(1) [OF t i Some] n(1) by (simp add: entry_point_def)
    then show ?thesis using call_moved [OF s t i Some, of "put (sim_id i) n c" n] n(2) by simp
  qed
qed

lemma entry_points [simp]: "entry_point w k (Tick en)" "entry_point w k (SetPaused en b)"
  by (auto simp: entry_point_def intro: tick pause)

text \<open>A function on nodes that does not touch the disk, called on the object at an address.\<close>

definition diskless :: "Oracle \<Rightarrow> nat \<Rightarrow> (Node \<Rightarrow> Node) \<Rightarrow> bool" where
  "diskless w k g \<longleftrightarrow> (\<forall>d n. g (on_disk d n) = on_disk d (g n)) \<and> entry_point w k (\<lambda>n. Some (g n))"

lemma heap_advances:
  assumes g: "diskless w k g" and r': "r' = r\<lparr>rHeap := (rHeap r)[a := g (rHeap r ! a)]\<rparr>"
  shows "advances w k r r'"
  unfolding advances_def
proof (intro allI impI)
  fix ps p c assume s: "sim_sound w k ps p c" and t: "tracks k r c"
  show "moved w k c r r'"
  proof (cases "\<exists>i < k. rNodes r ! i = Some a")
    case True
    then obtain i where i: "i < k" "rNodes r ! i = Some a" by blast
    note d = tracksD [OF t i(1)]
    let ?n = "g (load i a r)" let ?c = "put (sim_id i) ?n c"
    have st: "step (oOrigin w) (oIdentity w) (sim_cfg k) c ?c"
      using g d(1) [OF i(2)] by (auto simp: diskless_def entry_point_def)
    have "mirrors k r' ?c"
    proof (rule mirrors_one [where r = r and i = i and P = "Up ?n" and c = c])
      show "mirrors k r c" using t by (simp add: tracks_def)
      show "node_tracks r' ?c i"
        using i d(2) [OF i(2)] g by (simp add: node_tracks_def r' load_on_disk diskless_def)
      show "rNodes r' ! j = rNodes r ! j \<and> rDisks r' ! j = rDisks r ! j \<and>
        (\<forall>b. rNodes r ! j = Some b \<longrightarrow> b < length (rHeap r') \<and> rHeap r' ! b = rHeap r ! b \<and> rNodes r' ! i \<noteq> Some b)"
        if "j < k" "j \<noteq> i" for j
        using that d(7) [OF i(2) that(1)] i(2) tracksD(2) [OF t that(1)] by (auto simp: r' nth_list_update) (metis nth_list_update_neq)
    qed (use i(1) d(4-6) in \<open>simp_all add: r'\<close>)
    moreover have "mail_ok k r' ?c" using mail_more [OF d(8) step_more [OF st]] by (simp add: mail_ok_def r')
    ultimately show ?thesis using st by (auto simp: moved_def tracks_def r' same_ledger_def)
  next
    case False
    then have "tracks k r' c"
      using t by (auto simp: tracks_def mirrors_def mail_ok_def node_tracks_def load_on_disk r' nth_list_update split: option.splits)
    then show ?thesis by (rule moved_here) (simp_all add: r' same_ledger_def)
  qed
qed

lemma diskless_calls [simp]: "diskless w k Close" "diskless w k (Cancel t)" "diskless w k (\<lambda>n. snd (Poll t n))"
  "diskless w k (\<lambda>n. snd (DrainMessages n))"
proof -
  have "entry_point w k (\<lambda>n. Some (Close n))" "entry_point w k (\<lambda>n. Some (Cancel t n))" "entry_point w k (\<lambda>n. Some (snd (Poll t n)))"
    "entry_point w k (\<lambda>n. Some (snd (DrainMessages n)))"
    by (auto simp: entry_point_def intro: close cancel drain poll [OF _ prod.collapse [symmetric]])
  then show "diskless w k Close" "diskless w k (Cancel t)" "diskless w k (\<lambda>n. snd (Poll t n))" "diskless w k (\<lambda>n. snd (DrainMessages n))"
    by (auto simp: diskless_def on_disk_def Close_def failPendingLocked_def Cancel_def Poll_def DrainMessages_def split: option.splits list.splits)
qed

section \<open>Disks, crashes and restarts\<close>

lemma refit_on_disk: "refit f (on_disk d n) = on_disk (d\<lparr>mfailure := f\<rparr>) n"
  by (simp add: refit_def on_disk_def)

lemma clear_advances:
  assumes i: "i < k"
  shows "advances w k r (clear_disk i f r)"
  unfolding advances_def
proof (intro allI impI)
  fix ps p c assume s: "sim_sound w k ps p c" and t: "tracks k r c"
  let ?r = "clear_disk i f r"
  note d = tracksD [OF t i]
  have led: "same_ledger r ?r" "rErr ?r = rErr r" by (simp_all add: clear_disk_def same_ledger_def)
  have m: "mirrors k r c" using t by (simp add: tracks_def)
  have other: "rNodes ?r ! j = rNodes r ! j \<and> rDisks ?r ! j = rDisks r ! j \<and>
      (\<forall>b. rNodes r ! j = Some b \<longrightarrow> b < length (rHeap ?r) \<and> rHeap ?r ! b = rHeap r ! b \<and> rNodes ?r ! i \<noteq> Some b)"
      if "j < k" "j \<noteq> i" for j
    using that d(7) [OF _ that(1)] tracksD(2) [OF t that(1)] by (auto simp: clear_disk_def)
  show "moved w k c r ?r"
  proof (cases "rNodes r ! i")
    case None
    have P: "procs c = (procs c)(sim_id i := procs c (sim_id i))" by simp
    have "mirrors k ?r c"
      by (rule mirrors_one [OF m i P _ _ _ _ other]) (use None i d(3) [OF None] d(4-6) in \<open>simp_all add: clear_disk_def node_tracks_def\<close>)
    then have "tracks k ?r c" using d(8) by (simp add: tracks_def mail_ok_def clear_disk_def)
    then show ?thesis using led by (rule moved_here)
  next
    case (Some a)
    let ?n = "refit f (load i a r)" let ?c = "put (sim_id i) ?n c"
    have st: "step (oOrigin w) (oIdentity w) (sim_cfg k) c ?c" by (rule refit [OF d(1) [OF Some]])
    have "mirrors k ?r ?c"
      by (rule mirrors_one [OF m i put_procs _ _ _ _ other])
        (use Some i d(2) [OF Some] d(4-6) in \<open>simp_all add: clear_disk_def node_tracks_def load_on_disk refit_on_disk\<close>)
    then have "tracks k ?r ?c" using mail_more [OF d(8) step_more [OF st]] by (simp add: tracks_def mail_ok_def clear_disk_def)
    then show ?thesis unfolding moved_def using led st by auto
  qed
qed

lemma close_advances: "advances w k r (close_current i r)"
proof (cases "rNodes r ! i")
  case (Some a)
  show ?thesis by (rule heap_advances [of w k Close]) (simp_all add: close_current_def Some)
qed (simp add: close_current_def)

text \<open>A process stops: its journal is what the disk holds.\<close>

lemma stop_advances:
  assumes i: "i < k"
  shows "advances w k r (r\<lparr>rNodes := (rNodes r)[i := None]\<rparr>)"
  unfolding advances_def
proof (intro allI impI)
  fix ps p c assume s: "sim_sound w k ps p c" and t: "tracks k r c"
  let ?r = "r\<lparr>rNodes := (rNodes r)[i := None]\<rparr>"
  note d = tracksD [OF t i]
  show "moved w k c r ?r"
  proof (cases "rNodes r ! i")
    case None
    then have "?r = r" using list_update_id [of "rNodes r" i] by simp
    then show ?thesis using t by (simp add: moved_here same_ledger_def)
  next
    case (Some a)
    let ?j = "Memory ((rDisks r ! i)\<lparr>mfailure := []\<rparr>)" let ?n = "refit [] (load i a r)"
    let ?b = "put (sim_id i) ?n c" let ?c = "?b\<lparr>procs := (procs ?b)(sim_id i := Down ?j)\<rparr>"
    have st: "step (oOrigin w) (oIdentity w) (sim_cfg k) c ?b" by (rule refit [OF d(1) [OF Some]])
    have st2: "step (oOrigin w) (oIdentity w) (sim_cfg k) ?b ?c"
      by (rule crash [of _ _ ?n]) (simp_all add: load_on_disk refit_on_disk, simp add: on_disk_def)
    have P: "procs ?c = (procs c)(sim_id i := Down ?j)" by simp
    have other: "rNodes ?r ! j = rNodes r ! j \<and> rDisks ?r ! j = rDisks r ! j \<and>
      (\<forall>b. rNodes r ! j = Some b \<longrightarrow> b < length (rHeap ?r) \<and> rHeap ?r ! b = rHeap r ! b \<and> rNodes ?r ! i \<noteq> Some b)"
      if "j < k" "j \<noteq> i" for j using that i d(4) tracksD(2) [OF t that(1)] by simp
    have "mirrors k ?r ?c"
      by (rule mirrors_one [OF _ i P _ _ _ _ other]) (use t i d(4-6) in \<open>simp_all add: node_tracks_def tracks_def\<close>)
    moreover have "mail_ok k ?r ?c"
      using mail_more [OF mail_more [OF d(8) step_more [OF st]] step_more [OF st2]] by (simp add: mail_ok_def)
    moreover have "sim_moves w k c ?c" by (rule rtranclp.rtrancl_into_rtrancl [of _ c ?b]) (use st st2 in auto)
    ultimately show ?thesis unfolding moved_def tracks_def by (auto simp: same_ledger_def)
  qed
qed

text \<open>A journal that opens gives a node that starts.\<close>

lemma Open_succeeds:
  assumes s: "sim_sound w k ps p c" and i: "i < k" and down: "procs c (sim_id i) = Down j"
  obtains n where "OpenWithRuntime (oOrigin w) (oIdentity w) en True True (sim_cfg k (sim_id i)) None j = Some (Inr n)"
proof -
  let ?c0 = "sim_cfg k (sim_id i)" let ?cf = "default_config ?c0"
  have ag: "agreed (oOrigin w) (sim_cfg k) ps []" and f: "flat (oIdentity w) (sim_cfg k) c" using s by (auto simp: sound_def)
  obtain d t where t: "j = Memory d" "\<forall>r \<in> set (mrecords d). jCheckpoint r = None" "openStoreUsing (oIdentity w ?cf) None j = Some (Inr t)"
    using flatD(2) [OF f down] by (auto simp: plain_disk_def)
  have cp: "check_peers (oOrigin w) (Peers ?cf) fmempty {||} = Inr ps" using ag by (simp add: agreed_def)
  have mem: "sim_id i |\<in>| fmdom ps"
    using check_peers_fmap [OF cp] i by (auto simp: sim_cfg_def sim_id_def)
  let ?f = "fresh_node en True ?cf ps t"
  have b: "dBase (sState t) = 0" using open_uncut [OF t(3) [unfolded t(1)] t(2)] by (simp add: uncut_def)
  then have rn: "restore_node ?f = Inr ?f" by (simp add: restore_node_def fresh_node_def)
  note ri = restore_node_inv [OF openStoreUsing_ok(1,2) [OF t(3)] rn]
  obtain n1 where n1: "applyLocked en ?f = Some n1" using apply_total [OF ri(1)] by blast
  note rs = ran_sel [OF apply_follower [OF ri(1,6) n1]]
  have "FixedLeader ?cf = []" "cID ?cf = sim_id i" by (simp_all add: sim_cfg_def)
  then have "start_node en ?f = Some (Inr (resetTimerLocked en n1))"
    using n1 rs(1,9,13) ri(3,5,12) sim_peer_urls(1) [symmetric, of i] by (simp add: start_node_def sim_id_def Let_def)
  moreover have "timeouts_ok ?cf" by (simp add: timeouts_ok_def default_config_def sim_cfg_def Let_def)
  moreover have "cID ?c0 \<noteq> []" "ClusterID ?c0 \<noteq> []" by (simp_all add: sim_cfg_def sim_id_def)
  ultimately show ?thesis
    using that mem cp t(3) rn \<open>FixedLeader ?cf = []\<close> \<open>cID ?cf = sim_id i\<close> unfolding OpenWithRuntime_def by (simp add: Let_def)
qed

lemma open_advances:
  assumes i: "i < k" and none: "rNodes r ! i = None" and f: "mfailure (rDisks r ! i) = []"
    and o: "OpenWithRuntime (oOrigin w) (oIdentity w) en True True (sim_config r i) None (Memory (rDisks r ! i)) = Some (Inr n)"
    and r': "rHeap r' = rHeap r @ [n]" "rNodes r' = (rNodes r)[i := Some (length (rHeap r))]"
      "rDisks r' = (rDisks r)[i := disk_of n (rDisks r ! i)]" "rPeers r' = rPeers r" "rCalls r' = rCalls r" "rQ r' = rQ r"
      "same_ledger r r'" "rErr r' = rErr r"
  shows "advances w k r r'"
  unfolding advances_def
proof (intro allI impI)
  fix ps p c assume s: "sim_sound w k ps p c" and t: "tracks k r c"
  note d = tracksD [OF t i]
  let ?c = "put (sim_id i) n c"
  have down: "procs c (sim_id i) = Down (Memory (rDisks r ! i))" using d(3) [OF none] f by simp
  have o': "OpenWithRuntime (oOrigin w) (oIdentity w) en True True (sim_cfg k (sim_id i)) None (Memory (rDisks r ! i)) = Some (Inr n)"
    using o sim_config_cfg [OF d(6) i] by simp
  have st: "step (oOrigin w) (oIdentity w) (sim_cfg k) c ?c" by (rule restart [where cfgs = "sim_cfg k", OF down _ o']) (simp add: sim_cfg_def)
  obtain p' where "sim_sound w k ps p' ?c" by (rule sound_step [OF s st])
  then obtain e where "sWal (store n) = Some (Memory e)" using flat_disk [of w k ps p' ?c "sim_id i" n] by auto
  then have own: "on_disk (disk_of n x) n = n" for x by (rule on_disk_own)
  have "mirrors k r' ?c"
  proof (rule mirrors_one [OF _ i put_procs])
    show "node_tracks r' ?c i" using i d(4,5) own by (simp add: node_tracks_def r' load_on_disk)
    show "rNodes r' ! j = rNodes r ! j \<and> rDisks r' ! j = rDisks r ! j \<and>
      (\<forall>b. rNodes r ! j = Some b \<longrightarrow> b < length (rHeap r') \<and> rHeap r' ! b = rHeap r ! b \<and> rNodes r' ! i \<noteq> Some b)"
      if "j < k" "j \<noteq> i" for j using that i d(4) tracksD(2) [OF t that(1)] by (auto simp: r' nth_append)
  qed (use t i d(4-6) in \<open>simp_all add: r' tracks_def\<close>)
  moreover have "mail_ok k r' ?c" using mail_more [OF d(8) step_more [OF st]] by (simp add: mail_ok_def r')
  ultimately show "moved w k c r r'" unfolding moved_def tracks_def using st r'(7,8) by auto
qed

text \<open>The state in which \<open>start_node_at\<close> opens the journal.\<close>

definition before_open :: "nat \<Rightarrow> runner \<Rightarrow> runner" where
  "before_open i r = (let r1 = clear_disk i [] (close_current i r) in r1\<lparr>rDraws := rDraws r1 + 1\<rparr>)"

lemma before_open_advances:
  assumes i: "i < k"
  shows "advances w k r ((before_open i r)\<lparr>rNodes := (rNodes (before_open i r))[i := None]\<rparr>)"
proof -
  let ?r1 = "clear_disk i [] (close_current i r)"
  have "advances w k r (close_current i r)" by (rule close_advances)
  also have "advances w k \<dots> ?r1" by (rule clear_advances [OF i])
  also have "advances w k ?r1 (before_open i r)" by (rule resting_advances) (simp add: before_open_def resting_def same_ledger_def Let_def)
  also have "advances w k (before_open i r) ((before_open i r)\<lparr>rNodes := (rNodes (before_open i r))[i := None]\<rparr>)" by (rule stop_advances [OF i])
  finally show ?thesis .
qed

lemma start_opens:
  assumes i: "i < k" and s: "sim_sound w k ps p c" and t: "tracks k r c"
  defines "r2 \<equiv> before_open i r"
  obtains n where "OpenWithRuntime (oOrigin w) (oIdentity w) (env w r2) True True (sim_config r2 i) None (Memory (rDisks r2 ! i)) = Some (Inr n)"
    "mfailure (rDisks r2 ! i) = []" "i < length (rNodes r2)"
proof -
  let ?r3 = "r2\<lparr>rNodes := (rNodes r2)[i := None]\<rparr>"
  obtain c3 q where c3: "tracks k ?r3 c3" and q: "sim_sound w k ps q c3" unfolding r2_def by (rule advancesE [OF before_open_advances [OF i] s t])
  note d = tracksD [OF c3 i]
  have none: "rNodes ?r3 ! i = None" using i d(4) by simp
  have "i < length (rDisks (close_current i r))" using i d(5) by (simp add: r2_def before_open_def clear_disk_def Let_def)
  then have f: "mfailure (rDisks r2 ! i) = []" by (simp add: r2_def before_open_def clear_disk_def Let_def)
  have down: "procs c3 (sim_id i) = Down (Memory (rDisks r2 ! i))" using d(3) [OF none] f by simp
  have "sim_config r2 i = sim_cfg k (sim_id i)" using sim_config_cfg [of r2 k i] d(6) i by simp
  then show ?thesis using Open_succeeds [OF q i down, of "env w r2"] that f i d(4) by auto
qed

lemma start_advances:
  assumes i: "i < k" and r: "start_node_at w i r = Some r'"
  shows "advances w k r r'"
proof (rule advancesI)
  fix ps p c assume s: "sim_sound w k ps p c" and t: "tracks k r c"
  define r2 where "r2 = before_open i r"
  let ?r3 = "r2\<lparr>rNodes := (rNodes r2)[i := None]\<rparr>"
  obtain n where o: "OpenWithRuntime (oOrigin w) (oIdentity w) (env w r2) True True (sim_config r2 i) None (Memory (rDisks r2 ! i)) = Some (Inr n)"
    and f: "mfailure (rDisks r2 ! i) = []" and l: "i < length (rNodes r2)"
    unfolding r2_def by (rule start_opens [OF i s t])
  have r': "r' = record_trace ''RESTART'' (peer_id r2 i) []
           (r2\<lparr>rHeap := rHeap r2 @ [n], rNodes := (rNodes r2)[i := Some (length (rHeap r2))],
               rDisks := (rDisks r2)[i := disk_of n (rDisks r2 ! i)], rCursor := (rCursor r2)[i := 0],
               rDraws := rDraws r2 + 1\<rparr>)"
    using r o unfolding start_node_at_def Let_def before_open_def [unfolded Let_def, symmetric] r2_def [symmetric] by simp
  have "advances w k r ?r3" unfolding r2_def by (rule before_open_advances [OF i])
  also have "advances w k ?r3 r'"
  proof (rule open_advances [OF i])
    show "OpenWithRuntime (oOrigin w) (oIdentity w) (env w r2) True True (sim_config ?r3 i) None (Memory (rDisks ?r3 ! i)) = Some (Inr n)"
      using o by (simp add: sim_config_def peer_id_def)
  qed (use f l in \<open>simp_all add: r' record_trace_def same_ledger_def\<close>)
  finally show "advances w k r r'" .
qed

end
