(* ===== verification/Sim_Events.thy ===== *)
theory Sim_Events
  imports Sim_Cluster
begin

text \<open>
  Every event of the simulator and the network of the runner are sequences of cluster steps: the lemmas end with
  \<open>drain_advances\<close> and \<open>run_event_moved\<close>.
\<close>

section \<open>Scheduling\<close>

lemma restingI:
  assumes "rNodes r' = rNodes r" "rHeap r' = rHeap r" "rDisks r' = rDisks r" "rPeers r' = rPeers r" "rCalls r' = rCalls r" "rQ r' = rQ r"
    "rErr r' = rErr r" "same_ledger r r'"
  shows "resting r r'"
  using assms by (simp add: resting_def)

lemma schedule_tracks:
  assumes "tracks k r c" "event_ok k (map xMessage (rCalls r)) c e"
  shows "tracks k (schedule t kd e r) c"
proof -
  have h: "is_heap (rQ r) (length (rQ r))" using assms(1) by (simp add: tracks_def mail_ok_def)
  let ?x = "\<lparr>itAt = t, itSeq = rSeq r + 1, itKind = kd, itRun = e\<rparr>"
  have "set_mset (mset (heap_push ?x (rQ r))) = set_mset (add_mset ?x (mset (rQ r)))" using heap_push_ok(2) [OF h] by simp
  then have q: "set (heap_push ?x (rQ r)) = insert ?x (set (rQ r))" by simp
  show ?thesis
    using assms heap_push_ok(1) [OF h] q
      mirrors_frame [of "schedule t kd e r" r] by (auto simp: tracks_def mail_ok_def schedule_def Let_def)
qed

lemma schedule_sel [simp]:
  "rNodes (schedule t kd e r) = rNodes r" "rCalls (schedule t kd e r) = rCalls r" "rErr (schedule t kd e r) = rErr r" "rHeap (schedule t kd e r) = rHeap r"
  "rNow (schedule t kd e r) = rNow r" "rPeers (schedule t kd e r) = rPeers r" "same_ledger r (schedule t kd e r)" "rIsolated (schedule t kd e r) = rIsolated r"
  by (simp_all add: schedule_def Let_def same_ledger_def)

lemma schedule_advances:
  assumes "\<And>c. event_ok k (map xMessage (rCalls r)) c e"
  shows "advances w k r (schedule t kd e r)"
  unfolding advances_def using assms schedule_tracks moved_here by (metis schedule_sel(3,7))

lemma resting_ops [simp]:
  "resting r (record_trace kd node detail r)" "resting r (snd (IntN w m r))" "resting r (snd (delayMS w r))" "resting r (set_op j op r)"
  "resting r (r\<lparr>rTickets := n\<rparr>)" "resting r (r\<lparr>rNow := t\<rparr>)" "resting r (r\<lparr>rSteps := n\<rparr>)" "resting r (r\<lparr>rAcknowledged := n\<rparr>)" "resting r (r\<lparr>rIsolated := s\<rparr>)"
  "resting r (r\<lparr>rDrop := d\<rparr>)" "resting r (r\<lparr>rDelay := d\<rparr>)" "resting r (r\<lparr>rRecoverAt := d\<rparr>)" "resting r (r\<lparr>rOps := os\<rparr>)" "resting r (r\<lparr>rCursor := cs\<rparr>)" "resting r r"
  by (simp_all add: resting_def same_ledger_def record_trace_def IntN_def delayMS_def set_op_def)

lemma resting_trans: "resting a b \<Longrightarrow> resting b c \<Longrightarrow> resting a c"
  by (simp add: resting_def same_ledger_def)

lemma restingD: "resting r r' \<Longrightarrow> rNodes r' = rNodes r" "resting r r' \<Longrightarrow> rCalls r' = rCalls r" "resting r r' \<Longrightarrow> rErr r' = rErr r" "resting r r' \<Longrightarrow> same_ledger r r'"
  "resting r r' \<Longrightarrow> rHeap r' = rHeap r" "resting r r' \<Longrightarrow> rPeers r' = rPeers r" "resting r r' \<Longrightarrow> rDisks r' = rDisks r" "resting r r' \<Longrightarrow> rQ r' = rQ r"
  by (simp_all add: resting_def)

lemma resting_tracks: "resting r r' \<Longrightarrow> tracks k r' c = tracks k r c"
  by (rule tracks_frame) (simp_all add: resting_def)

lemma resting_load: "resting r r' \<Longrightarrow> load i a r' = load i a r"
  by (simp add: resting_def load_def)

section \<open>Faults\<close>

lemma apply_fault_advances:
  assumes f: "0 \<le> fNode f" "fNode f < int k" and r: "apply_fault w f r = Some r'"
  shows "advances w k r r'"
proof -
  let ?i = "nat (fNode f)"
  define r1 where "r1 = record_trace ''FAULT'' (peer_id r ?i) (fKind f) r"
  have i: "?i < k" using f by auto
  have r1: "advances w k r r1" unfolding r1_def by (rule resting_advances) simp
  note ap = r [unfolded apply_fault_def Let_def r1_def [symmetric]]
  have "advances w k r1 r'"
  proof (cases "fKind f = ''crash''")
    case True
    let ?c = "close_current ?i r1"
    have n: "rNodes ?c = rNodes r1" by (simp add: close_current_def split: option.splits)
    have "advances w k r1 ?c" by (rule close_advances)
    also have "advances w k ?c r'" using ap True stop_advances [OF i, of w ?c] n by simp
    finally show ?thesis .
  next
    case False
    then show ?thesis
      using ap start_advances [OF i] with_node_advances [OF entry_points(2) i] clear_advances [OF i] resting_advances
      by (auto split: if_splits)
  qed
  with r1 show ?thesis by (rule advances_trans)
qed

section \<open>Clients\<close>

lemma best_leader_current:
  assumes "best_leader r = Some (i, a, t)"
  shows "i < length (rNodes r)" "rNodes r ! i = Some a"
proof -
  let ?f = "\<lambda>i best.
        case rNodes r ! i of
          None \<Rightarrow> best
        | Some a \<Rightarrow>
            (let n = rHeap r ! a; t = dTerm (state n) in
             if availableLocked n \<and> role n = Leader \<and> (case best of None \<Rightarrow> True | Some (_, _, t') \<Rightarrow> t' < t)
             then Some (i, a, t) else best)"
  have "\<forall>i a t. fold ?f is b = Some (i, a, t) \<longrightarrow> b = Some (i, a, t) \<or> i \<in> set is \<and> rNodes r ! i = Some a" for "is" b
    by (induction "is" arbitrary: b) (auto simp: Let_def split: option.splits if_splits)
  from this [of "[0 ..< length (rNodes r)]" None] assms show "i < length (rNodes r)" "rNodes r ! i = Some a"
    unfolding best_leader_def by auto
qed

lemma try_op_advances:
  assumes r: "try_op w j r = Some r'"
  shows "advances w k r r'"
proof (rule advancesI)
  fix ps p c assume s: "sim_sound w k ps p c" and t: "tracks k r c"
  let ?op = "rOps r ! j"
  define op1 where "op1 = ?op\<lparr>opRetryAt := rNow r + 150\<rparr>"
  define r1 where "r1 = set_op j op1 r"
  have q1: "resting r r1" by (simp add: r1_def)
  have a1: "advances w k r r1" by (rule resting_advances [OF q1])
  have t1: "tracks k r1 c" using t resting_tracks [OF q1] by simp
  note tr = r [unfolded try_op_def Let_def op1_def [symmetric] r1_def [symmetric]]
  show "advances w k r r'"
  proof (cases "opDone ?op \<or> opTicket ?op \<noteq> None \<or> best_leader r1 = None")
    case True
    then show ?thesis using tr a1 by (auto split: if_splits)
  next
    case False
    then obtain i a T where b: "best_leader r1 = Some (i, a, T)" by auto
    note cur = best_leader_current [OF b]
    have k: "length (rNodes r1) = k" using t1 by (simp add: tracks_def mirrors_def)
    then have i: "i < k" using cur by simp
    obtain res n where sb: "Submit (env w r1) (Some (opCommand op1)) None (load i a r1) = Some (res, n)"
      using tr False b by (auto elim!: bind_SomeE)
    define r2 where "r2 = unload i a n r1"
    have st: "step (oOrigin w) (oIdentity w) (sim_cfg k) c (put (sim_id i) n c)"
      by (rule submit [OF tracksD(1) [OF t1 i cur(2)] sb])
    have a2: "advances w k r1 r2"
      unfolding advances_def
    proof (intro allI impI)
      fix ps p c assume s: "sim_sound w k ps p c" and t: "tracks k r1 c"
      have "step (oOrigin w) (oIdentity w) (sim_cfg k) c (put (sim_id i) n c)"
        by (rule submit [OF tracksD(1) [OF t i cur(2)] sb])
      then show "moved w k c r1 r2" unfolding r2_def by (rule call_moved [OF s t i cur(2)]) simp
    qed
    have "advances w k r2 r'"
    proof (cases res)
      case (Inl e)
      then show ?thesis using tr False b sb by (simp add: r2_def)
    next
      case (Inr ticket)
      let ?r3 = "set_op j (op1\<lparr>opTicket := Some (rTickets r2, ticket), opSource := a\<rparr>) (r2\<lparr>rTickets := rTickets r2 + 1\<rparr>)"
      define r4 where "r4 = record_trace ''CLIENT_SUBMIT'' (peer_id ?r3 i) (ClientID (opCommand op1)) ?r3"
      have "resting r2 r4" unfolding r4_def by (rule resting_trans [OF resting_trans [OF resting_ops(5) resting_ops(4)] resting_ops(1)])
      then have "advances w k r2 r4" by (rule resting_advances)
      also have "advances w k r4 (schedule (rNow r4 + 1200) ''client-timeout'' (ClientTimeoutEv j (rTickets r2) i a ticket) r4)"
        by (rule schedule_advances) simp
      also have "\<dots> = r'" using tr False b sb Inr by (simp add: r2_def [symmetric] r4_def Let_def)
      finally show ?thesis .
    qed
    then show ?thesis using a1 a2 advances_trans by blast
  qed
qed

lemma client_timeout_advances: "advances w k r (client_timeout j serial i a ticket r)"
proof -
  let ?h = "r\<lparr>rHeap := (rHeap r)[a := Cancel ticket (rHeap r ! a)]\<rparr>"
  have h: "advances w k r ?h" by (rule heap_advances [of w k "Cancel ticket"]) simp_all
  have "advances w k ?h (record_trace kd nd dt (set_op j op ?h))" for kd nd dt op
    by (rule resting_advances [OF resting_trans [OF resting_ops(4) resting_ops(1)]])
  then show ?thesis using advances_trans [OF h] by (auto simp: client_timeout_def Let_def split: option.splits)
qed

section \<open>The network\<close>

lemma complete_tracks:
  assumes "tracks k r c" "x < length (rCalls r)"
  shows "tracks k (r\<lparr>rCalls := (rCalls r)[x := (rCalls r ! x)\<lparr>xCompleted := True\<rparr>]\<rparr>) c"
proof -
  let ?y = "(rCalls r ! x)\<lparr>xCompleted := True\<rparr>"
  have m: "map xMessage ((rCalls r)[x := ?y]) = map xMessage (rCalls r)"
    using assms(2) by (simp add: map_update list_update_same_conv)
  have "call_ok k c (rCalls r ! x)" using assms by (simp add: tracks_def mail_ok_def)
  then have "call_ok k c ?y" by (simp add: call_ok_def)
  then have "\<forall>z \<in> set ((rCalls r)[x := ?y]). call_ok k c z"
    using assms(1) set_update_subset_insert [of "rCalls r" x ?y] by (auto simp: tracks_def mail_ok_def)
  then show ?thesis
    using assms(1) m mirrors_frame [of "r\<lparr>rCalls := (rCalls r)[x := ?y]\<rparr>" r] by (simp add: tracks_def mail_ok_def)
qed

text \<open>The answer of message \<open>m\<close>: what its receiver said, or that it was lost.\<close>

definition answer_ok :: "Cluster \<Rightarrow> Message \<Rightarrow> VoteResponse \<Rightarrow> AppendResponse \<Rightarrow> gerror option \<Rightarrow> bool" where
  "answer_ok c m v a err \<longleftrightarrow> err \<noteq> None \<or> (if mVote m \<noteq> None then (m, v, err) \<in> vreplies c else (m, a, err) \<in> areplies c)"

lemma finish_moved:
  assumes s: "sim_sound w k ps p c" and t: "tracks k r c" and x: "x < length (rCalls r)"
    and a: "answer_ok c (xMessage (rCalls r ! x)) v ar err" and r: "finish w x v ar err r = Some r'"
  shows "moved w k c r r'"
proof -
  let ?x = "rCalls r ! x" let ?m = "xMessage ?x" let ?i = "xFrom ?x"
  define r1 where "r1 = r\<lparr>rCalls := (rCalls r)[x := ?x\<lparr>xCompleted := True\<rparr>]\<rparr>"
  have t1: "tracks k r1 c" unfolding r1_def by (rule complete_tracks [OF t x])
  have ok: "call_ok k c ?x" using t x by (simp add: tracks_def mail_ok_def)
  then have i: "?i < k" and f: "mFrom ?m = sim_id ?i" "?m \<in> wires c" by (simp_all add: call_ok_def)
  show ?thesis
  proof (cases "xCompleted ?x \<or> rNodes r ! ?i \<noteq> Some (xSource ?x)")
    case True
    then show ?thesis using r t by (simp add: finish_def moved_here same_ledger_def)
  next
    case False
    let ?l = "load ?i (xSource ?x) r1"
    have cur: "rNodes r1 ! ?i = Some (xSource ?x)" using False by (simp add: r1_def)
    note up = tracksD(1) [OF t1 i cur, folded f(1)]
    obtain n where n: "(if mVote ?m \<noteq> None then DeliverVote (env w r1) ?m v err ?l else DeliverAppend (env w r1) ?m ar err ?l) = Some n"
      and r': "r' = unload ?i (xSource ?x) n r1"
      using r False unfolding finish_def Let_def r1_def [symmetric] by (auto elim!: bind_SomeE)
    have "step (oOrigin w) (oIdentity w) (sim_cfg k) c (put (mFrom ?m) n c)"
      using n a vote_reply [OF _ up, of v err] vote_lost [OF f(2) up] append_reply [OF _ up, of ar err] append_lost [OF f(2) up]
      by (cases err) (auto simp: answer_ok_def split: if_splits)
    then have "moved w k c r1 r'" unfolding r' by (rule call_moved [OF s t1 i cur]) (simp add: f(1))
    then show ?thesis by (simp add: moved_def r1_def same_ledger_def)
  qed
qed

lemma deliver_moved:
  assumes s: "sim_sound w k ps p c" and t: "tracks k r c" and x: "x < length (rCalls r)" and r: "deliver w x r = Some r'"
  shows "moved w k c r r'"
proof -
  let ?x = "rCalls r ! x" let ?m = "xMessage ?x" let ?i = "xTo ?x"
  have ok: "call_ok k c ?x" using t x by (simp add: tracks_def mail_ok_def)
  then have i: "?i < k" and f: "mTo ?m = sim_id ?i" "?m \<in> wires c" by (simp_all add: call_ok_def)
  show ?thesis
  proof (cases "blocked r (xFrom ?x) ?i \<or> rNodes r ! ?i = None")
    case True
    then show ?thesis using r t by (auto simp: deliver_def Let_def moved_here same_ledger_def split: if_splits)
  next
    case False
    then obtain a where cur: "rNodes r ! ?i = Some a" by auto
    define r1 where "r1 = record_trace ''MESSAGE_DELIVERED'' (mFrom ?m) (message_detail ?m) r"
    have q1: "resting r r1" by (simp add: r1_def)
    have t1: "tracks k r1 c" using t resting_tracks [OF q1] by simp
    have cur1: "rNodes r1 ! ?i = Some a" using cur restingD(1) [OF q1] by simp
    note up = tracksD(1) [OF t1 i cur1, folded f(1)]
    let ?call = "case mVote ?m of
                     Some req \<Rightarrow> do { ((v, err), n) \<leftarrow> RequestVote (env w r1) req (load ?i a r1); Some (v, zeroA, err, n) }
                   | None \<Rightarrow>
                       do { req \<leftarrow> mAppend ?m; ((ar, err), n) \<leftarrow> AppendEntries (env w r1) req (load ?i a r1); Some (zeroV, ar, err, n) }"
    obtain v ar err n where call: "?call = Some (v, ar, err, n)"
      using r False cur unfolding deliver_def Let_def r1_def [symmetric] by (auto elim!: bind_SomeE split: if_splits)
    define r2 where "r2 = unload ?i a n r1"
    define r3 where "r3 = snd (IntN w 100 r2)"
    define r4 where "r4 = snd (delayMS w r3)"
    obtain c' where st: "step (oOrigin w) (oIdentity w) (sim_cfg k) c c'" and P: "procs c' = (procs c)(sim_id ?i := Up n)"
      and ans: "if mVote ?m \<noteq> None then (?m, v, err) \<in> vreplies c' else (?m, ar, err) \<in> areplies c'"
    proof (cases "mVote ?m")
      case None
      then obtain req where req: "mAppend ?m = Some req" "AppendEntries (env w r1) req (load ?i a r1) = Some ((ar, err), n)"
        using call by (auto elim!: bind_SomeE)
      from serve_append [OF f(2) req(1) up req(2)] show ?thesis by (rule that) (simp_all add: None f(1))
    next
      case (Some req)
      then have req: "RequestVote (env w r1) req (load ?i a r1) = Some ((v, err), n)" using call by (auto elim!: bind_SomeE)
      from serve_vote [OF f(2) Some up req] show ?thesis by (rule that) (simp_all add: Some f(1))
    qed
    have t2: "tracks k r2 c'" unfolding r2_def by (rule call_tracks [OF s t1 i cur1 st P])
    have q3: "resting r2 r3" by (simp add: r3_def)
    have q4: "resting r2 r4" unfolding r4_def by (rule resting_trans [OF q3]) simp
    have l2: "same_ledger r r2" "rErr r2 = rErr r" using q1 unload_ledger [where r = r1 and i = ?i and a = a and n = n] by (auto simp: r2_def resting_def same_ledger_def)
    have c4: "rCalls r4 = rCalls r" using restingD(2) [OF q4] restingD(2) [OF q1] by (simp add: r2_def unload_def)
    consider "r' = r3" | tm where "r' = schedule tm ''response'' (ResponseEv x v ar err) r4"
      using r False cur call unfolding deliver_def Let_def r1_def [symmetric]
      by (auto simp: r2_def [symmetric] r3_def r4_def IntN_def delayMS_def split: if_splits)
    then have "tracks k r' c' \<and> same_ledger r2 r' \<and> rErr r' = rErr r2"
    proof cases
      case 1
      then show ?thesis using t2 resting_tracks [OF q3] restingD(3,4) [OF q3] by simp
    next
      case 2
      have "tracks k r' c'" unfolding 2
        by (rule schedule_tracks) (use t2 resting_tracks [OF q4] c4 x ans in simp_all)
      then show ?thesis using 2 q4 schedule_sel(7) [of r4] by (auto simp: resting_def same_ledger_def)
    qed
    then show ?thesis using l2 st unfolding moved_def same_ledger_def by auto
  qed
qed

text \<open>\<open>idle\<close> at cluster \<open>c\<close>: the relation stays as it is, the nodes and the checker's records are kept.\<close>

definition idle :: "nat \<Rightarrow> Cluster \<Rightarrow> runner \<Rightarrow> runner \<Rightarrow> bool" where
  "idle k c r r' \<longleftrightarrow> (tracks k r c \<longrightarrow> tracks k r' c) \<and> same_ledger r r' \<and> rErr r' = rErr r \<and> rNodes r' = rNodes r \<and> rPeers r' = rPeers r"

lemma idle_trans [trans]: "idle k c a b \<Longrightarrow> idle k c b d \<Longrightarrow> idle k c a d"
  by (auto simp: idle_def same_ledger_def)

lemma resting_idle: "resting r r' \<Longrightarrow> idle k c r r'"
  using resting_tracks [of r r'] by (simp add: idle_def resting_def)

lemma schedule_idle: "event_ok k (map xMessage (rCalls r)) c e \<Longrightarrow> idle k c r (schedule t kd e r)"
  using schedule_tracks by (simp add: idle_def)

lemma idle_refl [simp]: "idle k c r r"
  by (simp add: idle_def same_ledger_def)

lemma send_idle:
  assumes m: "m \<in> wires c" "mFrom m = sim_id i" "mTo m = sim_id j" "i < k" "j < k"
  shows "idle k c r (send_msg w i j a m r)"
proof -
  let ?x = "length (rCalls r)"
  define r1 where "r1 = r\<lparr>rCalls := rCalls r @ [\<lparr>xFrom = i, xTo = j, xSource = a, xMessage = m, xCompleted = False\<rparr>]\<rparr>"
  define r2 where "r2 = schedule (rNow r1 + 300) ''rpc-timeout'' (RpcTimeoutEv ?x) r1"
  have x: "?x < length (map xMessage (rCalls r1))" by (simp add: r1_def)
  have "idle k c r r1"
  proof -
    have "tracks k r1 c" if t: "tracks k r c"
    proof -
      have "event_ok k (map xMessage (rCalls r1)) c e" if "event_ok k (map xMessage (rCalls r)) c e" for e
        using event_ok_mono [OF that, of c "[m]"] by (simp add: more_mail_def r1_def)
      then show ?thesis using t m mirrors_frame [of r1 r] by (simp add: tracks_def mail_ok_def r1_def call_ok_def)
    qed
    then show ?thesis by (simp add: idle_def r1_def same_ledger_def)
  qed
  also have "idle k c r1 r2" unfolding r2_def by (rule schedule_idle) (use x in simp)
  finally have i2: "idle k c r r2" .
  have x2: "rCalls r2 = rCalls r1" by (simp add: r2_def)
  have dl: "idle k c r' (schedule t kd (DeliverEv ?x) r')" if "rCalls r' = rCalls r1" for r' t kd
    by (rule schedule_idle) (use x that in simp)
  define r3 where "r3 = snd (IntN w 100 r2)"
  define r4 where "r4 = snd (delayMS w r3)"
  define r5 where "r5 = schedule (rNow r4 + fst (delayMS w r3)) ''message'' (DeliverEv ?x) r4"
  define r6 where "r6 = snd (IntN w 100 r5)"
  define r7 where "r7 = snd (delayMS w r6)"
  define r8 where "r8 = schedule (rNow r7 + fst (delayMS w r6)) ''duplicate-message'' (DeliverEv ?x) r7"
  have q: "resting r2 r3" "resting r3 r4" "resting r5 r6" "resting r6 r7" by (simp_all add: r3_def r4_def r6_def r7_def)
  have c4: "rCalls r4 = rCalls r1" using q(1,2) x2 by (simp add: resting_def)
  have c7: "rCalls r7 = rCalls r1" using q(3,4) c4 by (simp add: resting_def r5_def)
  have i5: "idle k c r4 r5" unfolding r5_def by (rule dl [OF c4])
  have i8: "idle k c r7 r8" unfolding r8_def by (rule dl [OF c7])
  have i6: "idle k c r2 r6" using idle_trans [OF idle_trans [OF idle_trans [OF resting_idle [OF q(1)] resting_idle [OF q(2)]] i5] resting_idle [OF q(3)]] .
  have i8': "idle k c r2 r8" using idle_trans [OF idle_trans [OF i6 resting_idle [OF q(4)]] i8] .
  let ?drop = "record_trace ''MESSAGE_DROPPED'' (mFrom m) (message_detail m)"
  have "idle k c r2 (?drop r2)" "idle k c r2 (?drop r3)"
    using idle_trans [OF resting_idle [OF q(1)] resting_idle [OF resting_ops(1)]] by (simp_all add: resting_idle)
  moreover have "send_msg w i j a m r \<in> {?drop r2, ?drop r3, r6, r8}"
    unfolding send_msg_def Let_def r1_def [symmetric] r2_def [symmetric] r3_def r4_def r5_def r6_def r7_def r8_def
    by (simp add: case_prod_beta)
  ultimately show ?thesis using idle_trans [OF i2] i6 i8' by auto
qed

lemma peer_index_found:
  assumes "peer_index r name = Some j"
  shows "j < length (rPeers r)" "peer_id r j = name"
proof -
  have "\<forall>j. fold (\<lambda>j found. if peer_id r j = name then Some j else found) is b = Some j \<longrightarrow>
      b = Some j \<or> j \<in> set is \<and> peer_id r j = name" for "is" b
    by (induction "is" arbitrary: b) auto
  from this [of "[0 ..< length (rPeers r)]" None] assms show "j < length (rPeers r)" "peer_id r j = name"
    unfolding peer_index_def by auto
qed

lemma sends_idle:
  assumes "\<forall>m \<in> set ms. m \<in> wires c \<and> mFrom m = sim_id i" "i < k" "rPeers r = map sim_peer [0 ..< k]"
  shows "idle k c r (fold (\<lambda>m r. case peer_index r (mTo m) of Some j \<Rightarrow> send_msg w i j a m r | None \<Rightarrow> r) ms r)"
  using assms
proof (induction ms arbitrary: r)
  case (Cons m ms)
  let ?r = "case peer_index r (mTo m) of Some j \<Rightarrow> send_msg w i j a m r | None \<Rightarrow> r"
  have i: "idle k c r ?r"
  proof (cases "peer_index r (mTo m)")
    case (Some j)
    note f = peer_index_found [OF Some]
    have "j < k" "mTo m = sim_id j" using f Cons.prems(3) by (simp_all add: peer_id_def sim_id_def)
    then show ?thesis using Some send_idle [of m c i j k] Cons.prems by simp
  qed simp
  then have "rPeers ?r = map sim_peer [0 ..< k]" using Cons.prems(3) by (simp add: idle_def)
  from Cons.IH [OF _ Cons.prems(2) this] show ?case using idle_trans [OF i] Cons.prems(1) by simp
qed simp

lemma drain_one_advances:
  assumes i: "i < k"
  shows "advances w k r (drain_one w i r)"
proof (cases "rNodes r ! i")
  case (Some a)
  define ms where "ms = outbox (rHeap r ! a)"
  define r1 where "r1 = r\<lparr>rHeap := (rHeap r)[a := snd (DrainMessages (rHeap r ! a))]\<rparr>"
  have a1: "advances w k r r1" unfolding r1_def by (rule heap_advances [of w k "\<lambda>n. snd (DrainMessages n)"]) simp_all
  define r2 where "r2 = fold (\<lambda>m r. case peer_index r (mTo m) of Some j \<Rightarrow> send_msg w i j a m r | None \<Rightarrow> r) ms r1"
  have r2: "drain_one w i r = r2" by (simp add: drain_one_def Some r2_def r1_def ms_def DrainMessages_def)
  show ?thesis unfolding r2 advances_def
  proof (intro allI impI)
    fix ps p c assume s: "sim_sound w k ps p c" and t: "tracks k r c"
    note up = tracksD(1) [OF t i Some]
    have "moved w k c r r1" using a1 s t by (auto simp: advances_def)
    then obtain c' where c': "sim_moves w k c c'" "tracks k r1 c'" by (auto simp: moved_def)
    have rc: "reachable (oOrigin w) (oIdentity w) (sim_cfg k) c" "refines (oIdentity w) (sim_cfg k) ps p c" using s by (auto simp: sound_def)
    have o: "outbox (load i a r) = ms" by (simp add: load_on_disk on_disk_def ms_def)
    have "more_mail c c'" using c'(1)
    proof (induction rule: rtranclp_induct)
      case (step y z)
      then show ?case using step_more [OF step(2)] by (auto simp: more_mail_def)
    qed (simp add: more_mail_def)
    moreover have "set ms \<subseteq> wires c" using reachable_posted [OF rc(1)] up o by (auto simp: posted_def)
    moreover have "mFrom m = sim_id i" if "m \<in> set ms" for m
      using coreD(16) [OF goodD(1) [OF refinesD(2) [OF rc(2) up]]] that o by (auto simp: sent_def)
    ultimately have "\<forall>m \<in> set ms. m \<in> wires c' \<and> mFrom m = sim_id i" by (auto simp: more_mail_def)
    moreover have "rPeers r1 = map sim_peer [0 ..< k]" using c'(2) by (simp add: tracks_def mirrors_def)
    ultimately have "idle k c' r1 r2" unfolding r2_def by (intro sends_idle i)
    then show "moved w k c r r2" using c' \<open>moved w k c r r1\<close> by (auto simp: moved_def idle_def same_ledger_def)
  qed
qed (simp add: drain_one_def)

lemma fold_advances: "(\<And>x r. x \<in> set xs \<Longrightarrow> advances w k r (f x r)) \<Longrightarrow> advances w k r (fold f xs r)"
proof (induction xs arbitrary: r)
  case (Cons x xs)
  then show ?case using advances_trans [of w k r "f x r"] by simp
qed simp

lemma drain_advances: "length (rNodes r) = k \<Longrightarrow> advances w k r (drain w r)"
  unfolding drain_def by (rule fold_advances) (simp add: drain_one_advances)

section \<open>The event loop\<close>

lemma each_advances:
  "(\<And>x r r'. x \<in> set xs \<Longrightarrow> f x r = Some r' \<Longrightarrow> advances w k r r') \<Longrightarrow> each f xs r = Some r' \<Longrightarrow> advances w k r r'"
proof (induction xs arbitrary: r)
  case (Cons x xs)
  from Cons.prems(2) obtain r1 where r1: "f x r = Some r1" "each f xs r1 = Some r'" by (auto elim!: bind_SomeE)
  have "advances w k r r1" using Cons.prems(1) [OF _ r1(1)] by simp
  also have "advances w k r1 r'" by (rule Cons.IH [OF _ r1(2)]) (use Cons.prems(1) in auto)
  finally show ?case .
qed simp

lemma recover_one_advances:
  assumes i: "i < k" and r: "recover_one w i r = Some r'"
  shows "advances w k r r'"
proof -
  define r1 where "r1 = clear_disk i [] r"
  have a1: "advances w k r r1" unfolding r1_def by (rule clear_advances [OF i])
  note ro = r [unfolded recover_one_def Let_def r1_def [symmetric]]
  have "advances w k r1 r'"
  proof (cases "rNodes r1 ! i")
    case None
    then show ?thesis using ro start_advances [OF i] by simp
  next
    case (Some a)
    then obtain r2 where r2: "(if paused (rHeap r1 ! a) then with_node i (SetPaused (env w r1) False) r1 else Some r1) = Some r2"
      "(if \<not> availableLocked (rHeap r2 ! a) then start_node_at w i r2
        else if \<not> paused (rHeap r1 ! a) then with_node i (SetPaused (env w r2) False) r2 else Some r2) = Some r'"
      using ro by (auto elim!: bind_SomeE)
    have "advances w k r1 r2" using r2(1) with_node_advances [OF entry_points(2) i] by (auto split: if_splits)
    also have "advances w k r2 r'"
      using r2(2) with_node_advances [OF entry_points(2) i] start_advances [OF i] by (auto split: if_splits)
    finally show ?thesis .
  qed
  with a1 show ?thesis by (rule advances_trans)
qed

lemma recover_all_advances:
  assumes k: "length (rNodes r) = k" and r: "recover_all w r = Some r'"
  shows "advances w k r r'"
proof -
  let ?r0 = "r\<lparr>rIsolated := {}, rDrop := 0, rDelay := 5\<rparr>"
  obtain r1 where r1: "each (recover_one w) [0 ..< length (rNodes r)] ?r0 = Some r1" "r' = record_trace ''HEAL_ALL'' [] [] r1"
    using r by (auto simp: recover_all_def elim!: bind_SomeE)
  have "advances w k r ?r0" by (rule resting_advances) (simp add: resting_def same_ledger_def)
  also have "advances w k ?r0 r1" by (rule each_advances [OF _ r1(1)]) (use k recover_one_advances in auto)
  also have "advances w k r1 r'" unfolding r1(2) by (rule resting_advances) simp
  finally show ?thesis .
qed

lemma tick_all_advances:
  assumes k: "length (rNodes r) = k" and r: "tick_all w r = Some r'"
  shows "advances w k r r'"
proof -
  obtain r1 r2 where r1: "each (\<lambda>i r. with_node i (Tick (env w r)) r) [0 ..< length (rNodes r)] r = Some r1"
    and r2: "each (retry_op w) [0 ..< length (rOps r1)] r1 = Some r2" and r': "r' = schedule (rNow r2 + 50) ''tick'' TickEv r2"
    using r by (auto simp: tick_all_def elim!: bind_SomeE)
  have "advances w k r r1" by (rule each_advances [OF _ r1]) (use k with_node_advances [OF entry_points(1)] in auto)
  also have "advances w k r1 r2"
    by (rule each_advances [OF _ r2]) (auto simp: retry_op_def Let_def intro: try_op_advances split: if_splits)
  also have "advances w k r2 r'" unfolding r' by (rule schedule_advances) simp
  finally show ?thesis .
qed

lemma run_event_moved:
  assumes s: "sim_sound w k ps p c" and t: "tracks k r c" and e: "event_ok k (map xMessage (rCalls r)) c e" and r: "run_event w e r = Some r'"
  shows "moved w k c r r'"
proof -
  have k: "length (rNodes r) = k" using t by (simp add: tracks_def mirrors_def)
  have a: "moved w k c r r'" if "advances w k r r'" using that s t by (auto simp: advances_def)
  show ?thesis
  proof (cases e)
    case (FaultEv f)
    then show ?thesis using a apply_fault_advances [of f k w r r'] e r by (simp add: run_event_def)
  next
    case (ClientEv j)
    let ?r = "set_op j ((rOps r ! j)\<lparr>opRetryAt := rNow r\<rparr>) r"
    have "advances w k r ?r" by (rule resting_advances) simp
    then show ?thesis using a try_op_advances [of w j ?r r' k] r advances_trans by (auto simp: run_event_def ClientEv)
  next
    case RecoverEv
    then show ?thesis using a recover_all_advances [OF k] r by (simp add: run_event_def)
  next
    case TickEv
    then show ?thesis using a tick_all_advances [OF k] r by (simp add: run_event_def)
  next
    case (ClientTimeoutEv j serial i b ticket)
    then show ?thesis using a client_timeout_advances r by (auto simp: run_event_def)
  next
    case (RpcTimeoutEv x)
    then show ?thesis using finish_moved [OF s t, of x zeroV zeroA "Some (ErrText ''virtual RPC timeout'')" r'] e r
      by (simp add: run_event_def answer_ok_def)
  next
    case (DeliverEv x)
    then show ?thesis using deliver_moved [OF s t] e r by (simp add: run_event_def)
  next
    case (ResponseEv x v ar err)
    have "answer_ok c (xMessage (rCalls r ! x)) v ar err" using e ResponseEv by (auto simp: answer_ok_def)
    then show ?thesis
      using finish_moved [OF s t, of x v ar err r'] e r t by (auto simp: run_event_def ResponseEv moved_here same_ledger_def split: if_splits)
  qed
qed

end
