(* ===== verification/Sim_Checks.thy ===== *)
theory Sim_Checks
  imports Sim_Events
begin

text \<open>
  The checker of the simulator.  What it writes down about votes, leaders, logs and commits is true of the protocol
  (\<open>ledger\<close>), and what is true of the protocol stays true, so no check fails in any run.
\<close>

section \<open>The records of the checker\<close>

definition chain :: "Oracle \<Rightarrow> Entry list \<Rightarrow> string" where
  "chain w es = foldl (\<lambda>acc e. oSum w (acc @ oEntryHash w e)) [] es"

lemma chain_snoc: "chain w (es @ [e]) = oSum w (chain w es @ oEntryHash w e)"
  by (simp add: chain_def)

definition votes_true :: "nat \<Rightarrow> Cluster \<Rightarrow> runner \<Rightarrow> bool" where
  "votes_true k c r \<longleftrightarrow> (\<forall>i < k. \<forall>T v. fmlookup (rVotes r) (sim_id i @ ''/'' @ decimal (unat T)) = Some v \<longrightarrow> voted c (sim_id i) T = Some v)"

definition leaders_true :: "Proto \<Rightarrow> runner \<Rightarrow> bool" where
  "leaders_true p r \<longleftrightarrow> (\<forall>T l. fmlookup (rLeaders r) T = Some l \<longrightarrow> (\<exists>L. llog p T = Some (l, L)))"

definition logs_true :: "Oracle \<Rightarrow> Proto \<Rightarrow> runner \<Rightarrow> bool" where
  "logs_true w p r \<longleftrightarrow> (\<forall>m T h. fmlookup (rLogMatching r) (decimal m @ ''/'' @ decimal (unat T)) = Some h \<longrightarrow>
     (\<exists>l L. llog p T = Some (l, L) \<and> m \<le> length L \<and> h = chain w (take m L)))"

text \<open>The hash of an entry that some leader of a term not above \<open>T\<close> had committed.\<close>

definition commit_true :: "Oracle \<Rightarrow> Proto \<Rightarrow> nat \<Rightarrow> u64 \<Rightarrow> string \<Rightarrow> bool" where
  "commit_true w p m T h \<longleftrightarrow> 0 < m \<and> (\<exists>S j. (S, j) \<in> cmts p \<and> S \<le> T \<and> m \<le> j \<and> h = oEntryHash w (head p S j ! (m - 1)))"

definition commits_true :: "Oracle \<Rightarrow> Proto \<Rightarrow> runner \<Rightarrow> bool" where
  "commits_true w p r \<longleftrightarrow> fmdom (rCommittedTerms r) = fmdom (rCommitted r) \<and>
     (\<forall>m T h. fmlookup (rCommitted r) m = Some h \<longrightarrow> fmlookup (rCommittedTerms r) m = Some T \<longrightarrow> commit_true w p m T h)"

definition progress_true :: "nat \<Rightarrow> Proto \<Rightarrow> Cluster \<Rightarrow> runner \<Rightarrow> bool" where
  "progress_true k p c r \<longleftrightarrow> length (rPrevCommit r) = k \<and> length (rPrevApplied r) = k \<and>
     (\<forall>i < k. held p c (sim_id i) (rPrevCommit r ! i) \<and> held p c (sim_id i) (rPrevApplied r ! i))"

definition ledger :: "Oracle \<Rightarrow> nat \<Rightarrow> Proto \<Rightarrow> Cluster \<Rightarrow> runner \<Rightarrow> bool" where
  "ledger w k p c r \<longleftrightarrow> votes_true k c r \<and> leaders_true p r \<and> logs_true w p r \<and> commits_true w p r \<and> progress_true k p c r"

lemma ledger_same: "same_ledger r r' \<Longrightarrow> ledger w k p c r \<Longrightarrow> ledger w k p c r'"
  by (simp add: ledger_def same_ledger_def votes_true_def leaders_true_def logs_true_def commits_true_def progress_true_def)

lemma commit_true_ext:
  assumes inv: "raft_inv ps p" and x: "extends p p'" and c: "commit_true w p m T h"
  shows "commit_true w p' m T h"
proof -
  obtain S j where s: "(S, j) \<in> cmts p" "S \<le> T" "m \<le> j" "h = oEntryHash w (head p S j ! (m - 1))" "0 < m"
    using c by (auto simp: commit_true_def)
  have "has p S j" using raft_invD(6) [OF inv s(1)] by (simp add: cmt_inv_def)
  then have "head p' S j = head p S j" by (rule head_ext(2) [OF x])
  then show ?thesis using s extendsD(8) [OF x s(1)] unfolding commit_true_def by metis
qed

lemma ledger_later:
  assumes inv: "raft_inv ps p" and l: "later p c p' c'" and g: "ledger w k p c r"
  shows "ledger w k p' c' r"
proof -
  have x: "extends p p'" and v: "grows c c'" and h: "\<And>i b. held p c i b \<Longrightarrow> held p' c' i b" using l by (auto simp: later_def)
  have "leaders_true p' r" using g extendsD(1) [OF x] by (fastforce simp: ledger_def leaders_true_def)
  moreover have "logs_true w p' r"
    unfolding logs_true_def
  proof (intro allI impI)
    fix m h and T :: u64 assume "fmlookup (rLogMatching r) (decimal m @ ''/'' @ decimal (unat T)) = Some h"
    then obtain l L where L: "llog p T = Some (l, L)" "m \<le> length L" "h = chain w (take m L)" using g unfolding ledger_def logs_true_def by blast
    from extendsD(1) [OF x L(1)] obtain L' where "llog p' T = Some (l, L')" "prefix L L'" by blast
    then show "\<exists>l L. llog p' T = Some (l, L) \<and> m \<le> length L \<and> h = chain w (take m L)" using L(2,3) by (auto simp: prefix_def)
  qed
  ultimately show ?thesis
    using g v h commit_true_ext [OF inv x] by (auto simp: ledger_def votes_true_def commits_true_def progress_true_def grows_def)
qed

section \<open>What the checker sees of a node\<close>

definition seen :: "Proto \<Rightarrow> Cluster \<Rightarrow> string \<Rightarrow> Node \<Rightarrow> Entry list \<Rightarrow> bool" where
  "seen p c i n X \<longleftrightarrow> dLog (state n) = zeroEntry # X \<and> rooted p X \<and> (\<forall>j < length X. eIndex (X ! j) = Suc j) \<and>
     dCommit (state n) \<le> pcommit p i \<and> dCommit (state n) \<le> length X \<and> take (dCommit (state n)) X = take (dCommit (state n)) (plog p i) \<and>
     known p (dTerm (state n)) (dCommit (state n)) \<and> applied n = dCommit (state n) \<and> cID (cfg n) = i \<and>
     (dVote (state n) \<noteq> [] \<longrightarrow> voted c i (dTerm (state n)) = Some (dVote (state n))) \<and>
     (role n = Leader \<longrightarrow> llog p (dTerm (state n)) = Some (i, X)) \<and>
     (\<forall>n'. procs c i = Up n' \<longrightarrow> dCommit (state n') = dCommit (state n))"

lemma up_seen:
  assumes s: "sim_sound w k ps p c" and up: "procs c i = Up n"
  obtains X where "seen p c i n X"
proof -
  have ag: "agreed (oOrigin w) (sim_cfg k) ps []" and rc: "reachable (oOrigin w) (oIdentity w) (sim_cfg k) c"
    and rf: "refines (oIdentity w) (sim_cfg k) ps p c" and f: "flat (oIdentity w) (sim_cfg k) c" using s by (auto simp: sound_def)
  have u: "synced n" "cfg n = default_config (sim_cfg k i)" "dVote (state n) \<noteq> [] \<longrightarrow> voted c i (dTerm (state n)) = Some (dVote (state n))"
    using up_okI [OF reachable_inv [OF rc ag] up] by (auto simp: up_ok_def)
  note g = refinesD(2) [OF rf up]
  have b: "dBase (state n) = 0" using flatD(1) [OF f up] by (simp add: uncut_def)
  obtain X where X: "full X (store n)" "log_ok p X (pterm p i)" "dCommit (state n) \<le> pcommit p i"
    "take (dCommit (state n)) X = take (dCommit (state n)) (plog p i)" "dCommit (state n) \<le> length X" "wf_state (state n)"
    by (rule up_memory [OF rf up])
  have l: "dLog (state n) = zeroEntry # X" using X(1) b by (simp add: full_def)
  have e: "eIndex (X ! j) = Suc j" if "j < length X" for j
    using wf_entries_nth(1) [of "Suc 0" _ _ X j] X(6) l b that by (auto simp: wf_state_def)
  have "llog p (dTerm (state n)) = Some (i, X)" if "role n = Leader"
    using leader_link(3,4) [OF g that] l b by (simp add: full_def)
  then have "seen p c i n X"
    using X l e u up coreD(11) [OF goodD(1) [OF g]] by (auto simp: seen_def log_ok_def synced_def memory_def sim_cfg_def)
  then show ?thesis by (rule that)
qed

lemma seen_on_disk: "seen p c i (on_disk d n) X = seen p c i n X"
  by (simp add: seen_def on_disk_def)

lemma node_seen:
  assumes "sim_sound w k ps p c" "tracks k r c" "i < k" "rNodes r ! i = Some a"
  obtains X where "seen p c (sim_id i) (rHeap r ! a) X"
  using up_seen [OF assms(1) tracksD(1) [OF assms(2-4)]] by (auto simp: load_on_disk seen_on_disk)

section \<open>Every check passes\<close>

text \<open>A check goes on, and changes nothing but the records.\<close>

definition passes :: "runner \<Rightarrow> runner \<Rightarrow> bool" where
  "passes r r' \<longleftrightarrow> rNodes r' = rNodes r \<and> rHeap r' = rHeap r \<and> rDisks r' = rDisks r \<and> rPeers r' = rPeers r \<and> rCalls r' = rCalls r \<and>
     rQ r' = rQ r \<and> rErr r' = rErr r \<and> rOps r' = rOps r"

lemma passes_refl [simp]: "passes r r"
  by (simp add: passes_def)

lemma passes_trans [trans]: "passes a b \<Longrightarrow> passes b c \<Longrightarrow> passes a c"
  by (simp add: passes_def)

lemma passes_tracks: "passes r r' \<Longrightarrow> tracks k r' c = tracks k r c"
  by (rule tracks_frame) (simp_all add: passes_def)

lemma events_pass: "passes r (check_events i n r) \<and> same_ledger r (check_events i n r)"
proof -
  have "passes r (fold (\<lambda>e r. record_trace (evType e) (evNodeID e)
             (decimal (unat (evTerm e)) @ ''/'' @ decimal (evIndex e) @ ''/'' @ evPeer e @ ''/'' @ evMessageID e)
             (r\<lparr>rCursor := (rCursor r)[i := evID e]\<rparr>)) es r) \<and>
    same_ledger r (fold (\<lambda>e r. record_trace (evType e) (evNodeID e)
             (decimal (unat (evTerm e)) @ ''/'' @ decimal (evIndex e) @ ''/'' @ evPeer e @ ''/'' @ evMessageID e)
             (r\<lparr>rCursor := (rCursor r)[i := evID e]\<rparr>)) es r)" for es
  proof (induction es arbitrary: r)
    case (Cons e es)
    then show ?case by (simp add: passes_def same_ledger_def record_trace_def)
  qed (simp add: same_ledger_def)
  then show ?thesis by (simp add: check_events_def)
qed

lemma progress_passes:
  assumes v: "seen p c (sim_id i) n X" and up: "procs c (sim_id i) = Up n'" and i: "i < k" and g: "ledger w k p c r"
  obtains r' where "check_progress i n r = (False, r')" "passes r r'" "ledger w k p c r'"
proof -
  let ?d = "dCommit (state n)"
  have d: "?d \<le> pcommit p (sim_id i)" "applied n = ?d" "dCommit (state n') = ?d" using v up by (auto simp: seen_def)
  have h: "held p c (sim_id i) ?d" using d up by (simp add: held_def)
  have b: "rPrevCommit r ! i \<le> ?d" "rPrevApplied r ! i \<le> ?d" "length (rPrevCommit r) = k" "length (rPrevApplied r) = k"
    using g i up d(3) by (auto simp: ledger_def progress_true_def held_def)
  let ?r = "r\<lparr>rPrevCommit := (rPrevCommit r)[i := ?d], rPrevApplied := (rPrevApplied r)[i := ?d]\<rparr>"
  have "progress_true k p c ?r"
    using g h b i by (auto simp: ledger_def progress_true_def nth_list_update)
  then have "ledger w k p c ?r" using g by (simp add: ledger_def votes_true_def leaders_true_def logs_true_def commits_true_def)
  moreover have "check_progress i n r = (False, ?r)" using b d(2) by (simp add: check_progress_def)
  ultimately show ?thesis using that by (simp add: passes_def)
qed

lemma vote_passes:
  assumes v: "seen p c (sim_id i) n X" and i: "i < k" and g: "ledger w k p c r"
  obtains r' where "check_vote n r = (False, r')" "passes r r'" "ledger w k p c r'"
proof (cases "dVote (state n) = []")
  case True
  then show ?thesis using that [of r] g by (simp add: check_vote_def)
next
  case False
  let ?T = "dTerm (state n)" let ?v = "dVote (state n)" let ?key = "vote_key n"
  have w: "voted c (sim_id i) ?T = Some ?v" and key: "?key = sim_id i @ ''/'' @ decimal (unat ?T)"
    using v False by (auto simp: seen_def vote_key_def)
  have old: "y = ?v" if "fmlookup (rVotes r) ?key = Some y" for y
    using g that w i unfolding key by (auto simp: ledger_def votes_true_def)
  let ?r = "r\<lparr>rVotes := fmupd ?key ?v (rVotes r)\<rparr>"
  have "votes_true k c ?r"
    using g w i by (auto simp: ledger_def votes_true_def key split_slash word_unat_eq_iff [symmetric])
  then have "ledger w k p c ?r" using g by (simp add: ledger_def progress_true_def leaders_true_def logs_true_def commits_true_def)
  moreover have "check_vote n r = (False, ?r)" using old False by (auto simp: check_vote_def lookup_text_def Let_def split: option.splits)
  ultimately show ?thesis using that by (simp add: passes_def)
qed

lemma leader_passes:
  assumes v: "seen p c (sim_id i) n X" and g: "ledger w k p c r"
  obtains r' where "check_leader n r = (False, r')" "passes r r'" "ledger w k p c r'"
proof (cases "role n = Leader")
  case False
  then show ?thesis using that [of r] g by (simp add: check_leader_def Let_def)
next
  case True
  let ?T = "dTerm (state n)"
  have l: "llog p ?T = Some (sim_id i, X)" and id: "cID (cfg n) = sim_id i" using v True by (auto simp: seen_def)
  have old: "y = sim_id i" if "fmlookup (rLeaders r) ?T = Some y" for y
    using g that l unfolding ledger_def leaders_true_def by (metis option.inject prod.inject)
  let ?r = "r\<lparr>rLeaders := fmupd ?T (sim_id i) (rLeaders r)\<rparr>"
  have "leaders_true p ?r" using g l by (auto simp: ledger_def leaders_true_def)
  then have "ledger w k p c ?r" using g by (simp add: ledger_def progress_true_def votes_true_def logs_true_def commits_true_def)
  moreover have "check_leader n r = (False, ?r)" using old True id by (auto simp: check_leader_def lookup_text_def Let_def split: option.splits)
  ultimately show ?thesis using that by (simp add: passes_def)
qed

text \<open>Entries committed by leaders of different terms are the same entries.\<close>

lemma commits_same:
  assumes inv: "raft_inv ps p" and c: "(S, j) \<in> cmts p" "(S', j') \<in> cmts p" and m: "m < j" "m < j'"
  shows "head p S j ! m = head p S' j' ! m"
proof -
  have *: "head p S j ! m = head p S' j' ! m" if c: "(S, j) \<in> cmts p" "(S', j') \<in> cmts p" and m: "m < j" "m < j'" and le: "S \<le> S'" for S j S' j'
  proof -
    have h: "has p S j" "has p S' j'" using raft_invD(6) [OF inv] c by (auto simp: cmt_inv_def)
    obtain l L where L: "llog p S' = Some (l, L)" "j' \<le> length L" using h(2) by (auto simp: has_def)
    have "prefix (head p S j) L" by (rule committed_in_leader [OF inv c(1) L(1) le])
    then have "head p S j ! m = L ! m" using m(1) head_has [OF h(1)] by (auto simp: prefix_def nth_append)
    then show ?thesis using L m(2) by (simp add: head_def)
  qed
  show ?thesis using * [OF c m] * [OF c(2,1) m(2,1)] linear [of S S'] by auto
qed

lemma seen_committed:
  assumes inv: "raft_inv ps p" and v: "seen p c i n X" and m: "0 < m" "m \<le> dCommit (state n)"
  shows "commit_true w p m (dTerm (state n)) (oEntryHash w (X ! (m - 1)))"
proof -
  let ?d = "dCommit (state n)"
  obtain S j where s: "(S, j) \<in> cmts p" "S \<le> dTerm (state n)" "?d \<le> j" using v m by (auto simp: seen_def known_def)
  have pc: "?d \<le> pcommit p i" "?d \<le> length X" "take ?d X = take ?d (plog p i)" using v by (auto simp: seen_def)
  obtain S' j' where s': "(S', j') \<in> cmts p" "pcommit p i \<le> j'" "prefix (head p S' (pcommit p i)) (plog p i)"
    using raft_invD(7) [OF inv, of i] pc(1) m by (auto simp: commit_inv_def)
  have h': "has p S' j'" using raft_invD(6) [OF inv s'(1)] by (simp add: cmt_inv_def)
  then have hp: "has p S' (pcommit p i)" using s'(2) by (auto simp: has_def)
  have lt: "m - 1 < ?d" using m by simp
  have "X ! (m - 1) = plog p i ! (m - 1)" using nth_take [OF lt, of X] nth_take [OF lt, of "plog p i"] pc(3) by simp
  also have "\<dots> = head p S' (pcommit p i) ! (m - 1)"
    using s'(3) head_has [OF hp] lt pc(1) by (auto simp: prefix_def nth_append)
  also have "\<dots> = head p S' j' ! (m - 1)" using lt pc(1) s'(2) by (simp add: head_def)
  also have "\<dots> = head p S j ! (m - 1)" by (rule commits_same [OF inv s'(1) s(1)]) (use lt pc(1) s'(2) s(3) in simp_all)
  finally show ?thesis using s m unfolding commit_true_def by (metis order_trans)
qed

lemma committed_match:
  assumes "raft_inv ps p" "commit_true w p m T h" "commit_true w p m T' h'"
  shows "h = h'"
proof -
  obtain S j where s: "(S, j) \<in> cmts p" "m \<le> j" "h = oEntryHash w (head p S j ! (m - 1))" "0 < m"
    using assms(2) by (auto simp: commit_true_def)
  obtain S' j' where s': "(S', j') \<in> cmts p" "m \<le> j'" "h' = oEntryHash w (head p S' j' ! (m - 1))"
    using assms(3) by (auto simp: commit_true_def)
  have "head p S j ! (m - 1) = head p S' j' ! (m - 1)" by (rule commits_same [OF assms(1) s(1) s'(1)]) (use s s' in simp_all)
  then show ?thesis using s(3) s'(3) by simp
qed

lemma entry_passes:
  assumes inv: "raft_inv ps p" and v: "seen p c i n X" and j: "j < length X" and g: "ledger w k p c r"
  obtains r' where "check_entry w n (X ! j) (chain w (take j X), r) = (False, chain w (take (Suc j) X), r')" "passes r r'" "ledger w k p c r'"
proof -
  let ?e = "X ! j" let ?h = "oEntryHash w ?e" let ?ch = "chain w (take (Suc j) X)" let ?T = "dTerm (state n)"
  have ix: "eIndex ?e = Suc j" and ro: "rooted p X" using v j by (auto simp: seen_def)
  have ch: "oSum w (chain w (take j X) @ ?h) = ?ch" using j by (simp add: take_Suc_conv_app_nth chain_snoc)
  have key: "entry_key ?e = decimal (Suc j) @ ''/'' @ decimal (unat (eTerm ?e))" by (simp add: entry_key_def ix)
  have tm: "term_at X (Suc j) = eTerm ?e" by (simp add: term_at_def)
  obtain l L where L: "llog p (eTerm ?e) = Some (l, L)" "prefix (take (Suc j) X) L"
    using rootedE [OF ro, of "Suc j"] j tm by auto
  have tk: "Suc j \<le> length L" "take (Suc j) L = take (Suc j) X" using prefix_takeD [OF L(2)] j by auto
  have old: "y = ?ch" if "fmlookup (rLogMatching r) (entry_key ?e) = Some y" for y
    using g that L(1) tk unfolding key ledger_def logs_true_def by (metis option.inject prod.inject)
  define r1 where "r1 = r\<lparr>rLogMatching := fmupd (entry_key ?e) ?ch (rLogMatching r)\<rparr>"
  have "logs_true w p r1"
    unfolding logs_true_def
  proof (intro allI impI)
    fix m h and T :: u64 assume f: "fmlookup (rLogMatching r1) (decimal m @ ''/'' @ decimal (unat T)) = Some h"
    show "\<exists>l L. llog p T = Some (l, L) \<and> m \<le> length L \<and> h = chain w (take m L)"
    proof (cases "entry_key ?e = decimal m @ ''/'' @ decimal (unat T)")
      case True
      then have "m = Suc j" "T = eTerm ?e" by (auto simp: key split_slash word_unat_eq_iff)
      then show ?thesis using f L(1) tk True by (simp add: r1_def)
    next
      case False
      then show ?thesis using f g unfolding ledger_def logs_true_def r1_def by auto
    qed
  qed
  then have g1: "ledger w k p c r1" using g by (simp add: ledger_def progress_true_def votes_true_def leaders_true_def commits_true_def r1_def)
  have e: "check_entry w n ?e (chain w (take j X), r) =
      (if dCommit (state n) < Suc j then (False, ?ch, r1)
       else
         (let known = lookup_text (rCommitted r1) (Suc j) in
          if known \<noteq> [] \<and> known \<noteq> ?h then (True, ?ch, r1\<lparr>rErr := Some (ErrText ''committed prefix changed'')\<rparr>)
          else
            (False, ?ch,
             r1\<lparr>rCommitted := fmupd (Suc j) ?h (rCommitted r1),
                rCommittedTerms := (if fmlookup (rCommittedTerms r1) (Suc j) = None
                                    then fmupd (Suc j) ?T (rCommittedTerms r1) else rCommittedTerms r1)\<rparr>)))"
    using old by (auto simp: check_entry_def Let_def ch ix r1_def [symmetric] lookup_text_def split: option.splits)
  show ?thesis
  proof (cases "dCommit (state n) < Suc j")
    case True
    then show ?thesis using that [of r1] e g1 by (simp add: passes_def r1_def)
  next
    case False
    let ?r = "r1\<lparr>rCommitted := fmupd (Suc j) ?h (rCommitted r1),
                rCommittedTerms := (if fmlookup (rCommittedTerms r1) (Suc j) = None
                                    then fmupd (Suc j) ?T (rCommittedTerms r1) else rCommittedTerms r1)\<rparr>"
    have ct: "commit_true w p (Suc j) ?T ?h" using seen_committed [OF inv v, of "Suc j" w] False by simp
    have cs: "commits_true w p r1" using g1 by (simp add: ledger_def)
    have kn: "y = ?h" if "fmlookup (rCommitted r1) (Suc j) = Some y" for y
    proof -
      have "Suc j |\<in>| fmdom (rCommittedTerms r1)" using that cs by (auto simp: commits_true_def intro: fmdomI)
      then obtain T' where "fmlookup (rCommittedTerms r1) (Suc j) = Some T'" by (auto simp: fmlookup_dom_iff)
      then have "commit_true w p (Suc j) T' y" using that cs by (simp add: commits_true_def)
      then show ?thesis by (rule committed_match [OF inv _ ct])
    qed
    have "commits_true w p ?r"
    proof -
      have d: "fmdom (rCommittedTerms ?r) = fmdom (rCommitted ?r)" using cs by (auto simp: commits_true_def fmlookup_dom_iff finsert_absorb)
      have "commit_true w p m T h" if "fmlookup (rCommitted ?r) m = Some h" "fmlookup (rCommittedTerms ?r) m = Some T" for m T h
      proof (cases "m = Suc j")
        case True
        show ?thesis
        proof (cases "fmlookup (rCommittedTerms r1) (Suc j)")
          case None
          then show ?thesis using that ct True by simp
        next
          case (Some T')
          then have "Suc j |\<in>| fmdom (rCommitted r1)" using cs by (auto simp: commits_true_def intro: fmdomI)
          then obtain y where y: "fmlookup (rCommitted r1) (Suc j) = Some y" by (auto simp: fmlookup_dom_iff)
          then show ?thesis using that Some True cs kn [OF y] by (auto simp: commits_true_def)
        qed
      next
        case False
        then show ?thesis using that cs by (auto simp: commits_true_def split: if_splits)
      qed
      with d show ?thesis unfolding commits_true_def by blast
    qed
    then have "ledger w k p c ?r" using g1 by (simp add: ledger_def progress_true_def votes_true_def leaders_true_def logs_true_def)
    moreover have "check_entry w n ?e (chain w (take j X), r) = (False, ?ch, ?r)"
      using e False kn by (auto simp: lookup_text_def Let_def split: option.splits)
    ultimately show ?thesis using that [of ?r] by (simp add: passes_def r1_def)
  qed
qed

lemma entries_pass:
  assumes inv: "raft_inv ps p" and v: "seen p c i n X" and j: "j \<le> length X" and g: "ledger w k p c r"
  obtains h r' where "until_stop (check_entry w n) (drop j X) (chain w (take j X), r) = (False, h, r')" "passes r r'" "ledger w k p c r'"
  using j g
proof (induction "length X - j" arbitrary: j r thesis)
  case 0
  then show ?case by simp
next
  case (Suc d)
  then have j: "j < length X" by simp
  obtain r1 where r1: "check_entry w n (X ! j) (chain w (take j X), r) = (False, chain w (take (Suc j) X), r1)" "passes r r1" "ledger w k p c r1"
    by (rule entry_passes [OF inv v j Suc.prems(3)])
  have "d = length X - Suc j" "Suc j \<le> length X" using Suc.hyps(2) j by auto
  then obtain h r' where r': "until_stop (check_entry w n) (drop (Suc j) X) (chain w (take (Suc j) X), r1) = (False, h, r')"
      "passes r1 r'" "ledger w k p c r'"
    using Suc.hyps(1) [of "Suc j" r1] r1(3) by metis
  have "drop j X = X ! j # drop (Suc j) X" using j by (simp add: Cons_nth_drop_Suc)
  then show ?case using Suc.prems(1) [of h r'] r1(1) r' passes_trans [OF r1(2) r'(2)] by simp
qed

lemma log_passes:
  assumes inv: "raft_inv ps p" and v: "seen p c i n X" and g: "ledger w k p c r"
  obtains r' where "check_log w n r = Some (False, r')" "passes r r'" "ledger w k p c r'"
proof -
  obtain h r' where "until_stop (check_entry w n) (drop 0 X) (chain w (take 0 X), r) = (False, h, r')" "passes r r'" "ledger w k p c r'"
    by (rule entries_pass [OF inv v _ g, of 0]) simp
  moreover have "dLog (state n) = zeroEntry # X" using v by (simp add: seen_def)
  ultimately show ?thesis using that by (simp add: check_log_def chain_def)
qed

lemma complete_passes:
  assumes inv: "raft_inv ps p" and v: "seen p c i n X" and g: "ledger w k p c r"
  shows "check_complete w n r = (False, r)"
proof (cases "role n = Leader")
  case True
  have l: "llog p (dTerm (state n)) = Some (i, X)" "dLog (state n) = zeroEntry # X" using v True by (auto simp: seen_def)
  have "\<not> lost_index w n r m" if m: "m |\<in>| fmdom (rCommitted r)" for m
  proof -
    have cs: "commits_true w p r" using g by (simp add: ledger_def)
    obtain h where h: "fmlookup (rCommitted r) m = Some h" using m by (auto simp: fmlookup_dom_iff)
    obtain T where T: "fmlookup (rCommittedTerms r) m = Some T" using m cs unfolding commits_true_def by (metis fmlookup_dom_iff)
    have "commit_true w p m T h" using cs h T by (simp add: commits_true_def)
    then obtain S j where s: "(S, j) \<in> cmts p" "S \<le> T" "m \<le> j" "h = oEntryHash w (head p S j ! (m - 1))" "0 < m"
      by (auto simp: commit_true_def)
    have "m < length (dLog (state n)) \<and> oEntryHash w (dLog (state n) ! m) = h" if t: "T \<le> dTerm (state n)"
    proof -
      have "S \<le> dTerm (state n)" using s(2) t by (rule order_trans)
      then have p: "prefix (head p S j) X" by (rule committed_in_leader [OF inv s(1) l(1)])
      have "has p S j" using raft_invD(6) [OF inv s(1)] by (simp add: cmt_inv_def)
      then have "length (head p S j) = j" by (rule head_has)
      then have "m \<le> length X" "head p S j ! (m - 1) = X ! (m - 1)" using p s(3,5) by (auto simp: prefix_def nth_append)
      then show ?thesis using l(2) s(4,5) by (cases m) simp_all
    qed
    then show ?thesis using h T by (auto simp: lost_index_def lookup_text_def)
  qed
  then show ?thesis by (simp add: check_complete_def)
qed (simp add: check_complete_def)

text \<open>All checks of one node, and of all nodes.\<close>

lemma node_passes:
  assumes s: "sim_sound w k ps p c" and t: "tracks k r c" and i: "i < k" and g: "ledger w k p c r"
  obtains r' where "check_node w i r = Some (False, r')" "passes r r'" "ledger w k p c r'"
proof (cases "rNodes r ! i")
  case None
  then show ?thesis using that [of r] g by (simp add: check_node_def)
next
  case (Some a)
  let ?n = "rHeap r ! a"
  have inv: "raft_inv ps p" using s refinesD(1) by (auto simp: sound_def protocol_ok_def)
  obtain X where v: "seen p c (sim_id i) ?n X" by (rule node_seen [OF s t i Some])
  note up = tracksD(1) [OF t i Some]
  define r0 where "r0 = check_events i ?n r"
  have r0: "passes r r0" "ledger w k p c r0" using events_pass [of r i ?n] ledger_same [OF _ g] by (auto simp: r0_def)
  obtain r1 where r1: "check_progress i ?n r0 = (False, r1)" "passes r0 r1" "ledger w k p c r1" by (rule progress_passes [OF v up i r0(2)])
  obtain r2 where r2: "check_vote ?n r1 = (False, r2)" "passes r1 r2" "ledger w k p c r2" by (rule vote_passes [OF v i r1(3)])
  obtain r3 where r3: "check_leader ?n r2 = (False, r3)" "passes r2 r3" "ledger w k p c r3" by (rule leader_passes [OF v r2(3)])
  obtain r4 where r4: "check_log w ?n r3 = Some (False, r4)" "passes r3 r4" "ledger w k p c r4" by (rule log_passes [OF inv v r3(3)])
  have "check_node w i r = Some (False, r4)"
    using r1(1) r2(1) r3(1) r4(1) complete_passes [OF inv v r4(3)] by (simp add: check_node_def Some r0_def [symmetric] and_then_def Let_def)
  moreover have "passes r r4" using passes_trans [OF passes_trans [OF passes_trans [OF passes_trans [OF r0(1) r1(2)] r2(2)] r3(2)] r4(2)] .
  ultimately show ?thesis using that r4(3) by blast
qed

lemma nodes_pass:
  assumes s: "sim_sound w k ps p c" and t: "tracks k r c" and i: "\<forall>i \<in> set is. i < k" and g: "ledger w k p c r"
  obtains r' where "check_nodes w is r = Some r'" "passes r r'" "ledger w k p c r'"
  using t i g
proof (induction "is" arbitrary: r thesis)
  case (Cons i js)
  obtain r1 where r1: "check_node w i r = Some (False, r1)" "passes r r1" "ledger w k p c r1"
    by (rule node_passes [OF s Cons.prems(2) _ Cons.prems(4), of i]) (use Cons.prems(3) in simp)
  have "tracks k r1 c" using Cons.prems(2) passes_tracks [OF r1(2)] by simp
  then obtain r' where "check_nodes w js r1 = Some r'" "passes r1 r'" "ledger w k p c r'"
    using Cons.IH [of r1] Cons.prems(3) r1(3) by auto
  then show ?case using Cons.prems(1) r1 passes_trans [OF r1(2)] by simp
qed simp

lemma checks_pass:
  assumes "sim_sound w k ps p c" "tracks k r c" "ledger w k p c r"
  obtains r' where "check_all w r = Some r'" "passes r r'" "ledger w k p c r'"
proof -
  have "length (rNodes r) = k" using assms(2) by (simp add: tracks_def mirrors_def)
  then show ?thesis using nodes_pass [OF assms(1,2) _ assms(3), of "[0 ..< k]"] that by (auto simp: check_all_def)
qed

end
