(* ===== verification/Node_Plain.thy ===== *)
theory Node_Plain
  imports Node_Total
begin

text \<open>
  A node that never compacts its log, as the simulator configures it, never panics: every entry point answers.
\<close>

definition plain_node :: "Node \<Rightarrow> bool" where
  "plain_node n \<longleftrightarrow> node_inv n \<and> uncut (store n) \<and> SnapshotEvery (cfg n) = 0"

lemma plain_weak: "plain_node n \<Longrightarrow> weak_ok n n' \<Longrightarrow> plain_node n'"
  by (auto simp: plain_node_def weak_ok_def node_le_def)

lemma plain_step: "plain_node n \<Longrightarrow> step_ok n n' \<Longrightarrow> plain_node n'"
  using plain_weak step_weak by blast

lemma plainD: "plain_node n \<Longrightarrow> node_inv n" "plain_node n \<Longrightarrow> dBase (state n) = 0"
  by (simp_all add: plain_node_def uncut_def)

lemma queue_total: "plain_node n \<Longrightarrow> queueAppendLocked en p n \<noteq> None"
proof -
  assume p: "plain_node n"
  have "dBase (state n) < start_index n p" using plainD(2) [OF p] by (simp add: start_index_def)
  then obtain req n' where "prepareAppendLocked en p n = Some (req, n')" by (rule prepare_total [OF plainD(1) [OF p]])
  then show ?thesis by (simp add: queueAppendLocked_def)
qed

lemma queue_all_total: "plain_node n \<Longrightarrow> queue_all en ps n \<noteq> None"
proof (induction ps arbitrary: n)
  case (Cons p ps)
  have "(if pID p \<noteq> cID (cfg n) then queueAppendLocked en p n else Some n) \<noteq> None" using queue_total [OF Cons.prems] by simp
  then obtain n1 where n1: "(if pID p \<noteq> cID (cfg n) then queueAppendLocked en p n else Some n) = Some n1" by blast
  then have "step_ok n n1" using queue_quiet quiet_step by (auto split: if_splits)
  then show ?case using Cons.IH [OF plain_step [OF Cons.prems]] n1 by simp
qed simp

lemma kick_total: "plain_node n \<Longrightarrow> kickLocked en n \<noteq> None"
  using queue_all_total by (simp add: kickLocked_def)

lemma scan_total: "node_inv n \<Longrightarrow> i \<le> lastLocked n \<Longrightarrow> scan_commit n i \<noteq> None"
proof (induction i)
  case (Suc i)
  show ?case
  proof (cases "Suc i \<le> dCommit (state n)")
    case False
    have "dBase (state n) \<le> dCommit (state n)" using node_inv_wf(2) [OF Suc.prems(1)] by (simp add: wf_state_def)
    then obtain e where "entryLocked n (Suc i) = Some e" using entry_total [OF Suc.prems(1), of "Suc i"] Suc.prems(2) False by auto
    then show ?thesis using Suc by simp
  qed simp
qed simp

lemma advance_total:
  assumes p: "plain_node n"
  shows "advanceCommitLocked en n \<noteq> None"
proof (cases "role n = Leader \<and> availableLocked n")
  case True
  obtain found where f: "scan_commit n (lastLocked n) = Some found" using scan_total [OF plainD(1) [OF p] order_refl] by blast
  show ?thesis
  proof (cases found)
    case (Some index)
    obtain ok n1 where n1: "persistLocked en (dTerm (state n)) (dVote (state n)) index 0 [] n = Some (ok, n1)"
      using persist_total [OF plainD(1) [OF p]] by fastforce
    let ?e = "emitLocked en ''COMMITTED'' index [] [] [] n1"
    have "plain_node n1" by (rule plain_weak [OF p persist_weak [OF n1]]) (use True in \<open>simp add: availableLocked_def\<close>)
    then have e: "plain_node ?e" using plain_step by blast
    then obtain n2 where n2: "applyLocked en ?e = Some n2" using apply_total [OF plainD(1)] by blast
    have "plain_node n2"
      using e apply_ok [OF plainD(1) [OF e] n2] by (auto simp: plain_node_def node_le_def)
    then have "kickLocked en n2 \<noteq> None" by (rule kick_total)
    then show ?thesis using True f Some n1 n2 by (simp add: advanceCommitLocked_def)
  qed (use True f in \<open>simp add: advanceCommitLocked_def\<close>)
qed (auto simp: advanceCommitLocked_def)

lemma becomeLeader_total:
  assumes p: "plain_node n" and h: "failed n = None"
  shows "becomeLeaderLocked en n \<noteq> None"
proof -
  let ?c = "crowned en n"
  have c: "plain_node ?c" by (rule plain_step [OF p crowned_step [OF h]])
  let ?p = "persistLocked en (dTerm (state n)) (dVote (state n)) (dCommit (state n)) (lastLocked n + 1)
        [\<lparr>eIndex = lastLocked n + 1, eTerm = dTerm (state n), eCommand = None\<rparr>] ?c"
  obtain ok n3 where n3: "?p = Some (ok, n3)" using persist_total [OF plainD(1) [OF c]] by fastforce
  have p3: "plain_node n3" by (rule plain_weak [OF c persist_weak [OF n3]]) (simp add: h)
  let ?m = "n3\<lparr>matchIndex := (matchIndex n3)(cID (cfg n3) := lastLocked n + 1)\<rparr>"
  have m: "plain_node ?m" by (rule plain_step [OF p3]) simp
  obtain n4 where n4: "advanceCommitLocked en ?m = Some n4" using advance_total [OF m] by blast
  have "kickLocked en n4 \<noteq> None" by (rule kick_total [OF plain_step [OF m advance_step [OF n4]]])
  then show ?thesis using n3 n4 by (auto simp: becomeLeaderLocked_def Let_def crowned_def lastLocked_def)
qed

lemma startElection_total:
  assumes p: "plain_node n" and h: "failed n = None"
  shows "startElectionLocked en n \<noteq> None"
proof -
  obtain ok n1 where n1: "persistLocked en (dTerm (state n) + 1) (cID (cfg n)) (dCommit (state n)) 0 [] n = Some (ok, n1)"
    using persist_total [OF plainD(1) [OF p]] by fastforce
  have p1: "plain_node n1" by (rule plain_weak [OF p persist_weak [OF n1 h]])
  show ?thesis
  proof (cases ok)
    case True
    let ?c = "candidate en n1"
    have h1: "failed n1 = None" using persist_sel(17) [OF n1 True] h by simp
    have c: "plain_node ?c" by (rule plain_step [OF p1 candidate_step [OF h1]])
    have "becomeLeaderLocked en ?c \<noteq> None" by (rule becomeLeader_total [OF c]) (simp add: candidate_def h1)
    moreover obtain e where "entryLocked ?c (lastLocked ?c) = Some e"
      by (rule entry_total [OF plainD(1) [OF c] last_base [OF plainD(1) [OF c]] order_refl])
    ultimately show ?thesis using n1 True by (simp add: startElectionLocked_def Let_def candidate_def)
  qed (use n1 in \<open>simp add: startElectionLocked_def Let_def\<close>)
qed

lemma Tick_total: "plain_node n \<Longrightarrow> Tick en n \<noteq> None"
  using kick_total startElection_total by (auto simp: Tick_def availableLocked_def)

lemma DeliverVote_total:
  assumes p: "plain_node n"
  shows "DeliverVote en m resp err n \<noteq> None"
proof (cases "mVote m")
  case (Some req)
  let ?p = "peerOf n (mTo m)" let ?n = "emitLocked en ''VOTE_RESPONSE'' 0 (pID ?p) (vqMessageID req) [] n"
  have e: "plain_node ?n" using plain_step [OF p] by simp
  have sd: "stepDownLocked en (vrTerm resp) [] ?n \<noteq> None" by (rule stepDown_total [OF plainD(1) [OF e]])
  have "becomeLeaderLocked en (?n\<lparr>votes := Some vs\<rparr>) \<noteq> None" if "availableLocked n" for vs
    by (rule becomeLeader_total [OF plain_step [OF e]]) (use that in \<open>simp_all add: availableLocked_def\<close>)
  moreover have "votes ?n \<noteq> None" if "role n = Candidate" using plainD(1) [OF p] that by (simp add: node_inv_def role_ok_def)
  ultimately show ?thesis using Some sd by (auto simp: DeliverVote_def voteResponseLocked_def Let_def split: if_splits)
qed (simp add: DeliverVote_def)

lemma acceptAppend_total:
  assumes p: "plain_node n"
  shows "acceptAppendLocked en peer req resp err n \<noteq> None"
proof -
  let ?n = "answered en peer req resp err n"
  have e: "plain_node ?n" using plain_step [OF p] by simp
  have sd: "stepDownLocked en (arTerm resp) [] ?n \<noteq> None" by (rule stepDown_total [OF plainD(1) [OF e]])
  let ?m = "matched_to peer req ?n"
  have m: "plain_node ?m" using plain_step [OF e] by simp
  obtain n3 where n3: "advanceCommitLocked en ?m = Some n3" using advance_total [OF m] by blast
  have "plain_node n3" by (rule plain_step [OF m advance_step [OF n3]])
  then have "maybeSnapshotLocked en n3 = Some n3" by (simp add: maybeSnapshotLocked_def plain_node_def)
  then show ?thesis
    using n3 sd unfolding acceptAppendLocked_def answered_def [symmetric] Let_def
    by (auto simp: matched_to_def Let_def split: if_splits)
qed

lemma DeliverAppend_total:
  assumes p: "plain_node n" and s: "synced n"
  shows "DeliverAppend en m resp err n \<noteq> None"
proof (cases "mAppend m")
  case (Some req)
  let ?b = "n\<lparr>busy := (busy n)(mTo m := 0)\<rparr>"
  have b: "plain_node ?b" by (rule plain_step [OF p]) simp
  obtain more n1 where n1: "acceptAppendLocked en (peerOf n (mTo m)) req resp err ?b = Some (more, n1)"
    using acceptAppend_total [OF b] by fastforce
  have "synced ?b" using s by (simp add: synced_def)
  then have "plain_node n1" using plain_step [OF b acceptAppend_step [OF n1 plainD(1) [OF b]]] by simp
  then show ?thesis using Some n1 queue_total by (auto simp: DeliverAppend_def)
qed (simp add: DeliverAppend_def)

lemma submit_total:
  assumes p: "plain_node n"
  shows "Submit en command key n \<noteq> None"
proof (cases "availableLocked n")
  case True
  let ?e = "\<lparr>eIndex = lastLocked n + 1, eTerm = dTerm (state n), eCommand = command\<rparr>"
  obtain ok n1 where n1: "persistLocked en (dTerm (state n)) (dVote (state n)) (dCommit (state n)) (lastLocked n + 1) [?e] n = Some (ok, n1)"
    using persist_total [OF plainD(1) [OF p]] by fastforce
  have p1: "plain_node n1" by (rule plain_weak [OF p persist_weak [OF n1]]) (use True in \<open>simp add: availableLocked_def\<close>)
  let ?r = "registered en (lastLocked n + 1) key n1"
  have r: "plain_node ?r" using plain_step [OF p1] by simp
  obtain n3 where n3: "advanceCommitLocked en ?r = Some n3" using advance_total [OF r] by blast
  have "kickLocked en n3 \<noteq> None" by (rule kick_total [OF plain_step [OF r advance_step [OF n3]]])
  then show ?thesis using n1 n3 by (auto simp: Submit_def submitLocked_def Let_def registered_def split: option.splits)
qed (simp add: Submit_def submitLocked_def)

lemma SetPaused_total:
  assumes p: "plain_node n"
  shows "SetPaused en b n \<noteq> None"
proof -
  have "plain_node (n\<lparr>paused := b\<rparr>)" by (rule plain_step [OF p]) simp
  then have "plain_node (resetTimerLocked en (n\<lparr>paused := b\<rparr>))" by (rule plain_step) simp
  then obtain n2 where "kickLocked en (resetTimerLocked en (n\<lparr>paused := b\<rparr>)) = Some n2" using kick_total by blast
  then show ?thesis by (cases b) (simp_all add: SetPaused_def)
qed

end
