(* ===== verification/Node_Tickets.thy ===== *)
theory Node_Tickets
  imports Node_Plain
begin

text \<open>
  What a waiting call is owed.  A ticket for a SET at a log index never gets a success before the index is committed, and its result says that
  the value was written.  \<open>keeps\<close> is shown for every entry point of a node that never compacts its log.
\<close>

section \<open>Sessions of SET commands\<close>

definition sets_done :: "Machine \<Rightarrow> bool" where
  "sets_done m \<longleftrightarrow> (\<forall>c s. fmlookup (msessions m) c = Some s \<longrightarrow> Operation (sCommand s) = ''SET'' \<longrightarrow> rApplied (sResult s))"

lemma execute_set: "Operation c = ''SET'' \<Longrightarrow> rApplied (snd (execute vs c))"
  by (simp add: execute_def Let_def)

lemma sets_done_Apply: "sets_done m \<Longrightarrow> sets_done (snd (Apply m c))"
  using execute_set [of c "mvalues m"] by (auto simp: sets_done_def Apply_def split: prod.splits)

lemma sets_done_all: "sets_done m \<Longrightarrow> sets_done (apply_all m cs)"
proof (induction cs arbitrary: m)
  case (Cons c cs)
  then show ?case using Cons.IH [OF sets_done_Apply] by (simp add: apply_all_def)
qed (simp add: apply_all_def)

lemma Apply_set:
  assumes "sets_done m" "Operation c = ''SET''" "Apply m c = ((res, None), m')"
  shows "rApplied res"
  using assms execute_set [OF assms(2), of "mvalues m"]
  by (auto simp: Apply_def check_def sets_done_def split: prod.splits option.splits if_splits)

lemma plain_sets: "plain_node n \<Longrightarrow> sets_done (machine n)"
proof -
  assume p: "plain_node n"
  have "machine n = machine_at (store n) (applied n)" using plainD(1) [OF p] by (simp add: node_inv_def machine_ok_def)
  moreover have "sets_done (base_machine (store n))" using plainD(2) [OF p] by (simp add: base_machine_def sets_done_def New_Machine_def)
  ultimately show ?thesis by (simp add: machine_at_def sets_done_all)
qed

section \<open>Promises\<close>

definition write_at :: "Node \<Rightarrow> nat \<Rightarrow> bool" where
  "write_at n i \<longleftrightarrow> (\<exists>e c. entryLocked n i = Some e \<and> eCommand e = Some c \<and> Operation c = ''SET'')"

text \<open>Only a leader has waiting calls.\<close>

definition leader_waits :: "Node \<Rightarrow> bool" where
  "leader_waits n \<longleftrightarrow> role n = Leader \<or> pending n = fmempty"

text \<open>The call for index \<open>i\<close> on channel \<open>ch\<close>: it still waits for its entry, or an outcome was sent that can be believed.\<close>

definition owes :: "nat \<Rightarrow> nat \<Rightarrow> Node \<Rightarrow> bool" where
  "owes i ch n \<longleftrightarrow> ch < chanCount n \<and>
     (\<forall>j v. fmlookup (pending n) j = Some v \<longrightarrow> wdone v = ch \<longrightarrow> j = i \<and> readKey v = None \<and> write_at n i) \<and>
     (\<forall>out \<in> set (chans n ch). snd out = None \<longrightarrow> i \<le> dCommit (state n) \<and> rApplied (fst out))"

definition fair :: "Node \<Rightarrow> bool" where
  "fair n \<longleftrightarrow> plain_node n \<and> leader_waits n"

definition keeps :: "Node \<Rightarrow> Node \<Rightarrow> bool" where
  "keeps n n' \<longleftrightarrow> (fair n \<longrightarrow> fair n' \<and> (\<forall>i ch. owes i ch n \<longrightarrow> owes i ch n'))"

lemma keeps_refl [simp, intro]: "keeps n n"
  by (simp add: keeps_def)

lemma keeps_trans [trans]: "keeps a b \<Longrightarrow> keeps b c \<Longrightarrow> keeps a c"
  by (simp add: keeps_def)

lemma fairD: "fair n \<Longrightarrow> plain_node n" "fair n \<Longrightarrow> leader_waits n" "fair n \<Longrightarrow> role n \<noteq> Leader \<Longrightarrow> pending n = fmempty"
  by (auto simp: fair_def leader_waits_def)

lemma commit_le: "plain_node n \<Longrightarrow> weak_ok n n' \<Longrightarrow> dCommit (state n) \<le> dCommit (state n')"
  by (auto simp: weak_ok_def node_le_def state_le_def dest: plainD(1))

text \<open>A change that leaves the calls alone.\<close>

lemma keeps_same:
  assumes w: "weak_ok n n'" and s: "pending n' = pending n" "chans n' = chans n" "chanCount n' = chanCount n"
    and r: "role n' = role n \<or> role n' = Leader \<or> role n \<noteq> Leader"
    and l: "\<And>i. plain_node n \<Longrightarrow> role n = Leader \<Longrightarrow> write_at n i \<Longrightarrow> write_at n' i"
  shows "keeps n n'"
  unfolding keeps_def
proof (intro impI conjI allI)
  assume f: "fair n"
  then show "fair n'" using plain_weak [OF fairD(1) w] s r fairD(3) [OF f] by (auto simp: fair_def leader_waits_def)
  fix i ch assume o: "owes i ch n"
  have "write_at n' i" if "fmlookup (pending n') j = Some v" "wdone v = ch" for j v
    using that o s(1) l [OF fairD(1) [OF f]] fairD(3) [OF f] by (cases "role n = Leader") (auto simp: owes_def)
  then show "owes i ch n'" using o s commit_le [OF fairD(1) [OF f] w] by (fastforce simp: owes_def)
qed

lemma write_at_store: "store n' = store n \<Longrightarrow> write_at n' i = write_at n i"
  by (simp add: write_at_def entryLocked_def)

lemma keeps_frame:
  assumes "step_ok n n'" "store n' = store n" "pending n' = pending n" "chans n' = chans n" "chanCount n' = chanCount n"
    "role n' = role n \<or> role n' = Leader \<or> role n \<noteq> Leader"
  shows "keeps n n'"
  using assms write_at_store [OF assms(2)] by (intro keeps_same step_weak) simp_all

text \<open>A change that ends all calls with an error.\<close>

lemma keeps_cleared:
  assumes w: "weak_ok n n'" and s: "pending n' = fmempty" "chanCount n' = chanCount n"
    and c: "\<And>ch. fair n \<Longrightarrow> chans n' ch = chans n ch \<or> (\<exists>x e. chans n' ch = [(x, Some e)])"
  shows "keeps n n'"
  unfolding keeps_def
proof (intro impI conjI allI)
  assume f: "fair n"
  then show "fair n'" using plain_weak [OF fairD(1) w] s by (auto simp: fair_def leader_waits_def)
  fix i ch assume "owes i ch n"
  then show "owes i ch n'" using s c [OF f, of ch] commit_le [OF fairD(1) [OF f] w] by (fastforce simp: owes_def)
qed

lemma fair_chans: "fair n \<Longrightarrow> chan_ok n"
  using plainD(1) [OF fairD(1)] by (simp add: node_inv_def)

lemma keeps_fail:
  assumes w: "weak_ok n m" and s: "pending m = pending n" "chans m = chans n" "chanCount m = chanCount n"
  shows "keeps n (failPendingLocked e m)"
proof (rule keeps_cleared)
  show "weak_ok n (failPendingLocked e m)" using w step_weak [OF step_ok_failPending] weak_ok_trans by blast
  show "chans (failPendingLocked e m) ch = chans n ch \<or> (\<exists>x e'. chans (failPendingLocked e m) ch = [(x, Some e')])" if "fair n" for ch
    using failPending_chans [of m e ch] fair_chans [OF that] s by (auto simp: chan_ok_def)
qed (simp_all add: s)

section \<open>Persisting and stepping down\<close>

lemma plain_entry: "plain_node n \<Longrightarrow> entryLocked n i = (if i < length (dLog (state n)) then Some (dLog (state n) ! i) else None)"
  by (simp add: entryLocked_def store_entry_def Let_def plainD(2))

lemma persist_keeps:
  assumes ps: "persistLocked en T v c f es n = Some (ok, n')" and h: "failed n = None"
    and l: "role n = Leader \<Longrightarrow> f = 0 \<or> f = lastLocked n + 1"
  shows "keeps n n'"
proof (cases ok)
  case True
  note sel = persist_sel [OF ps]
  show ?thesis
  proof (rule keeps_same [OF persist_weak [OF ps h]])
    fix i assume p: "plain_node n" and r: "role n = Leader" and w: "write_at n i"
    have p': "plain_node n'" by (rule plain_weak [OF p persist_weak [OF ps h]])
    have len: "0 < length (dLog (state n))" using node_inv_wf(2) [OF plainD(1) [OF p]] by (auto simp: wf_state_def)
    have "dLog (state n') = (if f = 0 then dLog (state n) else take (f - dBase (state n)) (dLog (state n)) @ es)"
      using persist_state(2) [OF plainD(1) [OF p] ps True] by simp
    moreover have "f = 0 \<or> f = length (dLog (state n))"
      using l [OF r] len by (simp add: lastLocked_def store_last_def plainD(2) [OF p])
    ultimately have "\<exists>fs. dLog (state n') = dLog (state n) @ fs" using plainD(2) [OF p] by auto
    then show "write_at n' i" using w by (auto simp: write_at_def plain_entry [OF p] plain_entry [OF p'] nth_append split: if_splits)
  qed (use sel(16,17) True in simp_all)
next
  case False
  from ps show ?thesis
  proof (cases rule: persist_cases)
    case (failed st e)
    let ?m = "(emitLocked en ''DISK_ERROR'' 0 [] [] [] (n\<lparr>store := st, failed := Some e\<rparr>))\<lparr>role := Follower, leader := []\<rparr>"
    show ?thesis
    proof (rule keeps_cleared [OF persist_weak [OF ps h]])
      show "chans n' ch = chans n ch \<or> (\<exists>x e. chans n' ch = [(x, Some e)])" if "fair n" for ch
        using failPending_chans [of ?m ErrUnavailable ch] fair_chans [OF that] failed(3) by (auto simp: chan_ok_def)
    qed (simp_all add: failed(3))
  qed (use False in simp)
qed

lemma stepDown_keeps:
  assumes sd: "stepDownLocked en T l n = Some (ok, n')" and h: "failed n = None"
  shows "keeps n n'"
proof -
  obtain ok1 n1 where p: "(if dTerm (state n) < T then persistLocked en T [] (dCommit (state n)) 0 [] n
      else Some (True, n)) = Some (ok1, n1)"
    using sd by (auto simp: stepDownLocked_def Let_def)
  have k1: "keeps n n1" using p persist_keeps [OF _ h] by (auto split: if_splits)
  show ?thesis
  proof (cases ok1)
    case False
    then show ?thesis using sd p k1 by (auto simp: stepDownLocked_def Let_def)
  next
    case True
    let ?n2 = "n1\<lparr>role := Follower, leader := l\<rparr>"
    define n3 where "n3 = (if role n \<noteq> Follower \<or> dTerm (state n) < T
      then emitLocked en ''STEPPED_DOWN'' 0 l [] [] ?n2 else ?n2)"
    have "step_ok n1 ?n2" by (rule step_ok_frame) (auto simp: role_ok_def)
    moreover have "step_ok ?n2 n3" by (simp add: n3_def)
    ultimately have "weak_ok n1 n3" using step_ok_trans step_weak by blast
    moreover have "n' = failPendingLocked (leaderErrorLocked n3) n3"
      using sd p True by (auto simp: stepDownLocked_def Let_def n3_def)
    ultimately have "keeps n1 n'" using keeps_fail [of n1 n3] by (simp add: n3_def)
    with k1 show ?thesis by (rule keeps_trans)
  qed
qed

section \<open>Applying and committing\<close>

lemma quiet_keeps: "quiet n n' \<Longrightarrow> keeps n n'"
  by (rule keeps_frame [OF quiet_step]) (simp_all add: quiet_sel)

lemma keeps_emit [simp, intro]: "keeps n (emitLocked en k i p m d n)"
  by (rule keeps_frame) simp_all

lemma keeps_reset [simp, intro]: "keeps n (resetTimerLocked en n)"
  by (rule keeps_frame) simp_all

text \<open>The entry that is applied next is the one a waiting call was promised.\<close>

lemma apply_one_keeps:
  assumes f: "fair n" and lt: "applied n < dCommit (state n)" and ap: "apply_one en n = Some n'"
  shows "fair n' \<and> (\<forall>i ch. owes i ch n \<longrightarrow> owes i ch n') \<and> applied n' = Suc (applied n) \<and> state n' = state n"
proof -
  note p = fairD(1) [OF f]
  let ?s = "Suc (applied n)"
  obtain e where e: "store_entry (store n) ?s = Some e"
    using ap by (auto simp: apply_one_def Let_def entryLocked_def elim!: bind_SomeE)
  obtain out m where x: "entry_outcome (machine n) e = (out, m)" by (cases "entry_outcome (machine n) e")
  let ?ch = "case fmlookup (pending n) ?s of None \<Rightarrow> chans n | Some w \<Rightarrow> send_outcome (wdone w) (waiter_outcome m w out) (chans n)"
  obtain ev where "apply_one en n = Some (n\<lparr>machine := m, applied := ?s, events := ev, pending := fmdrop ?s (pending n), chans := ?ch\<rparr>)"
    by (rule apply_one_eq [OF e x])
  then have n': "n' = n\<lparr>machine := m, applied := ?s, events := ev, pending := fmdrop ?s (pending n), chans := ?ch\<rparr>" using ap by simp
  have "node_inv n'" by (rule apply_one_ok [OF plainD(1) [OF p] lt, of en]) (use ap in simp)
  then have "fair n'" using f by (auto simp: fair_def plain_node_def leader_waits_def n' fmdrop_idle)
  moreover have "owes i ch n'" if o: "owes i ch n" for i ch
  proof -
    have "snd y = None \<longrightarrow> i \<le> dCommit (state n) \<and> rApplied (fst y)" if y: "y \<in> set (?ch ch)" for y
    proof (cases "\<exists>w. fmlookup (pending n) ?s = Some w \<and> wdone w = ch")
      case True
      then obtain w where w: "fmlookup (pending n) ?s = Some w" "wdone w = ch" by blast
      then have i: "?s = i" "readKey w = None" "write_at n i" using o by (auto simp: owes_def)
      then obtain c where c: "eCommand e = Some c" "Operation c = ''SET''" using e by (auto simp: write_at_def entryLocked_def)
      have "chans n ch = []" using fair_chans [OF f] w by (auto simp: chan_ok_def)
      then have "y = out" using y w i(2) by (simp add: send_outcome_def waiter_outcome_def)
      then show ?thesis
        using x c Apply_set [OF plain_sets [OF p] c(2)] i(1) lt by (cases out) (auto simp: entry_outcome_def)
    next
      case False
      then have "?ch ch = chans n ch" by (auto simp: send_outcome_def split: option.splits)
      then show ?thesis using y o by (simp add: owes_def)
    qed
    then show ?thesis using o write_at_store [of n' n] by (auto simp: owes_def n' fmlookup_drop split: if_splits)
  qed
  ultimately show ?thesis by (simp add: n')
qed

lemma apply_loop_keeps:
  assumes "fair n" "applied n + k \<le> dCommit (state n)" "apply_loop en k n = Some n'"
  shows "fair n' \<and> (\<forall>i ch. owes i ch n \<longrightarrow> owes i ch n')"
  using assms
proof (induction k arbitrary: n)
  case (Suc k)
  obtain n1 where n1: "apply_one en n = Some n1" "apply_loop en k n1 = Some n'" using Suc.prems(3) by (auto elim!: bind_SomeE)
  note one = apply_one_keeps [OF Suc.prems(1) _ n1(1)]
  have lt: "applied n < dCommit (state n)" using Suc.prems(2) by simp
  have "fair n' \<and> (\<forall>i ch. owes i ch n1 \<longrightarrow> owes i ch n')"
    by (rule Suc.IH [OF _ _ n1(2)]) (use one [OF lt] Suc.prems(2) in simp_all)
  then show ?case using one [OF lt] by blast
qed simp

lemma apply_keeps:
  assumes "applyLocked en n = Some n'"
  shows "keeps n n'"
  unfolding keeps_def
proof
  assume f: "fair n"
  have le: "applied n \<le> dCommit (state n)" using plainD(1) [OF fairD(1) [OF f]] by (simp add: node_inv_def machine_ok_def)
  obtain n1 where n1: "apply_loop en (dCommit (state n) - applied n) n = Some n1" "maybeSnapshotLocked en n1 = Some n'"
    using assms by (auto simp: applyLocked_def elim!: bind_SomeE)
  have k: "fair n1 \<and> (\<forall>i ch. owes i ch n \<longrightarrow> owes i ch n1)" by (rule apply_loop_keeps [OF f _ n1(1)]) (use le in simp)
  then have "n' = n1" using n1(2) maybeSnapshot_off by (auto simp: fair_def plain_node_def)
  then show "fair n' \<and> (\<forall>i ch. owes i ch n \<longrightarrow> owes i ch n')" using k by simp
qed

lemma advance_keeps:
  assumes "advanceCommitLocked en n = Some n'"
  shows "keeps n n'"
  using assms
proof (cases rule: advance_cases)
  case (failed index)
  then show ?thesis using persist_keeps [OF failed(4) available_failed [OF failed(2)]] by simp
next
  case (committed index n1 n2)
  have "keeps n n1" by (rule persist_keeps [OF committed(4) available_failed [OF committed(2)]]) simp
  also have "keeps n1 (emitLocked en ''COMMITTED'' index [] [] [] n1)" by simp
  also have "keeps \<dots> n2" by (rule apply_keeps [OF committed(5)])
  also have "keeps n2 n'" by (rule quiet_keeps [OF kick_quiet [OF committed(6)]])
  finally show ?thesis .
qed simp

section \<open>Elections\<close>

lemma becomeLeader_keeps:
  assumes b: "becomeLeaderLocked en n = Some n'" and h: "failed n = None"
  shows "keeps n n'"
proof -
  have c: "keeps n (crowned en n)" by (rule keeps_frame [OF crowned_step [OF h]]) simp_all
  have l: "lastLocked (crowned en n) = lastLocked n" by (simp add: lastLocked_def)
  from b show ?thesis
  proof (cases rule: becomeLeader_cases)
    case failed
    have "keeps (crowned en n) n'" by (rule persist_keeps [OF failed]) (simp_all add: h l)
    with c show ?thesis by (rule keeps_trans)
  next
    case (led n3 n4)
    note c
    also have "keeps (crowned en n) n3" by (rule persist_keeps [OF led(1)]) (simp_all add: h l)
    also have "keeps n3 (n3\<lparr>matchIndex := (matchIndex n3)(cID (cfg n3) := lastLocked n + 1)\<rparr>)" by (rule keeps_frame) simp_all
    also have "keeps \<dots> n4" by (rule advance_keeps [OF led(2)])
    also have "keeps n4 n'" by (rule quiet_keeps [OF kick_quiet [OF led(3)]])
    finally show ?thesis .
  qed
qed

lemma startElection_keeps:
  assumes e: "startElectionLocked en n = Some n'" and h: "failed n = None" and r: "role n \<noteq> Leader"
  shows "keeps n n'"
proof -
  have c: "keeps n1 (candidate en n1)" "failed n1 = None"
    if "persistLocked en T v k f es n = Some (True, n1)" for T v k f es n1
  proof -
    show f: "failed n1 = None" using persist_sel(17) [OF that] h by simp
    show "keeps n1 (candidate en n1)"
      by (rule keeps_frame [OF candidate_step [OF f]]) (use persist_sel(17) [OF that] r in simp_all)
  qed
  from e show ?thesis
  proof (cases rule: startElection_cases)
    case failed
    then show ?thesis using persist_keeps h r by blast
  next
    case (alone n1)
    have "keeps n n1" by (rule persist_keeps [OF alone(1) h]) simp
    also note c(1) [OF alone(1)]
    also have "keeps (candidate en n1) n'" by (rule becomeLeader_keeps [OF alone(3)]) (simp add: c(2) [OF alone(1)])
    finally show ?thesis .
  next
    case (asked n1 e)
    have "keeps n n1" by (rule persist_keeps [OF asked(1) h]) simp
    also note c(1) [OF asked(1)]
    also have "keeps (candidate en n1) n'" unfolding asked(4)
      by (rule keeps_frame [OF chatty_step [OF send_votes_chatty]]) (simp_all add: chatty_sel [OF send_votes_chatty])
    finally show ?thesis .
  qed
qed

lemma Tick_keeps: "Tick en n = Some n' \<Longrightarrow> keeps n n'"
  by (auto simp: Tick_def split: if_splits dest: kick_quiet quiet_keeps startElection_keeps available_failed)

lemma voteResponse_keeps:
  assumes "voteResponseLocked en peer req resp err n = Some n'"
  shows "keeps n n'"
proof -
  let ?e = "emitLocked en ''VOTE_RESPONSE'' 0 (pID peer) (vqMessageID req) [] n"
  have v: "keeps n (?e\<lparr>votes := Some vs\<rparr>)" for vs
  proof -
    have "keeps ?e (?e\<lparr>votes := Some vs\<rparr>)" by (rule keeps_frame) simp_all
    then show ?thesis by (rule keeps_trans [OF keeps_emit])
  qed
  from assms show ?thesis
  proof (cases rule: voteResponse_cases)
    case (down ok)
    have "keeps ?e n'" by (rule stepDown_keeps [OF down(3)]) (use available_failed [OF down(1)] in simp)
    then show ?thesis by (rule keeps_trans [OF keeps_emit])
  next
    case (counted vs)
    then show ?thesis using v by simp
  next
    case (won vs)
    have "keeps (?e\<lparr>votes := Some (finsert (pID peer) vs)\<rparr>) n'"
      by (rule becomeLeader_keeps [OF won(9)]) (use available_failed [OF won(1)] in simp)
    then show ?thesis using keeps_trans [OF v] by blast
  qed simp_all
qed

lemma DeliverVote_keeps: "DeliverVote en m resp err n = Some n' \<Longrightarrow> keeps n n'"
  by (auto simp: DeliverVote_def split: option.splits dest: voteResponse_keeps)

section \<open>Requests and responses\<close>

lemma append_accept_keeps:
  assumes a: "append_accept en req n = Some (r, n')" and h: "failed n = None" and f: "role n \<noteq> Leader"
  shows "keeps n n'"
proof -
  have note_keeps: "keeps n (note_repair en req f n)" for f by (simp add: note_repair_def)
  from a show ?thesis
  proof (cases rule: append_accept_cases)
    case (failed c g es)
    have "keeps (note_repair en req g n) n'" by (rule persist_keeps [OF failed(2)]) (simp_all add: h f)
    then show ?thesis by (rule keeps_trans [OF note_keeps])
  next
    case (stored n2 g es)
    have "keeps (note_repair en req g n) n2" by (rule persist_keeps [OF stored(3)]) (simp_all add: h f)
    also have "keeps n2 n'" by (rule apply_keeps [OF stored(4)])
    finally show ?thesis by (rule keeps_trans [OF note_keeps])
  qed simp_all
qed

lemma AppendEntries_keeps:
  assumes "AppendEntries en req n = Some (r, n')"
  shows "keeps n n'"
proof -
  have hd: "keeps n (heard en req n)" by (simp add: heard_def)
  from assms show ?thesis
  proof (cases rule: AppendEntries_cases)
    case downfail
    have "keeps (heard en req n) n'" by (rule stepDown_keeps [OF downfail(2)]) (use available_failed [OF downfail(1)] in simp)
    then show ?thesis by (rule keeps_trans [OF hd])
  next
    case (checked n2)
    have f: "failed n2 = None" using stepDown_sel(15) [OF checked(4)] available_failed [OF checked(1)] by simp
    note hd
    also have "keeps (heard en req n) n2" by (rule stepDown_keeps [OF checked(4)]) (use available_failed [OF checked(1)] in simp)
    also have "keeps n2 (resetTimerLocked en n2)" by simp
    also have "keeps \<dots> n'"
      using checked(5)
    proof (cases rule: append_check_cases)
      case (consistent pe)
      then show ?thesis by (intro append_accept_keeps [OF consistent(3)]) (simp_all add: f stepDown_sel(4) [OF checked(4)])
    qed simp
    finally show ?thesis .
  qed (simp_all add: hd)
qed

lemma RequestVote_keeps:
  assumes "RequestVote en req n = Some (r, n')"
  shows "keeps n n'"
proof -
  have a: "keeps n (asked en req n)" by (simp add: asked_def)
  have g: "keeps m (granting en req m)" for m
    unfolding granting_def by (rule keeps_trans [OF keeps_reset keeps_emit])
  have d: "keeps m m'" if "vote_decide en req m = Some (r, m')" "failed m = None" for m m'
    using that(1)
  proof (cases rule: vote_decide_cases)
    case (failed le)
    then show ?thesis using persist_keeps [OF failed(2) that(2)] by simp
  next
    case (voted le n1)
    have "keeps m n1" by (rule persist_keeps [OF voted(4) that(2)]) simp
    then show ?thesis unfolding voted(5) by (rule keeps_trans [OF _ g])
  qed (simp_all add: g)
  from assms show ?thesis
  proof (cases rule: RequestVote_cases)
    case downfail
    have "keeps (asked en req n) n'" by (rule stepDown_keeps [OF downfail(3)]) (use available_failed [OF downfail(1)] in simp)
    then show ?thesis by (rule keeps_trans [OF a])
  next
    case (newer n2)
    have f: "failed n2 = None" using stepDown_sel(15) [OF newer(5)] available_failed [OF newer(1)] by simp
    note a
    also have "keeps (asked en req n) n2" by (rule stepDown_keeps [OF newer(5)]) (use available_failed [OF newer(1)] in simp)
    also have "keeps n2 n'" by (rule d [OF newer(6) f])
    finally show ?thesis .
  next
    case same
    have "keeps (asked en req n) n'" by (rule d [OF same(5)]) (use available_failed [OF same(1)] in simp)
    then show ?thesis by (rule keeps_trans [OF a])
  qed (simp_all add: a)
qed

lemma acceptAppend_keeps:
  assumes "acceptAppendLocked en peer req resp err n = Some (again, n')"
  shows "keeps n n'"
proof -
  let ?a = "answered en peer req resp err n"
  have a: "keeps n ?a" by (simp add: answered_def)
  from assms show ?thesis
  proof (cases rule: acceptAppend_cases)
    case (down ok)
    have "keeps ?a n'" by (rule stepDown_keeps [OF down(4)]) (use available_failed [OF down(1)] in simp)
    then show ?thesis by (rule keeps_trans [OF a])
  next
    case (matched n3)
    note a
    also have "keeps ?a (matched_to peer req ?a)" by (rule keeps_frame [OF matched_to_step]) (simp_all add: matched_to_def Let_def)
    also have "keeps \<dots> n3" by (rule advance_keeps [OF matched(7)])
    finally have k: "keeps n n3" .
    have "n' = n3" if "fair n" using k that matched(8) maybeSnapshot_off by (auto simp: keeps_def fair_def plain_node_def)
    then show ?thesis using k by (auto simp: keeps_def)
  next
    case backed
    have "keeps ?a n'" unfolding backed(8) Let_def by (rule keeps_frame) simp_all
    then show ?thesis by (rule keeps_trans [OF a])
  qed (simp_all add: a)
qed

lemma DeliverAppend_keeps:
  assumes "DeliverAppend en m resp err n = Some n'"
  shows "keeps n n'"
  using assms
proof (cases rule: DeliverAppend_cases)
  case (taken req again n1)
  have "keeps n (n\<lparr>busy := (busy n)(mTo m := 0)\<rparr>)" by (rule keeps_frame) simp_all
  also have "keeps \<dots> n1" by (rule acceptAppend_keeps [OF taken(3)])
  also have "keeps n1 n'" using taken(4) quiet_keeps [OF queue_quiet] by auto
  finally show ?thesis .
qed simp

section \<open>Proposals and control\<close>

lemma registered_fields [simp]:
  "pending (registered en i key n) = fmupd i \<lparr>readKey = key, wdone = chanCount n\<rparr> (pending n)"
  "chans (registered en i key n) = chans n" "chanCount (registered en i key n) = Suc (chanCount n)"
  by (simp_all add: registered_def)

lemma registered_keeps:
  assumes "role n = Leader"
  shows "keeps n (registered en i key n)"
  unfolding keeps_def
proof (intro impI conjI allI)
  assume "fair n"
  then show "fair (registered en i key n)" using plain_step [OF fairD(1) registered_step] assms by (simp add: fair_def leader_waits_def)
  fix j ch assume "owes j ch n"
  then show "owes j ch (registered en i key n)" using write_at_store [of "registered en i key n" n] by (auto simp: owes_def split: if_splits)
qed

lemma registered_owes:
  assumes "fair n" "write_at n i"
  shows "owes i (chanCount n) (registered en i None n)"
  using fair_chans [OF assms(1)] assms(2) write_at_store [of "registered en i None n" n]
  by (fastforce simp: owes_def chan_ok_def split: if_splits)

lemma Submit_keeps:
  assumes "Submit en command key n = Some (r, n')"
  shows "keeps n n'"
  using assms [unfolded Submit_def]
proof (cases rule: submit_cases)
  case failed
  then show ?thesis using persist_keeps [OF failed(3) available_failed [OF failed(1)]] by simp
next
  case (proposed n1 n3)
  have "keeps n n1" by (rule persist_keeps [OF proposed(5) available_failed [OF proposed(1)]]) simp
  also have "keeps n1 (registered en (lastLocked n + 1) key n1)"
    by (rule registered_keeps) (use persist_sel(17) [OF proposed(5)] proposed(2) in simp)
  also have "keeps \<dots> n3" by (rule advance_keeps [OF proposed(6)])
  also have "keeps n3 n'" by (rule quiet_keeps [OF kick_quiet [OF proposed(7)]])
  finally show ?thesis .
qed simp

text \<open>The ticket of a SET is a promise.\<close>

lemma Submit_owes:
  assumes "Submit en (Some c) None n = Some (Inr t, n')" "Operation c = ''SET''" and f: "fair n"
  shows "owes (tIndex t) (tdone t) n'"
  using assms(1) [unfolded Submit_def]
proof (cases rule: submit_cases)
  case (proposed n1 n3)
  let ?i = "lastLocked n + 1"
  note p = fairD(1) [OF f]
  have k1: "keeps n n1" by (rule persist_keeps [OF proposed(5) available_failed [OF proposed(1)]]) simp
  then have f1: "fair n1" using f by (simp add: keeps_def)
  have len: "0 < length (dLog (state n))" using node_inv_wf(2) [OF plainD(1) [OF p]] by (auto simp: wf_state_def)
  then have i: "?i = length (dLog (state n))" using plainD(2) [OF p] by (simp add: lastLocked_def store_last_def)
  have "dLog (state n1) = dLog (state n) @ [\<lparr>eIndex = ?i, eTerm = dTerm (state n), eCommand = Some c\<rparr>]"
    using persist_state(2) [OF plainD(1) [OF p] proposed(5)] plainD(2) [OF p] i len by simp
  then have "write_at n1 ?i" using assms(2) i by (simp add: write_at_def plain_entry [OF fairD(1) [OF f1]])
  then have o: "owes ?i (chanCount n1) (registered en ?i None n1)" by (rule registered_owes [OF f1])
  have r: "role n1 = Leader" using persist_sel(17) [OF proposed(5)] proposed(2) by simp
  have "keeps (registered en ?i None n1) n3" by (rule advance_keeps [OF proposed(6)])
  also have "keeps n3 n'" by (rule quiet_keeps [OF kick_quiet [OF proposed(7)]])
  finally have k: "keeps (registered en ?i None n1) n'" .
  have "fair (registered en ?i None n1)" using registered_keeps [OF r, of en ?i None] f1 unfolding keeps_def by blast
  with k o have "owes ?i (chanCount n1) n'" unfolding keeps_def by blast
  then show ?thesis using proposed(8) by simp
qed simp_all

lemma SetPaused_keeps:
  assumes "SetPaused en b n = Some n'"
  shows "keeps n n'"
proof -
  obtain n2 where n2: "(if b then Some (failPendingLocked ErrUnavailable (n\<lparr>paused := b\<rparr>))
      else kickLocked en (resetTimerLocked en (n\<lparr>paused := b\<rparr>))) = Some n2"
    and n': "n' = emitLocked en (if b then ''PAUSED'' else ''RESUMED'') 0 [] [] [] n2"
    using assms by (auto simp: SetPaused_def Let_def simp del: if_split elim!: bind_SomeE)
  have "keeps n (n\<lparr>paused := b\<rparr>)" by (rule keeps_frame) simp_all
  then have "keeps n (resetTimerLocked en (n\<lparr>paused := b\<rparr>))" by (rule keeps_trans) simp
  moreover have "keeps n (failPendingLocked ErrUnavailable (n\<lparr>paused := b\<rparr>))" by (rule keeps_fail) (simp_all add: step_weak)
  ultimately have "keeps n n2" using n2 keeps_trans [OF _ quiet_keeps [OF kick_quiet]] by (cases b) auto
  then show ?thesis unfolding n' by (rule keeps_trans) simp
qed

lemma Close_keeps: "keeps n (Close n)"
proof -
  have "keeps n (failPendingLocked ErrUnavailable (n\<lparr>closed := True\<rparr>))" by (rule keeps_fail) (simp_all add: step_weak)
  then show ?thesis by (simp add: Close_def)
qed

text \<open>Taking an outcome or giving up waiting needs nothing of the node.\<close>

lemma waiting_keeps:
  "owes i ch n \<Longrightarrow> owes i ch (Cancel t n)" "owes i ch n \<Longrightarrow> owes i ch (snd (Poll t n))" "owes i ch n \<Longrightarrow> owes i ch (snd (DrainMessages n))"
  "leader_waits n \<Longrightarrow> leader_waits (Cancel t n)" "leader_waits n \<Longrightarrow> leader_waits (snd (Poll t n))" "leader_waits n \<Longrightarrow> leader_waits (snd (DrainMessages n))"
  by (auto simp: owes_def leader_waits_def Cancel_def Poll_def DrainMessages_def write_at_def entryLocked_def fmdrop_idle fmlookup_drop
      split: option.splits list.splits if_splits)

lemma Poll_owed:
  assumes "owes (tIndex t) (tdone t) n" "Poll t n = ((res, None, True), n')"
  shows "tIndex t \<le> dCommit (state n') \<and> rApplied res"
  using assms by (auto simp: owes_def Poll_def split: list.splits)

text \<open>A node that was just opened has no waiting calls.\<close>

lemma apply_loop_idle: "apply_loop en k n = Some n' \<Longrightarrow> pending n = fmempty \<Longrightarrow> pending n' = fmempty"
proof (induction k arbitrary: n)
  case (Suc k)
  obtain n1 where n1: "apply_one en n = Some n1" "apply_loop en k n1 = Some n'" using Suc.prems(1) by (auto elim!: bind_SomeE)
  have "pending n1 = fmempty" using n1(1) Suc.prems(2) by (auto simp: apply_one_def Let_def split: prod.splits elim!: bind_SomeE)
  then show ?case by (rule Suc.IH [OF n1(2)])
qed simp

lemma Open_calm:
  assumes o: "OpenWithRuntime origin identity en man nt c0 openErr j = Some (Inr n')" and c: "FixedLeader c0 = []"
  shows "leader_waits n'"
proof -
  obtain ps st n where st: "openStoreUsing (identity (default_config c0)) openErr j = Some (Inr st)" "cID c0 \<noteq> []"
    and rn: "restore_node (fresh_node en man (default_config c0) ps st) = Inr n"
    and sn: "start_node en n = Some (Inr n')"
    by (rule Open_cases [OF o])
  note r = restore_node_inv [OF openStoreUsing_ok(1,2) [OF st(1)] rn]
  have d: "FixedLeader (cfg n) = []" "cID (cfg n) \<noteq> []"
    using r(3) c st(2) by (simp_all add: default_config_def Let_def)
  obtain n1 where n1: "applyLocked en n = Some n1" using sn by (auto simp: start_node_def elim!: bind_SomeE)
  have rs: "cfg n1 = cfg n" using ran_sel(1) [OF apply_follower [OF r(1,6) n1]] .
  obtain n2 where n2: "apply_loop en (dCommit (state n) - applied n) n = Some n2" "maybeSnapshotLocked en n2 = Some n1"
    using n1 by (auto simp: applyLocked_def elim!: bind_SomeE)
  have "pending n1 = fmempty"
  proof -
    have "pending n1 = fmempty \<or> pending n1 = pending n2"
      using n2(2) by (auto simp: maybeSnapshotLocked_def Let_def split: if_splits option.splits elim!: bind_SomeE)
    then show ?thesis using apply_loop_idle [OF n2(1) r(10)] by auto
  qed
  then show ?thesis using sn n1 rs d by (auto simp: start_node_def Let_def leader_waits_def split: option.split_asm if_split_asm)
qed

end
