(* ===== verification/Sim_Tickets.thy ===== *)
theory Sim_Tickets
  imports Sim_Events Node_Tickets
begin

text \<open>
  The clients of the simulator.  Every ticket that the runner holds is a promise of the node it was given by, through every event, also after
  that node was replaced; so the check of an acknowledgement always passes.
\<close>

section \<open>Nodes of the runner\<close>

definition linked :: "Oracle \<Rightarrow> nat \<Rightarrow> runner \<Rightarrow> bool" where
  "linked w k r \<longleftrightarrow> (\<exists>ps p c. sim_sound w k ps p c \<and> tracks k r c)"

lemma linked_advances: "linked w k r \<Longrightarrow> advances w k r r' \<Longrightarrow> linked w k r'"
  unfolding linked_def using advancesE by metis

lemma linked_moved: "sim_sound w k ps p c \<Longrightarrow> moved w k c r r' \<Longrightarrow> linked w k r'"
  unfolding linked_def moved_def using sound_steps by metis

lemma linked_length: "linked w k r \<Longrightarrow> length (rNodes r) = k"
  by (auto simp: linked_def tracks_def mirrors_def)

lemma up_plain:
  assumes s: "sim_sound w k ps p c" and up: "procs c i = Up n"
  shows "plain_node n" "synced n"
proof -
  have ag: "agreed (oOrigin w) (sim_cfg k) ps []" and rc: "reachable (oOrigin w) (oIdentity w) (sim_cfg k) c"
    and f: "flat (oIdentity w) (sim_cfg k) c" using s by (auto simp: sound_def)
  have "node_inv n" "synced n" "cfg n = default_config (sim_cfg k i)" using up_okI [OF reachable_inv [OF rc ag] up] by (auto simp: up_ok_def)
  then show "plain_node n" "synced n"
    using flatD(1) [OF f up] by (auto simp: plain_node_def sim_cfg_def default_config_def Let_def)
qed

lemma linked_node:
  assumes "linked w k r" "i < k" "rNodes r ! i = Some a"
  shows "plain_node (load i a r)" "synced (load i a r)"
  using assms up_plain tracksD(1) [OF _ assms(2,3)] unfolding linked_def by blast+

text \<open>
  \<open>trusty\<close>: the nodes ever started have waiting calls only while they lead, and the operations are SETs whose tickets are owed.
\<close>

definition good_op :: "Node list \<Rightarrow> operation \<Rightarrow> bool" where
  "good_op h op \<longleftrightarrow> Operation (opCommand op) = ''SET'' \<and>
     (\<forall>s t. opTicket op = Some (s, t) \<longrightarrow> opSource op < length h \<and> owes (tIndex t) (tdone t) (h ! opSource op))"

definition trusty :: "runner \<Rightarrow> bool" where
  "trusty r \<longleftrightarrow> (\<forall>n \<in> set (rHeap r). leader_waits n) \<and> (\<forall>op \<in> set (rOps r). good_op (rHeap r) op)"

lemma trusty_cong: "rHeap r' = rHeap r \<Longrightarrow> rOps r' = rOps r \<Longrightarrow> trusty r' = trusty r"
  by (simp add: trusty_def)

lemma trusty_heap:
  assumes t: "trusty r" and c: "leader_waits n" and o: "\<And>i ch. owes i ch (rHeap r ! a) \<Longrightarrow> owes i ch n"
    and r': "rHeap r' = (rHeap r)[a := n]" "rOps r' = rOps r"
  shows "trusty r'"
proof -
  have "good_op ((rHeap r)[a := n]) op" if "good_op (rHeap r) op" for op
    using that o by (cases "opSource op = a") (auto simp: good_op_def)
  then show ?thesis using t c set_update_subset_insert [of "rHeap r" a n] unfolding trusty_def r' by blast
qed

lemma trusty_append: "trusty r \<Longrightarrow> leader_waits n \<Longrightarrow> rHeap r' = rHeap r @ [n] \<Longrightarrow> rOps r' = rOps r \<Longrightarrow> trusty r'"
  by (auto simp: trusty_def good_op_def nth_append)

lemma trusty_set:
  assumes "trusty r" "j < length (rOps r) \<Longrightarrow> good_op (rHeap r) op"
  shows "trusty (set_op j op r)"
proof (cases "j < length (rOps r)")
  case True
  then show ?thesis using assms set_update_subset_insert [of "rOps r" j op] by (auto simp: trusty_def set_op_def)
next
  case False
  then have "set_op j op r = r" by (simp add: set_op_def list_update_beyond)
  then show ?thesis using assms(1) by simp
qed

lemma trusty_op: "trusty r \<Longrightarrow> j < length (rOps r) \<Longrightarrow> good_op (rHeap r) (rOps r ! j)"
  by (simp add: trusty_def)

lemma on_disk_calls [simp]: "owes i ch (on_disk d n) = owes i ch n" "leader_waits (on_disk d n) = leader_waits n"
  by (simp_all add: owes_def leader_waits_def on_disk_def write_at_def entryLocked_def store_entry_def)

text \<open>A call into a current node.\<close>

lemma current_fair:
  assumes "linked w k r" "trusty r" "i < k" "rNodes r ! i = Some a"
  shows "fair (load i a r)" "a < length (rHeap r)"
proof -
  obtain ps p c where "tracks k r c" using assms(1) by (auto simp: linked_def)
  then show a: "a < length (rHeap r)" using tracksD(2) assms(3,4) by blast
  then show "fair (load i a r)"
    using linked_node(1) [OF assms(1,3,4)] assms(2) by (auto simp: fair_def load_on_disk trusty_def)
qed

lemma trusty_call:
  assumes l: "linked w k r" and t: "trusty r" and i: "i < k" and a: "rNodes r ! i = Some a" and n: "keeps (load i a r) n"
  shows "trusty (unload i a n r)"
proof (rule trusty_heap [OF t])
  note f = current_fair [OF l t i a]
  show "leader_waits n" using n f(1) by (auto simp: keeps_def fair_def)
  show "owes j ch n" if "owes j ch (rHeap r ! a)" for j ch using that n f(1) by (auto simp: keeps_def load_on_disk)
qed (simp_all add: unload_def)

section \<open>Operations of the runner\<close>

definition fares :: "Oracle \<Rightarrow> nat \<Rightarrow> runner \<Rightarrow> runner \<Rightarrow> bool" where
  "fares w k r r' \<longleftrightarrow> advances w k r r' \<and> (linked w k r \<longrightarrow> trusty r \<longrightarrow> trusty r')"

lemma faresI: "advances w k r r' \<Longrightarrow> (linked w k r \<Longrightarrow> trusty r \<Longrightarrow> trusty r') \<Longrightarrow> fares w k r r'"
  by (simp add: fares_def)

lemma fares_trans [trans]: "fares w k a b \<Longrightarrow> fares w k b c \<Longrightarrow> fares w k a c"
  unfolding fares_def using advances_trans [of w k a b c] linked_advances [of w k a b] by blast

lemma fares_refl [simp]: "fares w k r r"
  by (simp add: fares_def)

lemma fares_idle: "advances w k r r' \<Longrightarrow> rHeap r' = rHeap r \<Longrightarrow> rOps r' = rOps r \<Longrightarrow> fares w k r r'"
  using trusty_cong [of r' r] by (simp add: fares_def)

lemma each_fares:
  "(\<And>x r r'. x \<in> set xs \<Longrightarrow> f x r = Some r' \<Longrightarrow> fares w k r r') \<Longrightarrow> each f xs r = Some r' \<Longrightarrow> fares w k r r'"
proof (induction xs arbitrary: r)
  case (Cons x xs)
  from Cons.prems(2) obtain r1 where r1: "f x r = Some r1" "each f xs r1 = Some r'" by (auto elim!: bind_SomeE)
  have "fares w k r r1" using Cons.prems(1) [OF _ r1(1)] by simp
  also have "fares w k r1 r'" by (rule Cons.IH [OF _ r1(2)]) (use Cons.prems(1) in auto)
  finally show ?case .
qed simp

lemma fold_fares: "(\<And>x r. x \<in> set xs \<Longrightarrow> fares w k r (f x r)) \<Longrightarrow> fares w k r (fold f xs r)"
proof (induction xs arbitrary: r)
  case (Cons x xs)
  then show ?case using fares_trans [of w k r "f x r"] by simp
qed simp

lemma with_node_fares:
  assumes "entry_point w k f" "i < k" "with_node i f r = Some r'" "\<And>n n'. f n = Some n' \<Longrightarrow> keeps n n'"
  shows "fares w k r r'"
proof (rule faresI [OF with_node_advances [OF assms(1-3)]])
  assume l: "linked w k r" and t: "trusty r"
  show "trusty r'"
  proof (cases "rNodes r ! i")
    case None
    then show ?thesis using assms(3) t by (simp add: with_node_def)
  next
    case (Some a)
    then obtain n where "f (load i a r) = Some n" "r' = unload i a n r" using assms(3) by (auto simp: with_node_def)
    then show ?thesis using trusty_call [OF l t assms(2) Some assms(4)] by simp
  qed
qed

lemma Close_on_disk: "Close (on_disk d n) = on_disk d (Close n)"
  using diskless_calls(1) by (simp add: diskless_def)

lemma close_fares:
  assumes i: "i < k"
  shows "fares w k r (close_current i r)"
proof (rule faresI [OF close_advances])
  assume l: "linked w k r" and t: "trusty r"
  show "trusty (close_current i r)"
  proof (cases "rNodes r ! i")
    case (Some a)
    note f = current_fair(1) [OF l t i Some]
    note k = Close_keeps [of "load i a r", unfolded keeps_def, rule_format, OF f, unfolded load_on_disk Close_on_disk]
    show ?thesis
      by (rule trusty_heap [OF t, of "Close (rHeap r ! a)" a]) (use k in \<open>simp_all add: fair_def close_current_def Some\<close>)
  qed (simp add: close_current_def t)
qed

lemma clear_fares: "i < k \<Longrightarrow> fares w k r (clear_disk i f r)"
  by (rule fares_idle [OF clear_advances]) (simp_all add: clear_disk_def)

lemma start_fares:
  assumes i: "i < k" and r: "start_node_at w i r = Some r'"
  shows "fares w k r r'"
proof (rule faresI [OF start_advances [OF assms]])
  assume l: "linked w k r" and t: "trusty r"
  define r2 where "r2 = before_open i r"
  have "fares w k r (close_current i r)" by (rule close_fares [OF i])
  then have "trusty (close_current i r)" using l t by (simp add: fares_def)
  then have t2: "trusty r2" using trusty_cong [of r2 "close_current i r"] by (simp add: r2_def before_open_def clear_disk_def Let_def)
  obtain opened where o: "OpenWithRuntime (oOrigin w) (oIdentity w) (env w r2) True True (sim_config r2 i) None (Memory (rDisks r2 ! i)) = Some opened"
    and r': "r' = (case opened of Inl e \<Rightarrow> r2\<lparr>rErr := Some e\<rparr> | Inr n \<Rightarrow> record_trace ''RESTART'' (peer_id r2 i) []
       (r2\<lparr>rHeap := rHeap r2 @ [n], rNodes := (rNodes r2)[i := Some (length (rHeap r2))],
           rDisks := (rDisks r2)[i := disk_of n (rDisks r2 ! i)], rCursor := (rCursor r2)[i := 0], rDraws := rDraws r2 + 1\<rparr>))"
    using r unfolding start_node_at_def Let_def before_open_def [unfolded Let_def, symmetric] r2_def [symmetric]
    by (auto split: sum.splits elim!: bind_SomeE)
  show "trusty r'"
  proof (cases opened)
    case (Inl e)
    then show ?thesis using t2 r' trusty_cong [of r' r2] by simp
  next
    case (Inr n)
    have "leader_waits n" using Open_calm [OF o [unfolded Inr]] by (simp add: sim_config_def Let_def)
    then show ?thesis by (rule trusty_append [OF t2]) (simp_all add: r' Inr record_trace_def)
  qed
qed

lemma work_sel [simp]:
  "rHeap (record_trace kd nd dt r) = rHeap r" "rOps (record_trace kd nd dt r) = rOps r"
  "rOps (schedule t kd e r) = rOps r" "rHeap (snd (IntN w m r)) = rHeap r" "rOps (snd (IntN w m r)) = rOps r"
  "rHeap (snd (delayMS w r)) = rHeap r" "rOps (snd (delayMS w r)) = rOps r" "rHeap (clear_disk i f r) = rHeap r" "rOps (clear_disk i f r) = rOps r"
  "rOps (unload i a n r) = rOps r" "rHeap (set_op j op r) = rHeap r" "rOps (close_current i r) = rOps r"
  by (simp_all add: record_trace_def schedule_def Let_def IntN_def delayMS_def clear_disk_def unload_def set_op_def close_current_def split: option.splits)

lemma apply_fault_fares:
  assumes f: "0 \<le> fNode f" "fNode f < int k" and r: "apply_fault w f r = Some r'"
  shows "fares w k r r'"
proof -
  let ?i = "nat (fNode f)"
  define r1 where "r1 = record_trace ''FAULT'' (peer_id r ?i) (fKind f) r"
  have i: "?i < k" using f by auto
  have r1: "fares w k r r1" unfolding r1_def by (rule fares_idle [OF resting_advances]) simp_all
  note ap = r [unfolded apply_fault_def Let_def r1_def [symmetric]]
  have "fares w k r1 r'"
  proof (cases "fKind f = ''crash''")
    case True
    let ?c = "close_current ?i r1"
    have n: "rNodes ?c = rNodes r1" by (simp add: close_current_def split: option.splits)
    have "fares w k r1 ?c" by (rule close_fares [OF i])
    also have "fares w k ?c (?c\<lparr>rNodes := (rNodes ?c)[?i := None]\<rparr>)" by (rule fares_idle [OF stop_advances [OF i]]) simp_all
    also have "\<dots> = r'" using ap True n by simp
    finally show ?thesis .
  next
    case False
    have p: "fares w k r1 r'" if "with_node ?i (SetPaused en b) r1 = Some r'" for en b
      by (rule with_node_fares [OF entry_points(2) i that SetPaused_keeps])
    have q: "fares w k r1 (r1\<lparr>rIsolated := x\<rparr>)" for x by (rule fares_idle [OF resting_advances]) simp_all
    show ?thesis using ap False start_fares [OF i] p q clear_fares [OF i] by (auto split: if_splits)
  qed
  with r1 show ?thesis by (rule fares_trans)
qed

lemma try_op_fares:
  assumes r: "try_op w j r = Some r'"
  shows "fares w k r r'"
proof (rule faresI [OF try_op_advances [OF r]])
  assume l: "linked w k r" and t: "trusty r"
  let ?op = "rOps r ! j"
  define op1 where "op1 = ?op\<lparr>opRetryAt := rNow r + 150\<rparr>"
  define r1 where "r1 = set_op j op1 r"
  have l1: "linked w k r1" unfolding r1_def by (rule linked_advances [OF l resting_advances]) simp
  have g1: "good_op (rHeap r) op1" if "j < length (rOps r)" using trusty_op [OF t that] by (simp add: good_op_def op1_def)
  have t1: "trusty r1" unfolding r1_def by (rule trusty_set [OF t g1])
  have len: "length (rOps r1) = length (rOps r)" by (simp add: r1_def set_op_def)
  note tr = r [unfolded try_op_def Let_def op1_def [symmetric] r1_def [symmetric]]
  show "trusty r'"
  proof (cases "opDone ?op \<or> opTicket ?op \<noteq> None \<or> best_leader r1 = None")
    case True
    then show ?thesis using tr t t1 by (auto split: if_splits)
  next
    case False
    then obtain i a T where b: "best_leader r1 = Some (i, a, T)" by auto
    note cur = best_leader_current [OF b]
    have i: "i < k" using cur(1) linked_length [OF l1] by simp
    note f = current_fair [OF l1 t1 i cur(2)]
    obtain res n where sb: "Submit (env w r1) (Some (opCommand op1)) None (load i a r1) = Some (res, n)"
      using tr False b by (auto elim!: bind_SomeE)
    define r2 where "r2 = unload i a n r1"
    have t2: "trusty r2" unfolding r2_def by (rule trusty_call [OF l1 t1 i cur(2) Submit_keeps [OF sb]])
    show ?thesis
    proof (cases res)
      case (Inl e)
      then show ?thesis using tr False b sb t2 by (simp add: r2_def)
    next
      case (Inr ticket)
      let ?op2 = "op1\<lparr>opTicket := Some (rTickets r2, ticket), opSource := a\<rparr>"
      let ?r3 = "set_op j ?op2 (r2\<lparr>rTickets := rTickets r2 + 1\<rparr>)"
      have "good_op (rHeap r2) ?op2" if jl: "j < length (rOps r)"
      proof -
        have "Operation (opCommand op1) = ''SET''" using g1 [OF jl] by (simp add: good_op_def)
        then show ?thesis using Submit_owes [OF sb [unfolded Inr] _ f(1)] f(2) by (simp add: good_op_def r2_def unload_def)
      qed
      moreover have "trusty (r2\<lparr>rTickets := rTickets r2 + 1\<rparr>)" using t2 trusty_cong [of "r2\<lparr>rTickets := rTickets r2 + 1\<rparr>" r2] by simp
      ultimately have "trusty ?r3" using len by (intro trusty_set) (simp_all add: r2_def)
      moreover have "rHeap r' = rHeap ?r3" "rOps r' = rOps ?r3"
        using tr False b sb Inr by (auto simp: r2_def [symmetric] Let_def)
      ultimately show ?thesis using trusty_cong [of r' ?r3] by simp
    qed
  qed
qed

lemma client_timeout_trusty:
  assumes t: "trusty r"
  shows "trusty (client_timeout j serial i a ticket r)"
proof -
  let ?h = "r\<lparr>rHeap := (rHeap r)[a := Cancel ticket (rHeap r ! a)]\<rparr>"
  have h: "trusty ?h"
  proof (cases "a < length (rHeap r)")
    case True
    then have "leader_waits (rHeap r ! a)" using t by (simp add: trusty_def)
    then show ?thesis by (intro trusty_heap [OF t, of "Cancel ticket (rHeap r ! a)" a] waiting_keeps) simp_all
  qed (use t in \<open>simp add: list_update_beyond\<close>)
  have "trusty (set_op j ((rOps r ! j)\<lparr>opTicket := None, opRetryAt := x\<rparr>) ?h)" for x
  proof (rule trusty_set [OF h])
    assume "j < length (rOps ?h)"
    then show "good_op (rHeap ?h) ((rOps r ! j)\<lparr>opTicket := None, opRetryAt := x\<rparr>)"
      using trusty_op [OF t, of j] by (simp add: good_op_def)
  qed
  then have "trusty (record_trace kd nd dt (set_op j ((rOps r ! j)\<lparr>opTicket := None, opRetryAt := x\<rparr>) ?h))" for kd nd dt x
    using trusty_cong [OF work_sel(1,2)] by blast
  then show ?thesis using t by (auto simp: client_timeout_def Let_def split: option.splits)
qed

section \<open>Acknowledgements\<close>

text \<open>No acknowledgement fails its check.\<close>

lemma collect_one_ok:
  assumes t: "trusty r" and j: "j < length (rOps r)" and c: "collect_one j r = (stop, r')"
  shows "advances w k r r' \<and> trusty r' \<and> length (rOps r') = length (rOps r) \<and> \<not> stop"
proof (cases "opTicket (rOps r ! j)")
  case None
  then show ?thesis using c t by (simp add: collect_one_def)
next
  case (Some x)
  obtain serial ticket where x: "x = (serial, ticket)" by (cases x)
  let ?op = "rOps r ! j" let ?a = "opSource ?op"
  have g: "Operation (opCommand ?op) = ''SET''" "?a < length (rHeap r)" "owes (tIndex ticket) (tdone ticket) (rHeap r ! ?a)"
    using trusty_op [OF t j] Some x by (auto simp: good_op_def)
  obtain result err finished n where P: "Poll ticket (rHeap r ! ?a) = ((result, err, finished), n)" by (metis prod.collapse)
  define r1 where "r1 = r\<lparr>rHeap := (rHeap r)[?a := n]\<rparr>"
  have a1: "advances w k r r1" by (rule heap_advances [of w k "\<lambda>n. snd (Poll ticket n)" _ _ ?a]) (simp_all add: r1_def P)
  have t1: "trusty r1"
  proof (rule trusty_heap [OF t, of n ?a])
    have "leader_waits (rHeap r ! ?a)" using t g(2) by (simp add: trusty_def)
    from waiting_keeps(5) [OF this, of ticket] show "leader_waits n" by (simp add: P)
    show "owes i ch n" if "owes i ch (rHeap r ! ?a)" for i ch using waiting_keeps(2) [OF that, of ticket] by (simp add: P)
  qed (simp_all add: r1_def)
  have ok: "tIndex ticket \<le> dCommit (state n) \<and> rApplied result" if "finished" "err = None"
    by (rule Poll_owed [OF g(3)]) (use P that in simp)
  have op: "good_op (rHeap r1) (?op\<lparr>opDone := d, opTicket := None, opRetryAt := z\<rparr>)" for d z using g(1) by (simp add: good_op_def)
  have op': "good_op (rHeap r1) (?op\<lparr>opTicket := None, opRetryAt := z\<rparr>)" for z using g(1) by (simp add: good_op_def)
  let ?ack = "\<lambda>m kd nd dt z. set_op j (?op\<lparr>opDone := True, opTicket := None, opRetryAt := z\<rparr>) (record_trace kd nd dt (r1\<lparr>rAcknowledged := m\<rparr>))"
  have q: "advances w k r1 (?ack m kd nd dt z)" for m kd nd dt z
    by (rule resting_advances [OF resting_trans [OF resting_trans [OF resting_ops(8) resting_ops(1)] resting_ops(4)]])
  have tq: "trusty (?ack m kd nd dt z)" for m kd nd dt z
  proof (rule trusty_set)
    show "trusty (record_trace kd nd dt (r1\<lparr>rAcknowledged := m\<rparr>))"
      using t1 trusty_cong [of "record_trace kd nd dt (r1\<lparr>rAcknowledged := m\<rparr>)" r1] by simp
  qed (simp add: op)
  have q': "advances w k r1 (set_op j y r1)" for y by (rule resting_advances) simp
  have tq': "trusty (set_op j (?op\<lparr>opTicket := None, opRetryAt := z\<rparr>) r1)" for z by (rule trusty_set [OF t1 op'])
  have len: "length (rOps (?ack m kd nd dt z)) = length (rOps r)" "length (rOps (set_op j y r1)) = length (rOps r)" "length (rOps r1) = length (rOps r)"
    for m kd nd dt z y by (simp_all add: set_op_def r1_def)
  have cases: "(stop, r') = (False, r1) \<or> (\<exists>m kd nd dt z. (stop, r') = (False, ?ack m kd nd dt z)) \<or>
      (\<exists>z. (stop, r') = (False, set_op j (?op\<lparr>opTicket := None, opRetryAt := z\<rparr>) r1))"
  proof (cases "finished \<and> err = None")
    case True
    then have "(stop, r') = (False, ?ack (rAcknowledged r1 + 1) ''CLIENT_ACK'' (cID (cfg n)) (ClientID (opCommand ?op)) (rNow r + 100))"
      using c ok by (simp add: collect_one_def Some x P r1_def [symmetric] Let_def)
    then show ?thesis by blast
  next
    case False
    then show ?thesis using c by (auto simp: collect_one_def Some x P r1_def [symmetric] Let_def split: if_splits)
  qed
  then show ?thesis using a1 advances_trans [OF a1] q q' t1 tq tq' len by auto
qed

lemma until_stop_ok:
  "trusty r \<Longrightarrow> (\<forall>j \<in> set js. j < length (rOps r)) \<Longrightarrow> until_stop collect_one js r = (stop, r') \<Longrightarrow> advances w k r r' \<and> trusty r'"
proof (induction js arbitrary: r)
  case (Cons j js)
  obtain st r1 where r1: "collect_one j r = (st, r1)" by fastforce
  note c = collect_one_ok [OF Cons.prems(1) _ r1, of w k]
  have "advances w k r1 r' \<and> trusty r'" by (rule Cons.IH) (use c Cons.prems r1 in auto)
  then show ?case using c Cons.prems(2) advances_trans by auto
qed simp

lemma collect_ok: "trusty r \<Longrightarrow> advances w k r (collect r) \<and> trusty (collect r)"
  unfolding collect_def by (rule until_stop_ok [of r "[0 ..< length (rOps r)]"]) (auto intro: prod.collapse [symmetric])

section \<open>The network and the event loop\<close>

lemma linked_complete:
  assumes "linked w k r" "x < length (rCalls r)"
  shows "linked w k (r\<lparr>rCalls := (rCalls r)[x := (rCalls r ! x)\<lparr>xCompleted := True\<rparr>]\<rparr>)" "xFrom (rCalls r ! x) < k" "xTo (rCalls r ! x) < k"
proof -
  obtain ps p c where s: "sim_sound w k ps p c" "tracks k r c" using assms(1) by (auto simp: linked_def)
  then show "linked w k (r\<lparr>rCalls := (rCalls r)[x := (rCalls r ! x)\<lparr>xCompleted := True\<rparr>]\<rparr>)"
    using complete_tracks [OF s(2) assms(2)] by (auto simp: linked_def)
  show "xFrom (rCalls r ! x) < k" "xTo (rCalls r ! x) < k" using s(2) assms(2) by (auto simp: tracks_def mail_ok_def call_ok_def)
qed

lemma finish_trusty:
  assumes l: "linked w k r" and t: "trusty r" and x: "x < length (rCalls r)" and r: "finish w x v ar err r = Some r'"
  shows "trusty r'"
proof (cases "xCompleted (rCalls r ! x) \<or> rNodes r ! xFrom (rCalls r ! x) \<noteq> Some (xSource (rCalls r ! x))")
  case True
  then show ?thesis using r t by (simp add: finish_def)
next
  case False
  let ?x = "rCalls r ! x" let ?m = "xMessage ?x" let ?i = "xFrom ?x"
  define r1 where "r1 = r\<lparr>rCalls := (rCalls r)[x := ?x\<lparr>xCompleted := True\<rparr>]\<rparr>"
  have l1: "linked w k r1" unfolding r1_def by (rule linked_complete(1) [OF l x])
  have t1: "trusty r1" using t trusty_cong [of r1 r] by (simp add: r1_def)
  have cur: "rNodes r1 ! ?i = Some (xSource ?x)" using False by (simp add: r1_def)
  obtain n where n: "(if mVote ?m \<noteq> None then DeliverVote (env w r1) ?m v err (load ?i (xSource ?x) r1)
      else DeliverAppend (env w r1) ?m ar err (load ?i (xSource ?x) r1)) = Some n" and r': "r' = unload ?i (xSource ?x) n r1"
    using r False unfolding finish_def Let_def r1_def [symmetric] by (auto elim!: bind_SomeE)
  have "keeps (load ?i (xSource ?x) r1) n" using n DeliverVote_keeps DeliverAppend_keeps by (auto split: if_splits)
  then show ?thesis unfolding r' by (rule trusty_call [OF l1 t1 linked_complete(2) [OF l x] cur])
qed

lemma deliver_trusty:
  assumes l: "linked w k r" and t: "trusty r" and x: "x < length (rCalls r)" and r: "deliver w x r = Some r'"
  shows "trusty r'"
proof (cases "blocked r (xFrom (rCalls r ! x)) (xTo (rCalls r ! x)) \<or> rNodes r ! xTo (rCalls r ! x) = None")
  case True
  then show ?thesis using r t by (auto simp: deliver_def Let_def split: if_splits)
next
  case False
  let ?x = "rCalls r ! x" let ?m = "xMessage ?x" let ?i = "xTo ?x"
  obtain a where cur: "rNodes r ! ?i = Some a" using False by auto
  define r1 where "r1 = record_trace ''MESSAGE_DELIVERED'' (mFrom ?m) (message_detail ?m) r"
  have l1: "linked w k r1" unfolding r1_def by (rule linked_advances [OF l resting_advances]) simp
  have t1: "trusty r1" using t trusty_cong [of r1 r] by (simp add: r1_def)
  obtain v ar err n where call: "(case mVote ?m of
           Some req \<Rightarrow> do { ((v, err), n) \<leftarrow> RequestVote (env w r1) req (load ?i a r1); Some (v, zeroA, err, n) }
         | None \<Rightarrow> do { req \<leftarrow> mAppend ?m; ((ar, err), n) \<leftarrow> AppendEntries (env w r1) req (load ?i a r1); Some (zeroV, ar, err, n) }) = Some (v, ar, err, n)"
    and r': "rHeap r' = rHeap (unload ?i a n r1)" "rOps r' = rOps (unload ?i a n r1)"
    using r False cur unfolding deliver_def Let_def r1_def [symmetric]
    by (auto simp: IntN_def delayMS_def split: if_splits elim!: bind_SomeE)
  have "keeps (load ?i a r1) n" using call RequestVote_keeps AppendEntries_keeps by (auto split: option.splits elim!: bind_SomeE)
  then have "trusty (unload ?i a n r1)"
    by (rule trusty_call [OF l1 t1 linked_complete(3) [OF l x], rotated]) (use cur in \<open>simp add: r1_def record_trace_def\<close>)
  then show ?thesis using trusty_cong [OF r'] by simp
qed

lemma send_work: "rHeap (send_msg w i j a m r) = rHeap r \<and> rOps (send_msg w i j a m r) = rOps r"
  by (simp add: send_msg_def Let_def IntN_def delayMS_def)

lemma sends_work:
  "rHeap (fold (\<lambda>m r. case peer_index r (mTo m) of Some j \<Rightarrow> send_msg w i j a m r | None \<Rightarrow> r) ms r) = rHeap r \<and>
   rOps (fold (\<lambda>m r. case peer_index r (mTo m) of Some j \<Rightarrow> send_msg w i j a m r | None \<Rightarrow> r) ms r) = rOps r"
proof (induction ms arbitrary: r)
  case (Cons m ms)
  then show ?case using send_work by (cases "peer_index r (mTo m)") simp_all
qed simp

lemma drain_one_fares:
  assumes i: "i < k"
  shows "fares w k r (drain_one w i r)"
proof (rule faresI [OF drain_one_advances [OF i]])
  assume l: "linked w k r" and t: "trusty r"
  show "trusty (drain_one w i r)"
  proof (cases "rNodes r ! i")
    case (Some a)
    have "leader_waits (rHeap r ! a)" using t current_fair(2) [OF l t i Some] by (simp add: trusty_def)
    then show ?thesis
      by (intro trusty_heap [OF t, of "snd (DrainMessages (rHeap r ! a))" a] waiting_keeps)
        (simp_all add: drain_one_def Some sends_work case_prod_beta)
  qed (simp add: drain_one_def t)
qed

lemma drain_fares: "length (rNodes r) = k \<Longrightarrow> fares w k r (drain w r)"
  unfolding drain_def by (rule fold_fares) (simp add: drain_one_fares)

lemma recover_one_fares:
  assumes i: "i < k" and r: "recover_one w i r = Some r'"
  shows "fares w k r r'"
proof -
  define r1 where "r1 = clear_disk i [] r"
  have a1: "fares w k r r1" unfolding r1_def by (rule clear_fares [OF i])
  have pause: "fares w k s s'" if "with_node i (SetPaused en b) s = Some s'" for en b s s'
    by (rule with_node_fares [OF entry_points(2) i that SetPaused_keeps])
  note ro = r [unfolded recover_one_def Let_def r1_def [symmetric]]
  have "fares w k r1 r'"
  proof (cases "rNodes r1 ! i")
    case None
    then show ?thesis using ro start_fares [OF i] by simp
  next
    case (Some a)
    then obtain r2 where r2: "(if paused (rHeap r1 ! a) then with_node i (SetPaused (env w r1) False) r1 else Some r1) = Some r2"
      "(if \<not> availableLocked (rHeap r2 ! a) then start_node_at w i r2
        else if \<not> paused (rHeap r1 ! a) then with_node i (SetPaused (env w r2) False) r2 else Some r2) = Some r'"
      using ro by (auto elim!: bind_SomeE)
    have "fares w k r1 r2" using r2(1) pause by (auto split: if_splits)
    also have "fares w k r2 r'" using r2(2) pause start_fares [OF i] by (auto split: if_splits)
    finally show ?thesis .
  qed
  with a1 show ?thesis by (rule fares_trans)
qed

lemma recover_all_fares:
  assumes k: "length (rNodes r) = k" and r: "recover_all w r = Some r'"
  shows "fares w k r r'"
proof -
  let ?r0 = "r\<lparr>rIsolated := {}, rDrop := 0, rDelay := 5\<rparr>"
  obtain r1 where r1: "each (recover_one w) [0 ..< length (rNodes r)] ?r0 = Some r1" "r' = record_trace ''HEAL_ALL'' [] [] r1"
    using r by (auto simp: recover_all_def elim!: bind_SomeE)
  have "fares w k r ?r0" by (rule fares_idle [OF resting_advances]) (simp_all add: resting_def same_ledger_def)
  also have "fares w k ?r0 r1" by (rule each_fares [OF _ r1(1)]) (use k recover_one_fares in auto)
  also have "fares w k r1 r'" unfolding r1(2) by (rule fares_idle [OF resting_advances]) simp_all
  finally show ?thesis .
qed

lemma tick_all_fares:
  assumes k: "length (rNodes r) = k" and r: "tick_all w r = Some r'"
  shows "fares w k r r'"
proof -
  obtain r1 r2 where r1: "each (\<lambda>i r. with_node i (Tick (env w r)) r) [0 ..< length (rNodes r)] r = Some r1"
    and r2: "each (retry_op w) [0 ..< length (rOps r1)] r1 = Some r2" and r': "r' = schedule (rNow r2 + 50) ''tick'' TickEv r2"
    using r by (auto simp: tick_all_def elim!: bind_SomeE)
  have "fares w k r r1" by (rule each_fares [OF _ r1]) (use k with_node_fares [OF entry_points(1) _ _ Tick_keeps] in auto)
  also have "fares w k r1 r2"
    by (rule each_fares [OF _ r2]) (auto simp: retry_op_def Let_def intro: try_op_fares split: if_splits)
  also have "fares w k r2 r'" unfolding r' by (rule fares_idle [OF schedule_advances]) simp_all
  finally show ?thesis .
qed

lemma run_event_trusty:
  assumes s: "sim_sound w k ps p c" and tr: "tracks k r c" and e: "event_ok k (map xMessage (rCalls r)) c e"
    and t: "trusty r" and r: "run_event w e r = Some r'"
  shows "trusty r'"
proof -
  have l: "linked w k r" using s tr by (auto simp: linked_def)
  note k = linked_length [OF l]
  have a: "trusty r'" if "fares w k r r'" using that l t by (simp add: fares_def)
  show ?thesis
  proof (cases e)
    case (FaultEv f)
    then show ?thesis using a apply_fault_fares [of f k w r r'] e r by (simp add: run_event_def)
  next
    case (ClientEv j)
    let ?r = "set_op j ((rOps r ! j)\<lparr>opRetryAt := rNow r\<rparr>) r"
    have "trusty ?r" by (rule trusty_set [OF t]) (use trusty_op [OF t] in \<open>simp add: good_op_def\<close>)
    moreover have "linked w k ?r" by (rule linked_advances [OF l resting_advances]) simp
    ultimately show ?thesis using try_op_fares [of w j ?r r' k] r by (simp add: run_event_def ClientEv fares_def)
  next
    case RecoverEv
    then show ?thesis using a recover_all_fares [OF k] r by (simp add: run_event_def)
  next
    case TickEv
    then show ?thesis using a tick_all_fares [OF k] r by (simp add: run_event_def)
  next
    case (ClientTimeoutEv j serial i b ticket)
    then show ?thesis using client_timeout_trusty [OF t] r by (auto simp: run_event_def)
  next
    case (RpcTimeoutEv x)
    then show ?thesis using finish_trusty [OF l t] e r by (simp add: run_event_def)
  next
    case (DeliverEv x)
    then show ?thesis using deliver_trusty [OF l t] e r by (simp add: run_event_def)
  next
    case (ResponseEv x v ar err)
    then show ?thesis using finish_trusty [OF l t] e r t by (auto simp: run_event_def split: if_splits)
  qed
qed

end
