(* ===== verification/Sim_Safe.thy ===== *)
theory Sim_Safe
  imports Sim_Checks Sim_Tickets
begin

text \<open>
  Whole runs of the simulator: from the first state on, through every event, the runner stays related to a cluster, and the checker
  finds nothing.
\<close>

section \<open>The first state\<close>

definition sim_start :: Cluster where
  "sim_start = \<lparr>procs = (\<lambda>_. Down (Memory \<lparr>mrecords = [], mfailure = []\<rparr>)), wires = {}, vreplies = {}, areplies = {},
     voted = (\<lambda>_ _. None), led = {}\<rparr>"

lemma empty_disk_opens: "\<exists>t. openStoreUsing name None (Memory \<lparr>mrecords = [], mfailure = []\<rparr>) = Some (Inr t)"
proof -
  let ?d = "\<lparr>mrecords = [], mfailure = []\<rparr> :: journalRecord memoryDisk"
  let ?s = "(initStore name)\<lparr>sWal := Some (Memory ?d)\<rparr>"
  have "validate ?s (plain_record ?s 0 [] 0 0 []) = Some None" by (simp add: validate_def plain_record_def initStore_def Let_def zeroEntry_def)
  then show ?thesis
    by (auto simp: openStoreUsing_def save_def plain_record_def Let_def Append_memory_def accept_def)
qed

lemma start_sound:
  assumes "agreed (oOrigin w) (sim_cfg k) ps []"
  shows "sim_sound w k ps proto_init sim_start"
proof -
  have i: "initial sim_start" by (simp add: initial_def sim_start_def)
  have "flat (oIdentity w) (sim_cfg k) sim_start" using empty_disk_opens by (simp add: flat_def sim_start_def plain_disk_def)
  then show ?thesis using assms i reachable.start [OF i] initial_refines [OF i] by (auto simp: sound_def sim_cfg_def)
qed

lemma first_tracks: "tracks (nat (scNodes s)) (first_runner s) sim_start"
  by (simp add: tracks_def mirrors_def mail_ok_def node_tracks_def first_runner_def Let_def sim_start_def is_heap_def)

lemma first_ledger: "ledger w (nat (scNodes s)) proto_init sim_start (first_runner s)"
  by (simp add: ledger_def votes_true_def leaders_true_def logs_true_def commits_true_def progress_true_def first_runner_def Let_def held_def sim_start_def)

lemma first_trusty: "trusty (first_runner s)"
  by (simp add: trusty_def first_runner_def Let_def)

definition sim_inv :: "Oracle \<Rightarrow> nat \<Rightarrow> runner \<Rightarrow> bool" where
  "sim_inv w k r \<longleftrightarrow> trusty r \<and> (\<exists>ps p c. sim_sound w k ps p c \<and> tracks k r c \<and> ledger w k p c r)"

lemma moved_inv:
  assumes s: "sim_sound w k ps p c" and g: "ledger w k p c r" and m: "moved w k c r r'" and t: "trusty r'"
  shows "sim_inv w k r'" "rErr r' = rErr r"
proof -
  obtain c' where c': "sim_moves w k c c'" "tracks k r' c'" using m by (auto simp: moved_def)
  obtain p' where p': "sim_sound w k ps p' c'" "later p c p' c'" by (rule sound_steps [OF s c'(1)])
  have inv: "raft_inv ps p" using s refinesD(1) by (auto simp: sound_def protocol_ok_def)
  have "ledger w k p' c' r'" using ledger_same [OF _ ledger_later [OF inv p'(2) g]] m by (simp add: moved_def)
  then show "sim_inv w k r'" using p'(1) c'(2) t by (auto simp: sim_inv_def)
  show "rErr r' = rErr r" using m by (simp add: moved_def)
qed

lemma advances_inv:
  assumes "sim_inv w k r" "advances w k r r'" "trusty r'"
  shows "sim_inv w k r'" "rErr r' = rErr r"
proof -
  obtain ps p c where s: "sim_sound w k ps p c" "tracks k r c" "ledger w k p c r" using assms(1) by (auto simp: sim_inv_def)
  then have "moved w k c r r'" using assms(2) by (auto simp: advances_def)
  from moved_inv [OF s(1,3) this assms(3)] show "sim_inv w k r'" "rErr r' = rErr r" by blast+
qed

lemma inv_trusty: "sim_inv w k r \<Longrightarrow> trusty r"
  by (simp add: sim_inv_def)

lemma inv_linked: "sim_inv w k r \<Longrightarrow> linked w k r"
  by (auto simp: sim_inv_def linked_def)

lemma fares_inv:
  assumes "sim_inv w k r" "fares w k r r'"
  shows "sim_inv w k r'" "rErr r' = rErr r"
proof -
  have "advances w k r r'" "trusty r'" using assms(2) inv_trusty [OF assms(1)] inv_linked [OF assms(1)] by (simp_all add: fares_def)
  from advances_inv [OF assms(1) this] show "sim_inv w k r'" "rErr r' = rErr r" by simp_all
qed

lemma collect_inv:
  assumes "sim_inv w k r"
  shows "sim_inv w k (collect r)" "rErr (collect r) = rErr r"
proof -
  have "advances w k r (collect r)" "trusty (collect r)" using collect_ok [OF inv_trusty [OF assms], of w k] by simp_all
  from advances_inv [OF assms this] show "sim_inv w k (collect r)" "rErr (collect r) = rErr r" by simp_all
qed

lemma inv_length: "sim_inv w k r \<Longrightarrow> length (rNodes r) = k"
  by (auto simp: sim_inv_def tracks_def mirrors_def)

section \<open>One event\<close>

lemma pop_tracks:
  assumes t: "tracks k r c" and p: "heap_pop (rQ r) = Some (e, q)"
  shows "tracks k (r\<lparr>rQ := q\<rparr>) c" "event_ok k (map xMessage (rCalls r)) c (itRun e)"
proof -
  have h: "is_heap (rQ r) (length (rQ r))" using t by (simp add: tracks_def mail_ok_def)
  have "set_mset (mset (rQ r)) = set_mset (add_mset e (mset q))" using heap_pop_ok(2) [OF h p] by simp
  then have q: "set (rQ r) = insert e (set q)" by simp
  then show "event_ok k (map xMessage (rCalls r)) c (itRun e)" using t by (simp add: tracks_def mail_ok_def)
  show "tracks k (r\<lparr>rQ := q\<rparr>) c"
    using t q heap_pop_ok(1) [OF h p] mirrors_frame [of "r\<lparr>rQ := q\<rparr>" r] by (simp add: tracks_def mail_ok_def)
qed

lemma sim_step_inv:
  assumes inv: "sim_inv w k r" and p: "heap_pop (rQ r) = Some (e, q)" and st: "sim_step w e (r\<lparr>rQ := q\<rparr>) = Some r'"
  shows "sim_inv w k r' \<and> rErr r' = rErr r"
proof -
  obtain ps x c where s: "sim_sound w k ps x c" "tracks k r c" "ledger w k x c r" using inv by (auto simp: sim_inv_def)
  note pop = pop_tracks [OF s(2) p]
  define r2 where "r2 = record_trace ''SCHEDULE'' [] (decimal (itSeq e) @ '':'' @ itKind e) (r\<lparr>rQ := q, rNow := itAt e, rSteps := rSteps r + 1\<rparr>)"
  have q2: "resting (r\<lparr>rQ := q\<rparr>) r2" by (simp add: r2_def resting_def same_ledger_def record_trace_def)
  have t2: "tracks k r2 c" using pop(1) resting_tracks [OF q2] by simp
  have g2: "ledger w k x c r2" by (rule ledger_same [OF _ s(3)]) (simp add: r2_def record_trace_def same_ledger_def)
  have c2: "rCalls r2 = rCalls r" "rErr r2 = rErr r" using q2 by (simp_all add: resting_def)
  obtain r3 where r3: "run_event w (itRun e) r2 = Some r3" "check_all w (drain w (collect r3)) = Some r'"
    using st by (auto simp: sim_step_def Let_def r2_def elim!: bind_SomeE)
  have e2: "event_ok k (map xMessage (rCalls r2)) c (itRun e)" using pop(2) c2 by simp
  have u2: "trusty r2" using inv_trusty [OF inv] trusty_cong [of r2 r] by (simp add: r2_def)
  have "trusty r3" by (rule run_event_trusty [OF s(1) t2 e2 u2 r3(1)])
  note i3 = moved_inv [OF s(1) g2 run_event_moved [OF s(1) t2 e2 r3(1)] this]
  note i4 = collect_inv [OF i3(1)]
  note i5 = fares_inv [OF i4(1) drain_fares [OF inv_length [OF i4(1)]]]
  obtain ps' y d where s5: "sim_sound w k ps' y d" "tracks k (drain w (collect r3)) d" "ledger w k y d (drain w (collect r3))"
    using i5(1) by (auto simp: sim_inv_def)
  obtain r6 where r6: "check_all w (drain w (collect r3)) = Some r6" "passes (drain w (collect r3)) r6" "ledger w k y d r6"
    by (rule checks_pass [OF s5])
  have "r6 = r'" using r6(1) r3(2) by simp
  then have "sim_inv w k r'" "rErr r' = rErr (drain w (collect r3))"
    using r6(2,3) s5(1,2) passes_tracks [OF r6(2)] inv_trusty [OF i5(1)] trusty_cong [of r6 "drain w (collect r3)"]
    by (auto simp: sim_inv_def passes_def)
  then show ?thesis using i3(2) i4(2) i5(2) c2(2) by auto
qed

section \<open>The loop\<close>

lemma sim_loop_inv:
  assumes "sim_inv w k r" "sim_loop w limit m r = Some (conv, r')" "rErr r = None"
  shows "rErr r' = None \<or> (\<exists>j. rErr r' = oCtx w j)"
  using assms
proof (induction m arbitrary: r)
  case (Suc m)
  show ?case
  proof (cases "heap_pop (rQ r)")
    case None
    then show ?thesis using Suc.prems by simp
  next
    case (Some x)
    obtain e q where x: "x = (e, q)" by (cases x)
    show ?thesis
    proof (cases "oCtx w (rSteps r) = None \<and> itAt e \<le> limit")
      case False
      then show ?thesis using Suc.prems Some x by (auto split: option.splits if_splits intro: exI [of _ "rSteps r"])
    next
      case True
      then obtain r1 where r1: "sim_step w e (r\<lparr>rQ := q\<rparr>) = Some r1"
        and nx: "(if rRecoverAt r1 + 1500 < rNow r1 \<and> int (rAcknowledged r1) = scOperations (rS r1) \<and> converged w r1
                  then Some (True, r1) else sim_loop w limit m r1) = Some (conv, r')"
        using Suc.prems Some x by (auto simp: not_less elim!: bind_SomeE)
      note i1 = sim_step_inv [OF Suc.prems(1) Some [unfolded x] r1]
      then show ?thesis using Suc.IH [of r1] Suc.prems(3) nx by (auto split: if_splits)
    qed
  qed
qed simp

lemma plan_fares:
  "event_ok k [] sim_start (FaultEv f) \<Longrightarrow> fares w k r (plan_fault f r)" "fares w k r (plan_op i r)"
proof -
  show "fares w k r (plan_fault f r)" if "event_ok k [] sim_start (FaultEv f)"
  proof -
    let ?r = "r\<lparr>rRecoverAt := max (rRecoverAt r) (fAt f + 1000)\<rparr>"
    have "fares w k r ?r" by (rule fares_idle [OF resting_advances]) simp_all
    also have "fares w k ?r (schedule (fAt f) ''fault'' (FaultEv f) ?r)" by (rule fares_idle [OF schedule_advances]) (use that in simp_all)
    finally show ?thesis by (simp add: plan_fault_def)
  qed
  show "fares w k r (plan_op i r)"
  proof -
    let ?r = "r\<lparr>rOps := rOps r @ [\<lparr>opCommand = sim_command i, opTicket = None, opSource = 0, opDone = False, opRetryAt = 800 + int (i * 60)\<rparr>]\<rparr>"
    have "fares w k r ?r" by (rule faresI [OF resting_advances]) (auto simp: trusty_def good_op_def sim_command_def)
    also have "fares w k ?r (schedule (800 + int (i * 60)) ''client'' (ClientEv i) ?r)" by (rule fares_idle [OF schedule_advances]) simp_all
    finally show ?thesis by (simp add: plan_op_def)
  qed
qed

lemma valid_faults:
  assumes "Validate_Scenario s = None" "f \<in> set (scFaults s)"
  shows "0 \<le> fNode f \<and> fNode f < scNodes s" "3 \<le> scNodes s"
proof -
  have b: "3 \<le> scNodes s" "List.map_filter (fault_error s) (scFaults s) = []"
    using assms(1) by (auto simp: Validate_Scenario_def split: if_splits list.splits)
  then show "3 \<le> scNodes s" by simp
  have "fault_error s f = None"
  proof (rule ccontr)
    assume "fault_error s f \<noteq> None"
    then have "f \<in> set (filter (\<lambda>x. fault_error s x \<noteq> None) (scFaults s))" using assms(2) by simp
    then show False using b(2) by (auto simp: List.map_filter_def filter_empty_conv)
  qed
  then show "0 \<le> fNode f \<and> fNode f < scNodes s" by (simp add: fault_error_def split: if_splits)
qed

lemma prepare_fares:
  assumes v: "Validate_Scenario s = None" and k: "k = nat (scNodes s)" and r: "prepare_run w s = Some r"
  shows "fares w k (first_runner s) r"
proof -
  obtain r1 where r1: "each (start_node_at w) [0 ..< nat (scNodes s)] (first_runner s) = Some r1"
    and r': "r = (let r2 = fold plan_fault (scFaults s) (r1\<lparr>rRecoverAt := scOperations s * 60 + 1800\<rparr>);
            r3 = fold plan_op [0 ..< nat (scOperations s)] r2;
            r4 = schedule (rRecoverAt r3) ''recover-all'' RecoverEv r3
        in schedule 50 ''tick'' TickEv r4)"
    using r by (auto simp: prepare_run_def Let_def elim!: bind_SomeE)
  let ?a = "r1\<lparr>rRecoverAt := scOperations s * 60 + 1800\<rparr>"
  let ?b = "fold plan_fault (scFaults s) ?a" let ?c = "fold plan_op [0 ..< nat (scOperations s)] ?b"
  let ?d = "schedule (rRecoverAt ?c) ''recover-all'' RecoverEv ?c"
  have "fares w k (first_runner s) r1" by (rule each_fares [OF _ r1]) (use k start_fares in auto)
  also have "fares w k r1 ?a" by (rule fares_idle [OF resting_advances]) simp_all
  also have "fares w k ?a ?b" by (rule fold_fares, rule plan_fares(1)) (use valid_faults [OF v] k in fastforce)
  also have "fares w k ?b ?c" by (rule fold_fares, rule plan_fares(2))
  also have "fares w k ?c ?d" by (rule fares_idle [OF schedule_advances]) simp_all
  also have "fares w k ?d r" unfolding r' Let_def by (rule fares_idle [OF schedule_advances]) simp_all
  finally show ?thesis .
qed

lemma first_inv:
  assumes "accepts w (nat (scNodes s))"
  shows "sim_inv w (nat (scNodes s)) (first_runner s)"
proof -
  obtain ps where "agreed (oOrigin w) (sim_cfg (nat (scNodes s))) ps []" by (rule sim_agreed [OF assms])
  then show ?thesis using start_sound first_tracks first_ledger first_trusty unfolding sim_inv_def by blast
qed

lemma run_clean:
  assumes v: "Validate_Scenario s = None" and a: "accepts w (nat (scNodes s))" and r: "Run w s = Some res"
  shows "srError res \<in> {None, Some (ErrText ''cluster did not finish and converge after healing'')} \<union> range (oCtx w)"
proof -
  obtain r0 conv r1 where r0: "prepare_run w s = Some r0"
    and lp: "sim_loop w (rRecoverAt r0 + max 12000 (scOperations s * 10)) 2000000 r0 = Some (conv, r1)" and res: "res = report w conv r1"
    using r v by (auto simp: Run_def elim!: bind_SomeE)
  note i0 = fares_inv [OF first_inv [OF a] prepare_fares [OF v refl r0]]
  have "rErr r0 = None" using i0(2) by (simp add: first_runner_def Let_def)
  then have "rErr r1 = None \<or> (\<exists>j. rErr r1 = oCtx w j)" by (rule sim_loop_inv [OF i0(1) lp])
  then show ?thesis unfolding res report_def Let_def by auto
qed

end
