(* ===== verification/Sim_Total.thy ===== *)
theory Sim_Total
  imports Sim_Safe Node_Plain
begin

text \<open>
  The simulator never panics: its nodes keep their whole logs, so every call into a node returns, and with it every event,
  every step and every run.
\<close>

section \<open>Calls return\<close>

lemma with_node_total:
  assumes "linked w k r" "i < k" "\<And>n. plain_node n \<Longrightarrow> f n \<noteq> None"
  shows "with_node i f r \<noteq> None"
  using assms(3) [OF linked_node(1) [OF assms(1,2)]] by (cases "rNodes r ! i") (auto simp: with_node_def)

lemma start_total:
  assumes "linked w k r" "i < k"
  shows "start_node_at w i r \<noteq> None"
proof -
  obtain ps p c where s: "sim_sound w k ps p c" "tracks k r c" using assms(1) by (auto simp: linked_def)
  define r2 where "r2 = before_open i r"
  obtain n where o: "OpenWithRuntime (oOrigin w) (oIdentity w) (env w r2) True True (sim_config r2 i) None (Memory (rDisks r2 ! i)) = Some (Inr n)"
    unfolding r2_def by (rule start_opens [OF assms(2) s])
  then show ?thesis unfolding start_node_at_def Let_def before_open_def [unfolded Let_def, symmetric] r2_def [symmetric] by simp
qed

lemma each_total:
  assumes "linked w k r" "\<And>x r. x \<in> set xs \<Longrightarrow> linked w k r \<Longrightarrow> f x r \<noteq> None"
    "\<And>x r r'. x \<in> set xs \<Longrightarrow> f x r = Some r' \<Longrightarrow> advances w k r r'"
  shows "each f xs r \<noteq> None"
  using assms
proof (induction xs arbitrary: r)
  case (Cons x xs)
  obtain r1 where r1: "f x r = Some r1" using Cons.prems(2) [of x r] Cons.prems(1) by auto
  have "linked w k r1" by (rule linked_advances [OF Cons.prems(1) Cons.prems(3) [OF _ r1]]) simp
  then have "each f xs r1 \<noteq> None" by (rule Cons.IH) (rule Cons.prems(2,3); simp)+
  then show ?case using r1 by simp
qed simp

section \<open>Events return\<close>

lemma apply_fault_total:
  assumes l: "linked w k r" and f: "0 \<le> fNode f" "fNode f < int k"
  shows "apply_fault w f r \<noteq> None"
proof -
  let ?i = "nat (fNode f)"
  define r1 where "r1 = record_trace ''FAULT'' (peer_id r ?i) (fKind f) r"
  have i: "?i < k" using f by auto
  have l1: "linked w k r1" unfolding r1_def by (rule linked_advances [OF l resting_advances]) simp
  show ?thesis
    using start_total [OF l1 i] with_node_total [OF l1 i SetPaused_total]
    unfolding apply_fault_def Let_def r1_def [symmetric] by auto
qed

lemma try_op_total:
  assumes l: "linked w k r"
  shows "try_op w j r \<noteq> None"
proof -
  let ?op = "rOps r ! j"
  define op1 where "op1 = ?op\<lparr>opRetryAt := rNow r + 150\<rparr>"
  define r1 where "r1 = set_op j op1 r"
  have l1: "linked w k r1" unfolding r1_def by (rule linked_advances [OF l resting_advances]) simp
  have "Submit (env w r1) (Some (opCommand op1)) None (load i a r1) \<noteq> None" if b: "best_leader r1 = Some (i, a, T)" for i a T
  proof (rule submit_total [OF linked_node(1) [OF l1]])
    show "i < k" "rNodes r1 ! i = Some a" using best_leader_current [OF b] linked_length [OF l1] by auto
  qed
  then show ?thesis
    unfolding try_op_def Let_def op1_def [symmetric] r1_def [symmetric]
    by (auto split: option.splits sum.splits)
qed

lemma finish_total:
  assumes l: "linked w k r" and x: "x < length (rCalls r)"
  shows "finish w x v a err r \<noteq> None"
proof -
  let ?x = "rCalls r ! x"
  define r1 where "r1 = r\<lparr>rCalls := (rCalls r)[x := ?x\<lparr>xCompleted := True\<rparr>]\<rparr>"
  obtain ps p c where s: "sim_sound w k ps p c" "tracks k r c" using l by (auto simp: linked_def)
  have l1: "linked w k r1" using s(1) complete_tracks [OF s(2) x] by (auto simp: linked_def r1_def)
  have i: "xFrom ?x < k" using s(2) x by (auto simp: tracks_def mail_ok_def call_ok_def)
  have n: "plain_node (load (xFrom ?x) (xSource ?x) r1) \<and> synced (load (xFrom ?x) (xSource ?x) r1)"
    if "rNodes r ! xFrom ?x = Some (xSource ?x)" using linked_node [OF l1 i] that by (simp add: r1_def)
  show ?thesis
  proof (cases "xCompleted ?x \<or> rNodes r ! xFrom ?x \<noteq> Some (xSource ?x)")
    case False
    then have pn: "plain_node (load (xFrom ?x) (xSource ?x) r1)" "synced (load (xFrom ?x) (xSource ?x) r1)" using n by blast+
    obtain n1 where "DeliverVote (env w r1) (xMessage ?x) v err (load (xFrom ?x) (xSource ?x) r1) = Some n1"
      using DeliverVote_total [OF pn(1)] by blast
    moreover obtain n2 where "DeliverAppend (env w r1) (xMessage ?x) a err (load (xFrom ?x) (xSource ?x) r1) = Some n2"
      using DeliverAppend_total [OF pn] by blast
    ultimately show ?thesis using False unfolding finish_def Let_def r1_def [symmetric] by simp
  qed (simp add: finish_def)
qed

lemma deliver_total:
  assumes l: "linked w k r" and x: "x < length (rCalls r)"
  shows "deliver w x r \<noteq> None"
proof -
  let ?x = "rCalls r ! x" let ?m = "xMessage ?x"
  define r1 where "r1 = record_trace ''MESSAGE_DELIVERED'' (mFrom ?m) (message_detail ?m) r"
  obtain ps p c where s: "sim_sound w k ps p c" "tracks k r c" using l by (auto simp: linked_def)
  have l1: "linked w k r1" unfolding r1_def by (rule linked_advances [OF l resting_advances]) simp
  have c: "xTo ?x < k" "?m \<in> wires c" using s(2) x by (auto simp: tracks_def mail_ok_def call_ok_def)
  have "refines (oIdentity w) (sim_cfg k) ps p c" using s(1) by (simp add: sound_def)
  from refinesD(4) [OF this c(2)] have m: "mVote ?m \<noteq> None \<or> mAppend ?m \<noteq> None" by (simp add: msg_ok_def)
  show ?thesis
  proof (cases "blocked r (xFrom ?x) (xTo ?x) \<or> rNodes r ! xTo ?x = None")
    case True
    then show ?thesis by (auto simp: deliver_def Let_def)
  next
    case False
    then obtain a where a: "rNodes r ! xTo ?x = Some a" by auto
    then have "rNodes r1 ! xTo ?x = Some a" by (simp add: r1_def record_trace_def)
    note n = plainD(1) [OF linked_node(1) [OF l1 c(1) this]]
    obtain res where "(case mVote ?m of
                     Some req \<Rightarrow> do { ((v, err), n) \<leftarrow> RequestVote (env w r1) req (load (xTo ?x) a r1); Some (v, zeroA, err, n) }
                   | None \<Rightarrow>
                       do { req \<leftarrow> mAppend ?m; ((ar, err), n) \<leftarrow> AppendEntries (env w r1) req (load (xTo ?x) a r1); Some (zeroV, ar, err, n) }) = Some res"
    proof (cases "mVote ?m")
      case (Some req)
      obtain y where "RequestVote (env w r1) req (load (xTo ?x) a r1) = Some y" using RequestVote_total [OF n] by blast
      then show ?thesis using that Some by (cases y) auto
    next
      case None
      then obtain req where q: "mAppend ?m = Some req" using m by auto
      obtain y where "AppendEntries (env w r1) req (load (xTo ?x) a r1) = Some y" using AppendEntries_total [OF n] by blast
      then show ?thesis using that None q by (cases y) auto
    qed
    then show ?thesis using False a unfolding deliver_def Let_def r1_def [symmetric] by (auto split: prod.splits)
  qed
qed

lemma recover_one_total:
  assumes l: "linked w k r" and i: "i < k"
  shows "recover_one w i r \<noteq> None"
proof -
  define r1 where "r1 = clear_disk i [] r"
  have l1: "linked w k r1" unfolding r1_def by (rule linked_advances [OF l clear_advances [OF i]])
  show ?thesis
  proof (cases "rNodes r1 ! i")
    case None
    then show ?thesis using start_total [OF l1 i] by (simp add: recover_one_def Let_def r1_def)
  next
    case (Some a)
    have "(if paused (rHeap r1 ! a) then with_node i (SetPaused (env w r1) False) r1 else Some r1) \<noteq> None"
      using with_node_total [OF l1 i SetPaused_total] by simp
    then obtain r2 where r2: "(if paused (rHeap r1 ! a) then with_node i (SetPaused (env w r1) False) r1 else Some r1) = Some r2" by blast
    have "advances w k r1 r2" using r2 with_node_advances [OF entry_points(2) i] by (auto split: if_splits)
    then have l2: "linked w k r2" by (rule linked_advances [OF l1])
    show ?thesis
      using Some r2 start_total [OF l2 i] with_node_total [OF l2 i SetPaused_total]
      unfolding recover_one_def Let_def r1_def [symmetric] by simp
  qed
qed

lemma recover_all_total:
  assumes l: "linked w k r"
  shows "recover_all w r \<noteq> None"
proof -
  let ?r = "r\<lparr>rIsolated := {}, rDrop := 0, rDelay := 5\<rparr>"
  have "linked w k ?r" by (rule linked_advances [OF l resting_advances]) (simp add: resting_def same_ledger_def)
  then have "each (recover_one w) [0 ..< length (rNodes r)] ?r \<noteq> None"
    by (rule each_total) (use linked_length [OF l] recover_one_total recover_one_advances in auto)
  then show ?thesis by (auto simp: recover_all_def)
qed

lemma tick_all_total:
  assumes l: "linked w k r"
  shows "tick_all w r \<noteq> None"
proof -
  have k: "length (rNodes r) = k" by (rule linked_length [OF l])
  have a: "advances w k s s'" if "i < k" "with_node i (Tick (env w s)) s = Some s'" for i s s'
    using with_node_advances [OF entry_points(1)] that by blast
  have "each (\<lambda>i r. with_node i (Tick (env w r)) r) [0 ..< length (rNodes r)] r \<noteq> None"
    by (rule each_total [OF l]) (use k a with_node_total Tick_total in auto)
  then obtain r1 where r1: "each (\<lambda>i r. with_node i (Tick (env w r)) r) [0 ..< length (rNodes r)] r = Some r1" by blast
  have l1: "linked w k r1" by (rule linked_advances [OF l each_advances [OF _ r1]]) (use k a in auto)
  have "each (retry_op w) [0 ..< length (rOps r1)] r1 \<noteq> None"
    by (rule each_total [OF l1]) (auto simp: retry_op_def Let_def intro: try_op_advances dest: try_op_total split: if_splits)
  then show ?thesis using r1 by (auto simp: tick_all_def)
qed

lemma run_event_total:
  assumes s: "sim_sound w k ps p c" and t: "tracks k r c" and e: "event_ok k (map xMessage (rCalls r)) c e"
  shows "run_event w e r \<noteq> None"
proof -
  have l: "linked w k r" using s t by (auto simp: linked_def)
  show ?thesis
  proof (cases e)
    case (FaultEv f)
    then show ?thesis using apply_fault_total [OF l] e by (simp add: run_event_def)
  next
    case (ClientEv j)
    have "linked w k (set_op j ((rOps r ! j)\<lparr>opRetryAt := rNow r\<rparr>) r)" by (rule linked_advances [OF l resting_advances]) simp
    then show ?thesis using try_op_total by (simp add: run_event_def ClientEv)
  next
    case RecoverEv
    then show ?thesis using recover_all_total [OF l] by (simp add: run_event_def)
  next
    case TickEv
    then show ?thesis using tick_all_total [OF l] by (simp add: run_event_def)
  next
    case (RpcTimeoutEv x)
    then show ?thesis using finish_total [OF l] e by (simp add: run_event_def)
  next
    case (DeliverEv x)
    then show ?thesis using deliver_total [OF l] e by (simp add: run_event_def)
  next
    case (ResponseEv x v a err)
    then show ?thesis using finish_total [OF l] e by (simp add: run_event_def)
  qed (simp add: run_event_def)
qed

section \<open>Runs return\<close>

lemma sim_step_total:
  assumes inv: "sim_inv w k r" and p: "heap_pop (rQ r) = Some (e, q)"
  shows "sim_step w e (r\<lparr>rQ := q\<rparr>) \<noteq> None"
proof -
  obtain ps x c where s: "sim_sound w k ps x c" "tracks k r c" "ledger w k x c r" using inv by (auto simp: sim_inv_def)
  note pop = pop_tracks [OF s(2) p]
  define r2 where "r2 = record_trace ''SCHEDULE'' [] (decimal (itSeq e) @ '':'' @ itKind e) (r\<lparr>rQ := q, rNow := itAt e, rSteps := rSteps r + 1\<rparr>)"
  have q2: "resting (r\<lparr>rQ := q\<rparr>) r2" by (simp add: r2_def resting_def same_ledger_def record_trace_def)
  have t2: "tracks k r2 c" using pop(1) resting_tracks [OF q2] by simp
  have g2: "ledger w k x c r2" by (rule ledger_same [OF _ s(3)]) (simp add: r2_def record_trace_def same_ledger_def)
  have e2: "event_ok k (map xMessage (rCalls r2)) c (itRun e)" using pop(2) q2 by (simp add: resting_def)
  obtain r3 where r3: "run_event w (itRun e) r2 = Some r3" using run_event_total [OF s(1) t2 e2] by blast
  have u2: "trusty r2" using inv_trusty [OF inv] trusty_cong [of r2 r] by (simp add: r2_def)
  have i3: "sim_inv w k r3" by (rule moved_inv(1) [OF s(1) g2 run_event_moved [OF s(1) t2 e2 r3] run_event_trusty [OF s(1) t2 e2 u2 r3]])
  have i4: "sim_inv w k (collect r3)" by (rule collect_inv(1) [OF i3])
  have "sim_inv w k (drain w (collect r3))" by (rule fares_inv(1) [OF i4 drain_fares [OF inv_length [OF i4]]])
  then obtain ps' y d where s5: "sim_sound w k ps' y d" "tracks k (drain w (collect r3)) d" "ledger w k y d (drain w (collect r3))"
    by (auto simp: sim_inv_def)
  have "check_all w (drain w (collect r3)) \<noteq> None" by (rule checks_pass [OF s5]) simp
  then show ?thesis using r3 by (simp add: sim_step_def Let_def r2_def)
qed

lemma sim_loop_total:
  assumes "sim_inv w k r"
  shows "sim_loop w limit m r \<noteq> None"
  using assms
proof (induction m arbitrary: r)
  case (Suc m)
  have "do { r' \<leftarrow> sim_step w e (r\<lparr>rQ := q\<rparr>);
         (if rRecoverAt r' + 1500 < rNow r' \<and> int (rAcknowledged r') = scOperations (rS r') \<and> converged w r'
          then Some (True, r') else sim_loop w limit m r') } \<noteq> None" if p: "heap_pop (rQ r) = Some (e, q)" for e q
  proof -
    obtain r1 where r1: "sim_step w e (r\<lparr>rQ := q\<rparr>) = Some r1" using sim_step_total [OF Suc.prems p] by blast
    have "sim_inv w k r1" using sim_step_inv [OF Suc.prems p r1] by simp
    then show ?thesis using Suc.IH r1 by auto
  qed
  then show ?case by (auto split: option.splits)
qed simp

lemma sim_prepare_total:
  assumes "linked w k (first_runner s)" "k = nat (scNodes s)"
  shows "prepare_run w s \<noteq> None"
proof -
  have "each (start_node_at w) [0 ..< nat (scNodes s)] (first_runner s) \<noteq> None"
    by (rule each_total [OF assms(1)]) (use assms(2) start_total start_advances in auto)
  then show ?thesis by (auto simp: prepare_run_def Let_def)
qed

lemma Run_total:
  assumes v: "Validate_Scenario s = None" and a: "accepts w (nat (scNodes s))"
  shows "Run w s \<noteq> None"
proof -
  let ?k = "nat (scNodes s)"
  note i = first_inv [OF a]
  obtain r0 where r0: "prepare_run w s = Some r0" using sim_prepare_total [OF inv_linked [OF i]] by blast
  have "sim_inv w ?k r0" by (rule fares_inv(1) [OF i prepare_fares [OF v refl r0]])
  then have "sim_loop w (rRecoverAt r0 + max 12000 (scOperations s * 10)) 2000000 r0 \<noteq> None" by (rule sim_loop_total)
  then show ?thesis using v r0 by (auto simp: Run_def split: prod.splits)
qed

text \<open>
  C7.  The simulator neither panics nor raises a false alarm: for every valid scenario, whatever the random draws are (delays, losses, duplicates,
  elections) and whatever faults the scenario injects, the run returns, and its checks after every event (commit and apply indices that never
  fall, one vote and one leader a term, log matching, committed entries that never change, leader completeness, no acknowledgement before its
  commit or without the value written) never report a violation, nor does the start of a node fail.  What can still end it is the context, and
  the final check that the cluster finished and converged.
\<close>

theorem simulator_never_alarms:
  assumes "Validate_Scenario s = None" "accepts w (nat (scNodes s))"
  shows "\<exists>res. Run w s = Some res \<and>
    srError res \<in> {None, Some (ErrText ''cluster did not finish and converge after healing'')} \<union> range (oCtx w)"
proof -
  obtain res where r: "Run w s = Some res" using Run_total [OF assms] by blast
  then show ?thesis using run_clean [OF assms r] by blast
qed

definition sample_oracle :: Oracle where
  "sample_oracle =
     \<lparr>oInt = (\<lambda>_ _. 0), oNode = (\<lambda>_ _. 0), oCtx = (\<lambda>_. None), oEntryHash = (\<lambda>_. []), oSum = (\<lambda>t. t), oDigest = (\<lambda>_. []),
      oTraceHash = (\<lambda>_. []), oOrigin = (\<lambda>_. True), oIdentity = (\<lambda>_. [])\<rparr>"

lemma sample_valid: "Validate_Scenario (Default 1 3 1) = None" by code_simp

theorem simulator_never_alarms_witness:
  "\<exists>res. Run sample_oracle (Default 1 3 1) = Some res \<and>
    srError res \<in> {None, Some (ErrText ''cluster did not finish and converge after healing'')}"
proof -
  have "accepts sample_oracle (nat (scNodes (Default 1 3 1)))" by (simp add: accepts_def sample_oracle_def)
  then show ?thesis using simulator_never_alarms [OF sample_valid, of sample_oracle] by (auto simp: sample_oracle_def)
qed

end
