(* ===== verification/Startup.thy ===== *)
theory Startup
  imports Commands
begin

text \<open>
  The processes of the system: \<^verbatim>\<open>cmd/node/main.go\<close>, \<^verbatim>\<open>cmd/lab/main.go\<close> and the life of the children of \<^verbatim>\<open>cmd/cluster/main.go\<close>.
  A run is the list of the actions it takes: what it opens and closes, which server it serves on which listener, which programs
  it starts.  Opening and deferring the close are steps of their own, in the order of the code; Go's deferred calls are a stack that is emptied when the
  run returns.  What the operating system answers is an argument.
\<close>

section \<open>Addresses\<close>

text \<open>\<open>net.SplitHostPort\<close>; \<open>text_after c s\<close> is the rest of \<open>s\<close> behind its first \<open>c\<close>, \<open>text_before c s\<close> what precedes it.\<close>

definition text_before :: "char \<Rightarrow> string \<Rightarrow> string" where
  "text_before c s = takeWhile (\<lambda>x. x \<noteq> c) s"

definition text_after :: "char \<Rightarrow> string \<Rightarrow> string" where
  "text_after c s = tl (dropWhile (\<lambda>x. x \<noteq> c) s)"

definition SplitHostPort :: "string \<Rightarrow> (string \<times> string) option" where
  "SplitHostPort s =
     (if CHR '':'' \<notin> set s then None
      else if hd s = CHR ''['' then
        (let host = text_before (CHR '']'') (tl s); rest = text_after (CHR '']'') s; port = text_after (CHR '':'') rest in
         if CHR '']'' \<notin> set s \<or> rest = [] \<or> hd rest \<noteq> CHR '':'' \<or> CHR '':'' \<in> set port
            \<or> CHR ''['' \<in> set (tl s) \<or> CHR '']'' \<in> set rest then None
         else Some (host, port))
      else
        (let host = text_before (CHR '':'') s; port = text_after (CHR '':'') s in
         if CHR '':'' \<in> set port \<or> CHR ''['' \<in> set s \<or> CHR '']'' \<in> set s then None
         else Some (host, port)))"

text \<open>\<open>net.ParseIP\<close>: four decimal fields without leading zeros, or an IPv6 address; the result has sixteen bytes.\<close>

definition digit_value :: "char \<Rightarrow> nat" where
  "digit_value c =
     (let n = of_char c :: nat in
      if 48 \<le> n \<and> n \<le> 57 then n - 48 else if 97 \<le> n \<and> n \<le> 102 then n - 87 else if 65 \<le> n \<and> n \<le> 70 then n - 55 else 16)"

definition number :: "nat \<Rightarrow> string \<Rightarrow> nat" where
  "number base s = foldl (\<lambda>v c. v * base + digit_value c) 0 s"

definition octet :: "string \<Rightarrow> nat option" where
  "octet s =
     (if s = [] \<or> \<not> list_all (\<lambda>c. digit_value c < 10) s \<or> (hd s = CHR ''0'' \<and> tl s \<noteq> []) \<or> 255 < number 10 s then None
      else Some (number 10 s))"

fun fields :: "char \<Rightarrow> string \<Rightarrow> string list" where
  "fields d [] = [[]]"
| "fields d (c # s) = (if c = d then [] # fields d s else (c # hd (fields d s)) # tl (fields d s))"

definition parseIPv4 :: "string \<Rightarrow> nat list option" where
  "parseIPv4 s =
     (case map octet (fields (CHR ''.'') s) of
        [Some a, Some b, Some c, Some d] \<Rightarrow> Some [a, b, c, d]
      | _ \<Rightarrow> None)"

text \<open>
  The loop of \<open>netip.parseIPv6\<close>: \<open>ip\<close> are the bytes read so far and \<open>ell\<close> is the position of the double colon; the first argument is the
  number of groups that still fit.
\<close>

definition hex_group :: "string \<Rightarrow> string" where
  "hex_group s = takeWhile (\<lambda>c. digit_value c < 16) s"

definition expand_zeros :: "nat list \<Rightarrow> nat option \<Rightarrow> string \<Rightarrow> nat list option" where
  "expand_zeros ip ell s =
     (if s \<noteq> [] then None
      else if length ip < 16 then map_option (\<lambda>e. take e ip @ replicate (16 - length ip) 0 @ drop e ip) ell
      else if ell \<noteq> None then None
      else Some ip)"

fun groups :: "nat \<Rightarrow> nat list \<Rightarrow> nat option \<Rightarrow> string \<Rightarrow> nat list option" where
  "groups 0 ip ell s = expand_zeros ip ell s"
| "groups (Suc n) ip ell s =
     (let g = hex_group s; rest = drop (length g) s; ip' = ip @ [number 16 g div 256, number 16 g mod 256] in
      if g = [] \<or> 4 < length g then None
      else if rest \<noteq> [] \<and> hd rest = CHR ''.'' then
        (if (ell = None \<and> length ip \<noteq> 12) \<or> 16 < length ip + 4 then None
         else (case parseIPv4 s of None \<Rightarrow> None | Some b \<Rightarrow> expand_zeros (ip @ b) ell []))
      else if rest = [] then expand_zeros ip' ell []
      else if hd rest \<noteq> CHR '':'' \<or> tl rest = [] then None
      else if hd (tl rest) = CHR '':'' then
        (if ell \<noteq> None then None
         else if tl (tl rest) = [] then expand_zeros ip' (Some (length ip')) []
         else groups n ip' (Some (length ip')) (tl (tl rest)))
      else groups n ip' ell (tl rest))"

definition parseIPv6 :: "string \<Rightarrow> nat list option" where
  "parseIPv6 s =
     (if take 2 s = ''::'' then (if drop 2 s = [] then Some (replicate 16 0) else groups 8 [] (Some 0) (drop 2 s))
      else groups 8 [] None s)"

definition ParseIP :: "string \<Rightarrow> nat list option" where
  "ParseIP s =
     (case dropWhile (\<lambda>c. c \<notin> {CHR ''.'', CHR '':'', CHR ''%''}) s of
        [] \<Rightarrow> None
      | c # _ \<Rightarrow>
          if c = CHR ''.'' then map_option (\<lambda>b. replicate 10 0 @ [255, 255] @ b) (parseIPv4 s)
          else if c = CHR '':'' \<and> CHR ''%'' \<notin> set s then parseIPv6 s
          else None)"

definition IsLoopback :: "nat list \<Rightarrow> bool" where
  "IsLoopback ip \<longleftrightarrow>
     (if take 12 ip = replicate 10 0 @ [255, 255] then ip ! 12 = 127 else ip = replicate 15 0 @ [1])"

definition loopback_address :: "string \<Rightarrow> bool" where
  "loopback_address a =
     (case SplitHostPort a of
        None \<Rightarrow> False
      | Some (host, _) \<Rightarrow> (case ParseIP host of None \<Rightarrow> False | Some ip \<Rightarrow> IsLoopback ip))"

lemma loopback_examples:
  "loopback_address ''127.0.0.1:9000''" "loopback_address ''[::1]:9000''" "loopback_address ''[0:0:0:0:0:0:0:1]:1''"
  "loopback_address ''[::ffff:127.1.2.3]:9000''" "\<not> loopback_address ''0.0.0.0:9000''" "\<not> loopback_address '':9000''"
  "\<not> loopback_address ''localhost:9000''" "\<not> loopback_address ''127.0.0.1''" "\<not> loopback_address ''127.0.0.01:1''"
  "\<not> loopback_address ''::1:9000''" "\<not> loopback_address ''[::]:1''" "\<not> loopback_address ''[::1%lo]:1''"
  by code_simp+

section \<open>Deferred calls\<close>

text \<open>
  What a process opens and has to close, the servers it runs, and its actions.  \<open>Serves sv l r\<close> starts the server \<open>r\<close> on the listener \<open>l\<close>;
  \<open>Closes r\<close> is a call of \<open>Close\<close> (or of the function that stops the signals or cancels the timer), a deferred one or not.  A run keeps the stack of its
  deferred calls and the actions so far; \<open>Inl e\<close> is a return from the run with the error \<open>e\<close> (or none).
\<close>

datatype resource = TheDatabase | TheNode | PeerListener | AdminListener | AdminServer | ClientListener | Signals | ClientServer | PeerServer
  | ShutdownTimer | LabListener | LabManager | LabServer

datatype backend = DatabaseApi string | NodeApi | RaftApi | AdminApi string | LabApi

record HttpServer =
  svAddr :: string
  svHandler :: backend
  svReadHeaderTimeout :: int
  svReadTimeout :: int
  svWriteTimeout :: int
  svIdleTimeout :: int
  svMaxHeaderBytes :: nat

datatype action = Opened resource | Closes resource | Serves HttpServer resource resource | ShutsDown resource
  | Executes "string list" | StartsNode nat "string list" | SignalsNode nat bool | KillsNode nat | ReapsNode nat

record scope =
  deferred :: "resource list"
  taken :: "action list"

type_synonym 'a proc = "scope \<Rightarrow> (gerror option + 'a) \<times> scope"

definition proceed :: "'a proc \<Rightarrow> ('a \<Rightarrow> 'b proc) \<Rightarrow> 'b proc" where
  "proceed p f s = (case p s of (Inl e, s') \<Rightarrow> (Inl e, s') | (Inr a, s') \<Rightarrow> f a s')"

definition give :: "'a \<Rightarrow> 'a proc" where
  "give a s = (Inr a, s)"

definition quit :: "gerror option \<Rightarrow> 'a proc" where
  "quit e s = (Inl e, s)"

definition must :: "gerror option \<Rightarrow> unit proc" where
  "must err = (case err of None \<Rightarrow> give () | Some e \<Rightarrow> quit (Some e))"

definition act :: "action \<Rightarrow> unit proc" where
  "act a s = (Inr (), s\<lparr>taken := taken s @ [a]\<rparr>)"

text \<open>Opening a resource, which may fail and then ends the run; the statement \<open>defer r.Close()\<close>; the return of the run.\<close>

definition open_it :: "resource \<Rightarrow> gerror option \<Rightarrow> unit proc" where
  "open_it r err = proceed (must err) (\<lambda>_. act (Opened r))"

definition defer_close :: "resource \<Rightarrow> unit proc" where
  "defer_close r s = (Inr (), s\<lparr>deferred := r # deferred s\<rparr>)"

definition finish_run :: "unit proc \<Rightarrow> gerror option \<times> action list" where
  "finish_run p =
     (case p \<lparr>deferred = [], taken = []\<rparr> of
        (Inl e, s) \<Rightarrow> (e, taken s @ map Closes (deferred s))
      | (Inr _, s) \<Rightarrow> (None, taken s @ map Closes (deferred s)))"

section \<open>The node\<close>

record NodeFlags =
  nfID :: string
  nfListen :: string
  nfData :: string
  nfCluster :: string
  nfPeerListen :: string
  nfFixedLeader :: string
  nfSnapshotEvery :: u64
  nfAdminListen :: string

text \<open>
  What the environment answers: \<open>database.Open\<close> and \<open>raft.Open\<close>, the membership file, the three calls of \<open>net.Listen\<close>, the
  token, \<open>filepath.Join\<close>, what wakes the run up at the end, and how each server's \<open>Shutdown\<close> ends.
\<close>

datatype wake = Interrupted | ServerEnded gerror

record NodeWorld =
  nwDatabase :: "string \<Rightarrow> gerror option"
  nwMembership :: "string \<Rightarrow> gerror + Membership body"
  nwListen :: "resource \<Rightarrow> string \<Rightarrow> gerror option"
  nwRaft :: "string \<Rightarrow> Config \<Rightarrow> gerror option"
  nwToken :: string
  nwJoin :: "string list \<Rightarrow> string"
  nwWake :: wake
  nwShutdown :: "resource \<Rightarrow> gerror option"

definition newServer :: "string \<Rightarrow> backend \<Rightarrow> HttpServer" where
  "newServer address h =
     \<lparr>svAddr = address, svHandler = h, svReadHeaderTimeout = 5, svReadTimeout = 15, svWriteTimeout = 30, svIdleTimeout = 60,
      svMaxHeaderBytes = 16384\<rparr>"

definition data_dir :: "NodeWorld \<Rightarrow> NodeFlags \<Rightarrow> string" where
  "data_dir w fl =
     (if nfData fl \<noteq> [] then nfData fl
      else if nfCluster fl \<noteq> [] then nwJoin w [''data'', ''raft'', nfID fl]
      else nwJoin w [''data'', nfID fl])"

text \<open>The durations left out are zero.\<close>

definition raft_config :: "NodeFlags \<Rightarrow> Membership \<Rightarrow> Config" where
  "raft_config fl m =
     \<lparr>cID = nfID fl, ClusterID = msClusterID m, Peers = msPeers m, FixedLeader = nfFixedLeader fl, ElectionMin = 0, ElectionMax = 0,
      Heartbeat = 0, RPCTimeout = 0, RequestTimeout = 0, SnapshotEvery = unat (nfSnapshotEvery fl)\<rparr>"

definition open_admin :: "NodeWorld \<Rightarrow> NodeFlags \<Rightarrow> HttpServer option proc" where
  "open_admin w fl =
     (if nfAdminListen fl = [] then give None
      else if \<not> loopback_address (nfAdminListen fl) then quit (Some (ErrText ''admin listener must use a loopback IP''))
      else if nwToken w = [] then quit (Some (ErrText ''admin token required''))
      else
        proceed (open_it AdminListener (nwListen w AdminListener (nfAdminListen fl))) (\<lambda>_.
        proceed (defer_close AdminListener) (\<lambda>_.
        proceed (defer_close AdminServer) (\<lambda>_.
        give (Some (newServer (nfAdminListen fl) (AdminApi (nwToken w))))))))"

text \<open>The first half of \<open>run\<close>: the handler for the clients and the servers for the peers and the administration, if there are any.\<close>

definition open_store :: "NodeWorld \<Rightarrow> NodeFlags \<Rightarrow> (backend \<times> HttpServer option \<times> HttpServer option) proc" where
  "open_store w fl =
     (if nfCluster fl = [] then
        (if nfFixedLeader fl \<noteq> [] then quit (Some (ErrText ''--fixed-leader requires --cluster''))
         else proceed (open_it TheDatabase (nwDatabase w (data_dir w fl))) (\<lambda>_.
              proceed (defer_close TheDatabase) (\<lambda>_. give (DatabaseApi (nfID fl), None, None))))
      else
        (case LoadMembership (nwMembership w (nfCluster fl)) of
           Inl e \<Rightarrow> quit (Some e)
         | Inr m \<Rightarrow>
             proceed (open_it PeerListener (nwListen w PeerListener (nfPeerListen fl))) (\<lambda>_.
             proceed (defer_close PeerListener) (\<lambda>_.
             proceed (open_it TheNode (nwRaft w (data_dir w fl) (raft_config fl m))) (\<lambda>_.
             proceed (defer_close TheNode) (\<lambda>_.
             proceed (open_admin w fl) (\<lambda>admin.
             give (NodeApi, Some (newServer (nfPeerListen fl) RaftApi), admin))))))))"

definition ErrServerClosed :: gerror where
  "ErrServerClosed = ErrText ''http: Server closed''"

definition shut_down :: "NodeWorld \<Rightarrow> resource \<Rightarrow> unit proc" where
  "shut_down w r = proceed (act (ShutsDown r)) (\<lambda>_. must (nwShutdown w r))"

text \<open>The wait at the end of \<open>run\<close> and the orderly shutdown after a signal.\<close>

definition await_stop :: "NodeWorld \<Rightarrow> HttpServer option \<Rightarrow> HttpServer option \<Rightarrow> unit proc" where
  "await_stop w peer admin =
     (case nwWake w of
        ServerEnded e \<Rightarrow> quit (if errors_is e ErrServerClosed then None else Some e)
      | Interrupted \<Rightarrow>
          proceed (open_it ShutdownTimer None) (\<lambda>_.
          proceed (defer_close ShutdownTimer) (\<lambda>_.
          proceed (act (ShutsDown ClientServer)) (\<lambda>_.
          proceed (case nwShutdown w ClientServer of
                     None \<Rightarrow> give ()
                   | Some e \<Rightarrow> proceed (act (Closes ClientServer)) (\<lambda>_. quit (Some e))) (\<lambda>_.
          proceed (if peer \<noteq> None then shut_down w PeerServer else give ()) (\<lambda>_.
          if admin \<noteq> None then shut_down w AdminServer else quit None))))))"

text \<open>The second half of \<open>run\<close>: the listener for the clients and the servers.\<close>

definition serve_clients :: "NodeWorld \<Rightarrow> NodeFlags \<Rightarrow> backend \<Rightarrow> HttpServer option \<Rightarrow> HttpServer option \<Rightarrow> unit proc" where
  "serve_clients w fl h peer admin =
     proceed (open_it ClientListener (nwListen w ClientListener (nfListen fl))) (\<lambda>_.
     proceed (defer_close ClientListener) (\<lambda>_.
     proceed (open_it Signals None) (\<lambda>_.
     proceed (defer_close Signals) (\<lambda>_.
     proceed (act (Serves (newServer (nfListen fl) h) ClientListener ClientServer)) (\<lambda>_.
     proceed (defer_close ClientServer) (\<lambda>_.
     proceed (case peer of
                None \<Rightarrow> give ()
              | Some sv \<Rightarrow> proceed (act (Serves sv PeerListener PeerServer)) (\<lambda>_. defer_close PeerServer)) (\<lambda>_.
     proceed (case admin of None \<Rightarrow> give () | Some sv \<Rightarrow> act (Serves sv AdminListener AdminServer)) (\<lambda>_.
     await_stop w peer admin))))))))"

definition node_run :: "NodeWorld \<Rightarrow> NodeFlags \<Rightarrow> gerror option \<times> action list" where
  "node_run w fl = finish_run (proceed (open_store w fl) (\<lambda>(h, peer, admin). serve_clients w fl h peer admin))"

section \<open>The lab\<close>

record LabFlags =
  lfListen :: string
  lfBase :: int
  lfNodes :: int
  lfData :: string
  lfBuildUI :: bool

record LabWorld =
  lwWindows :: bool
  lwModulesMissing :: bool
  lwExec :: "string list \<Rightarrow> gerror option"
  lwIndex :: "gerror option"
  lwMkdir :: "gerror option"
  lwAbs :: "string list \<Rightarrow> string"
  lwListen :: "string \<Rightarrow> gerror option"
  lwValid :: "string \<Rightarrow> bool"
  lwEnv :: LabEnv
  lwWake :: wake

definition execute_cmd :: "LabWorld \<Rightarrow> string list \<Rightarrow> unit proc" where
  "execute_cmd w cmd = proceed (act (Executes cmd)) (\<lambda>_. must (lwExec w cmd))"

definition npm :: "LabWorld \<Rightarrow> string list \<Rightarrow> unit proc" where
  "npm w args = execute_cmd w (if lwWindows w then [''cmd'', ''/c'', ''npm.cmd''] @ args else ''npm'' # args)"

definition build_ui :: "LabWorld \<Rightarrow> LabFlags \<Rightarrow> unit proc" where
  "build_ui w fl =
     (if lfBuildUI fl
      then proceed (if lwModulesMissing w then npm w [''ci''] else give ()) (\<lambda>_. npm w [''run'', ''build''])
      else give ())"

definition lab_binary :: "LabWorld \<Rightarrow> string" where
  "lab_binary w = lwAbs w [''bin'', ''lab-node'' @ (if lwWindows w then ''.exe'' else [])]"

definition lab_config :: "LabWorld \<Rightarrow> LabFlags \<Rightarrow> LabConfig" where
  "lab_config w fl =
     \<lparr>lcNodes = lfNodes fl, lcBasePort = lfBase fl, lcDataDir = lfData fl, lcNodeBinary = lab_binary w, lcAssets = ''dashboard/dist''\<rparr>"

definition lab_server :: HttpServer where
  "lab_server =
     \<lparr>svAddr = [], svHandler = LabApi, svReadHeaderTimeout = 5, svReadTimeout = 0, svWriteTimeout = 0, svIdleTimeout = 60, svMaxHeaderBytes = 0\<rparr>"

definition lab_run :: "LabWorld \<Rightarrow> LabFlags \<Rightarrow> gerror option \<times> action list" where
  "lab_run w fl =
     finish_run
       (proceed (must (if loopback_address (lfListen fl) then None else Some (ErrText ''lab must bind a loopback IP''))) (\<lambda>_.
        proceed (open_it Signals None) (\<lambda>_.
        proceed (defer_close Signals) (\<lambda>_.
        proceed (build_ui w fl) (\<lambda>_.
        proceed (must (if lwIndex w = None then None else Some (ErrText ''dashboard missing''))) (\<lambda>_.
        proceed (must (lwMkdir w)) (\<lambda>_.
        proceed (execute_cmd w [''go'', ''build'', ''-o'', lab_binary w, ''./cmd/node'']) (\<lambda>_.
        proceed (open_it LabListener (lwListen w (lfListen fl))) (\<lambda>_.
        proceed (defer_close LabListener) (\<lambda>_.
        proceed (open_it LabManager (case New_Manager (lwValid w) (lwEnv w) (lab_config w fl) of Inl e \<Rightarrow> Some e | Inr _ \<Rightarrow> None)) (\<lambda>_.
        proceed (defer_close LabManager) (\<lambda>_.
        proceed (defer_close LabServer) (\<lambda>_.
        proceed (act (Serves lab_server LabListener LabServer)) (\<lambda>_.
        quit (case lwWake w of Interrupted \<Rightarrow> None | ServerEnded e \<Rightarrow> Some e)))))))))))))))"

section \<open>The local launcher's children\<close>

record LaunchFlags =
  ufConfig :: string
  ufData :: string
  ufFixed :: string
  ufEvery :: u64

datatype launch_event = CtrlC | ChildExited nat

text \<open>
  \<open>uwStart\<close> is the outcome of starting the child with a number, \<open>uwLate\<close> tells whether it is still running five seconds after it was
  told to stop, and \<open>uwEvents\<close> is what happens while the launcher waits.
\<close>

record LaunchWorld =
  uwMembership :: "string \<Rightarrow> gerror + Membership body"
  uwLocal :: "string \<Rightarrow> bool"
  uwHost :: "string \<Rightarrow> string"
  uwJoin :: "string \<Rightarrow> string \<Rightarrow> string"
  uwWindows :: bool
  uwMkdir :: "gerror option"
  uwAbs :: "string \<Rightarrow> gerror + string"
  uwBuild :: "string list \<Rightarrow> gerror option"
  uwStart :: "nat \<Rightarrow> gerror option"
  uwLate :: "nat \<Rightarrow> bool"
  uwEvents :: "launch_event list"

primrec start_children :: "LaunchWorld \<Rightarrow> LaunchFlags \<Rightarrow> nat \<Rightarrow> Peer list \<Rightarrow> gerror option \<times> action list \<times> nat list" where
  "start_children w fl i [] = (None, [], [])"
| "start_children w fl i (p # ps) =
     (case uwStart w i of
        Some e \<Rightarrow> (Some e, [], [])
      | None \<Rightarrow>
          (case start_children w fl (Suc i) ps of
             (err, acts, children) \<Rightarrow>
               (err, StartsNode i (node_args (uwHost w) (uwJoin w) (ufConfig fl) (ufData fl) (ufFixed fl) (ufEvery fl) p) # acts, i # children)))"

definition stop_children :: "LaunchWorld \<Rightarrow> nat list \<Rightarrow> action list" where
  "stop_children w children =
     map (\<lambda>i. SignalsNode i (uwWindows w)) children @
     concat (map (\<lambda>i. (if uwLate w i then [KillsNode i] else []) @ [ReapsNode i]) children)"

text \<open>The loop at the end: \<open>None\<close> means that the launcher is still waiting after these events.\<close>

fun watch :: "int \<Rightarrow> launch_event list \<Rightarrow> gerror option option" where
  "watch remaining [] = None"
| "watch remaining (CtrlC # es) = Some None"
| "watch remaining (ChildExited i # es) =
     (if remaining - 1 = 0 then Some (Some (ErrText ''all cluster processes exited'')) else watch (remaining - 1) es)"

definition launch_children :: "LaunchWorld \<Rightarrow> LaunchFlags \<Rightarrow> Membership \<Rightarrow> (gerror option \<times> action list) option" where
  "launch_children w fl m =
     (case start_children w fl 0 (msPeers m) of
        (Some e, acts, children) \<Rightarrow> Some (Some e, acts @ stop_children w children)
      | (None, acts, children) \<Rightarrow>
          map_option (\<lambda>err. (err, acts @ stop_children w children)) (watch (int (length children)) (uwEvents w)))"

definition cluster_run :: "LaunchWorld \<Rightarrow> LaunchFlags \<Rightarrow> (gerror option \<times> action list) option" where
  "cluster_run w fl =
     (case LoadMembership (uwMembership w (ufConfig fl)) of
        Inl e \<Rightarrow> Some (Some e, [])
      | Inr m \<Rightarrow>
          (case launch_error (uwLocal w) m of
             Some e \<Rightarrow> Some (Some e, [])
           | None \<Rightarrow>
               if uwMkdir w \<noteq> None then Some (uwMkdir w, [])
               else
                 (case uwAbs w (uwJoin w ''bin'' (''shardzero-node'' @ (if uwWindows w then ''.exe'' else []))) of
                    Inl e \<Rightarrow> Some (Some e, [])
                  | Inr binary \<Rightarrow>
                      (let build = [''go'', ''build'', ''-o'', binary, ''./cmd/node''] in
                       case uwBuild w build of
                         Some e \<Rightarrow> Some (Some (ErrWrap ''build node'' e), [Opened Signals, Executes build, Closes Signals])
                       | None \<Rightarrow>
                           map_option (\<lambda>(err, acts). (err, [Opened Signals, Executes build] @ acts @ [Closes Signals]))
                             (launch_children w fl m)))))"

section \<open>The simulator's flags\<close>

text \<open>\<open>file\<close> is what reading the scenario file gives, if one is named: an error, or the decoding of its JSON into a scenario.\<close>

definition simulator_scenario :: "(gerror + (Scenario \<Rightarrow> gerror + Scenario)) option \<Rightarrow> u64 \<Rightarrow> int \<Rightarrow> int \<Rightarrow> gerror + Scenario" where
  "simulator_scenario file seed nodes ops =
     (case file of
        None \<Rightarrow> Inr (Default seed nodes ops)
      | Some (Inl e) \<Rightarrow> Inl e
      | Some (Inr decode) \<Rightarrow> decode (Default seed nodes ops))"

definition simulator_main ::
  "(Scenario \<Rightarrow> SimResult) \<Rightarrow> (artifact \<Rightarrow> gerror option) \<Rightarrow> gerror option \<Rightarrow> (gerror + (Scenario \<Rightarrow> gerror + Scenario)) option
    \<Rightarrow> bool \<Rightarrow> int \<Rightarrow> u64 \<Rightarrow> int \<Rightarrow> int \<Rightarrow> gerror option \<times> artifact list" where
  "simulator_main run saved mkdir file minimize runs seed nodes ops =
     (if runs < 1 \<or> 10000 < runs then (Some (ErrText ''runs must be 1-10000''), [])
      else
        (case simulator_scenario file seed nodes ops of
           Inl e \<Rightarrow> (Some e, [])
         | Inr s \<Rightarrow> simulator_run run saved mkdir minimize runs s))"

section \<open>Everything opened is closed, nothing too early\<close>

text \<open>
  What is open after a list of actions, each with what it needs: \<open>None\<close> if something was opened or started twice, if a server was started on a
  listener or over a backend that is not open, if a server was shut down that does not run, or if something was closed that a running server still
  needs.  Closing what is closed already changes nothing.
\<close>

definition held_by :: "backend \<Rightarrow> resource" where
  "held_by h = (case h of DatabaseApi _ \<Rightarrow> TheDatabase | LabApi \<Rightarrow> LabManager | _ \<Rightarrow> TheNode)"

fun replay_actions :: "(resource \<times> resource list) list \<Rightarrow> action list \<Rightarrow> (resource \<times> resource list) list option" where
  "replay_actions held [] = Some held"
| "replay_actions held (Opened r # as) = (if r \<in> fst ` set held then None else replay_actions ((r, []) # held) as)"
| "replay_actions held (Serves sv l r # as) =
     (if r \<notin> fst ` set held \<and> l \<in> fst ` set held \<and> held_by (svHandler sv) \<in> fst ` set held
      then replay_actions ((r, [l, held_by (svHandler sv)]) # held) as else None)"
| "replay_actions held (ShutsDown r # as) = (if r \<in> fst ` set held then replay_actions held as else None)"
| "replay_actions held (Closes r # as) =
     (if list_ex (\<lambda>(_, needs). r \<in> set needs) held then None else replay_actions (filter (\<lambda>(q, _). q \<noteq> r) held) as)"
| "replay_actions held (_ # as) = replay_actions held as"

text \<open>What a run opens or starts, and the calls that close something, in their order.\<close>

fun opens :: "action \<Rightarrow> resource list" where
  "opens (Opened r) = [r]"
| "opens (Serves _ _ r) = [r]"
| "opens _ = []"

fun closes :: "action \<Rightarrow> resource list" where
  "closes (Closes r) = [r]"
| "closes _ = []"

text \<open>
  A run that cleans up: in the end nothing is open; besides the calls \<open>early\<close> every resource it opened or started is closed by exactly one call.
\<close>

definition clean_run :: "resource list \<Rightarrow> action list \<Rightarrow> bool" where
  "clean_run early acts \<longleftrightarrow> replay_actions [] acts = Some [] \<and>
     (\<exists>calls. concat (map closes acts) = early @ calls \<and> distinct calls \<and> set (concat (map opens acts)) \<subseteq> set calls)"

lemmas run_simps = proceed_def open_it_def defer_close_def must_def act_def give_def quit_def shut_down_def

text \<open>What the first half of a node's run leaves behind.\<close>

lemma open_store_cases:
  obtains (failed) e s where "open_store w fl \<lparr>deferred = [], taken = []\<rparr> = (Inl e, s)"
      "(deferred s, taken s) \<in> {([], []), ([PeerListener], [Opened PeerListener]), ([TheNode, PeerListener], [Opened PeerListener, Opened TheNode])}"
    | (standalone) "open_store w fl \<lparr>deferred = [], taken = []\<rparr> =
        (Inr (DatabaseApi (nfID fl), None, None), \<lparr>deferred = [TheDatabase], taken = [Opened TheDatabase]\<rparr>)"
    | (cluster) "open_store w fl \<lparr>deferred = [], taken = []\<rparr> = (Inr (NodeApi, Some (newServer (nfPeerListen fl) RaftApi), None),
        \<lparr>deferred = [TheNode, PeerListener], taken = [Opened PeerListener, Opened TheNode]\<rparr>)"
    | (administered) "loopback_address (nfAdminListen fl)" "nwToken w \<noteq> []" "open_store w fl \<lparr>deferred = [], taken = []\<rparr> =
        (Inr (NodeApi, Some (newServer (nfPeerListen fl) RaftApi), Some (newServer (nfAdminListen fl) (AdminApi (nwToken w)))),
         \<lparr>deferred = [AdminServer, AdminListener, TheNode, PeerListener], taken = [Opened PeerListener, Opened TheNode, Opened AdminListener]\<rparr>)"
proof (cases "open_store w fl \<lparr>deferred = [], taken = []\<rparr>")
  case (Pair x s)
  then show ?thesis
    by (cases x) (use that in \<open>auto simp: open_store_def open_admin_def run_simps split: if_splits option.splits sum.splits\<close>)
qed

text \<open>The second half: what is added to the deferred calls and to the actions.\<close>

definition tail_clean :: "NodeWorld \<Rightarrow> NodeFlags \<Rightarrow> backend \<Rightarrow> HttpServer option \<Rightarrow> HttpServer option \<Rightarrow> scope \<Rightarrow> bool" where
  "tail_clean w fl h peer admin s \<longleftrightarrow>
     (case serve_clients w fl h peer admin s of
        (_, s') \<Rightarrow> clean_run (if ShutsDown ClientServer \<in> set (taken s') \<and> nwShutdown w ClientServer \<noteq> None then [ClientServer] else [])
                    (taken s' @ map Closes (deferred s')))"

lemma standalone_clean: "tail_clean w fl (DatabaseApi i) None None \<lparr>deferred = [TheDatabase], taken = [Opened TheDatabase]\<rparr>"
  by (auto simp: tail_clean_def serve_clients_def await_stop_def run_simps clean_run_def newServer_def held_by_def split: option.splits wake.splits)

lemma cluster_clean:
  "tail_clean w fl NodeApi (Some (newServer a RaftApi)) None \<lparr>deferred = [TheNode, PeerListener], taken = [Opened PeerListener, Opened TheNode]\<rparr>"
  by (auto simp: tail_clean_def serve_clients_def await_stop_def run_simps clean_run_def newServer_def held_by_def split: option.splits wake.splits)

lemma administered_clean:
  "tail_clean w fl NodeApi (Some (newServer a RaftApi)) (Some (newServer b (AdminApi t)))
     \<lparr>deferred = [AdminServer, AdminListener, TheNode, PeerListener], taken = [Opened PeerListener, Opened TheNode, Opened AdminListener]\<rparr>"
  by (auto simp: tail_clean_def serve_clients_def await_stop_def run_simps clean_run_def newServer_def held_by_def split: option.splits wake.splits)

section \<open>Who is served where\<close>

lemma node_clean:
  "clean_run (if ShutsDown ClientServer \<in> set (snd (node_run w fl)) \<and> nwShutdown w ClientServer \<noteq> None then [ClientServer] else []) (snd (node_run w fl))"
proof -
  have fin: "clean_run (if ShutsDown ClientServer \<in> set (snd (node_run w fl)) \<and> nwShutdown w ClientServer \<noteq> None then [ClientServer] else []) (snd (node_run w fl))"
    if "open_store w fl \<lparr>deferred = [], taken = []\<rparr> = (Inr (h, peer, admin), s)" "tail_clean w fl h peer admin s" for h peer admin s
  proof -
    obtain r s' where r: "serve_clients w fl h peer admin s = (r, s')" by fastforce
    then have "snd (node_run w fl) = taken s' @ map Closes (deferred s')" using that(1) by (cases r) (simp_all add: node_run_def finish_run_def proceed_def)
    moreover have "ShutsDown ClientServer \<notin> set (map Closes (deferred s'))" by auto
    ultimately show ?thesis using that(2) r unfolding tail_clean_def by simp
  qed
  show ?thesis
  proof (cases rule: open_store_cases [of w fl])
    case (failed e s)
    then have "snd (node_run w fl) = taken s @ map Closes (deferred s)" by (simp add: node_run_def finish_run_def proceed_def)
    then show ?thesis using failed(2) by (auto simp: clean_run_def)
  next
    case standalone
    from fin [OF this standalone_clean] show ?thesis .
  next
    case cluster
    from fin [OF this cluster_clean] show ?thesis .
  next
    case administered
    from fin [OF administered(3) administered_clean] show ?thesis .
  qed
qed

text \<open>The programs the lab runs before it opens its listener open and close nothing.\<close>

lemma execute_cmd_outcome: "execute_cmd w c s = (case lwExec w c of None \<Rightarrow> Inr () | Some e \<Rightarrow> Inl (Some e), s\<lparr>taken := taken s @ [Executes c]\<rparr>)"
  by (cases "lwExec w c") (simp_all add: execute_cmd_def run_simps)

lemma build_ui_outcome: "\<exists>r cmds. build_ui w fl \<lparr>deferred = ds, taken = as\<rparr> = (r, \<lparr>deferred = ds, taken = as @ map Executes cmds\<rparr>)"
  by (cases "lfBuildUI fl"; cases "lwModulesMissing w")
    (auto simp: build_ui_def npm_def execute_cmd_outcome proceed_def give_def Cons_eq_map_conv split: option.splits)

lemma executes_quiet [simp]:
  "replay_actions held (map Executes cmds @ as) = replay_actions held as" "concat (map (closes \<circ> Executes) cmds) = []" "concat (map (opens \<circ> Executes) cmds) = []"
  by (induction cmds) simp_all

lemma lab_clean: "clean_run [] (snd (lab_run w fl))"
proof (cases "loopback_address (lfListen fl)")
  case False
  then show ?thesis by (simp add: lab_run_def finish_run_def run_simps clean_run_def)
next
  case True
  obtain r cmds where b: "build_ui w fl \<lparr>deferred = [Signals], taken = [Opened Signals]\<rparr> = (r, \<lparr>deferred = [Signals], taken = Opened Signals # map Executes cmds\<rparr>)"
    using build_ui_outcome [of w fl "[Signals]" "[Opened Signals]"] by auto
  show ?thesis
    using True b by (cases r; cases "lwIndex w"; cases "lwMkdir w"; cases "lwListen w (lfListen fl)"; cases "New_Manager (lwValid w) (lwEnv w) (lab_config w fl)")
      (auto simp: lab_run_def finish_run_def execute_cmd_outcome run_simps clean_run_def lab_server_def held_by_def split: option.splits)
qed

lemma node_serves_admin:
  assumes "Serves sv l q \<in> set (snd (node_run w fl))" "svHandler sv = AdminApi t"
  shows "l = AdminListener \<and> svAddr sv = nfAdminListen fl \<and> loopback_address (nfAdminListen fl) \<and> t = nwToken w \<and> t \<noteq> []"
proof -
  have tail: "Serves sv l q \<in> set (taken s) \<or> sv = newServer (nfListen fl) h \<or> Some sv = peer \<or> Some sv = admin \<and> l = AdminListener"
    if "open_store w fl \<lparr>deferred = [], taken = []\<rparr> = (Inr (h, peer, admin), s)" for h peer admin s
    using assms(1) that unfolding node_run_def finish_run_def proceed_def [of "open_store w fl"] serve_clients_def await_stop_def
    by (auto simp: run_simps split: option.splits wake.splits prod.splits sum.splits if_splits)
  show ?thesis
  proof (cases rule: open_store_cases [of w fl])
    case (failed e s)
    then show ?thesis using assms(1) by (auto simp: node_run_def finish_run_def proceed_def)
  next
    case standalone
    then show ?thesis using tail [OF standalone] assms(2) by (simp add: newServer_def)
  next
    case cluster
    then show ?thesis using tail [OF cluster] assms(2) by (auto simp: newServer_def)
  next
    case administered
    then show ?thesis using tail [OF administered(3)] assms(2) by (auto simp: newServer_def)
  qed
qed

lemma lab_serves_loopback:
  assumes "Serves sv l q \<in> set (snd (lab_run w fl))"
  shows "loopback_address (lfListen fl)"
  using assms by (auto simp: lab_run_def finish_run_def proceed_def must_def quit_def split: if_splits)

section \<open>The launcher leaves no child behind\<close>

definition started :: "action list \<Rightarrow> nat list" where
  "started acts = List.map_filter (\<lambda>a. case a of StartsNode i _ \<Rightarrow> Some i | _ \<Rightarrow> None) acts"

definition signalled :: "action list \<Rightarrow> nat list" where
  "signalled acts = List.map_filter (\<lambda>a. case a of SignalsNode i _ \<Rightarrow> Some i | _ \<Rightarrow> None) acts"

definition reaped :: "action list \<Rightarrow> nat list" where
  "reaped acts = List.map_filter (\<lambda>a. case a of ReapsNode i \<Rightarrow> Some i | _ \<Rightarrow> None) acts"

lemma numbers_simps [simp]:
  "started [] = []" "signalled [] = []" "reaped [] = []"
  "started (a # as) = (case a of StartsNode i _ \<Rightarrow> [i] | _ \<Rightarrow> []) @ started as"
  "signalled (a # as) = (case a of SignalsNode i _ \<Rightarrow> [i] | _ \<Rightarrow> []) @ signalled as"
  "reaped (a # as) = (case a of ReapsNode i \<Rightarrow> [i] | _ \<Rightarrow> []) @ reaped as"
  by (simp_all add: started_def signalled_def reaped_def List.map_filter_def split: action.splits)

lemma numbers_append [simp]:
  "started (as @ bs) = started as @ started bs" "signalled (as @ bs) = signalled as @ signalled bs" "reaped (as @ bs) = reaped as @ reaped bs"
  by (induction as) simp_all

lemma start_children_numbers:
  assumes "start_children w fl i ps = (err, acts, children)"
  shows "started acts = children \<and> signalled acts = [] \<and> reaped acts = [] \<and> children = [i ..< i + length children] \<and>
    length children \<le> length ps \<and> (err = None \<longrightarrow> length children = length ps)"
  using assms
proof (induction ps arbitrary: i err acts children)
  case (Cons p ps)
  show ?case
  proof (cases "uwStart w i")
    case None
    obtain e as cs where r: "start_children w fl (Suc i) ps = (e, as, cs)" using prod_cases3 by blast
    have "[i ..< i + Suc (length cs)] = i # [Suc i ..< Suc i + length cs]" by (simp add: upt_rec)
    then show ?thesis using Cons.IH [OF r] Cons.prems None r by auto
  next
    case (Some e)
    then show ?thesis using Cons.prems by (simp split: prod.splits) (metis option.distinct(1))
  qed
qed simp

lemma numbers_stop:
  "started (map (\<lambda>i. SignalsNode i b) cs) = []" "signalled (map (\<lambda>i. SignalsNode i b) cs) = cs" "reaped (map (\<lambda>i. SignalsNode i b) cs) = []"
  "started (concat (map (\<lambda>i. (if late i then [KillsNode i] else []) @ [ReapsNode i]) cs)) = []"
  "signalled (concat (map (\<lambda>i. (if late i then [KillsNode i] else []) @ [ReapsNode i]) cs)) = []"
  "reaped (concat (map (\<lambda>i. (if late i then [KillsNode i] else []) @ [ReapsNode i]) cs)) = cs"
  by (induction cs) simp_all

lemma stop_children_all: "started (stop_children w cs) = []" "signalled (stop_children w cs) = cs" "reaped (stop_children w cs) = cs"
  unfolding stop_children_def numbers_append numbers_stop by simp_all

lemma watch_returns: "0 < r \<Longrightarrow> watch r es \<noteq> None \<longleftrightarrow> CtrlC \<in> set es \<or> r \<le> int (length es)"
  by (induction r es rule: watch.induct) auto

text \<open>
  A launcher that returns, for whatever reason, has told every node process it started to stop, and has waited for each of
  them, in the order of their start; it returns on a signal and once every process has exited.
\<close>

lemma launcher_reaps_children:
  assumes "cluster_run w fl = Some (err, acts)"
  shows "signalled acts = started acts \<and> reaped acts = started acts \<and> started acts = [0 ..< length (started acts)]"
proof -
  have k: "signalled as = started as \<and> reaped as = started as \<and> started as = [0 ..< length (started as)]" if l: "launch_children w fl m = Some (e, as)" for m e as
  proof -
    obtain e' bs cs where r: "start_children w fl 0 (msPeers m) = (e', bs, cs)" using prod_cases3 by blast
    have "as = bs @ stop_children w cs" using l r by (auto simp: launch_children_def split: option.splits)
    then show ?thesis using start_children_numbers [OF r] by (auto simp: stop_children_all)
  qed
  show ?thesis using assms k
    by (auto simp: cluster_run_def Let_def split: sum.splits option.splits if_splits)
qed

section \<open>The processes clean up and expose nothing\<close>

text \<open>
  C36.  Whatever fails while a node or the lab starts, runs or stops, in the end everything it opened (database or Raft node, listeners, signal handler,
  timer) and every server it started is closed, and nothing is closed while a running server still needs it: a server's listener and the database,
  node or manager behind it are open when it starts and are closed only after it.  The run closes each of them with exactly one call, except
  that a node closes its client server once more, before everything else, exactly when that server's orderly shutdown was tried and failed.  The
  administration interface of a node is served only on the address given for it, which is a loopback IP, and only with a token; the lab serves only on
  a loopback IP.
\<close>

theorem processes_release_everything:
  "clean_run (if ShutsDown ClientServer \<in> set (snd (node_run w fl)) \<and> nwShutdown w ClientServer \<noteq> None then [ClientServer] else [])
     (snd (node_run w fl)) \<and>
   clean_run [] (snd (lab_run lw lf)) \<and>
   (\<forall>sv l q t. Serves sv l q \<in> set (snd (node_run w fl)) \<and> svHandler sv = AdminApi t \<longrightarrow>
      l = AdminListener \<and> svAddr sv = nfAdminListen fl \<and> loopback_address (nfAdminListen fl) \<and> t = nwToken w \<and> t \<noteq> []) \<and>
   (\<forall>sv l q. Serves sv l q \<in> set (snd (lab_run lw lf)) \<longrightarrow> loopback_address (lfListen lf))"
  using node_clean lab_clean node_serves_admin lab_serves_loopback by blast

definition sample_world :: NodeWorld where
  "sample_world =
     \<lparr>nwDatabase = (\<lambda>_. None), nwMembership = (\<lambda>_. Inr (Document \<lparr>msClusterID = ''c'', msPeers = []\<rparr>)), nwListen = (\<lambda>_ _. None),
      nwRaft = (\<lambda>_ _. None), nwToken = ''secret'', nwJoin = concat, nwWake = Interrupted, nwShutdown = (\<lambda>r. if r = ClientServer then Some ErrIO else None)\<rparr>"

definition sample_flags :: NodeFlags where
  "sample_flags =
     \<lparr>nfID = ''n'', nfListen = '':1'', nfData = ''d'', nfCluster = ''m'', nfPeerListen = '':2'', nfFixedLeader = [], nfSnapshotEvery = 128,
      nfAdminListen = ''127.0.0.1:3''\<rparr>"

definition sample_lab :: LabWorld where
  "sample_lab =
     \<lparr>lwWindows = False, lwModulesMissing = True, lwExec = (\<lambda>_. Some ErrIO), lwIndex = None, lwMkdir = None, lwAbs = concat, lwListen = (\<lambda>_. None),
      lwValid = (\<lambda>_. True), 
      lwEnv = \<lparr>probeErr = (\<lambda>_. None), mkdirErr = None, randomErr = Inr ''t'', writeErr = None, listenErr = (\<lambda>_. None),
        startOf = (\<lambda>_. \<lparr>seLogErr = None, seStartErr = None, sePid = 1, seNow = 0\<rparr>)\<rparr>, lwWake = Interrupted\<rparr>"

lemma sample_admin: "loopback_address ''127.0.0.1:3''" by code_simp

text \<open>A node with an administration interface whose client server does not shut down in time.\<close>

lemma sample_served:
  "Serves (newServer ''127.0.0.1:3'' (AdminApi ''secret'')) AdminListener AdminServer \<in> set (snd (node_run sample_world sample_flags))"
  "ShutsDown ClientServer \<in> set (snd (node_run sample_world sample_flags))"
  by (simp_all add: sample_world_def sample_flags_def node_run_def finish_run_def open_store_def LoadMembership_def open_admin_def serve_clients_def await_stop_def
      run_simps sample_admin)

definition sample_lab_flags :: LabFlags where
  "sample_lab_flags = \<lparr>lfListen = ''127.0.0.1:3'', lfBase = 17000, lfNodes = 3, lfData = ''d'', lfBuildUI = True\<rparr>"

theorem processes_release_everything_witness:
  "''secret'' = nwToken sample_world \<and> loopback_address (nfAdminListen sample_flags) \<and>
   clean_run [ClientServer] (snd (node_run sample_world sample_flags)) \<and> clean_run [] (snd (lab_run sample_lab sample_lab_flags))"
proof -
  let ?sv = "newServer ''127.0.0.1:3'' (AdminApi ''secret'')"
  have "svHandler ?sv = AdminApi ''secret''" "nwShutdown sample_world ClientServer \<noteq> None" by (simp_all add: newServer_def sample_world_def)
  then show ?thesis using processes_release_everything [of sample_world sample_flags sample_lab sample_lab_flags] sample_served by fastforce
qed

end
