(* ===== verification/Spec2Isabelle.thy ===== *)
theory Spec2Isabelle
  imports Events Statemachine Wal Database Store Node_Calls Node_Total Inspect Api Transport Client Minimizer Lab_Inv Lab_Loss Commands Node_Votes Cluster Refinement Scenario
    Memory_Runs Sim_Cluster Sim_Events Sim_Checks Sim_Safe Node_Plain Node_Tickets Sim_Tickets Sim_Total Startup
begin

text \<open>
  \<^bold>\<open>ShardZero\<close> is a key-value store written in Go that replicates one ordered history of commands
  over a fixed group of nodes with the Raft protocol.  This development models the core of the
  program as executable HOL functions, one per Go function, and proves what makes it correct.

  \<^bold>\<open>The program's parts\<close> (paths under \<^verbatim>\<open>src/\<close>) \<^bold>\<open>and the theories that model them.\<close>

  \<^item> \<open>Statemachine\<close>: \<^verbatim>\<open>internal/statemachine/machine.go\<close>.  \<open>Validate\<close>, \<open>check\<close>, \<open>Apply\<close>, \<open>Get\<close>, \<open>Stats\<close>,
    \<open>Snapshot\<close>, \<open>Restore\<close> on a record of two finite maps and a counter.  Lemmas: well-formed machines,
    exactly-once execution of a log, refinement of a key-value specification, exact snapshots.
  \<^item> \<open>Journal\<close>: the interface of a journal as the locale \<open>journal_contract\<close>, and its record-level
    implementations: the simulator's in-memory disk (\<^verbatim>\<open>internal/simulation/simulation.go\<close>) and the
    record view of the file WAL.
  \<^item> \<open>Wal\<close>: \<^verbatim>\<open>internal/storage/wal.go\<close> at byte level (frames, CRC-32, \<open>OpenJournal\<close>, \<open>Append\<close>, \<open>Replace\<close>,
    \<open>Close\<close>).  The locale is interpreted on it; the last section proves that it refines the record view.
  \<^item> \<open>Database\<close>: \<^verbatim>\<open>internal/database/database.go\<close>, the standalone mode (a state machine over a journal).
  \<^item> \<open>Events\<close>: \<^verbatim>\<open>internal/events/events.go\<close>, the bounded event buffer.
  \<^item> \<open>Raft_Types\<close> and \<open>Store\<close>: \<^verbatim>\<open>internal/raft/types.go\<close> and \<^verbatim>\<open>store.go\<close>: the durable Raft state, its journal
    records, \<open>validate\<close>, \<open>accept\<close>, \<open>save\<close>, \<open>checkpoint\<close> and opening by replay.  Lemmas: a well-formed store
    never panics, writes only move forward, and replay rebuilds the state.
  \<^item> \<open>Node\<close> and \<open>Node_Rpc\<close>: the transition functions of \<^verbatim>\<open>internal/raft/node.go\<close>, \<^verbatim>\<open>runtime.go\<close> and \<^verbatim>\<open>rpc.go\<close>
    on a record with the fields of the Go struct.
  \<^item> \<open>Node_Inv\<close>, \<open>Node_Steps\<close>, \<open>Node_Calls\<close>: the invariant of one node (store, state machine, reply
    channels, role) and, function by function, its cases and the preservation of the invariant.
  \<^item> \<open>Node_Votes\<close>: what each function does to term, vote, role, the votes counted and the messages sent.
  \<^item> \<open>Node_Total\<close> and \<open>Inspect\<close>: which handlers return for every input (no panic), exactly when the leader panics on a refused append
    below the base of a compacted log, and \<open>Audit\<close> and \<open>Inspect\<close> of \<^verbatim>\<open>runtime.go\<close>.
  \<^item> \<open>Cluster\<close> and \<open>Quorums\<close>: processes and the network between them as an inductive step relation, with the election
    invariant; the locale \<open>quorum_system\<close> is interpreted on the majorities of the membership.
  \<^item> \<open>Protocol\<close>: the abstract Raft protocol (terms, votes, complete logs, commit indices) with log matching, leader
    completeness and agreement.  \<open>Linking\<close>, \<open>Node_Sim\<close>, \<open>Rpc_Sim\<close>, \<open>Refinement\<close>: the simulation of every cluster step by steps of
    the protocol, for clusters that elect their leaders.
  \<^item> \<open>Scenario\<close>: an executable script of cluster steps, and the runs of a three-node cluster that the
    witnesses use.
  \<^item> \<open>Http\<close>: what the servers and clients use of Go's HTTP library (requests, path escaping and cleaning, routing).
  \<^item> \<open>Api\<close>: \<^verbatim>\<open>internal/api/http.go\<close>, routes, checks, status codes, both modes, administration.  Lemmas: an
    acknowledged write was executed with exactly the command of its path and body; a write is read back; redirects.
  \<^item> \<open>Transport\<close>: \<^verbatim>\<open>internal/transport/http.go\<close>, on the texts of the bodies, cut at the limits of the code.  A call over HTTP is the direct call
    of the handler or an error, and a request above 16 MiB never reaches the node.
  \<^item> \<open>Client\<close>: \<^verbatim>\<open>internal/cluster/client.go\<close>.  The retry loop ends within bounds on the requests sent (status requests included), asks only known
    servers, reaches a live one, follows redirects.
  \<^item> \<open>Sim_Queue\<close>, \<open>Simulation\<close>, \<open>Minimizer\<close>: \<^verbatim>\<open>internal/simulation/simulation.go\<close>: the binary heap of
    events (interpretation of the locale \<open>event_queue\<close>), the whole runner with faults, clients, network, checker and report, and the minimizer,
    which only sorts and removes faults, and whose result is minimal.
  \<^item> \<open>Node_Plain\<close> and \<open>Node_Tickets\<close>: nodes that never compact their logs, as the simulator configures them: every entry point returns, and a
    waiting SET hears of a success only after its entry is committed and written (\<open>owes\<close>, kept by every entry point).
  \<^item> \<open>Memory_Runs\<close>, \<open>Sim_Cluster\<close>, \<open>Sim_Events\<close>, \<open>Sim_Tickets\<close>, \<open>Sim_Checks\<close>, \<open>Sim_Safe\<close>, \<open>Sim_Total\<close>: the runner of the simulator
    refines the cluster model.  \<open>tracks\<close> relates the runner's nodes, disks, calls and queue to a cluster, every operation of the runner \<open>advances\<close> it by
    cluster steps, \<open>ledger\<close> says that what the checker remembers is the history of that cluster, and \<open>trusty\<close> that the tickets of the simulated
    clients are promises of the nodes.  So a valid scenario runs without a panic and without a reported violation.
  \<^item> \<open>Lab\<close>, \<open>Dashboard\<close>, \<open>Lab_Inv\<close>, \<open>Lab_Loss\<close>: \<^verbatim>\<open>internal/lab\<close>: manager, fault proxies, dashboard handler.  The lab as a
    state machine keeps its bounds and never runs two processes of one node; the injected loss is exact over the messages of all proxies.
  \<^item> \<open>Commands\<close>: \<^verbatim>\<open>cmd/client\<close>, the checks of \<^verbatim>\<open>cmd/cluster\<close>, the runs of \<^verbatim>\<open>cmd/simulator\<close> and \<^verbatim>\<open>internal/raft/config.go\<close>.
    What the user gave to the lab or the command line is what the API executes, but for three keys that no route serves.
  \<^item> \<open>Startup\<close>: the processes \<^verbatim>\<open>cmd/node\<close>, \<^verbatim>\<open>cmd/lab\<close> and \<^verbatim>\<open>cmd/cluster\<close> as lists of actions, with Go's deferred calls as a stack, and the parts of
    Go's \<^verbatim>\<open>net\<close> package that decide what a loopback address is.  Everything opened or started is closed in the end, and nothing while a running server
    still needs it; the launcher leaves no child behind.
  \<^item> \<open>Prelude\<close>: machine types, Go errors, UTF-8, finite maps, the panic monad.

  \<^bold>\<open>How state and operations correspond to the code.\<close>  Every Go method runs under one mutex, so a
  method is one atomic function from state to result and state; \<open>propose\<close> and \<open>replicateOnce\<close>, which
  release the mutex while they wait, are split there.  A runtime panic (index out of range, nil
  journal, assignment to a nil map) is the value \<open>None\<close>.  What the environment answers is an argument: the
  clock and the random draw in \<open>Env\<close>, the outcome of each system call in the byte-level journal, and a
  script of \<open>fault\<close>s in the record-level one.  Terms, request numbers and counters are 64-bit words and
  wrap; log indices are natural numbers, with the panic of an unsigned underflow written out.  A JSON
  document stands for the value it encodes, except between nodes and in the fault proxy, where bodies are texts: there \<open>encoding/json\<close> is an
  argument (\<open>Codec\<close>) and a theorem that needs it says which documented facts it uses.  URL parsing and the SHA-256 that names a data directory are
  the arguments \<open>origin\<close> and \<open>identity\<close>.  Reply channels are numbered buffers in the node.  Log output
  is left out.

  \<^bold>\<open>The network.\<close>  Messages once sent stay on the wires for ever and any of them can be delivered at any
  time, so loss, delay, duplication and reordering are all covered; a response can reach its sender
  any number of times, also after the sender restarted.  A crash can happen between any two handlers and
  leaves the journal; a write that failed half-way is the journal's \<open>FailsKept\<close> or \<open>FailsLost\<close>.  A restart
  whose opening fails leaves the process down with its old journal; the failure that an in-memory disk injects
  can be set and cleared at any time (\<open>refit\<close>), as the simulator does.  The fields \<open>voted\<close> and \<open>led\<close> record the
  history and are read by no step.

  \<^bold>\<open>Termination.\<close>  Every function is total: loops over lists are structural, the loops over indices
  recurse on the index or on the difference to their bound, the journal scan recurses on the bytes
  left and the heap on its positions.  Three loops count down a bound that the code itself has: 40 attempts of the
  client, 2000000 steps of a simulation and 100 runs of the minimizer.

  \<^bold>\<open>Abstractions to know of.\<close>  The record-level journal refuses further records after any failed append, also after one of an impossible
  size, which the file WAL refuses without closing itself; the two agree on records of allowed size.  The durability lemmas speak of the content of the
  file as a later scan reads it, whether or not it was synced.  When the journal is opened, the errors of reading, seeking, \<open>Stat\<close> and syncing the
  directory are told apart only by their place before or after the scan.  Within one call of a simulated node all draws below the same bound give the
  same number; only the last of them sets the timer.

  \<^bold>\<open>Not modelled.\<close>  The syntax of JSON and of URLs (a document stands for its value or goes through an argument, URL parsing is an argument), SHA-256 and the random
  generator (arguments), time-outs of sockets, file locking and directory sync (their outcomes are arguments of the
  journal), log lines and console output.  The dashboard's browser code is not Go.  The refinement of the protocol covers clusters that elect their
  leaders; for the fixed-leader mode the per-node invariants and election safety hold.  That a simulation converges in the end
  depends on the random draws and is not shown.
\<close>

section \<open>Agreement\<close>

text \<open>
  C1.  One history: take any two moments of a run, with any message loss, duplication and reordering, failed disk
  writes, crashes, restarts, snapshots and log repairs before and between them.  There is one list of entries
  that explains both moments: every process that is up has applied a prefix of it, its state machine is exactly the
  result of that prefix, and its log agrees with it.  So the state machines never diverge, and what was once applied
  anywhere is never lost or replaced.
\<close>

theorem single_history:
  assumes "reachable origin identity cfgs c" "agreed origin cfgs ps []" "(step origin identity cfgs)\<^sup>*\<^sup>* c c'"
  shows "\<exists>H. history c H \<and> history c' H"
  using one_history [OF assms(3,1,2)] by metis

theorem single_history_witness:
  "\<exists>H. history run3 H \<and> 1 \<le> length H \<and> machine (node3 ''a'') = apply_all New_Machine (commands (take 1 H))"
proof -
  obtain H where H: "history run3 H"
    using single_history [OF run3_facts(1) agreed3 rtranclp.rtrancl_refl] by blast
  have "applied (node3 ''a'') = 1"
    using up_okI [OF reachable_inv [OF run3_facts(1) agreed3] run3_facts(3)] run3_facts(5) by (simp add: up_ok_def synced_def)
  then show ?thesis using H run3_facts(3) unfolding history_def by metis
qed

text \<open>
  C2.  The cluster refines the Raft protocol: every reachable cluster state stands for a state of a run of the abstract
  protocol of theory \<open>Protocol\<close>.  The term, vote, commit index and complete log (snapshot included) of every process
  without a failed disk are those of the abstract process, and whoever believes to lead is the leader of its term there.
\<close>

theorem cluster_refines_raft:
  assumes "reachable origin identity cfgs c" "agreed origin cfgs ps []"
  shows "\<exists>p. protocol_run ps p \<and> (\<forall>i n. procs c i = Up n \<and> failed n = None \<longrightarrow>
    pterm p i = dTerm (state n) \<and> pvote p i = dVote (state n) \<and> pcommit p i = dCommit (state n) \<and> full (plog p i) (store n) \<and>
    (role n = Leader \<longrightarrow> llog p (dTerm (state n)) = Some (i, plog p i)))"
proof -
  obtain p where p: "protocol_run ps p" "refines identity cfgs ps p c" by (rule reachable_refines [OF assms])
  have "rel p i (store n) \<and> (role n = Leader \<longrightarrow> llog p (dTerm (state n)) = Some (i, plog p i))"
    if "procs c i = Up n" "failed n = None" for i n
    using coreD(12) [OF goodD(1) [OF refinesD(2) [OF p(2) that(1)]] that(2)] leader_link(4) [OF refinesD(2) [OF p(2) that(1)]] by simp
  then show ?thesis using p(1) unfolding rel_def by blast
qed

theorem cluster_refines_raft_witness:
  "\<exists>p. protocol_run members3 p \<and> pterm p ''a'' = 1 \<and> pcommit p ''a'' = 1 \<and> llog p 1 = Some (''a'', plog p ''a'')"
proof -
  obtain p where p: "protocol_run members3 p" "\<forall>i n. procs run3 i = Up n \<and> failed n = None \<longrightarrow>
    pterm p i = dTerm (state n) \<and> pvote p i = dVote (state n) \<and> pcommit p i = dCommit (state n) \<and> full (plog p i) (store n) \<and>
    (role n = Leader \<longrightarrow> llog p (dTerm (state n)) = Some (i, plog p i))"
    using cluster_refines_raft [OF run3_facts(1) agreed3] by blast
  have "pterm p ''a'' = 1" "pcommit p ''a'' = 1" "llog p 1 = Some (''a'', plog p ''a'')"
    using spec [OF spec [OF p(2)], of "''a''" "node3 ''a''"] run3_facts(3-6,10) by simp_all
  then show ?thesis using p(1) by blast
qed

text \<open>
  C3.  Leader completeness: the leader of a term has in its log every entry that any process without a failed disk, in this or an
  earlier term, has committed, as far as the leader's log has not been compacted; its log, snapshot included, reaches at least that far.
\<close>

theorem leader_completeness:
  assumes "reachable origin identity cfgs c" "agreed origin cfgs ps []" "procs c i = Up n" "failed n = None"
    and "procs c j = Up m" "role m = Leader" "dTerm (state n) \<le> dTerm (state m)"
  shows "dCommit (state n) \<le> lastLocked m \<and> (\<forall>k e. k \<le> dCommit (state n) \<longrightarrow> dBase (state m) \<le> k \<longrightarrow>
    entryLocked n k = Some e \<longrightarrow> entryLocked m k = Some e)"
proof -
  obtain p where p: "refines identity cfgs ps p c" by (rule reachable_refines [OF assms(1,2)])
  show ?thesis using commit_in_leader [OF p assms(3,5,4,6,7)] by blast
qed

theorem leader_completeness_witness:
  "dCommit (state (node3 ''a'')) \<le> lastLocked (node3 ''a'') \<and> dCommit (state (node3 ''a'')) = 1"
  using leader_completeness [OF run3_facts(1) agreed3 run3_facts(3,10,3,4) order_refl] run3_facts(5) by blast

text \<open>
  C4.  Log matching: if the logs of two processes hold an entry of the same term at the same index, they hold the same
  entries at that index and at every earlier index that both still have.
\<close>

theorem log_matching:
  assumes "reachable origin identity cfgs c" "agreed origin cfgs ps []" "procs c i = Up n" "procs c j = Up m"
    and "entryLocked n k = Some e" "entryLocked m k = Some e'" "eTerm e = eTerm e'"
    and "l \<le> k" "entryLocked n l = Some x" "entryLocked m l = Some y"
  shows "x = y"
proof -
  obtain p where p: "refines identity cfgs ps p c" by (rule reachable_refines [OF assms(1,2)])
  show ?thesis by (rule logs_match [OF p assms(3-)])
qed

theorem log_matching_witness: "entryLocked (node3 ''a'') 1 \<noteq> None \<and> entryLocked (node3 ''a'') 1 = entryLocked (node3 ''b'') 1"
proof -
  obtain e e' where e: "entryLocked (node3 ''a'') 1 = Some e" "entryLocked (node3 ''b'') 1 = Some e'" "eTerm e = eTerm e'"
    using run3_facts(14,15) by auto
  have "e = e'" by (rule log_matching [OF run3_facts(1) agreed3 run3_facts(3,7) e order_refl e(1,2)])
  then show ?thesis using e by simp
qed

section \<open>Elections\<close>

text \<open>
  C5.  Election safety: in a cluster whose members share their configuration, whatever the network loses, duplicates
  or reorders, whatever disk writes fail, and however often processes crash and restart from their journals, no term
  ever has two different leaders over the whole history of the cluster.
\<close>

theorem election_safety:
  assumes "reachable origin identity cfgs c" "agreed origin cfgs ps fl" "(T, i) \<in> led c" "(T, j) \<in> led c"
  shows "i = j"
proof -
  have "elected ps fl c T i" "elected ps fl c T j"
    using reachable_inv [OF assms(1,2)] assms(3,4) by (auto simp: election_inv_def)
  then show ?thesis
    unfolding elected_def by (auto split: if_splits intro: quorum.one_choice [where f = "\<lambda>v. voted c v T"])
qed

theorem election_safety_witness: "{j. (1, j) \<in> led run3} = {''a''}"
  using election_safety [OF run3_facts(1) agreed3 run3_facts(2)] run3_facts(2) by blast

text \<open>
  C6.  One vote per term: two granted vote responses that the same process ever sent in the same term, before or
  after crashes, were given to the same candidate.
\<close>

theorem one_vote_per_term:
  assumes "reachable origin identity cfgs c" "agreed origin cfgs ps fl"
    and "(m, resp, err) \<in> vreplies c" "(m', resp', err') \<in> vreplies c" "mVote m = Some req" "mVote m' = Some req'"
    and "Granted resp" "Granted resp'" "mTo m = mTo m'" "vqTerm req = vqTerm req'"
  shows "CandidateID req = CandidateID req' \<and> mFrom m = mFrom m' \<and> vrTerm resp = vqTerm req"
proof -
  have "reply_ok ps c (m, resp, err)" "reply_ok ps c (m', resp', err')"
    using reachable_inv [OF assms(1,2)] assms(3,4) by (auto simp: election_inv_def)
  then show ?thesis using assms(5-) by (auto simp: reply_ok_def wire_ok_def)
qed

theorem one_vote_per_term_witness:
  "\<exists>(c :: Cluster) m req resp err. (m, resp, err) \<in> vreplies c \<and> mVote m = Some req \<and> Granted resp \<and> vrTerm resp = vqTerm req"
proof (rule granted3)
  fix c m req resp err
  assume v: "reachable (\<lambda>_. True) cID config3 c" "(m, resp, err) \<in> vreplies c" "mVote m = Some req" "Granted resp"
  show ?thesis using one_vote_per_term [OF v(1) agreed3 v(2,2,3,3,4,4) refl refl] v(2-4) by blast
qed

section \<open>What every process keeps\<close>

text \<open>
  C8.  The state machine of every process in every reachable cluster state is exactly the replay, over its snapshot,
  of the commands of its log up to its commit index: nothing uncommitted is visible, nothing committed is missing.
\<close>

theorem machine_is_committed_log:
  assumes "reachable origin identity cfgs c" "agreed origin cfgs ps fl" "procs c i = Up n"
  shows "machine n = machine_at (store n) (dCommit (state n)) \<and> applied n = dCommit (state n) \<and> wf_machine (machine n)"
proof -
  have "node_inv n" "synced n" using up_okI [OF reachable_inv [OF assms(1,2)] assms(3)] by (auto simp: up_ok_def)
  then show ?thesis by (auto simp: node_inv_def machine_ok_def synced_def store_ok_def machine_at_wf)
qed

theorem machine_is_committed_log_witness:
  "machine (node3 ''a'') = machine_at (store (node3 ''a'')) 1 \<and> applied (node3 ''a'') = 1"
  using machine_is_committed_log [OF run3_facts(1) agreed3 run3_facts(3)] run3_facts(5) by simp

text \<open>
  C9.  A process that crashes at any point and is opened again on what is left in its journal has a term at least as
  high, has not changed its vote within the term, and still has every entry it had committed at or above the base of its log (what lies below
  is in the snapshot).
\<close>

theorem crash_and_restart_keep_promises:
  assumes "reachable origin identity cfgs c" "agreed origin cfgs ps fl" "procs c i = Up n" "sWal (store n) = Some j"
    and "OpenWithRuntime origin identity en man nt (cfgs i) None j = Some (Inr n')"
  shows "state_le (state n) (state n') \<and> node_inv n' \<and> synced n'"
proof -
  have u: "up_ok identity cfgs ps fl c i n" by (rule up_okI [OF reachable_inv [OF assms(1,2)] assms(3)])
  then obtain t where t: "journal_gives (store n) t" "state_le (state n) (sState t)"
    by (auto simp: up_ok_def node_inv_def store_ok_def)
  have o: "openStoreUsing (identity (default_config (cfgs i))) None j = Some (Inr (t\<lparr>sWal := Some (reopened j)\<rparr>))"
    using journal_gives_open [OF t(1) assms(4)] u by (simp add: up_ok_def)
  obtain st where "openStoreUsing (identity (default_config (cfgs i))) None j = Some (Inr st)"
    "state_le (sState st) (state n')"
    by (rule Open_role [OF assms(5)]) blast
  then show ?thesis using o t(2) Open_inv [OF assms(5)] by (auto intro: state_le_trans)
qed

theorem crash_and_restart_keep_promises_witness:
  "\<exists>j n'. sWal (store (node3 ''a'')) = Some j \<and>
     OpenWithRuntime (\<lambda>_. True) cID (at 9) True True (config3 ''a'') None j = Some (Inr n') \<and>
     state_le (state (node3 ''a'')) (state n') \<and> 1 \<le> dCommit (state n')"
proof (rule run3_reopened)
  fix j n'
  assume j: "sWal (store (node3 ''a'')) = Some j"
    and o: "OpenWithRuntime (\<lambda>_. True) cID (at 9) True True (config3 ''a'') None j = Some (Inr n')"
  show ?thesis
    using crash_and_restart_keep_promises [OF run3_facts(1) agreed3 run3_facts(3) j o] j o run3_facts(5)
    by (auto simp: state_le_def)
qed

text \<open>
  C10.  Every call that waits for an entry owns a reply channel of its own, still empty, and no channel ever holds more
  than one outcome: no waiting client is answered twice or gets the answer meant for another.
\<close>

theorem waiting_calls_answered_once:
  assumes "reachable origin identity cfgs c" "agreed origin cfgs ps fl" "procs c i = Up n"
  shows "(\<forall>ch. length (chans n ch) \<le> 1) \<and>
    (\<forall>k w. fmlookup (pending n) k = Some w \<longrightarrow> chans n (wdone w) = []) \<and>
    (\<forall>k l v w. fmlookup (pending n) k = Some v \<longrightarrow> fmlookup (pending n) l = Some w \<longrightarrow> wdone v = wdone w \<longrightarrow> k = l)"
proof -
  have "node_inv n" using up_okI [OF reachable_inv [OF assms(1,2)] assms(3)] by (auto simp: up_ok_def)
  then show ?thesis unfolding node_inv_def chan_ok_def by blast
qed

theorem waiting_calls_answered_once_witness:
  "\<forall>ch. length (chans (node3 ''a'') ch) \<le> 1"
  using waiting_calls_answered_once [OF run3_facts(1) agreed3 run3_facts(3)] by blast

section \<open>When a process panics\<close>

text \<open>
  C11.  Serving a request never panics: in every reachable cluster state, whatever vote or append request a process
  receives, well-formed or not, its handler returns.
\<close>

theorem requests_never_panic:
  assumes "reachable origin identity cfgs c" "agreed origin cfgs ps fl" "procs c i = Up n"
  shows "RequestVote en vq n \<noteq> None \<and> AppendEntries en aq n \<noteq> None"
proof -
  have "node_inv n" using up_okI [OF reachable_inv [OF assms(1,2)] assms(3)] by (simp add: up_ok_def)
  then show ?thesis using RequestVote_total AppendEntries_total by blast
qed

theorem requests_never_panic_witness:
  "\<forall>en vq aq. RequestVote en vq (node3 ''b'') \<noteq> None \<and> AppendEntries en aq (node3 ''b'') \<noteq> None"
  using requests_never_panic [OF run3_facts(1) agreed3 run3_facts(7)] by blast

text \<open>
  C13.  Listing the log: \<open>Inspect\<close> panics exactly when the last hundred entries reach below the base of a compacted log,
  and otherwise lists the last hundred entries, or all of them when there are fewer, in order.
\<close>

theorem inspect_of_compacted_log:
  assumes "reachable origin identity cfgs c" "agreed origin cfgs ps fl" "procs c i = Up n"
  shows "(Inspect Digest EntryHash after n = None \<longleftrightarrow> max 1 (lastLocked n + 1 - min (lastLocked n) 100) < dBase (state n)) \<and>
    (\<forall>v. Inspect Digest EntryHash after n = Some v \<longrightarrow> length (iLog v) = min (lastLocked n) 100 \<and>
      (\<forall>j < length (iLog v). \<exists>e. entryLocked n (lastLocked n - length (iLog v) + 1 + j) = Some e \<and>
         iLog v ! j = log_meta EntryHash n (lastLocked n - length (iLog v) + 1 + j) e))"
proof -
  have inv: "node_inv n" using up_okI [OF reachable_inv [OF assms(1,2)] assms(3)] by (simp add: up_ok_def)
  show ?thesis
    using Inspect_panics_iff [OF inv, of Digest EntryHash after] Inspect_lists(1,2) [OF inv, of Digest EntryHash after]
    unfolding inspect_start_def by blast
qed

theorem inspect_of_compacted_log_witness:
  "\<exists>c n. reachable (\<lambda>_. True) cID config1 c \<and> procs c ''a'' = Up n \<and> availableLocked n \<and> Inspect (\<lambda>_. []) (\<lambda>_. []) 0 n = None"
proof (rule compacted1)
  fix c n
  assume n: "reachable (\<lambda>_. True) cID config1 c" "procs c ''a'' = Up n" "lastLocked n = 2" "dBase (state n) = 2" "availableLocked n"
  then have "Inspect (\<lambda>_. []) (\<lambda>_. []) 0 n = None"
    using inspect_of_compacted_log [OF n(1) agreed1 n(2), of "\<lambda>_. []" "\<lambda>_. []" 0] by simp
  then show ?thesis using n by blast
qed

text \<open>
  C12.  Backing off: when a follower refuses an append, the leader lowers the follower's next index to the conflict
  index of the response.  If that is below the base of the leader's compacted log, the leader panics while it
  prepares the next request; if it is above the base, it does not.
\<close>

theorem refused_append_below_base:
  assumes "node_inv n" "mAppend m = Some req" "busy n (mTo m) = mSequence m" "availableLocked n" "role n = Leader"
    and "dTerm (state n) = aqTerm req" "arTerm resp = aqTerm req" "\<not> Success resp" "0 < PrevLogIndex req" "pID (peerOf n (mTo m)) = mTo m"
    and "PrevLogIndex req \<le> lastLocked n"
  shows "(max 1 (min (PrevLogIndex req) (ConflictIndex resp)) < dBase (state n) \<longrightarrow> DeliverAppend en m resp None n = None) \<and>
    (dBase (state n) < max 1 (min (PrevLogIndex req) (ConflictIndex resp)) \<longrightarrow> DeliverAppend en m resp None n \<noteq> None)"
  using refused_panics [OF assms] unfolding backed_off_def .

theorem refused_append_below_base_witness:
  "\<exists>n b m req resp b'. open2 ''a'' compacted_disk = Some n \<and> open2 ''b'' empty_disk = Some b \<and> m \<in> set (outbox n) \<and>
     mAppend m = Some req \<and> AppendEntries (at 1) req b = Some ((resp, None), b') \<and> DeliverAppend (at 2) m resp None n = None"
proof (rule refusal2)
  fix n b m req resp b'
  assume n: "open2 ''a'' compacted_disk = Some n" "open2 ''b'' empty_disk = Some b" "m \<in> set (outbox n)"
    "mAppend m = Some req" "AppendEntries (at 1) req b = Some ((resp, None), b')" "refused2 n m req resp"
  have "DeliverAppend (at 2) m resp None n = None"
    using refused_append_below_base [OF open2_inv [OF n(1)], of m req resp "at 2"] n(6) unfolding refused2_def by metis
  then show ?thesis using n(1-5) by blast
qed

section \<open>Redirects\<close>

text \<open>
  C16.  Writing to a member of a cluster that is not the leader: a valid command is answered with a redirect to the same path on the
  leader's client address when that is known, with 503 \<open>leader_unknown\<close> when it is not, and with 503
  \<open>storage_unavailable\<close> when the member is paused, closed or has a failed disk.  The member is unchanged.
\<close>

theorem follower_redirects:
  assumes "plain_key k" "operation \<in> operations" "qMethod r = write_method operation" "qPath r = write_path operation k"
    and "qBody r = Document body" "\<not> fields_missing operation body" "\<not> fields_unexpected operation body"
    and "Validate (body_command operation k body) = None" "\<not> wExpired w" "role n \<noteq> Leader \<or> \<not> availableLocked n"
  shows "ClusterHandler Digest EntryHash w r n = Some (Answer (
    if \<not> availableLocked n then apiError 503 ''storage_unavailable''
      (Text ''storage unavailable; outcome may be unknown, restart and retry the same request'')
    else if ClientURL (peerOf n (leader n)) = [] then apiError 503 ''leader_unknown'' (Text ''leader election in progress; retry the same request'')
    else respond [(''Location'', ClientURL (peerOf n (leader n)) @ RequestURI r)] 307
      (Fields [(''error'', Text ''not_leader''), (''leaderId'', Text (leader n)), (''leaderUrl'', Text (ClientURL (peerOf n (leader n))))])), n)"
proof -
  have c: "cleanPath (qPath r) = qPath r" using plain_clean [OF assms(1)] assms(4) by (simp add: write_path_def)
  have i: "match_segments [Literal ''v1'', Literal ''inspect''] (qPath r) = None" using assms(4) by (simp add: write_path_def kv_path_def)
  have e: "node_execute w (body_command operation k body) n =
    Some ((zeroResult, Some (if \<not> availableLocked n then ErrUnavailable else leaderErrorLocked n)), n)"
    using assms(8-10) by (simp add: node_execute_def await_def Execute_begin_def propose_begin_def submitLocked_def)
  show ?thesis
    using assms(5-7) e c i
    by (simp add: ClusterHandler_def handler_write [OF assms(1-4)] write_op_def handleRequestError_def handleError_def leaderErrorLocked_def)
qed

definition wWait :: Wait where
  "wWait = \<lparr>wEnv = at 2, wExpired = False, wMeanwhile = id, wDeadline = False\<rparr>"

theorem follower_redirects_witness:
  "\<exists>b. role b = Follower \<and> ClusterHandler (\<lambda>_. []) (\<lambda>_. []) wWait (wPut ''x'' ''k'' 1 ''v'') b = Some (Answer (
     respond [(''Location'', ''ca/v1/kv/x'')] 307
       (Fields [(''error'', Text ''not_leader''), (''leaderId'', Text ''a''), (''leaderUrl'', Text ''ca'')])), b)"
proof (rule follower2)
  fix b
  assume b: "role b = Follower" "availableLocked b" "leader b = ''a''" "ClientURL (peerOf b ''a'') = ''ca''"
  let ?body = "\<lparr>wClientID = ''k'', wRequestID = 1, wValue = Some ''v'', wExpected = None\<rparr>"
  have v: "Validate (body_command ''SET'' ''x'' ?body) = None" by code_simp
  have p: "plain_key ''x''" by (simp add: plain_key_def)
  have u: "RequestURI (wPut ''x'' ''k'' 1 ''v'') = ''/v1/kv/x''" by code_simp
  have "ClusterHandler (\<lambda>_. []) (\<lambda>_. []) wWait (wPut ''x'' ''k'' 1 ''v'') b = Some (Answer (
     respond [(''Location'', ''ca/v1/kv/x'')] 307
       (Fields [(''error'', Text ''not_leader''), (''leaderId'', Text ''a''), (''leaderUrl'', Text ''ca'')])), b)"
    using follower_redirects [OF p, of "''SET''" "wPut ''x'' ''k'' 1 ''v''" ?body wWait b "\<lambda>_. []" "\<lambda>_. []"] v b u
    by (simp add: operations_def write_method_def write_path_def wPut_def fields_missing_def fields_unexpected_def wWait_def)
  then show ?thesis using b by blast
qed

end
